(* ===== verification/Tf_Prelude.thy ===== *)
theory Tf_Prelude
  imports Main "HOL-Library.Word" "HOL-Library.Monad_Syntax"
begin

section \<open>Prelude: machine types, bounded arrays, shared lemmas\<close>

text \<open>
  What every component of the development shares.

  \<^item> Names for the machine types of \<^verbatim>\<open>src/src/core/types.h\<close>. A C++ unsigned integer of
    width \<open>w\<close> is a \<open>w word\<close>, so that \<open>+\<close> and \<open>-\<close> wrap as in the code. A \<open>size_t\<close> that
    only counts or indexes is a \<open>nat\<close>; where its wrap-around or its maximal value matters
    (the ring indices, \<open>PriceBitset::NONE\<close>) it is written out.
  \<^item> The result type of an operation that C++ leaves undefined on some inputs is \<open>'a option\<close>:
    \<open>None\<close> stands for an execution with no defined result (an array access out of range, a
    null dereference, a failed \<open>assert\<close>, a count-leading-zeros of 0, a loop that never ends).
    The correctness theorems show that the result is \<open>Some\<close>.
  \<^item> A fixed-size heap array is a function on indices, read and written through
    \<open>array_get\<close> and \<open>array_put\<close>, which are undefined out of range.
  \<^item> The collections \<open>const_defs\<close> (the numeric constants of the program) and \<open>size_simps\<close>
    (shifts and masks on indices as \<open>div\<close> and \<open>mod\<close>), and the generic lemmas on option
    binds, lists and words that the component proofs rest on.
\<close>

unbundle bit_operations_syntax

named_theorems const_defs "the numeric constants of the program, unfolded"
named_theorems size_simps "shifts and masks on size_t values as div and mod"

type_synonym u8 = "8 word"
type_synonym u32 = "32 word"
type_synonym u64 = "64 word"

subsection \<open>Bounded arrays\<close>

definition array_get :: "nat \<Rightarrow> (nat \<Rightarrow> 'a) \<Rightarrow> nat \<Rightarrow> 'a option" where
  "array_get n a i = (if i < n then Some (a i) else None)"

definition array_put :: "nat \<Rightarrow> (nat \<Rightarrow> 'a) \<Rightarrow> nat \<Rightarrow> 'a \<Rightarrow> (nat \<Rightarrow> 'a) option" where
  "array_put n a i v = (if i < n then Some (a(i := v)) else None)"

lemma array_get_in [simp]: "i < n \<Longrightarrow> array_get n a i = Some (a i)"
  by (simp add: array_get_def)

lemma array_put_in [simp]: "i < n \<Longrightarrow> array_put n a i v = Some (a(i := v))"
  by (simp add: array_put_def)

lemma array_get_out: "\<not> i < n \<Longrightarrow> array_get n a i = None"
  by (simp add: array_get_def)

subsection \<open>Index arithmetic\<close>

lemma nat_and_63 [size_simps]: "(i::nat) AND 63 = i mod 64"
proof -
  have "i AND 63 = i AND mask 6"
    by (simp add: mask_eq_exp_minus_1)
  then show ?thesis
    by (simp add: take_bit_eq_mask [symmetric] take_bit_eq_mod)
qed

lemma nat_shiftr_6 [size_simps]: "drop_bit 6 (i::nat) = i div 64"
  by (simp add: drop_bit_eq_div)

lemma nat_shiftl_6 [size_simps]: "push_bit 6 (i::nat) = i * 64"
  by (simp add: push_bit_eq_mult)

lemma div64_mod64_eqI: "(i::nat) div 64 = j div 64 \<Longrightarrow> i mod 64 = j mod 64 \<Longrightarrow> i = j"
  by (metis div_mult_mod_eq)

subsection \<open>Options and lists\<close>

lemma find_Some_iff_first:
  "find P [0..<n] = Some i \<longleftrightarrow> i < n \<and> P i \<and> (\<forall>j<i. \<not> P j)"
  by (auto simp: find_Some_iff)

lemma find_None_upt: "find P [0..<n] = None \<longleftrightarrow> (\<forall>i<n. \<not> P i)"
  by (auto simp: find_None_iff)

subsection \<open>Words\<close>

lemma unat_u32_less [simp]: "unat (w::u32) < 4294967296"
  using unsigned_less [of w, where 'a = nat] by simp

lemma unat_succ_u32: "unat w < 4294967295 \<Longrightarrow> unat (w + 1 :: u32) = Suc (unat w)"
  by (simp add: unat_word_ariths)

lemma word64_eq_0_iff: "(w::u64) = 0 \<longleftrightarrow> (\<forall>n<64. \<not> bit w n)"
  by (auto simp: bit_eq_iff dest: bit_imp_le_length)

lemma bit_set_one_bit:
  "k < 64 \<Longrightarrow> bit ((w::u64) OR 2 ^ k) n \<longleftrightarrow> bit w n \<or> n = k"
  by (auto simp: bit_or_iff bit_exp_iff)

lemma bit_clear_one_bit:
  "k < 64 \<Longrightarrow> bit ((w::u64) AND NOT (2 ^ k)) n \<longleftrightarrow> bit w n \<and> n \<noteq> k"
  by (auto simp: bit_and_iff bit_not_iff bit_exp_iff dest: bit_imp_le_length)

end
