(* ===== verification/Order_Types.thy ===== *)
theory Order_Types
  imports Tf_Prelude
begin

section \<open>Basic types: prices, enumerations, orders\<close>

text \<open>
  Models \<^verbatim>\<open>src/src/core/types.h\<close>: the integer types and constants, the three enumerations,
  and the struct \<open>Order\<close> with its three member functions.

  The C++ enumerations have the fixed underlying type \<open>uint8_t\<close>, and the gateway casts raw
  bytes into them, so each is a datatype with the named enumerators and a constructor for the
  remaining byte values. \<open>Order*\<close> is an \<open>addr option\<close>: an address is the index of a slot of
  the pool's arena, \<open>None\<close> is \<open>nullptr\<close>.
\<close>

type_synonym Price = u32
type_synonym Quantity = u32
type_synonym OrderId = u64
type_synonym ClientId = u32
type_synonym Timestamp = u64
type_synonym addr = nat

definition INVALID_PRICE :: Price where [const_defs]: "INVALID_PRICE = 0"
definition MIN_PRICE :: Price where [const_defs]: "MIN_PRICE = 1"
definition MAX_PRICE :: Price where [const_defs]: "MAX_PRICE = 1000000"
definition PRICE_LEVELS :: nat where [const_defs]: "PRICE_LEVELS = 1000000"
definition MAX_ORDERS :: nat where [const_defs]: "MAX_ORDERS = 1048576"
definition ORDER_MASK :: u64 where [const_defs]: "ORDER_MASK = 1048575"
definition RING_SIZE :: nat where [const_defs]: "RING_SIZE = 262144"

datatype Side = Buy | Sell | Side_raw u8

datatype OrderType = Limit | Market | OrderType_raw u8

datatype MessageType =
    NewOrder | CancelOrder | ModifyOrder
  | OrderAccepted | OrderCanceled | OrderExecuted | OrderRejected
  | MessageType_raw u8

record Order =
  o_price :: Price
  o_quantity :: Quantity
  o_filled_qty :: Quantity
  o_side :: Side
  o_type :: OrderType
  o_prev :: "addr option"
  o_next :: "addr option"
  o_id :: OrderId
  o_client_id :: ClientId
  o_timestamp :: Timestamp

definition remaining :: "Order \<Rightarrow> Quantity" where
  "remaining o' = o_quantity o' - o_filled_qty o'"

definition is_filled :: "Order \<Rightarrow> bool" where
  "is_filled o' \<longleftrightarrow> o_filled_qty o' \<ge> o_quantity o'"

definition fill :: "Quantity \<Rightarrow> Order \<Rightarrow> Order" where
  "fill q o' = o'\<lparr>o_filled_qty := o_filled_qty o' + q\<rparr>"

text \<open>
  The memory the pointers point into. Every \<open>Order*\<close> of the program is null or the address of
  an arena slot, so a non-null pointer always designates an order; a write through a pointer is
  an update of the heap at its address.
\<close>

type_synonym heap = "addr \<Rightarrow> Order"

definition upd_order :: "addr \<Rightarrow> (Order \<Rightarrow> Order) \<Rightarrow> heap \<Rightarrow> heap" where
  "upd_order a f h = h(a := f (h a))"

text \<open>An order without its list links: what the book says of an order at the level of values.\<close>

definition strip :: "Order \<Rightarrow> Order" where
  "strip o' = o'\<lparr>o_prev := None, o_next := None\<rparr>"

subsection \<open>Field lemmas\<close>

lemma strip_simps [simp]:
  "o_price (strip o') = o_price o'" "o_quantity (strip o') = o_quantity o'"
  "o_filled_qty (strip o') = o_filled_qty o'" "o_side (strip o') = o_side o'"
  "o_type (strip o') = o_type o'" "o_id (strip o') = o_id o'"
  "o_client_id (strip o') = o_client_id o'" "o_timestamp (strip o') = o_timestamp o'"
  "o_prev (strip o') = None" "o_next (strip o') = None"
  "strip (strip o') = strip o'"
  "strip (o'\<lparr>o_prev := p\<rparr>) = strip o'" "strip (o'\<lparr>o_next := n\<rparr>) = strip o'"
  by (simp_all add: strip_def)

lemma payload_fields:
  assumes "strip x = strip y"
  shows "o_price x = o_price y" "o_quantity x = o_quantity y" "o_filled_qty x = o_filled_qty y"
    "o_side x = o_side y" "o_type x = o_type y" "o_id x = o_id y" "o_client_id x = o_client_id y"
    "o_timestamp x = o_timestamp y"
  using arg_cong [OF assms, of o_price] arg_cong [OF assms, of o_quantity] arg_cong [OF assms, of o_filled_qty]
    arg_cong [OF assms, of o_side] arg_cong [OF assms, of o_type] arg_cong [OF assms, of o_id]
    arg_cong [OF assms, of o_client_id] arg_cong [OF assms, of o_timestamp]
  by simp_all

lemma fill_simps [simp]:
  "o_price (fill q o') = o_price o'" "o_quantity (fill q o') = o_quantity o'"
  "o_filled_qty (fill q o') = o_filled_qty o' + q" "o_side (fill q o') = o_side o'"
  "o_type (fill q o') = o_type o'" "o_id (fill q o') = o_id o'"
  "o_client_id (fill q o') = o_client_id o'" "o_timestamp (fill q o') = o_timestamp o'"
  "o_prev (fill q o') = o_prev o'" "o_next (fill q o') = o_next o'"
  by (simp_all add: fill_def)

lemma remaining_strip [simp]: "remaining (strip o') = remaining o'"
  by (simp add: remaining_def)

lemma is_filled_strip [simp]: "is_filled (strip o') = is_filled o'"
  by (simp add: is_filled_def)

lemma strip_fill [simp]: "strip (fill q o') = fill q (strip o')"
  by (simp add: strip_def fill_def)

lemma fill_strip [simp]:
  "is_filled (fill q (strip o')) = is_filled (fill q o')" "remaining (fill q (strip o')) = remaining (fill q o')"
  by (simp_all add: is_filled_def remaining_def)

lemma remaining_link [simp]:
  "remaining (o'\<lparr>o_prev := p\<rparr>) = remaining o'" "remaining (o'\<lparr>o_next := n\<rparr>) = remaining o'"
  by (simp_all add: remaining_def)

lemma is_filled_link [simp]:
  "is_filled (o'\<lparr>o_prev := p\<rparr>) = is_filled o'" "is_filled (o'\<lparr>o_next := n\<rparr>) = is_filled o'"
  by (simp_all add: is_filled_def)

lemma upd_order_apply: "upd_order a f h p = (if p = a then f (h a) else h p)"
  by (simp add: upd_order_def)

lemma upd_order_same [simp]: "upd_order a f h a = f (h a)"
  by (simp add: upd_order_def)

lemma upd_order_other [simp]: "p \<noteq> a \<Longrightarrow> upd_order a f h p = h p"
  by (simp add: upd_order_def)

subsection \<open>Arithmetic of fills\<close>

text \<open>
  An order with \<open>filled_qty \<le> quantity\<close> never wraps: a fill of at most the remaining quantity
  reads on the unsigned values as ordinary addition and subtraction.
\<close>

definition order_ok :: "Order \<Rightarrow> bool" where
  "order_ok o' \<longleftrightarrow> o_filled_qty o' \<le> o_quantity o'"

lemma order_ok_strip [simp]: "order_ok (strip o') = order_ok o'"
  by (simp add: order_ok_def)

lemma order_ok_open: "\<not> is_filled o' \<Longrightarrow> order_ok o'"
  by (simp add: order_ok_def is_filled_def)

lemma unat_remaining:
  "order_ok o' \<Longrightarrow> unat (remaining o') = unat (o_quantity o') - unat (o_filled_qty o')"
  by (simp add: order_ok_def remaining_def unat_sub)

lemma is_filled_remaining: "order_ok o' \<Longrightarrow> is_filled o' \<longleftrightarrow> remaining o' = 0"
  by (auto simp: order_ok_def is_filled_def remaining_def)

lemma fill_ok:
  assumes ok: "order_ok o'" and q: "q \<le> remaining o'"
  shows "order_ok (fill q o')"
    and "unat (o_filled_qty o' + q) = unat (o_filled_qty o') + unat q"
    and "remaining (fill q o') = remaining o' - q"
proof -
  have sum: "unat (o_filled_qty o') + unat q \<le> unat (o_quantity o')"
    using q ok unat_remaining [OF ok] by (simp add: word_le_nat_alt order_ok_def)
  then have "unat (o_filled_qty o') + unat q < 2 ^ 32"
    using unat_u32_less [of "o_quantity o'"] by (simp del: unat_u32_less)
  then show eq: "unat (o_filled_qty o' + q) = unat (o_filled_qty o') + unat q"
    by (simp add: unat_word_ariths)
  show "order_ok (fill q o')"
    using sum eq by (simp add: order_ok_def word_le_nat_alt)
  show "remaining (fill q o') = remaining o' - q"
    by (simp add: remaining_def)
qed

end
