(* ===== verification/Price_Bitset.thy ===== *)
theory Price_Bitset
  imports Order_Types
begin

section \<open>The three-tier occupancy bitset\<close>

text \<open>
  Models \<^verbatim>\<open>src/src/core/price_bitset.h\<close>. The three word arrays are functions on word indices,
  accessed in range only; \<open>__builtin_clzll\<close> and \<open>__builtin_ctzll\<close> are undefined on 0, as the
  compiler documents. The abstraction of a bitset is the set of its occupied indices
  (\<open>members\<close>), its invariant (\<open>bs_ok\<close>) is the one the class comment states: a bit of a tier is
  set exactly when the word below is non-zero.

  The locale \<open>occupancy_index\<close> is the interface the order book relies on; the class is shown to
  provide it.
\<close>

subsection \<open>The class\<close>

definition L0_WORDS :: nat where [const_defs]: "L0_WORDS = (PRICE_LEVELS + 63) div 64"
definition L1_WORDS :: nat where [const_defs]: "L1_WORDS = (L0_WORDS + 63) div 64"
definition L2_WORDS :: nat where [const_defs]: "L2_WORDS = (L1_WORDS + 63) div 64"
definition NONE :: nat where [const_defs]: "NONE = 2 ^ 64 - 1"

record PriceBitset =
  l0 :: "nat \<Rightarrow> u64"
  l1 :: "nat \<Rightarrow> u64"
  l2 :: "nat \<Rightarrow> u64"

definition bs_new :: PriceBitset where
  "bs_new = \<lparr>l0 = (\<lambda>_. 0), l1 = (\<lambda>_. 0), l2 = (\<lambda>_. 0)\<rparr>"

definition clzll :: "u64 \<Rightarrow> nat option" where
  "clzll w = find (\<lambda>k. bit w (63 - k)) [0..<64]"

definition ctzll :: "u64 \<Rightarrow> nat option" where
  "ctzll w = find (bit w) [0..<64]"

definition top_bit :: "u64 \<Rightarrow> nat option" where
  "top_bit w = do { n \<leftarrow> clzll w; Some (63 - n) }"

definition bs_set :: "nat \<Rightarrow> PriceBitset \<Rightarrow> PriceBitset option" where
  "bs_set i b = do {
     let w0 = drop_bit 6 i;
     let w1 = drop_bit 6 w0;
     let w2 = drop_bit 6 w1;
     v0 \<leftarrow> array_get L0_WORDS (l0 b) w0;
     a0 \<leftarrow> array_put L0_WORDS (l0 b) w0 (v0 OR push_bit (i AND 63) 1);
     v1 \<leftarrow> array_get L1_WORDS (l1 b) w1;
     a1 \<leftarrow> array_put L1_WORDS (l1 b) w1 (v1 OR push_bit (w0 AND 63) 1);
     v2 \<leftarrow> array_get L2_WORDS (l2 b) w2;
     a2 \<leftarrow> array_put L2_WORDS (l2 b) w2 (v2 OR push_bit (w1 AND 63) 1);
     Some \<lparr>l0 = a0, l1 = a1, l2 = a2\<rparr>
   }"

definition bs_clear :: "nat \<Rightarrow> PriceBitset \<Rightarrow> PriceBitset option" where
  "bs_clear i b = do {
     let w0 = drop_bit 6 i;
     v0 \<leftarrow> array_get L0_WORDS (l0 b) w0;
     let v0' = v0 AND NOT (push_bit (i AND 63) 1);
     a0 \<leftarrow> array_put L0_WORDS (l0 b) w0 v0';
     let b0 = b\<lparr>l0 := a0\<rparr>;
     if v0' \<noteq> 0 then Some b0 else do {
       let w1 = drop_bit 6 w0;
       v1 \<leftarrow> array_get L1_WORDS (l1 b) w1;
       let v1' = v1 AND NOT (push_bit (w0 AND 63) 1);
       a1 \<leftarrow> array_put L1_WORDS (l1 b) w1 v1';
       let b1 = b0\<lparr>l1 := a1\<rparr>;
       if v1' \<noteq> 0 then Some b1 else do {
         let w2 = drop_bit 6 w1;
         v2 \<leftarrow> array_get L2_WORDS (l2 b) w2;
         a2 \<leftarrow> array_put L2_WORDS (l2 b) w2 (v2 AND NOT (push_bit (w1 AND 63) 1));
         Some (b1\<lparr>l2 := a2\<rparr>)
       }
     }
   }"

definition bs_test :: "nat \<Rightarrow> PriceBitset \<Rightarrow> bool option" where
  "bs_test i b = do {
     v \<leftarrow> array_get L0_WORDS (l0 b) (drop_bit 6 i);
     Some (drop_bit (i AND 63) v AND 1 \<noteq> 0)
   }"

text \<open>The loop of \<open>highest\<close> counts \<open>w2\<close> down from \<open>L2_WORDS\<close>, that of \<open>lowest\<close> counts it up.\<close>

fun highest_from :: "nat \<Rightarrow> PriceBitset \<Rightarrow> nat option" where
  "highest_from 0 b = Some NONE"
| "highest_from (Suc w2) b =
     (if l2 b w2 = 0 then highest_from w2 b
      else do {
        k2 \<leftarrow> top_bit (l2 b w2);
        let w1 = push_bit 6 w2 + k2;
        v1 \<leftarrow> array_get L1_WORDS (l1 b) w1;
        k1 \<leftarrow> top_bit v1;
        let w0 = push_bit 6 w1 + k1;
        v0 \<leftarrow> array_get L0_WORDS (l0 b) w0;
        k0 \<leftarrow> top_bit v0;
        Some (push_bit 6 w0 + k0)
      })"

definition highest :: "PriceBitset \<Rightarrow> nat option" where
  "highest b = highest_from L2_WORDS b"

function lowest_from :: "nat \<Rightarrow> PriceBitset \<Rightarrow> nat option" where
  "lowest_from w2 b =
     (if w2 < L2_WORDS then
        (if l2 b w2 = 0 then lowest_from (Suc w2) b
         else do {
           k2 \<leftarrow> ctzll (l2 b w2);
           let w1 = push_bit 6 w2 + k2;
           v1 \<leftarrow> array_get L1_WORDS (l1 b) w1;
           k1 \<leftarrow> ctzll v1;
           let w0 = push_bit 6 w1 + k1;
           v0 \<leftarrow> array_get L0_WORDS (l0 b) w0;
           k0 \<leftarrow> ctzll v0;
           Some (push_bit 6 w0 + k0)
         })
      else Some NONE)"
  by pat_completeness auto
termination
  by (relation "measure (\<lambda>(w2, b). L2_WORDS - w2)") auto

declare lowest_from.simps [simp del]

definition lowest :: "PriceBitset \<Rightarrow> nat option" where
  "lowest b = lowest_from 0 b"

subsection \<open>Abstraction and invariant\<close>

definition occupied :: "PriceBitset \<Rightarrow> nat \<Rightarrow> bool" where
  "occupied b i \<longleftrightarrow> i < PRICE_LEVELS \<and> bit (l0 b (i div 64)) (i mod 64)"

definition members :: "PriceBitset \<Rightarrow> nat set" where
  "members b = {i. occupied b i}"

definition nonzero :: "nat \<Rightarrow> (nat \<Rightarrow> u64) \<Rightarrow> nat \<Rightarrow> bool" where
  "nonzero n f w \<longleftrightarrow> w < n \<and> f w \<noteq> 0"

text \<open>The words \<open>up 0, \<dots>, up (m - 1)\<close> summarise the predicate \<open>P\<close>, one bit per index.\<close>

definition summarises :: "nat \<Rightarrow> (nat \<Rightarrow> u64) \<Rightarrow> (nat \<Rightarrow> bool) \<Rightarrow> bool" where
  "summarises m up P \<longleftrightarrow>
     (\<forall>w. P w \<longrightarrow> w < m * 64) \<and> (\<forall>w<m * 64. bit (up (w div 64)) (w mod 64) \<longleftrightarrow> P w)"

definition bs_ok :: "PriceBitset \<Rightarrow> bool" where
  "bs_ok b \<longleftrightarrow> summarises L1_WORDS (l1 b) (nonzero L0_WORDS (l0 b))
            \<and> summarises L2_WORDS (l2 b) (nonzero L1_WORDS (l1 b))"

definition is_greatest :: "(nat \<Rightarrow> bool) \<Rightarrow> nat \<Rightarrow> bool" where
  "is_greatest P x \<longleftrightarrow> P x \<and> (\<forall>y. P y \<longrightarrow> y \<le> x)"

definition is_least :: "(nat \<Rightarrow> bool) \<Rightarrow> nat \<Rightarrow> bool" where
  "is_least P x \<longleftrightarrow> P x \<and> (\<forall>y. P y \<longrightarrow> x \<le> y)"

subsection \<open>Bit scans\<close>

lemma ctzll_Some: "ctzll w = Some k \<longleftrightarrow> k < 64 \<and> bit w k \<and> (\<forall>j<k. \<not> bit w j)"
  by (simp add: ctzll_def find_Some_iff_first)

lemma top_bit_Some:
  "top_bit w = Some k \<longleftrightarrow> k < 64 \<and> bit w k \<and> (\<forall>j. k < j \<and> j < 64 \<longrightarrow> \<not> bit w j)"
proof -
  have "clzll w = Some n \<longleftrightarrow> n < 64 \<and> bit w (63 - n) \<and> (\<forall>j<n. \<not> bit w (63 - j))" for n
    by (simp add: clzll_def find_Some_iff_first)
  then have "top_bit w = Some k \<longleftrightarrow>
      (\<exists>n. n < 64 \<and> bit w (63 - n) \<and> (\<forall>j<n. \<not> bit w (63 - j)) \<and> k = 63 - n)"
    by (auto simp: top_bit_def bind_eq_Some_conv)
  also have "\<dots> \<longleftrightarrow> k < 64 \<and> bit w k \<and> (\<forall>j. k < j \<and> j < 64 \<longrightarrow> \<not> bit w j)"
  proof
    assume "\<exists>n. n < 64 \<and> bit w (63 - n) \<and> (\<forall>j<n. \<not> bit w (63 - j)) \<and> k = 63 - n"
    then obtain n where n: "n < 64" "bit w (63 - n)" "\<forall>j<n. \<not> bit w (63 - j)" "k = 63 - n"
      by blast
    have "\<not> bit w j" if "k < j" "j < 64" for j
      using n(3) [rule_format, of "63 - j"] that n(1,4) by simp
    with n show "k < 64 \<and> bit w k \<and> (\<forall>j. k < j \<and> j < 64 \<longrightarrow> \<not> bit w j)" by auto
  next
    assume k: "k < 64 \<and> bit w k \<and> (\<forall>j. k < j \<and> j < 64 \<longrightarrow> \<not> bit w j)"
    then have "\<not> bit w (63 - j)" if "j < 63 - k" for j
      using that k [THEN conjunct2, THEN conjunct2, rule_format, of "63 - j"] by linarith
    with k show "\<exists>n. n < 64 \<and> bit w (63 - n) \<and> (\<forall>j<n. \<not> bit w (63 - j)) \<and> k = 63 - n"
      by (intro exI [of _ "63 - k"]) auto
  qed
  finally show ?thesis .
qed

lemma ctzll_defined: "w \<noteq> 0 \<Longrightarrow> \<exists>k. ctzll w = Some k"
  by (cases "ctzll w") (auto simp: ctzll_def find_None_upt word64_eq_0_iff)

lemma top_bit_defined:
  assumes "w \<noteq> 0" shows "\<exists>k. top_bit w = Some k"
proof -
  from assms obtain n where "n < 64" "bit w n" by (auto simp: word64_eq_0_iff)
  then have "63 - n < 64" "bit w (63 - (63 - n))" by simp_all
  then have "clzll w \<noteq> None"
    unfolding clzll_def find_None_upt by blast
  then show ?thesis
    by (auto simp: top_bit_def)
qed

subsection \<open>One tier step\<close>

lemma summarisesD: "summarises m up P \<Longrightarrow> P w \<Longrightarrow> w < m * 64"
  by (simp add: summarises_def)

lemma summarises_up:
  assumes "summarises m up P" "P y"
  shows "nonzero m up (y div 64)" "bit (up (y div 64)) (y mod 64)"
proof -
  from assms have *: "y < m * 64" "bit (up (y div 64)) (y mod 64)"
    by (auto simp: summarises_def)
  then show "bit (up (y div 64)) (y mod 64)" by simp
  from * show "nonzero m up (y div 64)"
    by (auto simp: nonzero_def div_less_iff_less_mult)
qed

lemma summarises_down:
  assumes "summarises m up P" "u < m" "k < 64" "bit (up u) k"
  shows "P (u * 64 + k)"
proof -
  have "u * 64 + k < m * 64" using assms(2,3) by linarith
  with assms show ?thesis by (auto simp: summarises_def)
qed

lemma greatest_step:
  assumes s: "summarises m up P" and g: "is_greatest (nonzero m up) u" and t: "top_bit (up u) = Some k"
  shows "is_greatest P (u * 64 + k)"
proof -
  from g have u: "u < m" by (simp add: is_greatest_def nonzero_def)
  from t have k: "k < 64" "bit (up u) k" "\<And>j. k < j \<Longrightarrow> j < 64 \<Longrightarrow> \<not> bit (up u) j"
    by (auto simp: top_bit_Some)
  have "y \<le> u * 64 + k" if "P y" for y
  proof -
    from summarises_up [OF s that] g have le: "y div 64 \<le> u" by (simp add: is_greatest_def)
    show ?thesis
    proof (cases "y div 64 = u")
      case True
      with summarises_up(2) [OF s that] have "bit (up u) (y mod 64)" by simp
      with k(3) [of "y mod 64"] have "y mod 64 \<le> k" by (meson mod_less_divisor not_le zero_less_numeral)
      with True show ?thesis by (metis add_le_cancel_left div_mult_mod_eq)
    next
      case False
      with le have "y div 64 < u" by simp
      then show ?thesis by linarith
    qed
  qed
  with summarises_down [OF s u k(1,2)] show ?thesis by (simp add: is_greatest_def)
qed

lemma least_step:
  assumes s: "summarises m up P" and g: "is_least (nonzero m up) u" and t: "ctzll (up u) = Some k"
  shows "is_least P (u * 64 + k)"
proof -
  from g have u: "u < m" by (simp add: is_least_def nonzero_def)
  from t have k: "k < 64" "bit (up u) k" "\<And>j. j < k \<Longrightarrow> \<not> bit (up u) j"
    by (auto simp: ctzll_Some)
  have "u * 64 + k \<le> y" if "P y" for y
  proof -
    from summarises_up [OF s that] g have le: "u \<le> y div 64" by (simp add: is_least_def)
    show ?thesis
    proof (cases "y div 64 = u")
      case True
      with summarises_up(2) [OF s that] have "bit (up u) (y mod 64)" by simp
      with k(3) [of "y mod 64"] have "k \<le> y mod 64" by (meson not_le)
      with True show ?thesis by (metis add_le_cancel_left div_mult_mod_eq)
    next
      case False
      with le have "u < y div 64" by simp
      with k(1) show ?thesis by linarith
    qed
  qed
  with summarises_down [OF s u k(1,2)] show ?thesis by (simp add: is_least_def)
qed

subsection \<open>The constants\<close>

lemma word_counts [simp]: "L0_WORDS = 15625" "L1_WORDS = 245" "L2_WORDS = 4"
  by (simp_all add: const_defs)

lemma PRICE_LEVELS_words: "PRICE_LEVELS = L0_WORDS * 64"
  by (simp add: const_defs)

lemma occupied_summary: "summarises L0_WORDS (l0 b) (occupied b)"
  by (auto simp: summarises_def occupied_def PRICE_LEVELS_def)

lemma occupied_index: "occupied b i \<Longrightarrow> i < PRICE_LEVELS"
  by (simp add: occupied_def)

subsection \<open>highest and lowest\<close>

lemma no_nonzero_above:
  assumes "bs_ok b" "\<forall>w<4. l2 b w = 0" shows "\<not> occupied b i"
proof
  assume "occupied b i"
  from summarises_up(1) [OF occupied_summary this]
  have "nonzero L0_WORDS (l0 b) (i div 64)" .
  from summarises_up(1) [OF conjunct1 [OF assms(1) [unfolded bs_ok_def]] this]
  have "nonzero L1_WORDS (l1 b) (i div 64 div 64)" .
  from summarises_up(1) [OF conjunct2 [OF assms(1) [unfolded bs_ok_def]] this]
  show False using assms(2) by (auto simp: nonzero_def)
qed

lemma highest_from_correct:
  assumes ok: "bs_ok b" and "n \<le> 4" and "\<forall>w<4. n \<le> w \<longrightarrow> l2 b w = 0"
  shows "(highest_from n b = Some NONE \<and> (\<forall>i. \<not> occupied b i)) \<or>
         (\<exists>i. highest_from n b = Some i \<and> is_greatest (occupied b) i)"
  using assms(2,3)
proof (induction n)
  case 0
  then show ?case using no_nonzero_above [OF ok] by simp
next
  case (Suc n)
  show ?case
  proof (cases "l2 b n = 0")
    case True
    with Suc.prems have "\<forall>w<4. n \<le> w \<longrightarrow> l2 b w = 0" by (metis Suc_leI le_neq_implies_less)
    with Suc.IH Suc.prems(1) True show ?thesis by simp
  next
    case False
    have s1: "summarises L1_WORDS (l1 b) (nonzero L0_WORDS (l0 b))"
      and s2: "summarises L2_WORDS (l2 b) (nonzero L1_WORDS (l1 b))"
      using ok by (simp_all add: bs_ok_def)
    have g2: "is_greatest (nonzero L2_WORDS (l2 b)) n"
      using False Suc.prems by (force simp: is_greatest_def nonzero_def not_less_eq_eq)
    from top_bit_defined [OF False] obtain k2 where k2: "top_bit (l2 b n) = Some k2" by blast
    note g1 = greatest_step [OF s2 g2 k2]
    then have nz1: "n * 64 + k2 < L1_WORDS" "l1 b (n * 64 + k2) \<noteq> 0"
      by (simp_all add: is_greatest_def nonzero_def)
    from top_bit_defined [OF nz1(2)] obtain k1 where k1: "top_bit (l1 b (n * 64 + k2)) = Some k1" by blast
    note g0 = greatest_step [OF s1 g1 k1]
    then have nz0: "(n * 64 + k2) * 64 + k1 < L0_WORDS" "l0 b ((n * 64 + k2) * 64 + k1) \<noteq> 0"
      by (simp_all add: is_greatest_def nonzero_def)
    from top_bit_defined [OF nz0(2)] obtain k0
      where k0: "top_bit (l0 b ((n * 64 + k2) * 64 + k1)) = Some k0" by blast
    note g = greatest_step [OF occupied_summary g0 k0]
    have "highest_from (Suc n) b = Some (((n * 64 + k2) * 64 + k1) * 64 + k0)"
      using False k2 k1 k0 nz1(1) nz0(1) by (simp add: nat_shiftl_6)
    with g show ?thesis by blast
  qed
qed

lemma lowest_from_correct:
  assumes ok: "bs_ok b" and "n \<le> 4" and "\<forall>w<n. l2 b w = 0"
  shows "(lowest_from n b = Some NONE \<and> (\<forall>i. \<not> occupied b i)) \<or>
         (\<exists>i. lowest_from n b = Some i \<and> is_least (occupied b) i)"
  using assms(2,3)
proof (induction "4 - n" arbitrary: n)
  case 0
  then show ?case using no_nonzero_above [OF ok] by (subst lowest_from.simps) (simp add: lowest_from.simps)
next
  case (Suc d)
  then have n4: "n < 4" by simp
  show ?case
  proof (cases "l2 b n = 0")
    case True
    with Suc.prems have "\<forall>w<Suc n. l2 b w = 0" by (simp add: less_Suc_eq)
    with Suc.hyps(1) [of "Suc n"] Suc.hyps(2) n4 have
      "(lowest_from (Suc n) b = Some NONE \<and> (\<forall>i. \<not> occupied b i)) \<or>
       (\<exists>i. lowest_from (Suc n) b = Some i \<and> is_least (occupied b) i)" by simp
    moreover have "lowest_from n b = lowest_from (Suc n) b"
      using n4 True by (subst lowest_from.simps) simp
    ultimately show ?thesis by simp
  next
    case False
    have s1: "summarises L1_WORDS (l1 b) (nonzero L0_WORDS (l0 b))"
      and s2: "summarises L2_WORDS (l2 b) (nonzero L1_WORDS (l1 b))"
      using ok by (simp_all add: bs_ok_def)
    have g2: "is_least (nonzero L2_WORDS (l2 b)) n"
      using False Suc.prems n4 by (auto simp: is_least_def nonzero_def not_le [symmetric])
    from ctzll_defined [OF False] obtain k2 where k2: "ctzll (l2 b n) = Some k2" by blast
    note g1 = least_step [OF s2 g2 k2]
    then have nz1: "n * 64 + k2 < L1_WORDS" "l1 b (n * 64 + k2) \<noteq> 0"
      by (simp_all add: is_least_def nonzero_def)
    from ctzll_defined [OF nz1(2)] obtain k1 where k1: "ctzll (l1 b (n * 64 + k2)) = Some k1" by blast
    note g0 = least_step [OF s1 g1 k1]
    then have nz0: "(n * 64 + k2) * 64 + k1 < L0_WORDS" "l0 b ((n * 64 + k2) * 64 + k1) \<noteq> 0"
      by (simp_all add: is_least_def nonzero_def)
    from ctzll_defined [OF nz0(2)] obtain k0
      where k0: "ctzll (l0 b ((n * 64 + k2) * 64 + k1)) = Some k0" by blast
    note g = least_step [OF occupied_summary g0 k0]
    have "lowest_from n b = Some (((n * 64 + k2) * 64 + k1) * 64 + k0)"
      using False k2 k1 k0 nz1(1) nz0(1) n4 by (subst lowest_from.simps) (simp add: nat_shiftl_6)
    with g show ?thesis by blast
  qed
qed

subsection \<open>set, clear, test\<close>

lemma summarises_insert:
  assumes "summarises m up P" "x < m * 64"
  shows "summarises m (up(x div 64 := up (x div 64) OR push_bit (x mod 64) 1)) (\<lambda>w. P w \<or> w = x)"
  using assms by (auto simp: summarises_def bit_set_one_bit intro: div64_mod64_eqI)

lemma summarises_delete:
  assumes "summarises m up P" "x < m * 64"
  shows "summarises m (up(x div 64 := up (x div 64) AND NOT (push_bit (x mod 64) 1))) (\<lambda>w. P w \<and> w \<noteq> x)"
  using assms by (auto simp: summarises_def bit_clear_one_bit intro: div64_mod64_eqI)

lemma or_bit_nonzero: "k < 64 \<Longrightarrow> (v::u64) OR push_bit k 1 \<noteq> 0"
  by (auto simp: word64_eq_0_iff bit_set_one_bit)

lemma nonzero_upd:
  "w < n \<Longrightarrow> nonzero n (f(w := v)) = (\<lambda>u. if u = w then v \<noteq> 0 else nonzero n f u)"
  by (auto simp: nonzero_def)

lemma occupied_eqI: "summarises L0_WORDS (l0 b) P \<Longrightarrow> occupied b = P"
  by (rule ext) (auto simp: summarises_def occupied_def PRICE_LEVELS_def)

lemma index_bounds:
  "i < PRICE_LEVELS \<Longrightarrow> i div 64 < 15625" "i < PRICE_LEVELS \<Longrightarrow> i div 64 div 64 < 245"
  "i < PRICE_LEVELS \<Longrightarrow> i div 64 div 64 div 64 < 4"
  by (simp_all add: PRICE_LEVELS_def)

lemma bs_set_correct:
  assumes ok: "bs_ok b" and i: "i < PRICE_LEVELS"
  shows "\<exists>b'. bs_set i b = Some b' \<and> bs_ok b' \<and> occupied b' = (\<lambda>j. occupied b j \<or> j = i)"
proof -
  let ?w0 = "i div 64" and ?w1 = "i div 64 div 64"
  let ?b' = "\<lparr>l0 = (l0 b)(?w0 := l0 b ?w0 OR push_bit (i mod 64) 1),
              l1 = (l1 b)(?w1 := l1 b ?w1 OR push_bit (?w0 mod 64) 1),
              l2 = (l2 b)(?w1 div 64 := l2 b (?w1 div 64) OR push_bit (?w1 mod 64) 1)\<rparr>"
  note i' = index_bounds [OF i]
  have set: "bs_set i b = Some ?b'"
    using i' by (simp add: bs_set_def size_simps Let_def)
  have nz: "nonzero L0_WORDS (l0 ?b') = (\<lambda>w. nonzero L0_WORDS (l0 b) w \<or> w = ?w0)"
    "nonzero L1_WORDS (l1 ?b') = (\<lambda>w. nonzero L1_WORDS (l1 b) w \<or> w = ?w1)"
    using i' or_bit_nonzero by (auto simp: nonzero_upd fun_eq_iff simp del: push_bit_of_1)
  have "bs_ok ?b'"
    unfolding bs_ok_def nz
    using ok i' summarises_insert [of L1_WORDS "l1 b" "nonzero L0_WORDS (l0 b)" ?w0]
      summarises_insert [of L2_WORDS "l2 b" "nonzero L1_WORDS (l1 b)" ?w1]
    by (simp add: bs_ok_def)
  moreover have "occupied ?b' = (\<lambda>j. occupied b j \<or> j = i)"
    using summarises_insert [OF occupied_summary, of i b] i
    by (intro occupied_eqI) (simp add: PRICE_LEVELS_def)
  ultimately show ?thesis using set by blast
qed

lemma bs_clear_correct:
  assumes ok: "bs_ok b" and i: "i < PRICE_LEVELS"
  shows "\<exists>b'. bs_clear i b = Some b' \<and> bs_ok b' \<and> occupied b' = (\<lambda>j. occupied b j \<and> j \<noteq> i)"
proof -
  let ?w0 = "i div 64" and ?w1 = "i div 64 div 64"
  let ?v0 = "l0 b ?w0 AND NOT (push_bit (i mod 64) 1)" and ?v1 = "l1 b ?w1 AND NOT (push_bit (?w0 mod 64) 1)"
  let ?b0 = "b\<lparr>l0 := (l0 b)(?w0 := ?v0)\<rparr>"
  let ?b1 = "?b0\<lparr>l1 := (l1 b)(?w1 := ?v1)\<rparr>"
  let ?b2 = "?b1\<lparr>l2 := (l2 b)(?w1 div 64 := l2 b (?w1 div 64) AND NOT (push_bit (?w1 mod 64) 1))\<rparr>"
  note i' = index_bounds [OF i]
  have s1: "summarises L1_WORDS (l1 b) (nonzero L0_WORDS (l0 b))"
    and s2: "summarises L2_WORDS (l2 b) (nonzero L1_WORDS (l1 b))"
    using ok by (simp_all add: bs_ok_def)
  have clear: "bs_clear i b = Some (if ?v0 \<noteq> 0 then ?b0 else if ?v1 \<noteq> 0 then ?b1 else ?b2)"
    using i' by (simp add: bs_clear_def size_simps Let_def)
  have nz: "nonzero L0_WORDS ((l0 b)(?w0 := ?v0)) =
        (if ?v0 \<noteq> 0 then nonzero L0_WORDS (l0 b) else (\<lambda>w. nonzero L0_WORDS (l0 b) w \<and> w \<noteq> ?w0))"
    "nonzero L1_WORDS ((l1 b)(?w1 := ?v1)) =
        (if ?v1 \<noteq> 0 then nonzero L1_WORDS (l1 b) else (\<lambda>w. nonzero L1_WORDS (l1 b) w \<and> w \<noteq> ?w1))"
    using i' by (auto simp: nonzero_upd fun_eq_iff) (auto simp: nonzero_def)
  have d1: "summarises L1_WORDS ((l1 b)(?w1 := ?v1)) (\<lambda>w. nonzero L0_WORDS (l0 b) w \<and> w \<noteq> ?w0)"
    using summarises_delete [OF s1, of ?w0] i' by simp
  have d2: "summarises L2_WORDS (l2 ?b2) (\<lambda>w. nonzero L1_WORDS (l1 b) w \<and> w \<noteq> ?w1)"
    using summarises_delete [OF s2, of ?w1] i' by simp
  have "bs_ok (if ?v0 \<noteq> 0 then ?b0 else if ?v1 \<noteq> 0 then ?b1 else ?b2)"
    using s1 s2 d1 d2 nz by (auto simp: bs_ok_def)
  moreover have "occupied (if ?v0 \<noteq> 0 then ?b0 else if ?v1 \<noteq> 0 then ?b1 else ?b2) = (\<lambda>j. occupied b j \<and> j \<noteq> i)"
    using summarises_delete [OF occupied_summary, of i b] i
    by (intro occupied_eqI) (auto simp: PRICE_LEVELS_def)
  ultimately show ?thesis using clear by blast
qed

lemma bs_test_correct: "i < PRICE_LEVELS \<Longrightarrow> bs_test i b = Some (occupied b i)"
  using index_bounds [of i]
  by (simp add: bs_test_def size_simps occupied_def bit_iff_odd_drop_bit and_one_eq odd_iff_mod_2_eq_one)

lemma bs_new_ok: "bs_ok bs_new" "\<not> occupied bs_new i"
  by (simp_all add: bs_ok_def summarises_def nonzero_def bs_new_def occupied_def)

subsection \<open>The interface\<close>

text \<open>
  What a client may rely on: a finite index space, insertion and deletion of an index, and the
  two ends of the occupied set, with a reserved value for the empty set.
\<close>

locale occupancy_index =
  fixes size :: nat and none :: nat
    and new :: "'b" and put :: "nat \<Rightarrow> 'b \<Rightarrow> 'b option" and del :: "nat \<Rightarrow> 'b \<Rightarrow> 'b option"
    and test :: "nat \<Rightarrow> 'b \<Rightarrow> bool option" and hi :: "'b \<Rightarrow> nat option" and lo :: "'b \<Rightarrow> nat option"
    and occ :: "'b \<Rightarrow> nat \<Rightarrow> bool" and ok :: "'b \<Rightarrow> bool"
  assumes ok_new: "ok new" and occ_new: "\<not> occ new i"
    and none_out: "size \<le> none"
    and occ_less: "occ b i \<Longrightarrow> i < size"
    and put_law: "ok b \<Longrightarrow> i < size \<Longrightarrow>
           \<exists>b'. put i b = Some b' \<and> ok b' \<and> occ b' = (\<lambda>j. occ b j \<or> j = i)"
    and del_law: "ok b \<Longrightarrow> i < size \<Longrightarrow>
           \<exists>b'. del i b = Some b' \<and> ok b' \<and> occ b' = (\<lambda>j. occ b j \<and> j \<noteq> i)"
    and test_law: "i < size \<Longrightarrow> test i b = Some (occ b i)"
    and hi_law: "ok b \<Longrightarrow> (hi b = Some none \<and> (\<forall>i. \<not> occ b i)) \<or>
           (\<exists>i. hi b = Some i \<and> is_greatest (occ b) i)"
    and lo_law: "ok b \<Longrightarrow> (lo b = Some none \<and> (\<forall>i. \<not> occ b i)) \<or>
           (\<exists>i. lo b = Some i \<and> is_least (occ b) i)"
begin

definition occ_set :: "'b \<Rightarrow> nat set" where
  "occ_set b = {i. occ b i}"

lemma finite_occ_set: "finite (occ_set b)"
  using occ_less by (auto simp: occ_set_def intro: finite_subset [of _ "{..<size}"])

lemma hi_Max:
  assumes "ok b"
  shows "hi b = Some (if occ_set b = {} then none else Max (occ_set b))"
proof (cases "\<exists>i. occ b i")
  case True
  with hi_law [OF assms] obtain i where i: "hi b = Some i" "is_greatest (occ b) i" by blast
  then have "Max (occ_set b) = i"
    by (intro Max_eqI finite_occ_set) (auto simp: occ_set_def is_greatest_def)
  moreover have "occ_set b \<noteq> {}" using True by (simp add: occ_set_def)
  ultimately show ?thesis using i by simp
next
  case False
  with hi_law [OF assms] show ?thesis by (auto simp: occ_set_def is_greatest_def)
qed

lemma lo_Min:
  assumes "ok b"
  shows "lo b = Some (if occ_set b = {} then none else Min (occ_set b))"
proof (cases "\<exists>i. occ b i")
  case True
  with lo_law [OF assms] obtain i where i: "lo b = Some i" "is_least (occ b) i" by blast
  then have "Min (occ_set b) = i"
    by (intro Min_eqI finite_occ_set) (auto simp: occ_set_def is_least_def)
  moreover have "occ_set b \<noteq> {}" using True by (simp add: occ_set_def)
  ultimately show ?thesis using i by simp
next
  case False
  with lo_law [OF assms] show ?thesis by (auto simp: occ_set_def is_least_def)
qed

text \<open>Inserting an index and deleting it again changes nothing, if it was not occupied.\<close>

lemma put_del_roundtrip:
  assumes "ok b" "i < size" "\<not> occ b i"
  shows "\<exists>b1 b2. put i b = Some b1 \<and> del i b1 = Some b2 \<and> ok b2 \<and> occ b2 = occ b"
proof -
  from put_law [OF assms(1,2)] obtain b1 where
    b1: "put i b = Some b1" "ok b1" "occ b1 = (\<lambda>j. occ b j \<or> j = i)" by blast
  from del_law [OF b1(2) assms(2)] obtain b2 where
    b2: "del i b1 = Some b2" "ok b2" "occ b2 = (\<lambda>j. occ b1 j \<and> j \<noteq> i)" by blast
  from b1(3) b2(3) assms(3) have "occ b2 = occ b" by auto
  with b1 b2 show ?thesis by blast
qed

end

interpretation pb: occupancy_index PRICE_LEVELS NONE bs_new bs_set bs_clear bs_test highest lowest occupied bs_ok
proof
  show "PRICE_LEVELS \<le> NONE" by (simp add: const_defs)
  show "(highest b = Some NONE \<and> (\<forall>i. \<not> occupied b i)) \<or>
      (\<exists>i. highest b = Some i \<and> is_greatest (occupied b) i)" if "bs_ok b" for b
    using highest_from_correct [OF that, of 4] by (simp add: highest_def)
  show "(lowest b = Some NONE \<and> (\<forall>i. \<not> occupied b i)) \<or>
      (\<exists>i. lowest b = Some i \<and> is_least (occupied b) i)" if "bs_ok b" for b
    using lowest_from_correct [OF that, of 0] by (simp add: lowest_def)
qed (auto simp: bs_new_ok bs_set_correct bs_clear_correct bs_test_correct occupied_index)

lemma occ_set_members [simp]: "pb.occ_set = members"
  by (rule ext) (simp add: pb.occ_set_def members_def)

subsection \<open>Properties\<close>

lemma bitset_best_price:
  assumes "bs_ok b"
  shows "highest b = Some (if members b = {} then NONE else Max (members b))"
    "lowest b = Some (if members b = {} then NONE else Min (members b))"
  using pb.hi_Max [OF assms] pb.lo_Min [OF assms] by simp_all

text \<open>
  C1. The bitset refines a finite set of price indices: on a well-formed bitset, \<open>set\<close> and
  \<open>clear\<close> are defined for every price index, keep the tier invariant, and insert respectively
  remove exactly that index; \<open>test\<close> reads membership; and the look-up of the best price through the
  three tiers, \<open>highest\<close> and \<open>lowest\<close>, never counts the zeros of a zero word nor reads a word out of
  range, and returns the maximum respectively the minimum of the occupied indices, or \<open>NONE\<close>
  when there is none.
\<close>

theorem bitset_refines_set:
  assumes "bs_ok b" and "i < PRICE_LEVELS"
  shows "(\<exists>b'. bs_set i b = Some b' \<and> bs_ok b' \<and> members b' = insert i (members b))
       \<and> (\<exists>b'. bs_clear i b = Some b' \<and> bs_ok b' \<and> members b' = members b - {i})
       \<and> bs_test i b = Some (i \<in> members b)
       \<and> highest b = Some (if members b = {} then NONE else Max (members b))
       \<and> lowest b = Some (if members b = {} then NONE else Min (members b))"
proof -
  from pb.put_law [OF assms] have "\<exists>b'. bs_set i b = Some b' \<and> bs_ok b' \<and> members b' = insert i (members b)"
    by (auto simp: members_def)
  moreover from pb.del_law [OF assms]
  have "\<exists>b'. bs_clear i b = Some b' \<and> bs_ok b' \<and> members b' = members b - {i}"
    by (auto simp: members_def)
  moreover have "bs_test i b = Some (i \<in> members b)" using pb.test_law [OF assms(2)] by (simp add: members_def)
  ultimately show ?thesis using bitset_best_price [OF assms(1)] by blast
qed

theorem bitset_refines_set_witness:
  "\<exists>b b'. bs_ok b \<and> members b = {7, 999999} \<and> highest b = Some 999999 \<and> lowest b = Some 7
     \<and> bs_clear 7 b = Some b' \<and> bs_ok b' \<and> members b' = {999999}"
proof -
  obtain b1 where b1: "bs_set 7 bs_new = Some b1" "bs_ok b1" "occupied b1 = (\<lambda>j. occupied bs_new j \<or> j = 7)"
    using pb.put_law [OF pb.ok_new, of 7] by (auto simp: PRICE_LEVELS_def)
  obtain b where b: "bs_set 999999 b1 = Some b" "bs_ok b" "occupied b = (\<lambda>j. occupied b1 j \<or> j = 999999)"
    using pb.put_law [OF b1(2), of 999999] by (auto simp: PRICE_LEVELS_def)
  have m: "members b = {7, 999999}"
    using b(3) b1(3) pb.occ_new by (auto simp: members_def)
  have "7 < PRICE_LEVELS" by (simp add: PRICE_LEVELS_def)
  from bitset_refines_set [OF b(2) this] obtain b' where "bs_clear 7 b = Some b'" "bs_ok b'" "members b' = members b - {7}"
    "highest b = Some 999999" "lowest b = Some 7" using m by auto
  with b(2) m show ?thesis by (intro exI [of _ b] exI [of _ b']) auto
qed

end
