(* ===== verification/Order_Pool.thy ===== *)
theory Order_Pool
  imports Order_Types
begin

section \<open>The order pool\<close>

text \<open>
  Models \<^verbatim>\<open>src/src/core/order_pool.h\<close>: the arena of orders and the stack of free slots. The
  vector \<open>arena_\<close> is its content by address (a \<open>heap\<close>) and its size; \<open>free_list_\<close> is the
  list of free addresses with \<open>back()\<close> its last element. \<open>allocate\<close> on an empty free list
  fails its assertion and has no result.

  The locale \<open>slot_allocator\<close> states what a client relies on: allocation hands out a slot that
  was free, deallocation gives it back, and nothing else changes hands.
\<close>

subsection \<open>The class\<close>

record OrderPool =
  arena :: heap
  arena_size :: nat
  free_list :: "addr list"

definition zero_order :: Order where
  "zero_order = \<lparr>o_price = 0, o_quantity = 0, o_filled_qty = 0, o_side = Buy, o_type = Limit,
     o_prev = None, o_next = None, o_id = 0, o_client_id = 0, o_timestamp = 0\<rparr>"

text \<open>The constructor's loop, from \<open>i = capacity\<close> down to 1.\<close>

fun push_slots :: "nat \<Rightarrow> addr list \<Rightarrow> addr list" where
  "push_slots 0 fl = fl"
| "push_slots (Suc i) fl = push_slots i (fl @ [i])"

definition pool_new :: "nat \<Rightarrow> OrderPool" where
  "pool_new capacity' = \<lparr>arena = (\<lambda>_. zero_order), arena_size = capacity', free_list = push_slots capacity' []\<rparr>"

definition allocate :: "OrderPool \<Rightarrow> (addr \<times> OrderPool) option" where
  "allocate p = (if free_list p = [] then None
     else Some (last (free_list p), p\<lparr>free_list := butlast (free_list p)\<rparr>))"

definition deallocate :: "addr \<Rightarrow> OrderPool \<Rightarrow> OrderPool" where
  "deallocate a p = p\<lparr>arena := upd_order a (\<lambda>x. x\<lparr>o_prev := None, o_next := None, o_filled_qty := 0\<rparr>) (arena p),
     free_list := free_list p @ [a]\<rparr>"

definition available :: "OrderPool \<Rightarrow> nat" where
  "available p = length (free_list p)"

definition capacity :: "OrderPool \<Rightarrow> nat" where
  "capacity p = arena_size p"

subsection \<open>Invariant\<close>

definition free_slots :: "OrderPool \<Rightarrow> addr set" where
  "free_slots p = set (free_list p)"

definition pool_ok :: "OrderPool \<Rightarrow> bool" where
  "pool_ok p \<longleftrightarrow> distinct (free_list p) \<and> free_slots p \<subseteq> {..<capacity p}"

lemma push_slots_eq: "push_slots n fl = fl @ rev [0..<n]"
  by (induction n fl rule: push_slots.induct) auto

lemma pool_new_ok: "pool_ok (pool_new n)" "free_slots (pool_new n) = {..<n}"
  "capacity (pool_new n) = n" "available (pool_new n) = n"
  by (auto simp: pool_ok_def pool_new_def free_slots_def push_slots_eq capacity_def available_def)

lemma available_card: "pool_ok p \<Longrightarrow> available p = card (free_slots p)"
  by (simp add: pool_ok_def available_def free_slots_def distinct_card)

lemma allocate_law:
  assumes "pool_ok p" "available p \<noteq> 0"
  shows "\<exists>a p'. allocate p = Some (a, p') \<and> pool_ok p' \<and> a \<in> free_slots p \<and>
           free_slots p' = free_slots p - {a} \<and> capacity p' = capacity p"
proof -
  from assms obtain fl a where fl: "free_list p = fl @ [a]"
    by (cases "free_list p" rule: rev_cases) (auto simp: available_def)
  with assms show ?thesis
    by (auto simp: allocate_def pool_ok_def free_slots_def capacity_def)
qed

lemma deallocate_law:
  assumes "pool_ok p" "a < capacity p" "a \<notin> free_slots p"
  shows "pool_ok (deallocate a p)" "free_slots (deallocate a p) = insert a (free_slots p)"
  using assms by (auto simp: pool_ok_def deallocate_def free_slots_def capacity_def)

lemma allocate_arena: "allocate p = Some (a, p') \<Longrightarrow> arena p' = arena p \<and> arena_size p' = arena_size p"
  by (auto simp: allocate_def split: if_splits)

lemma deallocate_simps [simp]:
  "arena_size (deallocate a p) = arena_size p" "capacity (deallocate a p) = capacity p"
  "q \<noteq> a \<Longrightarrow> arena (deallocate a p) q = arena p q"
  by (simp_all add: deallocate_def capacity_def)

lemma deallocate_id [simp]: "o_id (arena (deallocate a p) q) = o_id (arena p q)"
  by (simp add: deallocate_def upd_order_apply)

subsection \<open>The interface\<close>

locale slot_allocator =
  fixes alloc :: "'p \<Rightarrow> (nat \<times> 'p) option" and dealloc :: "nat \<Rightarrow> 'p \<Rightarrow> 'p"
    and avail :: "'p \<Rightarrow> nat" and cap :: "'p \<Rightarrow> nat"
    and free :: "'p \<Rightarrow> nat set" and ok :: "'p \<Rightarrow> bool"
  assumes free_range: "ok p \<Longrightarrow> free p \<subseteq> {..<cap p}"
    and avail_card: "ok p \<Longrightarrow> avail p = card (free p)"
    and alloc_law: "ok p \<Longrightarrow> avail p \<noteq> 0 \<Longrightarrow> \<exists>a p'. alloc p = Some (a, p') \<and> ok p' \<and>
           a \<in> free p \<and> free p' = free p - {a} \<and> cap p' = cap p"
    and dealloc_ok: "ok p \<Longrightarrow> a < cap p \<Longrightarrow> a \<notin> free p \<Longrightarrow> ok (dealloc a p)"
    and dealloc_free: "ok p \<Longrightarrow> a < cap p \<Longrightarrow> a \<notin> free p \<Longrightarrow> free (dealloc a p) = insert a (free p)"
    and dealloc_cap: "cap (dealloc a p) = cap p"
begin

lemma finite_free: "ok p \<Longrightarrow> finite (free p)"
  by (rule finite_subset [OF free_range]) auto

lemma used_count:
  assumes "ok p" shows "card ({..<cap p} - free p) = cap p - avail p"
  using assms by (simp add: card_Diff_subset finite_free free_range avail_card)

text \<open>A slot that is allocated and given back leaves the set of free slots as it was.\<close>

lemma alloc_dealloc_roundtrip:
  assumes "ok p" "avail p \<noteq> 0"
  shows "\<exists>a p'. alloc p = Some (a, p') \<and> ok (dealloc a p') \<and> free (dealloc a p') = free p \<and>
           avail (dealloc a p') = avail p"
proof -
  from alloc_law [OF assms] obtain a p' where
    a: "alloc p = Some (a, p')" "ok p'" "a \<in> free p" "free p' = free p - {a}" "cap p' = cap p" by blast
  from a free_range [OF assms(1)] have lt: "a < cap p'" and nf: "a \<notin> free p'" by auto
  note d = dealloc_ok [OF a(2) lt nf] dealloc_free [OF a(2) lt nf]
  from d(2) a(3,4) have "free (dealloc a p') = free p" by auto
  with a(1) d(1) avail_card assms(1) show ?thesis by metis
qed

text \<open>Two allocations in a row hand out different slots.\<close>

lemma alloc_alloc_distinct:
  assumes "ok p" "alloc p = Some (a1, p1)" "alloc p1 = Some (a2, p2)" "avail p \<noteq> 0" "avail p1 \<noteq> 0"
  shows "a1 \<noteq> a2"
  using alloc_law [OF assms(1,4)] alloc_law [of p1] assms(2,3,5) by auto

end

interpretation op: slot_allocator allocate deallocate available capacity free_slots pool_ok
proof
  show "pool_ok p \<Longrightarrow> free_slots p \<subseteq> {..<capacity p}" for p by (simp add: pool_ok_def)
qed (simp_all add: available_card allocate_law deallocate_law)

subsection \<open>Properties\<close>

text \<open>
  C3. The pool never hands out a slot twice and loses none: on a well-formed pool with a free
  slot, \<open>allocate\<close> passes its assertion and returns a free address inside the arena, and
  deallocating it restores the set of free slots and the available count.
\<close>

theorem pool_allocate_deallocate:
  assumes "pool_ok p" and "available p \<noteq> 0"
  shows "\<exists>a p'. allocate p = Some (a, p') \<and> a < capacity p \<and> a \<in> free_slots p
           \<and> free_slots p' = free_slots p - {a} \<and> pool_ok p' \<and> arena p' = arena p
           \<and> pool_ok (deallocate a p') \<and> free_slots (deallocate a p') = free_slots p
           \<and> available (deallocate a p') = available p"
proof -
  from op.alloc_law [OF assms] obtain a p' where
    a: "allocate p = Some (a, p')" "pool_ok p'" "a \<in> free_slots p" "free_slots p' = free_slots p - {a}" by blast
  from op.alloc_dealloc_roundtrip [OF assms] a(1)
  have "pool_ok (deallocate a p')" "free_slots (deallocate a p') = free_slots p"
    "available (deallocate a p') = available p" by auto
  moreover have "a < capacity p" using op.free_range [OF assms(1)] a(3) by auto
  ultimately show ?thesis using a allocate_arena [OF a(1)] by blast
qed

theorem pool_allocate_deallocate_witness:
  "pool_ok (pool_new 3) \<and> available (pool_new 3) \<noteq> 0 \<and>
   (\<exists>a p'. allocate (pool_new 3) = Some (a, p') \<and> a < 3 \<and> available (deallocate a p') = 3)"
  using pool_allocate_deallocate [of "pool_new 3"] by (auto simp: pool_new_ok)

end
