(* ===== verification/Price_Level.thy ===== *)
theory Price_Level
  imports Order_Types
begin

section \<open>Price levels: intrusive doubly-linked queues of orders\<close>

text \<open>
  Models \<^verbatim>\<open>src/src/core/price_level.h\<close>. The list links live in the orders, so \<open>push\<close> and
  \<open>remove\<close> take the heap and return it changed. The abstraction of a level is the list of the
  addresses it links, head first (\<open>level_rep\<close>); the aggregate \<open>total_qty_\<close> is the sum of the
  remaining quantities modulo \<open>2 ^ 32\<close> and \<open>count_\<close> the length.

  The locale \<open>order_queue\<close> is the interface of the order book to a level: appending at the back,
  removing anywhere, reading the front, and the frame condition that nothing but the links of
  the level's own orders changes.
\<close>

subsection \<open>The class\<close>

record PriceLevel =
  lv_head :: "addr option"
  lv_tail :: "addr option"
  lv_total_qty :: Quantity
  lv_count :: u32

definition lv_new :: PriceLevel where
  "lv_new = \<lparr>lv_head = None, lv_tail = None, lv_total_qty = 0, lv_count = 0\<rparr>"

definition lv_push :: "addr \<Rightarrow> heap \<Rightarrow> PriceLevel \<Rightarrow> heap \<times> PriceLevel" where
  "lv_push a h lv =
     (let h1 = upd_order a (\<lambda>x. x\<lparr>o_prev := lv_tail lv, o_next := None\<rparr>) h;
          (h2, head') = (case lv_tail lv of
              Some t \<Rightarrow> (upd_order t (\<lambda>x. x\<lparr>o_next := Some a\<rparr>) h1, lv_head lv)
            | None \<Rightarrow> (h1, Some a))
      in (h2, \<lparr>lv_head = head', lv_tail = Some a,
               lv_total_qty = lv_total_qty lv + remaining (h2 a), lv_count = lv_count lv + 1\<rparr>))"

definition lv_remove :: "addr \<Rightarrow> heap \<Rightarrow> PriceLevel \<Rightarrow> heap \<times> PriceLevel" where
  "lv_remove a h lv =
     (let (h1, head') = (case o_prev (h a) of
              Some p \<Rightarrow> (upd_order p (\<lambda>x. x\<lparr>o_next := o_next (h a)\<rparr>) h, lv_head lv)
            | None \<Rightarrow> (h, o_next (h a)));
          (h2, tail') = (case o_next (h1 a) of
              Some n \<Rightarrow> (upd_order n (\<lambda>x. x\<lparr>o_prev := o_prev (h1 a)\<rparr>) h1, lv_tail lv)
            | None \<Rightarrow> (h1, o_prev (h1 a)))
      in (upd_order a (\<lambda>x. x\<lparr>o_prev := None, o_next := None\<rparr>) h2,
          \<lparr>lv_head = head', lv_tail = tail',
           lv_total_qty = lv_total_qty lv - remaining (h2 a), lv_count = lv_count lv - 1\<rparr>))"

definition lv_front :: "PriceLevel \<Rightarrow> addr option" where
  "lv_front lv = lv_head lv"

definition lv_empty :: "PriceLevel \<Rightarrow> bool" where
  "lv_empty lv \<longleftrightarrow> lv_count lv = 0"

text \<open>The argument of \<open>adjust_qty\<close> is an \<open>int32_t\<close>, here its two's complement word.\<close>

definition lv_adjust_qty :: "u32 \<Rightarrow> PriceLevel \<Rightarrow> PriceLevel" where
  "lv_adjust_qty delta lv = lv\<lparr>lv_total_qty := lv_total_qty lv + delta\<rparr>"

subsection \<open>List segments in the heap\<close>

text \<open>
  \<open>dls h p s as n\<close>: starting at pointer \<open>s\<close>, whose predecessor is \<open>p\<close>, the links run through the
  orders \<open>as\<close> and end at pointer \<open>n\<close>.
\<close>

primrec dls :: "heap \<Rightarrow> addr option \<Rightarrow> addr option \<Rightarrow> addr list \<Rightarrow> addr option \<Rightarrow> bool" where
  "dls h p s [] n \<longleftrightarrow> s = n"
| "dls h p s (a # as) n \<longleftrightarrow> s = Some a \<and> o_prev (h a) = p \<and> dls h (Some a) (o_next (h a)) as n"

definition end_ptr :: "addr option \<Rightarrow> addr list \<Rightarrow> addr option" where
  "end_ptr p as = (if as = [] then p else Some (last as))"

definition level_rep :: "heap \<Rightarrow> PriceLevel \<Rightarrow> addr list \<Rightarrow> bool" where
  "level_rep h lv as \<longleftrightarrow> distinct as \<and> dls h None (lv_head lv) as None \<and> lv_tail lv = end_ptr None as
     \<and> lv_total_qty lv = (\<Sum>a\<leftarrow>as. remaining (h a)) \<and> lv_count lv = of_nat (length as)
     \<and> length as < 2 ^ 32"

lemma end_ptr_simps [simp]:
  "end_ptr p [] = p" "end_ptr p (as @ [a]) = Some a" "end_ptr p (a # as) = end_ptr (Some a) as"
  by (simp_all add: end_ptr_def)

lemma end_ptr_append: "end_ptr p (as @ bs) = end_ptr (end_ptr p as) bs"
  by (simp add: end_ptr_def)

lemma dls_append:
  "dls h p s (as @ bs) n \<longleftrightarrow> (\<exists>m. dls h p s as m \<and> dls h (end_ptr p as) m bs n)"
  by (induction as arbitrary: p s) auto

lemma dls_frame:
  assumes "\<And>a. a \<in> set as \<Longrightarrow> o_prev (h' a) = o_prev (h a) \<and> o_next (h' a) = o_next (h a)"
  shows "dls h' p s as n = dls h p s as n"
  using assms by (induction as arbitrary: p s) auto

lemma dls_start: "dls h p s as n \<Longrightarrow> s = (if as = [] then n else Some (hd as))"
  by (cases as) auto

text \<open>Redirecting the last \<open>next\<close> pointer of a segment.\<close>

lemma dls_retarget:
  assumes "dls h p s (as @ [z]) n" "z \<notin> set as"
  shows "dls (upd_order z (\<lambda>x. x\<lparr>o_next := m\<rparr>) h) p s (as @ [z]) m"
proof -
  have "dls (upd_order z (\<lambda>x. x\<lparr>o_next := m\<rparr>) h) p s as k = dls h p s as k" for k
    using assms(2) by (intro dls_frame) (auto simp: upd_order_apply)
  with assms(1) show ?thesis by (auto simp: dls_append)
qed

text \<open>Changing the predecessor of a segment.\<close>

lemma dls_repred:
  assumes "dls h p s (a # as) n" "a \<notin> set as"
  shows "dls (upd_order a (\<lambda>x. x\<lparr>o_prev := q\<rparr>) h) q s (a # as) n"
proof -
  have "dls (upd_order a (\<lambda>x. x\<lparr>o_prev := q\<rparr>) h) (Some a) (o_next (h a)) as n = dls h (Some a) (o_next (h a)) as n"
    using assms(2) by (intro dls_frame) (auto simp: upd_order_apply)
  with assms(1) show ?thesis by simp
qed

lemma sum_remaining_cong:
  "(\<And>a. a \<in> set as \<Longrightarrow> remaining (h' a) = remaining (h a)) \<Longrightarrow>
   (\<Sum>a\<leftarrow>as. remaining (h' a)) = (\<Sum>a\<leftarrow>as. remaining (h a))"
  by (induction as) auto

subsection \<open>The operations on the represented list\<close>

lemma lv_push_payload:
  assumes "lv_push a h lv = (h', lv')"
  shows "strip (h' p) = strip (h p)"
  using assms by (auto simp: lv_push_def upd_order_apply strip_def Let_def split: option.splits)

lemma lv_remove_payload:
  assumes "lv_remove a h lv = (h', lv')"
  shows "strip (h' p) = strip (h p)"
  using assms by (auto simp: lv_remove_def upd_order_apply strip_def Let_def split: option.splits prod.splits)

lemma remaining_payload:
  assumes "strip x = strip y" shows "remaining x = remaining y"
  using payload_fields [OF assms] by (simp add: remaining_def)

lemma is_filled_payload:
  assumes "strip x = strip y" shows "is_filled x = is_filled y"
  using payload_fields [OF assms] by (simp add: is_filled_def)

lemma lv_push_rep:
  assumes rep: "level_rep h lv as" and a: "a \<notin> set as" and len: "length as + 1 < 2 ^ 32"
    and push: "lv_push a h lv = (h', lv')"
  shows "level_rep h' lv' (as @ [a])"
proof -
  have pay: "\<And>p. remaining (h' p) = remaining (h p)"
    using lv_push_payload [OF push] by (rule remaining_payload)
  have d: "dls h' None (lv_head lv') (as @ [a]) None \<and> lv_tail lv' = Some a"
  proof (cases as rule: rev_cases)
    case Nil
    with rep push show ?thesis by (auto simp: level_rep_def lv_push_def Let_def)
  next
    case (snoc bs z)
    let ?h1 = "upd_order a (\<lambda>x. x\<lparr>o_prev := Some z, o_next := None\<rparr>) h"
    let ?h2 = "upd_order z (\<lambda>x. x\<lparr>o_next := Some a\<rparr>) ?h1"
    from rep snoc have t: "lv_tail lv = Some z" by (simp add: level_rep_def)
    with push have h': "h' = ?h2" "lv_head lv' = lv_head lv" "lv_tail lv' = Some a"
      by (auto simp: lv_push_def Let_def)
    have "dls h None (lv_head lv) (bs @ [z]) None" and z: "z \<notin> set bs" "a \<noteq> z"
      using rep a snoc by (auto simp: level_rep_def)
    then have "dls ?h1 None (lv_head lv) (bs @ [z]) None"
      using a snoc by (subst dls_frame [of _ _ h]) (auto simp: upd_order_apply)
    from dls_retarget [OF this z(1)] have "dls ?h2 None (lv_head lv) (bs @ [z]) (Some a)" .
    then have "dls ?h2 None (lv_head lv) ((bs @ [z]) @ [a]) None"
      using z unfolding dls_append [of _ _ _ "bs @ [z]"] by auto
    with h' snoc show ?thesis by simp
  qed
  have "lv_total_qty lv' = lv_total_qty lv + remaining (h' a)" "lv_count lv' = lv_count lv + 1"
    using push by (auto simp: lv_push_def Let_def split: option.splits)
  moreover have "(\<Sum>p\<leftarrow>as. remaining (h' p)) = (\<Sum>p\<leftarrow>as. remaining (h p))"
    using pay by (intro sum_remaining_cong) simp
  ultimately show ?thesis
    using rep a len d by (auto simp: level_rep_def add.commute)
qed

text \<open>The two halves of unlinking: past the predecessor, then past the successor.\<close>

lemma unlink_left:
  assumes d: "dls h None s (xs @ a # ys) None" and dist: "distinct (xs @ a # ys)"
    and u: "(h1, s') = (case o_prev (h a) of
              Some p \<Rightarrow> (upd_order p (\<lambda>x. x\<lparr>o_next := o_next (h a)\<rparr>) h, s)
            | None \<Rightarrow> (h, o_next (h a)))"
  shows "dls h1 None s' xs (o_next (h a))" "h1 a = h a" "\<And>y. y \<in> set ys \<Longrightarrow> h1 y = h y"
proof -
  from d have dx: "dls h None s xs (Some a)" and p: "o_prev (h a) = end_ptr None xs"
    by (auto simp: dls_append)
  have "dls h1 None s' xs (o_next (h a)) \<and> h1 a = h a \<and> (\<forall>y\<in>set ys. h1 y = h y)"
  proof (cases xs rule: rev_cases)
    case Nil
    with u p show ?thesis by simp
  next
    case (snoc bs z)
    with p u have "h1 = upd_order z (\<lambda>x. x\<lparr>o_next := o_next (h a)\<rparr>) h" "s' = s" by auto
    moreover from dls_retarget [of h None s bs z "Some a" "o_next (h a)"] dx snoc dist
    have "dls (upd_order z (\<lambda>x. x\<lparr>o_next := o_next (h a)\<rparr>) h) None s xs (o_next (h a))" by auto
    ultimately show ?thesis using dist snoc by (auto simp: upd_order_apply)
  qed
  then show "dls h1 None s' xs (o_next (h a))" "h1 a = h a" "\<And>y. y \<in> set ys \<Longrightarrow> h1 y = h y" by auto
qed

lemma unlink_right:
  assumes d: "dls h1 (Some a) m ys None" and dist: "distinct (xs @ a # ys)"
    and dx: "dls h1 None s' xs m"
    and u: "(h2, t') = (case m of
              Some n \<Rightarrow> (upd_order n (\<lambda>x. x\<lparr>o_prev := end_ptr None xs\<rparr>) h1, end_ptr (Some a) ys)
            | None \<Rightarrow> (h1, end_ptr None xs))"
  shows "dls h2 None s' (xs @ ys) None" "t' = end_ptr None (xs @ ys)" "h2 a = h1 a"
proof -
  have "dls h2 None s' (xs @ ys) None \<and> t' = end_ptr None (xs @ ys) \<and> h2 a = h1 a"
  proof (cases ys)
    case Nil
    with d u have "m = None" "h2 = h1" "t' = end_ptr None xs" by auto
    with dx Nil show ?thesis by simp
  next
    case (Cons y ys')
    let ?h2 = "upd_order y (\<lambda>x. x\<lparr>o_prev := end_ptr None xs\<rparr>) h1"
    from Cons d have m: "m = Some y" by simp
    with u Cons have eq: "h2 = ?h2" "t' = end_ptr (Some y) ys'" by auto
    have "dls ?h2 None s' xs m"
      using dx dist Cons by (subst dls_frame [of _ _ h1]) (auto simp: upd_order_apply)
    moreover have "dls ?h2 (end_ptr None xs) m ys None"
      using dls_repred [of h1 "Some a" m y ys' None "end_ptr None xs"] d dist Cons by auto
    ultimately show ?thesis
      using eq dist Cons by (auto simp: dls_append end_ptr_append)
  qed
  then show "dls h2 None s' (xs @ ys) None" "t' = end_ptr None (xs @ ys)" "h2 a = h1 a" by auto
qed

lemma lv_remove_rep:
  assumes rep: "level_rep h lv (xs @ a # ys)" and rem: "lv_remove a h lv = (h', lv')"
  shows "level_rep h' lv' (xs @ ys)"
proof -
  have pay: "\<And>p. remaining (h' p) = remaining (h p)"
    using lv_remove_payload [OF rem] by (rule remaining_payload)
  from rep have d: "dls h None (lv_head lv) (xs @ a # ys) None" and dist: "distinct (xs @ a # ys)"
    and tl: "lv_tail lv = end_ptr (Some a) ys"
    by (auto simp: level_rep_def end_ptr_append)
  obtain h1 s' where u1: "(h1, s') = (case o_prev (h a) of
              Some p \<Rightarrow> (upd_order p (\<lambda>x. x\<lparr>o_next := o_next (h a)\<rparr>) h, lv_head lv)
            | None \<Rightarrow> (h, o_next (h a)))" by (metis surj_pair)
  note l = unlink_left [OF d dist u1]
  from d have p: "o_prev (h a) = end_ptr None xs" and dy: "dls h (Some a) (o_next (h a)) ys None"
    by (auto simp: dls_append)
  from dy have dy1: "dls h1 (Some a) (o_next (h a)) ys None"
    using l(3) by (subst dls_frame [of _ _ h]) auto
  obtain h2 t' where u2: "(h2, t') = (case o_next (h1 a) of
              Some n \<Rightarrow> (upd_order n (\<lambda>x. x\<lparr>o_prev := o_prev (h1 a)\<rparr>) h1, lv_tail lv)
            | None \<Rightarrow> (h1, o_prev (h1 a)))" by (metis surj_pair)
  note r = unlink_right [OF dy1 dist l(1) u2 [unfolded l(2) p tl]]
  have h': "h' = upd_order a (\<lambda>x. x\<lparr>o_prev := None, o_next := None\<rparr>) h2"
    and lv': "lv' = \<lparr>lv_head = s', lv_tail = t', lv_total_qty = lv_total_qty lv - remaining (h a), lv_count = lv_count lv - 1\<rparr>"
    using rem l(2) r(3) unfolding lv_remove_def u1 [symmetric] u2 [symmetric] Let_def prod.case
    by simp_all
  have "dls h' None s' (xs @ ys) None"
    using r(1) dist h' by (subst dls_frame [of _ _ h2]) (auto simp: upd_order_apply)
  moreover have "(\<Sum>p\<leftarrow>xs @ ys. remaining (h' p)) = (\<Sum>p\<leftarrow>xs @ ys. remaining (h p))"
    using pay by (intro sum_remaining_cong) simp
  ultimately show ?thesis
    using rep lv' r(2) by (simp add: level_rep_def)
qed

subsection \<open>Frame conditions\<close>

lemma lv_push_frame:
  assumes "level_rep h lv as" "lv_push a h lv = (h', lv')" "p \<noteq> a" "p \<notin> set as"
  shows "h' p = h p"
  using assms
  by (auto simp: level_rep_def lv_push_def Let_def upd_order_apply end_ptr_def split: option.splits if_splits)

lemma lv_remove_frame:
  assumes "level_rep h lv (xs @ a # ys)" "lv_remove a h lv = (h', lv')" "p \<notin> set (xs @ a # ys)"
  shows "h' p = h p"
proof -
  from assms(1) have "o_prev (h a) = end_ptr None xs" "dls h (Some a) (o_next (h a)) ys None"
    "distinct (xs @ a # ys)"
    by (auto simp: level_rep_def dls_append)
  moreover from this have "o_next (h a) = (if ys = [] then None else Some (hd ys))"
    using dls_start by metis
  ultimately show ?thesis
    using assms(2,3)
    by (auto simp: lv_remove_def Let_def upd_order_apply end_ptr_def split: option.splits if_splits)
qed

lemma level_rep_cong:
  assumes "level_rep h lv as" "\<And>a. a \<in> set as \<Longrightarrow> h' a = h a"
  shows "level_rep h' lv as"
  using assms(1) dls_frame [of as h' h] sum_remaining_cong [of as h' h] assms(2)
  by (simp add: level_rep_def)

lemma level_rep_fill:
  assumes "level_rep h lv (a # as)"
  shows "level_rep (upd_order a (fill q) h) (lv_adjust_qty (- q) lv) (a # as)"
proof -
  from assms have a: "a \<notin> set as" by (simp add: level_rep_def)
  have "dls (upd_order a (fill q) h) p s (a # as) None = dls h p s (a # as) None" for p s
    by (intro dls_frame) (simp add: upd_order_apply)
  moreover have "(\<Sum>p\<leftarrow>as. remaining (upd_order a (fill q) h p)) = (\<Sum>p\<leftarrow>as. remaining (h p))"
    using a by (intro sum_remaining_cong) (auto simp: upd_order_apply)
  moreover have "remaining (fill q (h a)) = remaining (h a) - q"
    by (simp add: remaining_def)
  ultimately show ?thesis
    using assms by (simp add: level_rep_def lv_adjust_qty_def del: dls.simps)
qed

lemma level_rep_front: "level_rep h lv as \<Longrightarrow> lv_front lv = (if as = [] then None else Some (hd as))"
  using dls_start [of h None "lv_head lv" as None] by (simp add: level_rep_def lv_front_def)

lemma level_rep_count: "level_rep h lv as \<Longrightarrow> unat (lv_count lv) = length as"
  by (simp add: level_rep_def unat_of_nat)

lemma level_rep_total: "level_rep h lv as \<Longrightarrow> lv_total_qty lv = (\<Sum>a\<leftarrow>as. remaining (h a))"
  by (simp add: level_rep_def)

lemma level_rep_empty: "level_rep h lv as \<Longrightarrow> lv_empty lv \<longleftrightarrow> as = []"
  using level_rep_count [of h lv as] by (auto simp: lv_empty_def unat_eq_zero)

lemma level_front_cases: "level_rep h lv as \<Longrightarrow> lv_front lv = (case as of [] \<Rightarrow> None | x # _ \<Rightarrow> Some x) \<and> (lv_empty lv \<longleftrightarrow> as = [])"
  using level_rep_front [of h lv as] level_rep_empty [of h lv as] by (cases as) simp_all

lemma level_rep_new: "level_rep h lv_new []"
  by (simp add: level_rep_def lv_new_def)

text \<open>Reading the list of a level off the heap, following \<open>next\<close> at most \<open>n\<close> times.\<close>

primrec walk :: "nat \<Rightarrow> heap \<Rightarrow> addr option \<Rightarrow> addr list" where
  "walk 0 h s = []"
| "walk (Suc n) h s = (case s of None \<Rightarrow> [] | Some a \<Rightarrow> a # walk n h (o_next (h a)))"

lemma walk_dls: "dls h p s as None \<Longrightarrow> length as \<le> n \<Longrightarrow> walk n h s = as"
proof (induction as arbitrary: p s n)
  case Nil
  then show ?case by (cases n) auto
next
  case (Cons a as)
  then show ?case by (cases n) auto
qed

lemma level_rep_walk: "level_rep h lv as \<Longrightarrow> length as \<le> n \<Longrightarrow> walk n h (lv_head lv) = as"
  by (auto simp: level_rep_def intro: walk_dls)

lemma level_rep_unique:
  assumes "level_rep h lv as" "level_rep h lv bs" shows "as = bs"
  using level_rep_walk [OF assms(1), of "max (length as) (length bs)"]
    level_rep_walk [OF assms(2), of "max (length as) (length bs)"] by simp

subsection \<open>The interface\<close>

locale order_queue =
  fixes new :: "'l" and push :: "addr \<Rightarrow> heap \<Rightarrow> 'l \<Rightarrow> heap \<times> 'l" and remove :: "addr \<Rightarrow> heap \<Rightarrow> 'l \<Rightarrow> heap \<times> 'l"
    and front :: "'l \<Rightarrow> addr option" and is_empty :: "'l \<Rightarrow> bool"
    and rep :: "heap \<Rightarrow> 'l \<Rightarrow> addr list \<Rightarrow> bool" and bound :: nat
  assumes new_rep: "rep h new []"
    and push_rep: "rep h lv as \<Longrightarrow> a \<notin> set as \<Longrightarrow> length as + 1 < bound \<Longrightarrow>
          push a h lv = (h', lv') \<Longrightarrow> rep h' lv' (as @ [a])"
    and remove_rep: "rep h lv (xs @ a # ys) \<Longrightarrow> remove a h lv = (h', lv') \<Longrightarrow> rep h' lv' (xs @ ys)"
    and front_rep: "rep h lv as \<Longrightarrow> front lv = (if as = [] then None else Some (hd as))"
    and empty_rep: "rep h lv as \<Longrightarrow> is_empty lv \<longleftrightarrow> as = []"
    and rep_cong: "rep h lv as \<Longrightarrow> (\<And>a. a \<in> set as \<Longrightarrow> h' a = h a) \<Longrightarrow> rep h' lv as"
    and push_frame: "rep h lv as \<Longrightarrow> push a h lv = (h', lv') \<Longrightarrow> p \<noteq> a \<Longrightarrow> p \<notin> set as \<Longrightarrow> h' p = h p"
    and push_payload: "push a h lv = (h', lv') \<Longrightarrow> strip (h' p) = strip (h p)"
    and remove_frame: "rep h lv (xs @ a # ys) \<Longrightarrow> remove a h lv = (h', lv') \<Longrightarrow>
          p \<notin> set (xs @ a # ys) \<Longrightarrow> h' p = h p"
    and remove_payload: "remove a h lv = (h', lv') \<Longrightarrow> strip (h' p) = strip (h p)"
begin

text \<open>Operations on one level leave a level with other orders alone.\<close>

lemma push_other:
  assumes "rep h lv as" "rep h lv2 bs" "push a h lv = (h', lv')" "set bs \<inter> insert a (set as) = {}"
  shows "rep h' lv2 bs"
  using assms(4) by (intro rep_cong [OF assms(2)] push_frame [OF assms(1,3)]) auto

lemma remove_other:
  assumes "rep h lv (xs @ a # ys)" "rep h lv2 bs" "remove a h lv = (h', lv')"
    "set bs \<inter> set (xs @ a # ys) = {}"
  shows "rep h' lv2 bs"
  using assms(4) by (intro rep_cong [OF assms(2)] remove_frame [OF assms(1,3)]) auto

text \<open>First in, first out: pushing then removing the front drops the oldest order.\<close>

lemma push_then_remove_front:
  assumes "rep h lv (a # as)" "b \<notin> set (a # as)" "length as + 2 < bound"
    "push b h lv = (h1, lv1)" "remove a h1 lv1 = (h2, lv2)"
  shows "front lv1 = Some a" "rep h2 lv2 (as @ [b])"
proof -
  from push_rep [OF assms(1,2) _ assms(4)] assms(3) have r: "rep h1 lv1 ((a # as) @ [b])" by simp
  then show "front lv1 = Some a" by (simp add: front_rep)
  from r have "rep h1 lv1 ([] @ a # as @ [b])" by simp
  from remove_rep [OF this assms(5)] show "rep h2 lv2 (as @ [b])" by simp
qed

text \<open>Pushing an order and removing it again restores the list.\<close>

lemma push_remove_roundtrip:
  assumes "rep h lv as" "a \<notin> set as" "length as + 1 < bound"
    "push a h lv = (h1, lv1)" "remove a h1 lv1 = (h2, lv2)"
  shows "rep h2 lv2 as"
  using remove_rep [of h1 lv1 as a "[]"] push_rep [OF assms(1-4)] assms(5) by simp

end

interpretation pl: order_queue lv_new lv_push lv_remove lv_front lv_empty level_rep "2 ^ 32"
proof
  show "level_rep h' lv as" if "level_rep h lv as" "\<And>a. a \<in> set as \<Longrightarrow> h' a = h a" for h h' lv as
    using that by (rule level_rep_cong)
qed (fact level_rep_new lv_push_rep lv_remove_rep level_rep_front level_rep_empty
      lv_push_frame lv_push_payload lv_remove_frame lv_remove_payload)+

subsection \<open>Properties\<close>

text \<open>
  C4. The intrusive list is a FIFO queue with exact aggregates: on a level that links the orders
  \<open>as\<close>, which may be none, \<open>front\<close> is the oldest order and \<open>empty\<close> tells whether there is one; \<open>push\<close> of a new order appends it, so that
  the front is the new order exactly when the level was empty; \<open>remove\<close> of any linked order deletes exactly that
  one, the last included; and after each operation \<open>total_qty_\<close> is the sum of the
  remaining quantities (modulo \<open>2 ^ 32\<close>) and \<open>count_\<close> the number of orders; no order's payload
  changes. A new level links no orders.
\<close>

theorem price_level_fifo:
  assumes "level_rep h lv as" and "a \<notin> set as" and "length as + 1 < 2 ^ 32"
  shows "lv_front lv = (case as of [] \<Rightarrow> None | x # _ \<Rightarrow> Some x) \<and> (lv_empty lv \<longleftrightarrow> as = []) \<and> level_rep h lv_new []
     \<and> (let (h', lv') = lv_push a h lv in level_rep h' lv' (as @ [a]) \<and> lv_front lv' = Some (hd (as @ [a])) \<and> \<not> lv_empty lv'
            \<and> lv_total_qty lv' = (\<Sum>p\<leftarrow>as @ [a]. remaining (h p)) \<and> unat (lv_count lv') = length as + 1
            \<and> (\<forall>p. strip (h' p) = strip (h p)))
     \<and> (\<forall>xs r ys. as = xs @ r # ys \<longrightarrow>
          (let (h', lv') = lv_remove r h lv in level_rep h' lv' (xs @ ys) \<and> lv_front lv' = (case xs @ ys of [] \<Rightarrow> None | x # _ \<Rightarrow> Some x)
            \<and> lv_total_qty lv' = (\<Sum>p\<leftarrow>xs @ ys. remaining (h p)) \<and> unat (lv_count lv') = length (xs @ ys) \<and> (\<forall>p. strip (h' p) = strip (h p))))"
proof (intro conjI allI impI)
  show "lv_front lv = (case as of [] \<Rightarrow> None | x # _ \<Rightarrow> Some x)" "lv_empty lv \<longleftrightarrow> as = []" using level_front_cases [OF assms(1)] by auto
  show "level_rep h lv_new []" by (rule pl.new_rep)
  obtain h1 lv1 where p: "lv_push a h lv = (h1, lv1)" by fastforce
  note rep = pl.push_rep [OF assms p]
  have "\<And>q. remaining (h1 q) = remaining (h q)" using pl.push_payload [OF p] remaining_payload by metis
  then show "let (h', lv') = lv_push a h lv in level_rep h' lv' (as @ [a]) \<and> lv_front lv' = Some (hd (as @ [a])) \<and> \<not> lv_empty lv'
      \<and> lv_total_qty lv' = (\<Sum>p\<leftarrow>as @ [a]. remaining (h p)) \<and> unat (lv_count lv') = length as + 1 \<and> (\<forall>p. strip (h' p) = strip (h p))"
    using rep level_front_cases [OF rep] level_rep_total [OF rep] level_rep_count [OF rep] pl.push_payload [OF p] by (cases as) (simp_all add: p)
next
  fix xs r ys assume as: "as = xs @ r # ys"
  obtain h2 lv2 where r: "lv_remove r h lv = (h2, lv2)" by fastforce
  note rep = pl.remove_rep [OF assms(1) [unfolded as] r]
  have "\<And>q. remaining (h2 q) = remaining (h q)" using pl.remove_payload [OF r] remaining_payload by metis
  then show "let (h', lv') = lv_remove r h lv in level_rep h' lv' (xs @ ys) \<and> lv_front lv' = (case xs @ ys of [] \<Rightarrow> None | x # _ \<Rightarrow> Some x)
      \<and> lv_total_qty lv' = (\<Sum>p\<leftarrow>xs @ ys. remaining (h p)) \<and> unat (lv_count lv') = length (xs @ ys) \<and> (\<forall>p. strip (h' p) = strip (h p))"
    using rep level_front_cases [OF rep] level_rep_total [OF rep] level_rep_count [OF rep] pl.remove_payload [OF r] by (simp add: r)
qed

theorem price_level_fifo_witness:
  "\<exists>h lv. level_rep h lv [4] \<and> (let (h', lv') = lv_push 7 h lv in level_rep h' lv' [4, 7] \<and> lv_front lv' = Some 4)
     \<and> (let (h', lv') = lv_push 4 h lv_new in lv_front lv' = Some 4)"
proof -
  obtain h lv where p: "lv_push 4 (\<lambda>_. undefined) lv_new = (h, lv)" by fastforce
  have rep: "level_rep h lv [4]"
    using pl.push_rep [OF pl.new_rep _ _ p] by simp
  show ?thesis
    using price_level_fifo [OF rep, of 7] price_level_fifo [OF pl.new_rep, of 4 h] rep by (intro exI [of _ h] exI [of _ lv]) (auto split: prod.splits)
qed

end
