(* ===== verification/Order_Book.thy ===== *)
theory Order_Book
  imports Price_Bitset Order_Pool Price_Level
begin

section \<open>The order book\<close>

text \<open>
  Models \<^verbatim>\<open>src/src/core/order_book.h\<close> and \<^verbatim>\<open>src/src/core/order_book.cpp\<close>: the state of
  \<open>OrderBook\<close> and every member function.

  The two sides of the book are two instances of the same three fields: \<open>bids_\<close>,
  \<open>bid_bits_\<close>, \<open>best_bid_\<close> are the fields of \<open>half b Bids\<close>, and \<open>asks_\<close>, \<open>ask_bits_\<close>,
  \<open>best_ask_\<close> those of \<open>half b Asks\<close>. The two branches of \<open>match_limit\<close> and \<open>match_market\<close>
  run the same loop on opposite sides with different guards; the loop is \<open>sweep\<close>, with the side
  it drains and the part of its guard that concerns the best price as arguments. Likewise
  \<open>rest_order\<close> and \<open>unlink_order\<close> are the two branches of \<open>add_order\<close> and \<open>cancel_order\<close>
  with the side as argument.

  A \<open>PriceLevel&\<close> passed to \<open>drain_level\<close> is passed by value and returned; the caller stores it
  back. Loops are \<open>partial_function (option)\<close> definitions: \<open>None\<close> when the loop does not end.
\<close>

subsection \<open>State\<close>

record Fill =
  f_bid_id :: OrderId
  f_ask_id :: OrderId
  f_bid_client :: ClientId
  f_ask_client :: ClientId
  f_price :: Price
  f_quantity :: Quantity

datatype book_half = Bids | Asks

record half_book =
  levels :: "nat \<Rightarrow> PriceLevel"
  bits :: PriceBitset
  best :: Price

record OrderBook =
  half :: "book_half \<Rightarrow> half_book"
  order_table :: "nat \<Rightarrow> addr option"
  pool :: OrderPool
  match_count :: u64
  fills :: "Fill list"
  scan_calls :: u64

abbreviation heap_of :: "OrderBook \<Rightarrow> heap" where
  "heap_of b \<equiv> arena (pool b)"

abbreviation best_bid :: "OrderBook \<Rightarrow> Price" where
  "best_bid b \<equiv> best (half b Bids)"

abbreviation best_ask :: "OrderBook \<Rightarrow> Price" where
  "best_ask b \<equiv> best (half b Asks)"

fun no_best :: "book_half \<Rightarrow> Price" where
  "no_best Bids = INVALID_PRICE"
| "no_best Asks = MAX_PRICE + 1"

definition book_new :: "nat \<Rightarrow> OrderBook" where
  "book_new pool_capacity =
     \<lparr>half = (\<lambda>s. \<lparr>levels = (\<lambda>_. lv_new), bits = bs_new, best = no_best s\<rparr>),
      order_table = (\<lambda>_. None), pool = pool_new pool_capacity,
      match_count = 0, fills = [], scan_calls = 0\<rparr>"

definition set_heap :: "heap \<Rightarrow> OrderBook \<Rightarrow> OrderBook" where
  "set_heap h b = b\<lparr>pool := (pool b)\<lparr>arena := h\<rparr>\<rparr>"

definition upd_half :: "book_half \<Rightarrow> (half_book \<Rightarrow> half_book) \<Rightarrow> OrderBook \<Rightarrow> OrderBook" where
  "upd_half s f b = b\<lparr>half := (half b)(s := f (half b s))\<rparr>"

definition put_level :: "book_half \<Rightarrow> nat \<Rightarrow> PriceLevel \<Rightarrow> OrderBook \<Rightarrow> OrderBook" where
  "put_level s i lv = upd_half s (\<lambda>x. x\<lparr>levels := (levels x)(i := lv)\<rparr>)"

subsection \<open>Lookup table and best-price scans\<close>

definition idx :: "Price \<Rightarrow> nat" where
  "idx p = unat (p - MIN_PRICE)"

definition slot :: "OrderId \<Rightarrow> nat" where
  "slot i = unat (i AND ORDER_MASK)"

definition lookup :: "OrderId \<Rightarrow> OrderBook \<Rightarrow> addr option" where
  "lookup i b = (case order_table b (slot i) of
       None \<Rightarrow> None
     | Some a \<Rightarrow> if o_id (heap_of b a) = i then Some a else None)"

definition reg :: "addr \<Rightarrow> OrderBook \<Rightarrow> OrderBook" where
  "reg a b = b\<lparr>order_table := (order_table b)(slot (o_id (heap_of b a)) := Some a)\<rparr>"

definition unreg :: "addr \<Rightarrow> OrderBook \<Rightarrow> OrderBook" where
  "unreg a b = b\<lparr>order_table := (order_table b)(slot (o_id (heap_of b a)) := None)\<rparr>"

definition release :: "addr \<Rightarrow> OrderBook \<Rightarrow> OrderBook" where
  "release a b = b\<lparr>pool := deallocate a (pool b)\<rparr>"

definition scan_best_bid :: "OrderBook \<Rightarrow> OrderBook option" where
  "scan_best_bid b = do {
     i \<leftarrow> highest (bits (half b Bids));
     Some (upd_half Bids (\<lambda>x. x\<lparr>best := if i = NONE then INVALID_PRICE else of_nat (i + unat MIN_PRICE)\<rparr>)
       (b\<lparr>scan_calls := scan_calls b + 1\<rparr>))
   }"

definition scan_best_ask :: "OrderBook \<Rightarrow> OrderBook option" where
  "scan_best_ask b = do {
     i \<leftarrow> lowest (bits (half b Asks));
     Some (upd_half Asks (\<lambda>x. x\<lparr>best := if i = NONE then MAX_PRICE + 1 else of_nat (i + unat MIN_PRICE)\<rparr>)
       (b\<lparr>scan_calls := scan_calls b + 1\<rparr>))
   }"

fun scan_best :: "book_half \<Rightarrow> OrderBook \<Rightarrow> OrderBook option" where
  "scan_best Bids b = scan_best_bid b"
| "scan_best Asks b = scan_best_ask b"

subsection \<open>Matching\<close>

definition mk_fill :: "Side \<Rightarrow> Order \<Rightarrow> Order \<Rightarrow> Quantity \<Rightarrow> Fill" where
  "mk_fill aggressor_side agg res q =
     (if aggressor_side = Buy
      then \<lparr>f_bid_id = o_id agg, f_ask_id = o_id res, f_bid_client = o_client_id agg,
            f_ask_client = o_client_id res, f_price = o_price res, f_quantity = q\<rparr>
      else \<lparr>f_bid_id = o_id res, f_ask_id = o_id agg, f_bid_client = o_client_id res,
            f_ask_client = o_client_id agg, f_price = o_price res, f_quantity = q\<rparr>)"

partial_function (option) drain_level ::
  "PriceLevel \<Rightarrow> addr \<Rightarrow> Side \<Rightarrow> OrderBook \<Rightarrow> (PriceLevel \<times> OrderBook) option" where
  "drain_level lv a sd b =
     (if \<not> lv_empty lv \<and> \<not> is_filled (heap_of b a) then do {
        r \<leftarrow> lv_front lv;
        let q = min (remaining (heap_of b a)) (remaining (heap_of b r));
        let h = upd_order r (fill q) (upd_order a (fill q) (heap_of b));
        let lv1 = lv_adjust_qty (- q) lv;
        let b1 = (set_heap h b)\<lparr>fills := fills b @ [mk_fill sd (h a) (h r) q],
                                match_count := match_count b + 1\<rparr>;
        if is_filled (h r) then do {
          let (h2, lv2) = lv_remove r h lv1;
          drain_level lv2 a sd (release r (unreg r (set_heap h2 b1)))
        } else drain_level lv1 a sd b1
      } else Some (lv, b))"

partial_function (option) sweep ::
  "book_half \<Rightarrow> (Price \<Rightarrow> bool) \<Rightarrow> Side \<Rightarrow> addr \<Rightarrow> OrderBook \<Rightarrow> OrderBook option" where
  "sweep s go sd a b =
     (if \<not> is_filled (heap_of b a) \<and> go (best (half b s)) then do {
        let i = idx (best (half b s));
        lv \<leftarrow> array_get PRICE_LEVELS (levels (half b s)) i;
        (lv', b1) \<leftarrow> drain_level lv a sd b;
        let b2 = put_level s i lv' b1;
        if lv_empty lv' then do {
          bs \<leftarrow> bs_clear i (bits (half b2 s));
          b3 \<leftarrow> scan_best s (upd_half s (\<lambda>x. x\<lparr>bits := bs\<rparr>) b2);
          sweep s go sd a b3
        } else sweep s go sd a b2
      } else Some b)"

definition match_limit :: "addr \<Rightarrow> OrderBook \<Rightarrow> OrderBook option" where
  "match_limit a b =
     (if o_side (heap_of b a) = Buy
      then sweep Asks (\<lambda>p. p \<le> o_price (heap_of b a) \<and> p \<le> MAX_PRICE) Buy a b
      else sweep Bids (\<lambda>p. p \<ge> o_price (heap_of b a) \<and> p \<noteq> INVALID_PRICE) Sell a b)"

definition match_market :: "addr \<Rightarrow> OrderBook \<Rightarrow> OrderBook option" where
  "match_market a b =
     (if o_side (heap_of b a) = Buy
      then sweep Asks (\<lambda>p. p \<le> MAX_PRICE) Buy a b
      else sweep Bids (\<lambda>p. p \<noteq> INVALID_PRICE) Sell a b)"

subsection \<open>add, cancel, modify\<close>

fun improves :: "book_half \<Rightarrow> Price \<Rightarrow> Price \<Rightarrow> bool" where
  "improves Bids p q \<longleftrightarrow> p > q"
| "improves Asks p q \<longleftrightarrow> p < q"

definition half_of :: "Side \<Rightarrow> book_half" where
  "half_of sd = (if sd = Buy then Bids else Asks)"

definition rest_order :: "book_half \<Rightarrow> Price \<Rightarrow> addr \<Rightarrow> OrderBook \<Rightarrow> OrderBook option" where
  "rest_order s p a b = do {
     lv \<leftarrow> array_get PRICE_LEVELS (levels (half b s)) (idx p);
     bs \<leftarrow> (if lv_empty lv then bs_set (idx p) (bits (half b s)) else Some (bits (half b s)));
     let (h, lv') = lv_push a (heap_of b) lv;
     let b1 = put_level s (idx p) lv' (set_heap h (upd_half s (\<lambda>x. x\<lparr>bits := bs\<rparr>) b));
     Some (if improves s p (best (half b1 s)) then upd_half s (\<lambda>x. x\<lparr>best := p\<rparr>) b1 else b1)
   }"

definition unlink_order :: "book_half \<Rightarrow> Price \<Rightarrow> addr \<Rightarrow> OrderBook \<Rightarrow> OrderBook option" where
  "unlink_order s p a b = do {
     lv \<leftarrow> array_get PRICE_LEVELS (levels (half b s)) (idx p);
     let (h, lv') = lv_remove a (heap_of b) lv;
     let b1 = put_level s (idx p) lv' (set_heap h b);
     if lv_empty lv' then do {
       bs \<leftarrow> bs_clear (idx p) (bits (half b1 s));
       let b2 = upd_half s (\<lambda>x. x\<lparr>bits := bs\<rparr>) b1;
       if p = best (half b2 s) then scan_best s b2 else Some b2
     } else Some b1
   }"

definition add_order ::
  "OrderId \<Rightarrow> ClientId \<Rightarrow> Side \<Rightarrow> OrderType \<Rightarrow> Price \<Rightarrow> Quantity \<Rightarrow> Timestamp \<Rightarrow> OrderBook
     \<Rightarrow> (bool \<times> OrderBook) option" where
  "add_order i c sd ty p q ts b =
     (if available (pool b) = 0 then Some (False, b)
      else if ty = Limit \<and> (p < MIN_PRICE \<or> p > MAX_PRICE) then Some (False, b)
      else do {
        (a, pl') \<leftarrow> allocate (pool b);
        let b0 = reg a (set_heap (upd_order a (\<lambda>x. x\<lparr>o_id := i, o_client_id := c, o_price := p,
                     o_quantity := q, o_filled_qty := 0, o_side := sd, o_type := ty,
                     o_timestamp := ts, o_prev := None, o_next := None\<rparr>) (arena pl'))
                   (b\<lparr>pool := pl'\<rparr>));
        b1 \<leftarrow> (if ty = Market then match_market a b0 else match_limit a b0);
        if \<not> is_filled (heap_of b1 a) \<and> ty = Limit then do {
          b2 \<leftarrow> rest_order (half_of sd) p a b1;
          Some (True, b2)
        } else Some (True, release a (unreg a b1))
      })"

definition cancel_order :: "OrderId \<Rightarrow> OrderBook \<Rightarrow> (bool \<times> OrderBook) option" where
  "cancel_order i b = (case lookup i b of
       None \<Rightarrow> Some (False, b)
     | Some a \<Rightarrow> do {
         b1 \<leftarrow> unlink_order (half_of (o_side (heap_of b a))) (o_price (heap_of b a)) a b;
         Some (True, release a (unreg a b1))
       })"

definition modify_order ::
  "OrderId \<Rightarrow> Price \<Rightarrow> Quantity \<Rightarrow> Timestamp \<Rightarrow> OrderBook \<Rightarrow> (bool \<times> OrderBook) option" where
  "modify_order i new_price new_qty ts b = (case lookup i b of
       None \<Rightarrow> Some (False, b)
     | Some a \<Rightarrow> do {
         let sd = o_side (heap_of b a);
         let c = o_client_id (heap_of b a);
         (_, b1) \<leftarrow> cancel_order i b;
         add_order i c sd Limit new_price new_qty ts b1
       })"

subsection \<open>Observers\<close>

definition bid_qty_at :: "OrderBook \<Rightarrow> Price \<Rightarrow> Quantity option" where
  "bid_qty_at b p = do { lv \<leftarrow> array_get PRICE_LEVELS (levels (half b Bids)) (idx p); Some (lv_total_qty lv) }"

definition ask_qty_at :: "OrderBook \<Rightarrow> Price \<Rightarrow> Quantity option" where
  "ask_qty_at b p = do { lv \<leftarrow> array_get PRICE_LEVELS (levels (half b Asks)) (idx p); Some (lv_total_qty lv) }"

definition clear_fills :: "OrderBook \<Rightarrow> OrderBook" where
  "clear_fills b = b\<lparr>fills := []\<rparr>"

definition active_orders :: "OrderBook \<Rightarrow> nat" where
  "active_orders b = capacity (pool b) - available (pool b)"

text \<open>The two linear scans of \<open>validate_bbo\<close>, downwards over the bids and upwards over the asks.\<close>

function first_bid_from :: "OrderBook \<Rightarrow> Price \<Rightarrow> Price option" where
  "first_bid_from b p =
     (if p \<ge> MIN_PRICE then do {
        lv \<leftarrow> array_get PRICE_LEVELS (levels (half b Bids)) (idx p);
        if \<not> lv_empty lv then Some p
        else if p = MIN_PRICE then Some INVALID_PRICE
        else first_bid_from b (p - 1)
      } else Some INVALID_PRICE)"
  by pat_completeness auto
termination
proof (relation "measure (\<lambda>(b, p). unat p)", goal_cases)
  case (2 b p lv)
  then show ?case by (simp add: MIN_PRICE_def) unat_arith
qed simp

function first_ask_from :: "OrderBook \<Rightarrow> Price \<Rightarrow> Price option" where
  "first_ask_from b p =
     (if p \<le> MAX_PRICE then do {
        lv \<leftarrow> array_get PRICE_LEVELS (levels (half b Asks)) (idx p);
        if \<not> lv_empty lv then Some p else first_ask_from b (p + 1)
      } else Some (MAX_PRICE + 1))"
  by pat_completeness auto
termination
proof (relation "measure (\<lambda>(b, p). 1000001 - unat p)", goal_cases)
  case (2 b p lv)
  then show ?case by (simp add: MAX_PRICE_def word_le_nat_alt unat_succ_u32)
qed simp

declare first_bid_from.simps [simp del] first_ask_from.simps [simp del]

definition validate_bbo :: "OrderBook \<Rightarrow> bool option" where
  "validate_bbo b = do {
     bb \<leftarrow> first_bid_from b MAX_PRICE;
     ba \<leftarrow> first_ask_from b MIN_PRICE;
     Some (bb = best_bid b \<and> ba = best_ask b)
   }"

end
