(* ===== verification/Book_Spec.thy ===== *)
theory Book_Spec
  imports Order_Book "HOL-Library.Multiset"
begin

section \<open>What the order book promises: price-time priority on lists\<close>

text \<open>
  An abstract order book without pointers, levels, bitsets or tables: for each side one list of
  orders, best price first and oldest first among equal prices. Matching an incoming order
  consumes such a list from its head (\<open>match_q\<close>), resting an order inserts it behind every order
  whose price is at least as good (\<open>insert_prio\<close>), cancelling deletes by identifier.

  The lemmas say what this gives a participant: quantities are conserved, an order is touched only
  when every order ahead of it has been filled, no trade is outside the limit, and matching stops
  only when the incoming order is filled or nothing acceptable is left. The theory
  \<open>Book_Refinement\<close> shows that the C++ data structures implement exactly these functions.
\<close>

subsection \<open>The abstract operations\<close>

type_synonym spec_book = "book_half \<Rightarrow> Order list"

fun match_q :: "Side \<Rightarrow> (Price \<Rightarrow> bool) \<Rightarrow> Order \<Rightarrow> Order list \<Rightarrow> Order \<times> Order list \<times> Fill list" where
  "match_q sd go a [] = (a, [], [])"
| "match_q sd go a (r # rs) =
     (if is_filled a \<or> \<not> go (o_price r) then (a, r # rs, [])
      else let q = min (remaining a) (remaining r); a' = fill q a; r' = fill q r; f = mk_fill sd a' r' q
           in if is_filled r'
              then (case match_q sd go a' rs of (a'', rs', fs) \<Rightarrow> (a'', rs', f # fs))
              else (a', r' # rs, [f]))"

definition insert_prio :: "book_half \<Rightarrow> Order \<Rightarrow> Order list \<Rightarrow> Order list" where
  "insert_prio s x xs =
     takeWhile (\<lambda>y. \<not> improves s (o_price x) (o_price y)) xs @
     x # dropWhile (\<lambda>y. \<not> improves s (o_price x) (o_price y)) xs"

fun other :: "book_half \<Rightarrow> book_half" where
  "other Bids = Asks"
| "other Asks = Bids"

definition accepts :: "OrderType \<Rightarrow> book_half \<Rightarrow> Price \<Rightarrow> Price \<Rightarrow> bool" where
  "accepts ty s p p' \<longleftrightarrow> ty = Market \<or> \<not> improves s p p'"

definition canon_side :: "Side \<Rightarrow> Side" where
  "canon_side sd = (if sd = Buy then Buy else Sell)"

definition mk_order ::
  "OrderId \<Rightarrow> ClientId \<Rightarrow> Side \<Rightarrow> OrderType \<Rightarrow> Price \<Rightarrow> Quantity \<Rightarrow> Timestamp \<Rightarrow> Order" where
  "mk_order i c sd ty p q ts =
     \<lparr>o_price = p, o_quantity = q, o_filled_qty = 0, o_side = sd, o_type = ty,
      o_prev = None, o_next = None, o_id = i, o_client_id = c, o_timestamp = ts\<rparr>"

definition rejects :: "nat \<Rightarrow> OrderType \<Rightarrow> Price \<Rightarrow> spec_book \<Rightarrow> bool" where
  "rejects cap ty p B \<longleftrightarrow> length (B Bids) + length (B Asks) = cap \<or>
     ty = Limit \<and> (p < MIN_PRICE \<or> p > MAX_PRICE)"

definition spec_add ::
  "nat \<Rightarrow> OrderId \<Rightarrow> ClientId \<Rightarrow> Side \<Rightarrow> OrderType \<Rightarrow> Price \<Rightarrow> Quantity \<Rightarrow> Timestamp \<Rightarrow> spec_book
     \<Rightarrow> bool \<times> spec_book \<times> Fill list" where
  "spec_add cap i c sd ty p q ts B =
     (if rejects cap ty p B then (False, B, [])
      else let s = half_of sd;
               (a, rest, fs) = match_q (canon_side sd) (accepts ty (other s) p) (mk_order i c sd ty p q ts) (B (other s));
               B1 = B(other s := rest)
           in (True, if \<not> is_filled a \<and> ty = Limit then B1(s := insert_prio s a (B1 s)) else B1, fs))"

definition spec_cancel :: "OrderId \<Rightarrow> spec_book \<Rightarrow> bool \<times> spec_book" where
  "spec_cancel i B = (\<exists>s. \<exists>x \<in> set (B s). o_id x = i, \<lambda>s. filter (\<lambda>x. o_id x \<noteq> i) (B s))"

subsection \<open>Matching on lists\<close>

lemma match_q_filled [simp]: "is_filled a \<Longrightarrow> match_q sd go a rs = (a, rs, [])"
  by (cases rs) auto

lemma match_q_append:
  assumes "\<forall>x\<in>set xs. go (o_price x)"
  shows "match_q sd go a (xs @ ys) =
     (case match_q sd (\<lambda>_. True) a xs of (a1, xs', f1) \<Rightarrow>
        if xs' = [] then (case match_q sd go a1 ys of (a2, ys', f2) \<Rightarrow> (a2, ys', f1 @ f2))
        else (a1, xs' @ ys, f1))"
  using assms by (induction xs arbitrary: a) (auto simp: Let_def split: prod.splits)

lemma min_filled:
  assumes "order_ok a" "order_ok r" "q = min (remaining a) (remaining r)"
  shows "is_filled (fill q a) \<or> is_filled (fill q r)"
    and "order_ok (fill q a)" "order_ok (fill q r)"
proof -
  have le: "q \<le> remaining a" "q \<le> remaining r" using assms(3) by simp_all
  note a = fill_ok [OF assms(1) le(1)] and r = fill_ok [OF assms(2) le(2)]
  show "order_ok (fill q a)" "order_ok (fill q r)" by (fact a(1) r(1))+
  have "remaining (fill q a) = 0 \<or> remaining (fill q r) = 0"
    using assms(3) a(3) r(3) by (auto simp: min_def)
  then show "is_filled (fill q a) \<or> is_filled (fill q r)"
    using is_filled_remaining a(1) r(1) by blast
qed

text \<open>If resting orders are left over, the guard stopped the match or the incoming order is filled.\<close>

lemma match_q_stops:
  assumes "match_q sd go a rs = (a', rs', fs)" "order_ok a" "\<forall>r\<in>set rs. order_ok r"
  shows "order_ok a' \<and> (is_filled a' \<or> rs' = [] \<or> \<not> go (o_price (hd rs')))"
  using assms
proof (induction rs arbitrary: a a' rs' fs)
  case (Cons r rs)
  from Cons.prems have ok: "order_ok a" "order_ok r" by simp_all
  show ?case
    using Cons min_filled [OF ok refl] by (auto simp: Let_def split: if_splits prod.splits)
qed auto

text \<open>
  Priority: the orders left over are a suffix of the queue, of which at most the first has been
  changed, by a partial fill that also completes the incoming order.
\<close>

lemma match_q_suffix:
  assumes "match_q sd go a rs = (a', rs', fs)" "order_ok a" "\<forall>r\<in>set rs. order_ok r"
  shows "\<exists>k \<le> length rs. rs' = drop k rs \<or>
           (k < length rs \<and> is_filled a' \<and> (\<exists>q. rs' = fill q (rs ! k) # drop (Suc k) rs \<and> \<not> is_filled (fill q (rs ! k))))"
  using assms
proof (induction rs arbitrary: a a' rs' fs)
  case (Cons r rs)
  from Cons.prems have ok: "order_ok a" "order_ok r" by simp_all
  note m = min_filled [OF ok refl]
  let ?q = "min (remaining a) (remaining r)"
  consider (stop) "is_filled a \<or> \<not> go (o_price r)" | (part) "\<not> is_filled a" "go (o_price r)" "\<not> is_filled (fill ?q r)"
    | (full) "\<not> is_filled a" "go (o_price r)" "is_filled (fill ?q r)" by blast
  then show ?case
  proof cases
    case stop
    with Cons.prems(1) show ?thesis by (intro exI [of _ 0]) auto
  next
    case part
    with Cons.prems(1) m(1) show ?thesis by (intro exI [of _ 0]) (auto simp: Let_def)
  next
    case full
    with Cons.prems(1) obtain fs' where "match_q sd go (fill ?q a) rs = (a', rs', fs')"
      by (auto simp: Let_def split: prod.splits)
    from Cons.IH [OF this m(2)] Cons.prems(3) obtain k where
      "k \<le> length rs" "rs' = drop k rs \<or> (k < length rs \<and> is_filled a' \<and>
         (\<exists>q. rs' = fill q (rs ! k) # drop (Suc k) rs \<and> \<not> is_filled (fill q (rs ! k))))" by auto
    then show ?thesis by (intro exI [of _ "Suc k"]) auto
  qed
qed auto

lemma match_q_open:
  assumes "match_q sd go a rs = (a', rs', fs)" "order_ok a" "\<forall>r\<in>set rs. \<not> is_filled r"
  shows "\<forall>r\<in>set rs'. \<not> is_filled r"
proof -
  from match_q_suffix [OF assms(1,2)] assms(3) order_ok_open obtain k where
    "rs' = drop k rs \<or> (\<exists>q. rs' = fill q (rs ! k) # drop (Suc k) rs \<and> \<not> is_filled (fill q (rs ! k)))" by blast
  with assms(3) set_drop_subset [of k rs] set_drop_subset [of "Suc k" rs] show ?thesis by auto
qed

lemma match_q_payload:
  assumes "match_q sd go a rs = (a', rs', fs)"
  shows "o_price a' = o_price a \<and> o_side a' = o_side a \<and> o_type a' = o_type a \<and> o_id a' = o_id a
       \<and> o_client_id a' = o_client_id a \<and> o_quantity a' = o_quantity a \<and> o_timestamp a' = o_timestamp a"
  using assms
  by (induction rs arbitrary: a a' rs' fs) (auto simp: Let_def split: if_splits prod.splits)

subsection \<open>Conservation of quantity\<close>

definition total_remaining :: "Order list \<Rightarrow> nat" where
  "total_remaining xs = (\<Sum>x\<leftarrow>xs. unat (remaining x))"

definition total_filled :: "Fill list \<Rightarrow> nat" where
  "total_filled fs = (\<Sum>f\<leftarrow>fs. unat (f_quantity f))"

lemma total_simps [simp]:
  "total_remaining [] = 0" "total_remaining (x # xs) = unat (remaining x) + total_remaining xs"
  "total_filled [] = 0" "total_filled (f # fs) = unat (f_quantity f) + total_filled fs"
  by (simp_all add: total_remaining_def total_filled_def)

lemma f_quantity_mk_fill [simp]: "f_quantity (mk_fill sd a r q) = q" "f_price (mk_fill sd a r q) = o_price r"
  by (simp_all add: mk_fill_def)

lemma remaining_fill_unat:
  assumes "order_ok x" "q \<le> remaining x"
  shows "unat (remaining x) = unat q + unat (remaining (fill q x))"
  using fill_ok(3) [OF assms] assms(2) by (simp add: unat_sub word_le_nat_alt)

lemma match_q_aggressor:
  assumes "match_q sd go a rs = (a', rs', fs)"
  shows "a' = a\<lparr>o_filled_qty := o_filled_qty a + of_nat (total_filled fs)\<rparr>"
  using assms
proof (induction rs arbitrary: a a' rs' fs)
  case (Cons r rs)
  let ?q = "min (remaining a) (remaining r)"
  have later: "a' = a\<lparr>o_filled_qty := o_filled_qty a + (?q + of_nat (total_filled gs))\<rparr>" if "match_q sd go (fill ?q a) rs = (a', rs2, gs)" for rs2 gs
    using Cons.IH [OF that] by (simp add: fill_def add.assoc)
  show ?case using Cons.prems later by (auto simp: Let_def fill_def mk_fill_def split: if_splits prod.splits)
qed simp

lemma match_q_conserves:
  assumes "match_q sd go a rs = (a', rs', fs)" "order_ok a" "\<forall>r\<in>set rs. order_ok r"
  shows "unat (remaining a) = total_filled fs + unat (remaining a')
       \<and> total_remaining rs = total_filled fs + total_remaining rs'"
  using assms
proof (induction rs arbitrary: a a' rs' fs)
  case (Cons r rs)
  from Cons.prems have ok: "order_ok a" "order_ok r" by simp_all
  note m = min_filled [OF ok refl]
  let ?q = "min (remaining a) (remaining r)"
  have rem: "unat (remaining a) = unat ?q + unat (remaining (fill ?q a))"
    "unat (remaining r) = unat ?q + unat (remaining (fill ?q r))"
    using remaining_fill_unat [OF ok(1)] remaining_fill_unat [OF ok(2)] by simp_all
  show ?case
  proof (cases "\<not> is_filled a \<and> go (o_price r) \<and> is_filled (fill ?q r)")
    case True
    with Cons.prems(1) obtain fs' where fs': "match_q sd go (fill ?q a) rs = (a', rs', fs')"
      "fs = mk_fill sd (fill ?q a) (fill ?q r) ?q # fs'"
      by (auto simp: Let_def split: prod.splits)
    have "remaining (fill ?q r) = 0" using True is_filled_remaining m(3) by blast
    with Cons.IH [OF fs'(1) m(2)] Cons.prems(3) rem fs'(2) show ?thesis by simp
  next
    case False
    with Cons.prems(1) rem show ?thesis by (auto simp: Let_def split: if_splits)
  qed
qed auto

text \<open>Every fill is for a positive quantity and at an acceptable resting price.\<close>

lemma match_q_fills:
  assumes "match_q sd go a rs = (a', rs', fs)" "order_ok a" "\<forall>r\<in>set rs. order_ok r \<and> \<not> is_filled r" "f \<in> set fs"
  shows "f_quantity f \<noteq> 0 \<and> go (f_price f) \<and> (\<exists>r\<in>set rs. f_price f = o_price r)"
  using assms
proof (induction rs arbitrary: a a' rs' fs)
  case (Cons r rs)
  from Cons.prems have ok: "order_ok a" "order_ok r" "\<not> is_filled r" by simp_all
  note m = min_filled [OF ok(1,2) refl]
  let ?q = "min (remaining a) (remaining r)"
  have "\<not> is_filled a \<Longrightarrow> ?q \<noteq> 0"
    using ok is_filled_remaining by (auto simp: min_def)
  with Cons m show ?case by (auto simp: Let_def split: if_splits prod.splits) blast+
qed auto

end
