(* ===== verification/Book_Invariant.thy ===== *)
theory Book_Invariant
  imports Book_Spec
begin

section \<open>The representation invariant of the order book\<close>

text \<open>
  How the fields of \<open>OrderBook\<close> agree with each other. The ghost argument \<open>Q\<close> lists, for each
  side and level, the addresses queued there; \<open>X\<close> is the set of orders taken from the pool but
  not in the book (the incoming order while it is being matched).

  \<^item> \<open>core\<close>: every level represents its list, an order sits at the level of its own side and
    price, every arena slot is exactly one of free, queued or in \<open>X\<close>, and a table entry points
    to a queued (or \<open>X\<close>) order whose identifier maps to that entry.
  \<^item> \<open>index_ok\<close>: the bitset of a side marks exactly its non-empty levels and the cached best
    price is the best of them.
  \<^item> \<open>open_orders\<close>: no queued order is completely filled.

  The lemmas are one per primitive step of the code (take a slot, fill, link, unlink, give back),
  each saying what the step does to \<open>Q\<close> and \<open>X\<close>.
\<close>

type_synonym queues = "book_half \<Rightarrow> nat \<Rightarrow> addr list"

definition live :: "queues \<Rightarrow> addr set" where
  "live Q = (\<Union>s. \<Union>i. set (Q s i))"

definition at_level :: "book_half \<Rightarrow> nat \<Rightarrow> Order \<Rightarrow> bool" where
  "at_level s i x \<longleftrightarrow> half_of (o_side x) = s \<and> unat (o_price x) = Suc i \<and> o_type x = Limit"

definition core ::
  "queues \<Rightarrow> addr set \<Rightarrow> OrderPool \<Rightarrow> (book_half \<Rightarrow> nat \<Rightarrow> PriceLevel) \<Rightarrow> (nat \<Rightarrow> addr option) \<Rightarrow> bool" where
  "core Q X pl L tb \<longleftrightarrow>
     pool_ok pl \<and> capacity pl < 2 ^ 32
   \<and> (\<forall>s i. i < PRICE_LEVELS \<longrightarrow> level_rep (arena pl) (L s i) (Q s i))
   \<and> (\<forall>s i. PRICE_LEVELS \<le> i \<longrightarrow> Q s i = [])
   \<and> (\<forall>s i a. a \<in> set (Q s i) \<longrightarrow> at_level s i (arena pl a))
   \<and> live Q \<union> X \<union> free_slots pl = {..<capacity pl}
   \<and> live Q \<inter> X = {} \<and> live Q \<inter> free_slots pl = {} \<and> X \<inter> free_slots pl = {}
   \<and> (\<forall>t a. tb t = Some a \<longrightarrow> a \<in> live Q \<union> X \<and> slot (o_id (arena pl a)) = t)"

abbreviation book_levels :: "OrderBook \<Rightarrow> book_half \<Rightarrow> nat \<Rightarrow> PriceLevel" where
  "book_levels b \<equiv> (\<lambda>s. levels (half b s))"

definition set_queue :: "book_half \<Rightarrow> nat \<Rightarrow> 'a \<Rightarrow> (book_half \<Rightarrow> nat \<Rightarrow> 'a) \<Rightarrow> book_half \<Rightarrow> nat \<Rightarrow> 'a" where
  "set_queue s i x Q = Q(s := (Q s)(i := x))"

definition open_orders :: "queues \<Rightarrow> heap \<Rightarrow> bool" where
  "open_orders Q h \<longleftrightarrow> (\<forall>a\<in>live Q. \<not> is_filled (h a))"

fun extreme :: "book_half \<Rightarrow> (nat \<Rightarrow> bool) \<Rightarrow> nat \<Rightarrow> bool" where
  "extreme Bids F i = is_greatest F i"
| "extreme Asks F i = is_least F i"

definition best_ok :: "book_half \<Rightarrow> (nat \<Rightarrow> bool) \<Rightarrow> Price \<Rightarrow> bool" where
  "best_ok s F p \<longleftrightarrow> (p = no_best s \<and> (\<forall>i. \<not> F i)) \<or> (\<exists>i. extreme s F i \<and> p = of_nat (Suc i))"

definition index_ok :: "queues \<Rightarrow> book_half \<Rightarrow> half_book \<Rightarrow> bool" where
  "index_ok Q s x \<longleftrightarrow> bs_ok (bits x) \<and> occupied (bits x) = (\<lambda>i. Q s i \<noteq> []) \<and> best_ok s (\<lambda>i. Q s i \<noteq> []) (best x)"

subsection \<open>Simple consequences\<close>

lemma set_queue_apply: "set_queue s i x Q s' j = (if s' = s \<and> j = i then x else Q s' j)"
  by (simp add: set_queue_def)

lemma set_queue_same [simp]: "set_queue s i x Q s i = x"
  by (simp add: set_queue_apply)

lemma set_queue_id [simp]: "set_queue s i (Q s i) Q = Q"
  by (simp add: set_queue_def)

lemma set_queue_idI: "Q s i = x \<Longrightarrow> set_queue s i x Q = Q"
  by auto

lemma set_queue_twice [simp]: "set_queue s i y (set_queue s i x Q) = set_queue s i y Q"
  by (simp add: set_queue_def)

lemma levels_put_level [simp]: "book_levels (put_level s i lv b) = set_queue s i lv (book_levels b)"
  by (auto simp: put_level_def upd_half_def set_queue_def fun_eq_iff)

lemma in_live: "a \<in> live Q \<longleftrightarrow> (\<exists>s i. a \<in> set (Q s i))"
  by (auto simp: live_def)

lemma liveI: "a \<in> set (Q s i) \<Longrightarrow> a \<in> live Q"
  by (auto simp: in_live)

definition elsewhere :: "book_half \<Rightarrow> nat \<Rightarrow> queues \<Rightarrow> addr set" where
  "elsewhere s i Q = {a. \<exists>s' j. (s' \<noteq> s \<or> j \<noteq> i) \<and> a \<in> set (Q s' j)}"

lemma elsewhereI: "p \<in> set (Q s' j) \<Longrightarrow> s' \<noteq> s \<or> j \<noteq> i \<Longrightarrow> p \<in> elsewhere s i Q"
  by (auto simp: elsewhere_def)

lemma live_split: "live Q = set (Q s i) \<union> elsewhere s i Q"
  by (rule set_eqI) (auto simp: in_live elsewhere_def)

lemma live_set_queue: "live (set_queue s i ys Q) = set ys \<union> elsewhere s i Q"
proof -
  have "elsewhere s i (set_queue s i ys Q) = elsewhere s i Q"
    by (auto simp: elsewhere_def set_queue_apply)
  then show ?thesis using live_split [of "set_queue s i ys Q" s i] by simp
qed

lemma at_level_payload:
  assumes "strip x = strip y" shows "at_level s i x = at_level s i y"
  using payload_fields [OF assms] by (simp add: at_level_def)

lemma coreI:
  assumes "pool_ok pl" "capacity pl < 2 ^ 32"
    and "\<And>s i. i < PRICE_LEVELS \<Longrightarrow> level_rep (arena pl) (L s i) (Q s i)"
    and "\<And>s i. PRICE_LEVELS \<le> i \<Longrightarrow> Q s i = []"
    and "\<And>s i a. a \<in> set (Q s i) \<Longrightarrow> at_level s i (arena pl a)"
    and "live Q \<union> X \<union> free_slots pl = {..<capacity pl}"
    and "live Q \<inter> X = {}" "live Q \<inter> free_slots pl = {}" "X \<inter> free_slots pl = {}"
    and "\<And>t a. tb t = Some a \<Longrightarrow> a \<in> live Q \<union> X \<and> slot (o_id (arena pl a)) = t"
  shows "core Q X pl L tb"
  unfolding core_def using assms by blast

lemma core_cap: "core Q X pl L tb \<Longrightarrow> capacity pl < 2 ^ 32"
  by (simp add: core_def)

lemma core_out: "core Q X pl L tb \<Longrightarrow> PRICE_LEVELS \<le> i \<Longrightarrow> Q s i = []"
  by (simp add: core_def)

lemma core_table:
  "core Q X pl L tb \<Longrightarrow> tb t = Some a \<Longrightarrow> a \<in> live Q \<union> X \<and> slot (o_id (arena pl a)) = t"
  by (simp add: core_def)

lemma core_slots:
  assumes "core Q X pl L tb"
  shows "live Q \<union> X \<union> free_slots pl = {..<capacity pl}" "live Q \<inter> X = {}"
    "live Q \<inter> free_slots pl = {}" "X \<inter> free_slots pl = {}"
  using assms unfolding core_def by blast+

lemma core_level: "core Q X pl L tb \<Longrightarrow> i < PRICE_LEVELS \<Longrightarrow> level_rep (arena pl) (L s i) (Q s i)"
  by (simp add: core_def)

lemma core_at: "core Q X pl L tb \<Longrightarrow> a \<in> set (Q s i) \<Longrightarrow> at_level s i (arena pl a)"
  by (simp add: core_def)

lemma core_pool_ok: "core Q X pl L tb \<Longrightarrow> pool_ok pl"
  by (simp add: core_def)

lemma core_index: "core Q X pl L tb \<Longrightarrow> a \<in> set (Q s i) \<Longrightarrow> i < PRICE_LEVELS"
  by (metis core_def empty_iff list.set(1) not_le)

lemma core_unique:
  assumes "core Q X pl L tb" "a \<in> set (Q s i)" "a \<in> set (Q s' j)"
  shows "s' = s" "j = i"
  using core_at [OF assms(1,2)] core_at [OF assms(1,3)] by (auto simp: at_level_def)

lemma core_disjoint:
  assumes "core Q X pl L tb" "s' \<noteq> s \<or> j \<noteq> i"
  shows "set (Q s' j) \<inter> set (Q s i) = {}"
  using core_unique [OF assms(1)] assms(2) by blast

lemma core_elsewhere: "core Q X pl L tb \<Longrightarrow> set (Q s i) \<inter> elsewhere s i Q = {}"
  using core_disjoint [of Q X pl L tb] unfolding elsewhere_def by blast

lemma core_distinct: "core Q X pl L tb \<Longrightarrow> distinct (Q s i)"
  by (cases "i < PRICE_LEVELS") (auto simp: core_def level_rep_def)

lemma core_live_range: "core Q X pl L tb \<Longrightarrow> live Q \<union> X \<subseteq> {..<capacity pl}"
  by (auto simp: core_def)

lemma core_X_live: "core Q X pl L tb \<Longrightarrow> a \<in> X \<Longrightarrow> a \<notin> live Q"
  by (auto simp: core_def)

lemma core_length:
  assumes "core Q X pl L tb" shows "length (Q s i) \<le> capacity pl"
proof -
  have "set (Q s i) \<subseteq> {..<capacity pl}"
    using core_live_range [OF assms] by (auto simp: live_def)
  then have "card (set (Q s i)) \<le> card {..<capacity pl}" by (intro card_mono) auto
  then show ?thesis using distinct_card [OF core_distinct [OF assms]] by simp
qed

lemma core_length_X:
  assumes c: "core Q X pl L tb" and a: "a \<in> X" shows "length (Q s i) + 1 < 2 ^ 32"
proof -
  have "insert a (set (Q s i)) \<subseteq> {..<capacity pl}" "a \<notin> set (Q s i)"
    using core_live_range [OF c] core_X_live [OF c a] a liveI [of _ Q s i] by blast+
  then have "card (insert a (set (Q s i))) \<le> card {..<capacity pl}" "a \<notin> set (Q s i)"
    using card_mono [of "{..<capacity pl}"] by blast+
  then have "length (Q s i) + 1 \<le> capacity pl"
    using distinct_card [OF core_distinct [OF c, of s i]] by simp
  then show ?thesis using c by (simp add: core_def)
qed

text \<open>The lists \<open>Q\<close> are determined by the heap and the level heads.\<close>

lemma core_walk:
  assumes "core Q X pl L tb" "i < PRICE_LEVELS"
  shows "walk (capacity pl) (arena pl) (lv_head (L s i)) = Q s i"
  using level_rep_walk [OF core_level [OF assms]] core_length [OF assms(1)] by blast

subsection \<open>Primitive steps\<close>

lemma core_alloc:
  assumes c: "core Q {} pl L tb" and al: "allocate pl = Some (a, pl')" and x: "o_id x = i"
  shows "core Q {a} (pl'\<lparr>arena := (arena pl)(a := x)\<rparr>) L (tb(slot i := Some a))"
    and "a \<notin> live Q"
proof -
  have av: "available pl \<noteq> 0" using al by (auto simp: allocate_def available_def split: if_splits)
  from op.alloc_law [OF core_pool_ok [OF c] av] al
  have a: "pool_ok pl'" "a \<in> free_slots pl" "free_slots pl' = free_slots pl - {a}" "capacity pl' = capacity pl"
    by auto
  from c a(2) show nl: "a \<notin> live Q" by (auto simp: core_def)
  have rep: "level_rep ((arena pl)(a := x)) (L s j) (Q s j)" if "j < PRICE_LEVELS" for s j
    using nl by (intro pl.rep_cong [OF core_level [OF c that]]) (auto simp: in_live)
  have "at_level s j (((arena pl)(a := x)) p)" if "p \<in> set (Q s j)" for s j p
    using core_at [OF c that] that nl by (auto simp: in_live)
  moreover have "free_slots pl \<subseteq> {..<capacity pl}" using core_pool_ok [OF c] by (simp add: pool_ok_def)
  moreover have "pool_ok (pl'\<lparr>arena := h\<rparr>)" "free_slots (pl'\<lparr>arena := h\<rparr>) = free_slots pl - {a}"
    "capacity (pl'\<lparr>arena := h\<rparr>) = capacity pl" for h
    using a by (simp_all add: pool_ok_def free_slots_def capacity_def)
  ultimately show "core Q {a} (pl'\<lparr>arena := (arena pl)(a := x)\<rparr>) L (tb(slot i := Some a))"
    using c rep nl a(2) x by (auto simp: core_def)
qed

lemma core_fill:
  assumes c: "core Q X pl L tb" and i: "i < PRICE_LEVELS" and q: "Q s i = r # rs" and a: "a \<in> X"
  shows "core Q X (pl\<lparr>arena := upd_order r (fill q) (upd_order a (fill q) (arena pl))\<rparr>)
           (set_queue s i (lv_adjust_qty (- q) (L s i)) L) tb"
proof -
  let ?g = "upd_order a (fill q) (arena pl)" and ?h = "upd_order r (fill q) (upd_order a (fill q) (arena pl))"
  note nl = core_X_live [OF c a]
  have rep0: "level_rep ?g (L s' j) (Q s' j)" if "j < PRICE_LEVELS" for s' j
    using nl by (intro pl.rep_cong [OF core_level [OF c that]]) (auto simp: in_live upd_order_apply)
  have rep: "level_rep ?h (set_queue s i (lv_adjust_qty (- q) (L s i)) L s' j) (Q s' j)"
    if j: "j < PRICE_LEVELS" for s' j
  proof (cases "s' = s \<and> j = i")
    case True
    with level_rep_fill [of ?g "L s i" r rs q] rep0 [OF i, of s] q show ?thesis by simp
  next
    case False
    then have "r \<notin> set (Q s' j)" using core_unique [OF c, of r s' j s i] q by auto
    with False show ?thesis
      by (auto simp: set_queue_apply upd_order_apply intro!: pl.rep_cong [OF rep0 [OF j]])
  qed
  have key: "at_level s' j (?h p) = at_level s' j (arena pl p)" "o_id (?h p) = o_id (arena pl p)" for s' j p
    by (auto simp: upd_order_apply at_level_def)
  have [simp]: "pool_ok (pl\<lparr>arena := h\<rparr>) = pool_ok pl" "free_slots (pl\<lparr>arena := h\<rparr>) = free_slots pl"
    "capacity (pl\<lparr>arena := h\<rparr>) = capacity pl" for h
    by (simp_all add: pool_ok_def free_slots_def capacity_def)
  show ?thesis
    using c rep key by (simp add: core_def)
qed

lemma core_remove:
  assumes c: "core Q X pl L tb" and i: "i < PRICE_LEVELS" and q: "Q s i = xs @ r # ys"
    and rem: "lv_remove r (arena pl) (L s i) = (h, lv')"
  shows "core (set_queue s i (xs @ ys) Q) X (deallocate r (pl\<lparr>arena := h\<rparr>))
           (set_queue s i lv' L) (tb(slot (o_id (h r)) := None))"
proof -
  let ?Q = "set_queue s i (xs @ ys) Q" and ?p = "deallocate r (pl\<lparr>arena := h\<rparr>)"
  note rep = core_level [OF c i, of s, unfolded q]
  have dist: "r \<notin> set (xs @ ys)" using core_distinct [OF c, of s i] q by simp
  have pay: "strip (arena ?p p) = strip (arena pl p)" if "p \<noteq> r" for p
    using pl.remove_payload [OF rem] that by simp
  have same: "arena ?p p = arena pl p" if "p \<notin> set (Q s i)" for p
    using pl.remove_frame [OF rep rem] that q by auto
  have r: "r \<in> live Q" using q by (intro liveI [of _ Q s i]) simp
  have lv: "live ?Q = live Q - {r}"
    using dist core_elsewhere [OF c, of s i] q live_split [of Q s i] by (auto simp: live_set_queue)
  have reps: "level_rep (arena ?p) (set_queue s i lv' L s' j) (?Q s' j)" if j: "j < PRICE_LEVELS" for s' j
  proof (cases "s' = s \<and> j = i")
    case True
    have "level_rep (arena ?p) lv' (xs @ ys)"
      using dist by (intro pl.rep_cong [OF pl.remove_rep [OF rep rem]]) (auto simp: deallocate_def upd_order_apply)
    with True show ?thesis by simp
  next
    case False
    then have "set (Q s' j) \<inter> set (Q s i) = {}" using core_disjoint [OF c] by blast
    with False show ?thesis
      by (auto simp: set_queue_apply intro!: pl.rep_cong [OF core_level [OF c j]] same)
  qed
  have key: "at_level s' j (arena ?p p)" if "p \<in> set (?Q s' j)" for s' j p
  proof -
    from that dist have p: "p \<in> set (Q s' j)" "p \<noteq> r"
      using core_unique(1,2) [OF c, of r s i s' j] q by (auto simp: set_queue_apply split: if_splits)
    with at_level_payload [OF pay [OF p(2)]] core_at [OF c p(1)] show ?thesis by simp
  qed
  have id: "o_id (arena ?p p) = o_id (arena pl p)" and idr: "o_id (h r) = o_id (arena pl r)" for p
    using payload_fields(6) [OF pl.remove_payload [OF rem]] by simp_all
  have rlt: "r < capacity pl" "r \<notin> free_slots pl" "r \<notin> X"
    using c r by (auto simp: core_def)
  have pool: "pool_ok (pl\<lparr>arena := h\<rparr>)" "capacity (pl\<lparr>arena := h\<rparr>) = capacity pl" "free_slots (pl\<lparr>arena := h\<rparr>) = free_slots pl"
    using core_pool_ok [OF c] by (simp_all add: pool_ok_def capacity_def free_slots_def)
  have dealloc: "pool_ok ?p" "free_slots ?p = insert r (free_slots pl)" "capacity ?p = capacity pl"
    using op.dealloc_ok [OF pool(1)] op.dealloc_free [OF pool(1)] pool rlt by simp_all
  have tab: "a \<in> live ?Q \<union> X \<and> slot (o_id (arena ?p a)) = t"
    if "(tb(slot (o_id (h r)) := None)) t = Some a" for t a
  proof -
    from that have t: "tb t = Some a" "t \<noteq> slot (o_id (arena pl r))" by (auto simp: idr split: if_splits)
    then have "a \<in> live Q \<union> X" "slot (o_id (arena pl a)) = t" "a \<noteq> r" using c by (auto simp: core_def)
    then show ?thesis using lv id by auto
  qed
  have part: "live ?Q \<union> X \<union> free_slots ?p = {..<capacity ?p}" "live ?Q \<inter> X = {}"
    "live ?Q \<inter> free_slots ?p = {}" "X \<inter> free_slots ?p = {}"
    using core_slots [OF c] r rlt unfolding lv dealloc by blast+
  have out: "?Q s' j = []" if "PRICE_LEVELS \<le> j" for s' j
    using core_out [OF c that] that i by (auto simp: set_queue_apply)
  have cap: "capacity ?p < 2 ^ 32" using core_cap [OF c] dealloc(3) by simp
  show ?thesis by (rule coreI [OF dealloc(1) cap reps out key part tab])
qed

lemma core_push:
  assumes c: "core Q X pl L tb" and i: "i < PRICE_LEVELS" and a: "a \<in> X" and at: "at_level s i (arena pl a)"
    and push: "lv_push a (arena pl) (L s i) = (h, lv')"
  shows "core (set_queue s i (Q s i @ [a]) Q) (X - {a}) (pl\<lparr>arena := h\<rparr>) (set_queue s i lv' L) tb"
proof -
  let ?Q = "set_queue s i (Q s i @ [a]) Q"
  note rep = core_level [OF c i, of s]
  have nl: "a \<notin> set (Q s' j)" for s' j using core_X_live [OF c a] liveI by metis
  have pay: "strip (h p) = strip (arena pl p)" for p by (rule pl.push_payload [OF push])
  have lv: "live ?Q = insert a (live Q)" using live_split [of Q s i] by (auto simp: live_set_queue)
  have reps: "level_rep h (set_queue s i lv' L s' j) (?Q s' j)" if j: "j < PRICE_LEVELS" for s' j
  proof (cases "s' = s \<and> j = i")
    case True
    with pl.push_rep [OF rep nl core_length_X [OF c a] push] show ?thesis by simp
  next
    case False
    then have "set (Q s' j) \<inter> insert a (set (Q s i)) = {}" using core_disjoint [OF c] nl by blast
    with False show ?thesis
      using pl.push_other [OF rep core_level [OF c j] push] by (auto simp: set_queue_apply)
  qed
  have key: "at_level s' j (h p) = at_level s' j (arena pl p)" "o_id (h p) = o_id (arena pl p)" for s' j p
    using at_level_payload [OF pay] payload_fields(6) [OF pay] by blast+
  have at': "at_level s' j (h p)" if "p \<in> set (?Q s' j)" for s' j p
    using that core_at [OF c] at key by (auto simp: set_queue_apply split: if_splits)
  have [simp]: "pool_ok (pl\<lparr>arena := h\<rparr>) = pool_ok pl" "free_slots (pl\<lparr>arena := h\<rparr>) = free_slots pl"
    "capacity (pl\<lparr>arena := h\<rparr>) = capacity pl"
    by (simp_all add: pool_ok_def free_slots_def capacity_def)
  have out: "?Q s' j = []" if "PRICE_LEVELS \<le> j" for s' j
    using core_out [OF c that] that i by (auto simp: set_queue_apply)
  have part: "live ?Q \<union> (X - {a}) \<union> free_slots pl = {..<capacity pl}" "live ?Q \<inter> (X - {a}) = {}"
    "live ?Q \<inter> free_slots pl = {}" "(X - {a}) \<inter> free_slots pl = {}"
    using core_slots [OF c] a unfolding lv by blast+
  have tab: "p \<in> live ?Q \<union> (X - {a}) \<and> slot (o_id (h p)) = t" if "tb t = Some p" for t p
    using core_table [OF c that] lv key by auto
  show ?thesis
    by (rule coreI) (use core_pool_ok [OF c] core_cap [OF c] reps out at' part tab in simp_all)
qed

lemma core_release:
  assumes c: "core Q {a} pl L tb"
  shows "core Q {} (deallocate a pl) L (tb(slot (o_id (arena pl a)) := None))"
proof -
  let ?p = "deallocate a pl"
  have nl: "a \<notin> set (Q s' j)" for s' j using core_X_live [OF c] liveI by (metis insertI1)
  have a: "a < capacity pl" "a \<notin> free_slots pl" using c by (auto simp: core_def)
  note pool = op.dealloc_ok [OF core_pool_ok [OF c] a] op.dealloc_free [OF core_pool_ok [OF c] a]
  have reps: "level_rep (arena ?p) (L s' j) (Q s' j)" if "j < PRICE_LEVELS" for s' j
    using nl [of s' j] by (intro pl.rep_cong [OF core_level [OF c that]] deallocate_simps(3)) auto
  have at: "at_level s' j (arena ?p p)" if "p \<in> set (Q s' j)" for s' j p
    using core_at [OF c that] that nl [of s' j] by (cases "p = a") auto
  have tab: "p \<in> live Q \<union> {} \<and> slot (o_id (arena ?p p)) = t"
    if "(tb(slot (o_id (arena pl a)) := None)) t = Some p" for t p
  proof -
    from that have "tb t = Some p" "t \<noteq> slot (o_id (arena pl a))" by (auto split: if_splits)
    with core_table [OF c] have "p \<in> live Q" "slot (o_id (arena pl p)) = t" by blast+
    then show ?thesis by simp
  qed
  have part: "live Q \<union> {} \<union> free_slots ?p = {..<capacity ?p}" "live Q \<inter> free_slots ?p = {}"
    using core_slots [OF c] pool(2) by auto
  have cap: "capacity ?p < 2 ^ 32" using core_cap [OF c] by simp
  show ?thesis
    by (rule coreI [OF pool(1) cap reps core_out [OF c] at part(1) _ part(2) _ tab]) auto
qed

end
