(* ===== verification/Book_Refinement.thy ===== *)
theory Book_Refinement
  imports Book_Invariant
begin

section \<open>The order book implements price-time priority\<close>

text \<open>
  The operations of \<open>Order_Book\<close> keep the invariant of \<open>Book_Invariant\<close> and compute the
  functions of \<open>Book_Spec\<close>. The priority list of a side is read off the queues in the order of
  the prices (\<open>prio\<close>). The central steps are \<open>drain_level_correct\<close> (one level),
  \<open>sweep_correct\<close> (the matching loop over levels) and, from them, the operations.
\<close>

subsection \<open>Best prices\<close>

context occupancy_index
begin

lemma hi_extreme:
  assumes "ok b" "occ b = F"
  shows "\<exists>i. hi b = Some i \<and> ((i = none \<and> (\<forall>j. \<not> F j)) \<or> (i \<noteq> none \<and> is_greatest F i))"
  using hi_law [OF assms(1)] assms(2) occ_less none_out by (fastforce simp: is_greatest_def)

lemma lo_extreme:
  assumes "ok b" "occ b = F"
  shows "\<exists>i. lo b = Some i \<and> ((i = none \<and> (\<forall>j. \<not> F j)) \<or> (i \<noteq> none \<and> is_least F i))"
  using lo_law [OF assms(1)] assms(2) occ_less none_out by (fastforce simp: is_least_def)

end

lemma scan_best_correct:
  assumes "bs_ok (bits (half b s))" "occupied (bits (half b s)) = F"
  shows "\<exists>p. scan_best s b = Some (upd_half s (\<lambda>x. x\<lparr>best := p\<rparr>) (b\<lparr>scan_calls := scan_calls b + 1\<rparr>)) \<and> best_ok s F p"
proof (cases s)
  case Bids
  with pb.hi_extreme [OF assms] show ?thesis
    by (auto simp: scan_best_bid_def best_ok_def MIN_PRICE_def)
next
  case Asks
  with pb.lo_extreme [OF assms] show ?thesis
    by (auto simp: scan_best_ask_def best_ok_def MIN_PRICE_def)
qed

lemma idx_of_index: "i < PRICE_LEVELS \<Longrightarrow> idx (of_nat (Suc i)) = i"
  by (simp add: idx_def MIN_PRICE_def PRICE_LEVELS_def unat_of_nat)

lemma unat_of_index: "i < PRICE_LEVELS \<Longrightarrow> unat (of_nat (Suc i) :: Price) = Suc i"
  by (simp add: PRICE_LEVELS_def unat_of_nat del: of_nat_Suc)

lemma idx_price:
  assumes "MIN_PRICE \<le> p" "p \<le> MAX_PRICE"
  shows "idx p < PRICE_LEVELS" "Suc (idx p) = unat p"
proof -
  have "unat (p - 1) = unat p - 1" "1 \<le> unat p" "unat p \<le> 1000000"
    using assms unat_sub [of 1 p] by (auto simp: MIN_PRICE_def MAX_PRICE_def word_le_nat_alt)
  then show "idx p < PRICE_LEVELS" "Suc (idx p) = unat p"
    by (simp_all add: idx_def MIN_PRICE_def PRICE_LEVELS_def)
qed

subsection \<open>Priority lists\<close>

fun prio_ix :: "book_half \<Rightarrow> nat list" where
  "prio_ix Asks = [0..<PRICE_LEVELS]"
| "prio_ix Bids = rev [0..<PRICE_LEVELS]"

definition prio :: "queues \<Rightarrow> heap \<Rightarrow> book_half \<Rightarrow> Order list" where
  "prio Q h s = concat (map (\<lambda>i. map (\<lambda>a. strip (h a)) (Q s i)) (prio_ix s))"

lemma set_prio_ix [simp]: "set (prio_ix s) = {..<PRICE_LEVELS}"
  by (cases s) auto

text \<open>The indices around \<open>i\<close>: those of better prices before it, those of worse prices behind.\<close>

fun before_ix :: "book_half \<Rightarrow> nat \<Rightarrow> nat list" where
  "before_ix Asks i = [0..<i]"
| "before_ix Bids i = rev [Suc i..<PRICE_LEVELS]"

fun behind_ix :: "book_half \<Rightarrow> nat \<Rightarrow> nat list" where
  "behind_ix Asks i = [Suc i..<PRICE_LEVELS]"
| "behind_ix Bids i = rev [0..<i]"

lemma prio_ix_split:
  assumes "i < PRICE_LEVELS" shows "prio_ix s = before_ix s i @ i # behind_ix s i"
proof -
  have "[0..<PRICE_LEVELS] = [0..<i] @ i # [Suc i..<PRICE_LEVELS]"
    using assms upt_add_eq_append [of 0 i "PRICE_LEVELS - i"] by (simp add: upt_conv_Cons)
  then show ?thesis by (cases s) simp_all
qed

lemma not_in_around: "i \<notin> set (before_ix s i)" "i \<notin> set (behind_ix s i)"
  by (cases s; simp)+

lemma prio_split:
  "i < PRICE_LEVELS \<Longrightarrow> prio Q h s =
     concat (map (\<lambda>j. map (\<lambda>a. strip (h a)) (Q s j)) (before_ix s i)) @
     map (\<lambda>a. strip (h a)) (Q s i) @
     concat (map (\<lambda>j. map (\<lambda>a. strip (h a)) (Q s j)) (behind_ix s i))"
  by (simp add: prio_def prio_ix_split)

lemma extreme_before: "extreme s F i \<Longrightarrow> j \<in> set (before_ix s i) \<Longrightarrow> \<not> F j"
  by (cases s) (auto simp: is_greatest_def is_least_def)

lemma prio_from_best:
  assumes "extreme s (\<lambda>i. Q s i \<noteq> []) i" "i < PRICE_LEVELS"
  shows "prio Q h s = map (\<lambda>a. strip (h a)) (Q s i) @
     concat (map (\<lambda>j. map (\<lambda>a. strip (h a)) (Q s j)) (behind_ix s i))"
  using extreme_before [OF assms(1)] by (simp add: prio_split [OF assms(2)])

lemma prio_cong:
  assumes "Q' s = Q s" "\<And>a i. a \<in> set (Q s i) \<Longrightarrow> strip (h' a) = strip (h a)"
  shows "prio Q' h' s = prio Q h s"
  using assms unfolding prio_def by (intro arg_cong [of _ _ concat] map_cong) auto

lemma set_prio:
  assumes "\<And>i. PRICE_LEVELS \<le> i \<Longrightarrow> Q s i = []"
  shows "set (prio Q h s) = {strip (h a) | a i. a \<in> set (Q s i)}"
proof -
  have "i < PRICE_LEVELS" if "a \<in> set (Q s i)" for a i
    using assms [of i] that by (cases "i < PRICE_LEVELS") auto
  then show ?thesis by (auto simp: prio_def)
qed

subsection \<open>Draining one level\<close>

text \<open>
  The outcome of \<open>drain_level\<close> on level \<open>i\<close> of side \<open>s\<close>: the addresses left, the level, the
  book and the fills.
\<close>

definition drained ::
  "queues \<Rightarrow> book_half \<Rightarrow> nat \<Rightarrow> addr \<Rightarrow> Side \<Rightarrow> OrderBook \<Rightarrow> addr list \<Rightarrow> PriceLevel \<Rightarrow> OrderBook \<Rightarrow> Fill list \<Rightarrow> bool" where
  "drained Q s i a sd b as' lv' b' fs \<longleftrightarrow>
     core (set_queue s i as' Q) {a} (pool b') (set_queue s i lv' (book_levels b')) (order_table b')
   \<and> match_q sd (\<lambda>_. True) (strip (heap_of b a)) (map (\<lambda>p. strip (heap_of b p)) (Q s i)) =
       (strip (heap_of b' a), map (\<lambda>p. strip (heap_of b' p)) as', fs)
   \<and> fills b' = fills b @ fs \<and> match_count b' = match_count b + of_nat (length fs)
   \<and> half b' = half b \<and> scan_calls b' = scan_calls b \<and> capacity (pool b') = capacity (pool b)
   \<and> (\<forall>p. p \<notin> insert a (set (Q s i)) \<longrightarrow> heap_of b' p = heap_of b p)
   \<and> set as' \<subseteq> set (Q s i) \<and> (\<forall>p. o_id (heap_of b' p) = o_id (heap_of b p))
   \<and> order_table b' = (\<lambda>t. if t \<in> (\<lambda>p. slot (o_id (heap_of b p))) ` (set (Q s i) - set as') then None else order_table b t)"

lemma set_heap_simps [simp]:
  "pool (set_heap h b) = (pool b)\<lparr>arena := h\<rparr>" "half (set_heap h b) = half b"
  "order_table (set_heap h b) = order_table b" "fills (set_heap h b) = fills b"
  "match_count (set_heap h b) = match_count b" "scan_calls (set_heap h b) = scan_calls b"
  by (simp_all add: set_heap_def)

lemma release_unreg_simps [simp]:
  "pool (release a (unreg a b)) = deallocate a (pool b)" "half (release a (unreg a b)) = half b"
  "order_table (release a (unreg a b)) = (order_table b)(slot (o_id (heap_of b a)) := None)"
  "fills (release a (unreg a b)) = fills b" "match_count (release a (unreg a b)) = match_count b"
  "scan_calls (release a (unreg a b)) = scan_calls b"
  by (simp_all add: release_def unreg_def)

lemma deallocate_arena: "arena (deallocate a p) q = (if q = a then (arena p a)\<lparr>o_prev := None, o_next := None, o_filled_qty := 0\<rparr> else arena p q)"
  by (simp add: deallocate_def upd_order_apply)

lemma drain_level_stop:
  assumes "core Q {a} (pool b) (set_queue s i lv (book_levels b)) (order_table b)" "i < PRICE_LEVELS"
    and "Q s i = [] \<or> is_filled (heap_of b a)"
  shows "drain_level lv a sd b = Some (lv, b) \<and> drained Q s i a sd b (Q s i) lv b []"
proof -
  have "lv_empty lv \<longleftrightarrow> Q s i = []"
    using pl.empty_rep core_level [OF assms(1,2), of s] by simp
  then show ?thesis
    using assms by (subst drain_level.simps) (auto simp: drained_def)
qed

text \<open>One round of the loop: the front order trades with the incoming one.\<close>

lemma drain_round:
  fixes sd :: Side
  assumes c: "core Q {a} (pool b) (set_queue s i lv (book_levels b)) (order_table b)" and i: "i < PRICE_LEVELS"
    and q: "Q s i = r # rs" and nf: "\<not> is_filled (heap_of b a)"
    and qty_def: "qty = min (remaining (heap_of b a)) (remaining (heap_of b r))"
    and h_def: "h = upd_order r (fill qty) (upd_order a (fill qty) (heap_of b))"
    and b1_def: "b1 = (set_heap h b)\<lparr>fills := fills b @ [mk_fill sd (h a) (h r) qty], match_count := match_count b + 1\<rparr>"
    and lv1_def: "lv1 = lv_adjust_qty (- qty) lv"
  shows "drain_level lv a sd b =
           (if is_filled (h r)
            then (case lv_remove r h lv1 of (h2, lv2) \<Rightarrow> drain_level lv2 a sd (release r (unreg r (set_heap h2 b1))))
            else drain_level lv1 a sd b1)"
    and "core Q {a} (pool b1) (set_queue s i lv1 (book_levels b1)) (order_table b1)"
    and "r \<noteq> a" "h a = fill qty (heap_of b a)" "h r = fill qty (heap_of b r)"
    and "\<And>p. p \<noteq> a \<Longrightarrow> p \<noteq> r \<Longrightarrow> h p = heap_of b p"
    and "lv_remove r h lv1 = (h2, lv2) \<Longrightarrow>
           core (set_queue s i rs Q) {a} (pool (release r (unreg r (set_heap h2 b1))))
             (set_queue s i lv2 (book_levels (release r (unreg r (set_heap h2 b1)))))
             (order_table (release r (unreg r (set_heap h2 b1))))"
proof -
  have rep: "level_rep (heap_of b) lv (r # rs)"
    using core_level [OF c i, of s] q by simp
  have fr: "lv_front lv = Some r" "\<not> lv_empty lv"
    using pl.front_rep [OF rep] pl.empty_rep [OF rep] by simp_all
  show "drain_level lv a sd b =
           (if is_filled (h r)
            then (case lv_remove r h lv1 of (h2, lv2) \<Rightarrow> drain_level lv2 a sd (release r (unreg r (set_heap h2 b1))))
            else drain_level lv1 a sd b1)"
    using fr nf by (subst drain_level.simps) (simp add: Let_def qty_def h_def b1_def lv1_def)
  show ra: "r \<noteq> a"
    using core_X_live [OF c, of a] liveI [of r Q s i] q by auto
  then show "h a = fill qty (heap_of b a)" "h r = fill qty (heap_of b r)"
    "\<And>p. p \<noteq> a \<Longrightarrow> p \<noteq> r \<Longrightarrow> h p = heap_of b p"
    by (auto simp: h_def upd_order_apply)
  show c1: "core Q {a} (pool b1) (set_queue s i lv1 (book_levels b1)) (order_table b1)"
    using core_fill [OF c i q, of a qty] by (simp add: b1_def h_def lv1_def)
  show "core (set_queue s i rs Q) {a} (pool (release r (unreg r (set_heap h2 b1))))
             (set_queue s i lv2 (book_levels (release r (unreg r (set_heap h2 b1)))))
             (order_table (release r (unreg r (set_heap h2 b1))))"
    if rm: "lv_remove r h lv1 = (h2, lv2)"
    using core_remove [OF c1 i, of s "[]" r rs h2 lv2] q rm by (simp add: b1_def)
qed

text \<open>Composing the first trade with the outcome of the rest of the loop.\<close>

lemma drained_Cons:
  assumes q: "Q s i = r # rs" and d: "drained (set_queue s i rs Q) s i a sd b2 as' lv' b' fs"
    and a2: "strip (heap_of b2 a) = fill qty (strip (heap_of b a))"
    and rs2: "\<And>p. p \<in> set rs \<Longrightarrow> strip (heap_of b2 p) = strip (heap_of b p)"
    and frame: "\<And>p. p \<notin> insert a (set (Q s i)) \<Longrightarrow> heap_of b2 p = heap_of b p"
    and ids: "\<And>p. o_id (heap_of b2 p) = o_id (heap_of b p)"
    and tb2: "order_table b2 = (order_table b)(slot (o_id (heap_of b r)) := None)"
    and "fills b2 = fills b @ [f]" "match_count b2 = match_count b + 1" "half b2 = half b"
    and "scan_calls b2 = scan_calls b" "capacity (pool b2) = capacity (pool b)"
    and nf: "\<not> is_filled (heap_of b a)" and rf: "is_filled (fill qty (heap_of b r))"
    and qty: "qty = min (remaining (heap_of b a)) (remaining (heap_of b r))"
    and f: "f = mk_fill sd (fill qty (strip (heap_of b a))) (fill qty (strip (heap_of b r))) qty"
    and r: "r \<notin> set rs"
  shows "drained Q s i a sd b as' lv' b' (f # fs)"
proof -
  have m2: "match_q sd (\<lambda>_. True) (fill qty (strip (heap_of b a))) (map (\<lambda>p. strip (heap_of b p)) rs) =
       (strip (heap_of b' a), map (\<lambda>p. strip (heap_of b' p)) as', fs)"
    using d a2 rs2 by (simp add: drained_def cong: map_cong)
  have m: "match_q sd (\<lambda>_. True) (strip (heap_of b a)) (map (\<lambda>p. strip (heap_of b p)) (Q s i)) =
       (strip (heap_of b' a), map (\<lambda>p. strip (heap_of b' p)) as', f # fs)"
    using nf rf m2 by (simp add: q Let_def qty [symmetric] f)
  have "set as' \<subseteq> set rs" using d by (simp add: drained_def)
  with r have sub: "set (Q s i) - set as' = insert r (set rs - set as')" by (auto simp: q)
  have "(\<lambda>p. slot (o_id (heap_of b2 p))) ` (set rs - set as') = (\<lambda>p. slot (o_id (heap_of b p))) ` (set rs - set as')"
    using ids by (intro image_cong) auto
  with d tb2 sub have "order_table b' =
      (\<lambda>t. if t \<in> (\<lambda>p. slot (o_id (heap_of b p))) ` (set (Q s i) - set as') then None else order_table b t)"
    by (auto simp: drained_def fun_eq_iff)
  moreover have "heap_of b' p = heap_of b p" if "p \<notin> insert a (set (Q s i))" for p
    using d frame [OF that] that by (simp add: drained_def q)
  ultimately show ?thesis
    using d m ids assms(8-12) \<open>set as' \<subseteq> set rs\<close> by (auto simp: drained_def q)
qed

lemma drain_level_correct:
  assumes "core Q {a} (pool b) (set_queue s i lv (book_levels b)) (order_table b)" "i < PRICE_LEVELS"
    and "order_ok (heap_of b a)" "\<forall>p\<in>set (Q s i). order_ok (heap_of b p)"
  shows "\<exists>as' lv' b' fs. drain_level lv a sd b = Some (lv', b') \<and> drained Q s i a sd b as' lv' b' fs"
  using assms
proof (induction "Q s i" arbitrary: Q lv b)
  case Nil
  with drain_level_stop [OF Nil.prems(1,2), of sd] show ?case by auto
next
  case (Cons r rs)
  note c = Cons.prems(1) and i = Cons.prems(2) and q = Cons.hyps(2) [symmetric]
  show ?case
  proof (cases "is_filled (heap_of b a)")
    case True
    with drain_level_stop [OF c i, of sd] show ?thesis by blast
  next
    case nf: False
    define qty where "qty = min (remaining (heap_of b a)) (remaining (heap_of b r))"
    define h where "h = upd_order r (fill qty) (upd_order a (fill qty) (heap_of b))"
    define b1 where "b1 = (set_heap h b)\<lparr>fills := fills b @ [mk_fill sd (h a) (h r) qty], match_count := match_count b + 1\<rparr>"
    define lv1 where "lv1 = lv_adjust_qty (- qty) lv"
    note round = drain_round [OF c i q nf qty_def h_def b1_def lv1_def]
    have ok: "order_ok (heap_of b a)" "order_ok (heap_of b r)" "\<forall>p\<in>set rs. order_ok (heap_of b p)"
      using Cons.prems(3,4) q by auto
    note m = min_filled [OF ok(1,2) qty_def]
    have rs: "r \<notin> set rs" "a \<notin> set rs"
      using core_distinct [OF c, of s i] core_X_live [OF c, of a] q liveI [of a Q s i] by auto
    have rest: "h p = heap_of b p" if "p \<in> set rs" for p
      using round(6) rs that by metis
    have h_ids: "o_id (h p) = o_id (heap_of b p)" for p
      by (simp add: h_def upd_order_apply)
    have mk: "mk_fill sd (h a) (h r) qty = mk_fill sd (fill qty (strip (heap_of b a))) (fill qty (strip (heap_of b r))) qty"
      by (simp add: mk_fill_def round(4,5))
    show ?thesis
    proof (cases "is_filled (h r)")
      case False
      with m(1) round(4,5) have "is_filled (heap_of b1 a)" by (simp add: b1_def)
      with drain_level_stop [OF round(2) i, of sd] False round(1)
      have res: "drain_level lv a sd b = Some (lv1, b1)" by simp
      have "drained Q s i a sd b (Q s i) lv1 b1 [mk_fill sd (h a) (h r) qty]"
        using round(2) nf False rest q mk
        by (auto simp: drained_def b1_def round(4,5,6) h_ids Let_def qty_def [symmetric] capacity_def set_queue_idI [of Q s i])
      with res show ?thesis by blast
    next
      case True
      obtain h2 lv2 where rm: "lv_remove r h lv1 = (h2, lv2)" by fastforce
      define b2 where "b2 = release r (unreg r (set_heap h2 b1))"
      note c2 = round(7) [OF rm, folded b2_def]
      have pay: "strip (h2 p) = strip (h p)" for p by (rule pl.remove_payload [OF rm])
      have h2: "heap_of b2 p = h2 p" if "p \<noteq> r" for p using that by (simp add: b2_def b1_def)
      have a2: "strip (heap_of b2 a) = fill qty (strip (heap_of b a))"
        using pay round(3,4) by (simp add: h2)
      have rs2: "strip (heap_of b2 p) = strip (heap_of b p)" if "p \<in> set rs" for p
        using pay rest that rs by (metis h2)
      have "order_ok (heap_of b2 a)" "\<forall>p\<in>set rs. order_ok (heap_of b2 p)"
        using m(2) ok(3) a2 rs2 order_ok_strip strip_fill by metis+
      then obtain as' lv' b' fs where d: "drain_level lv2 a sd b2 = Some (lv', b')"
        "drained (set_queue s i rs Q) s i a sd b2 as' lv' b' fs"
        using Cons.hyps(1) [OF _ c2 i] by auto
      have res: "drain_level lv a sd b = Some (lv', b')"
        using round(1) True rm d(1) by (simp add: b2_def)
      have frame: "heap_of b2 p = heap_of b p" if "p \<notin> insert a (set (Q s i))" for p
      proof -
        have "level_rep h lv1 ([] @ r # rs)" using core_level [OF round(2) i, of s] q by (simp add: b1_def)
        from pl.remove_frame [OF this rm, of p] that q have "h2 p = h p" "p \<noteq> r" by auto
        then show ?thesis using h2 round(6) that by auto
      qed
      have ids: "o_id (heap_of b2 p) = o_id (heap_of b p)" for p
        using payload_fields(6) [OF pay, of p] by (simp add: b2_def b1_def h_def upd_order_apply)
      have tb2: "order_table b2 = (order_table b)(slot (o_id (heap_of b r)) := None)"
        using payload_fields(6) [OF pay, of r] round(5) by (simp add: b2_def b1_def)
      have "drained Q s i a sd b as' lv' b' (mk_fill sd (h a) (h r) qty # fs)"
        by (rule drained_Cons [OF q d(2) a2 rs2 frame ids tb2 _ _ _ _ _ nf True [unfolded round(5)] qty_def mk rs(1)])
          (simp_all add: b2_def b1_def capacity_def)
      with res show ?thesis by blast
    qed
  qed
qed

lemma drained_core:
  "drained Q s i a sd b as' lv' b' fs \<Longrightarrow>
   core (set_queue s i as' Q) {a} (pool b') (set_queue s i lv' (book_levels b')) (order_table b')"
  unfolding drained_def by blast

lemma drained_open:
  assumes d: "drained Q s i a sd b as' lv' b' fs" and c: "core Q {a} pl L tb"
    and op: "open_orders Q (heap_of b)" "order_ok (heap_of b a)"
  shows "open_orders (set_queue s i as' Q) (heap_of b')" "order_ok (heap_of b' a)"
    "as' = [] \<or> is_filled (heap_of b' a)"
proof -
  have m: "match_q sd (\<lambda>_. True) (strip (heap_of b a)) (map (\<lambda>p. strip (heap_of b p)) (Q s i)) =
       (strip (heap_of b' a), map (\<lambda>p. strip (heap_of b' p)) as', fs)"
    using d by (simp add: drained_def)
  have o: "\<forall>x\<in>set (map (\<lambda>p. strip (heap_of b p)) (Q s i)). \<not> is_filled x"
    using op(1) liveI [of _ Q s i] by (auto simp: open_orders_def)
  from match_q_stops [OF m] op(2) o order_ok_open
  show "order_ok (heap_of b' a)" "as' = [] \<or> is_filled (heap_of b' a)" by fastforce+
  have "\<not> is_filled (heap_of b' p)" if "p \<in> set as'" for p
    using match_q_open [OF m] op(2) o that by auto
  moreover have "heap_of b' p = heap_of b p" "p \<in> live Q" if "p \<in> elsewhere s i Q" for p
  proof -
    from that show l: "p \<in> live Q" using live_split [of Q s i] by blast
    then have "p \<noteq> a" using core_X_live [OF c, of a] by blast
    moreover have "p \<notin> set (Q s i)" using core_elsewhere [OF c, of s i] that by blast
    ultimately show "heap_of b' p = heap_of b p" using d by (simp add: drained_def)
  qed
  ultimately show "open_orders (set_queue s i as' Q) (heap_of b')"
    using op(1) by (auto simp: open_orders_def live_set_queue)
qed

subsection \<open>The matching loop\<close>

definition swept ::
  "queues \<Rightarrow> book_half \<Rightarrow> (Price \<Rightarrow> bool) \<Rightarrow> addr \<Rightarrow> Side \<Rightarrow> OrderBook \<Rightarrow> queues \<Rightarrow> OrderBook \<Rightarrow> Fill list \<Rightarrow> bool" where
  "swept Q s go a sd b Q' b' fs \<longleftrightarrow>
     core Q' {a} (pool b') (book_levels b') (order_table b')
   \<and> index_ok Q' s (half b' s) \<and> open_orders Q' (heap_of b') \<and> order_ok (heap_of b' a)
   \<and> match_q sd go (strip (heap_of b a)) (prio Q (heap_of b) s) = (strip (heap_of b' a), prio Q' (heap_of b') s, fs)
   \<and> fills b' = fills b @ fs \<and> match_count b' = match_count b + of_nat (length fs)
   \<and> (\<forall>s'. s' \<noteq> s \<longrightarrow> half b' s' = half b s' \<and> Q' s' = Q s') \<and> capacity (pool b') = capacity (pool b)
   \<and> (\<forall>p. p \<noteq> a \<and> (\<forall>i. p \<notin> set (Q s i)) \<longrightarrow> heap_of b' p = heap_of b p)
   \<and> (\<forall>i. set (Q' s i) \<subseteq> set (Q s i)) \<and> (\<forall>p. o_id (heap_of b' p) = o_id (heap_of b p))
   \<and> (is_filled (heap_of b' a) \<or> \<not> go (best (half b' s)))
   \<and> order_table b' = (\<lambda>t. if t \<in> (\<lambda>p. slot (o_id (heap_of b p))) ` (live Q - live Q') then None else order_table b t)"

lemma at_level_price:
  assumes "core Q X pl L tb" "p \<in> set (Q s i)" shows "o_price (arena pl p) = of_nat (Suc i)"
  using core_at [OF assms] unat_of_index [OF core_index [OF assms]]
  by (simp add: at_level_def word_unat_eq_iff)

lemma sweep_stop:
  assumes c: "core Q {a} (pool b) (book_levels b) (order_table b)" and ix: "index_ok Q s (half b s)"
    and op: "open_orders Q (heap_of b)" "order_ok (heap_of b a)"
    and st: "is_filled (heap_of b a) \<or> \<not> go (best (half b s))"
  shows "sweep s go sd a b = Some b" "swept Q s go a sd b Q b []"
proof -
  from st show "sweep s go sd a b = Some b" by (subst sweep.simps) auto
  have "match_q sd go (strip (heap_of b a)) (prio Q (heap_of b) s) = (strip (heap_of b a), prio Q (heap_of b) s, [])"
  proof (cases "is_filled (heap_of b a)")
    case False
    with st have ng: "\<not> go (best (half b s))" by simp
    from ix consider "\<forall>i. Q s i = []" | i where "extreme s (\<lambda>i. Q s i \<noteq> []) i" "best (half b s) = of_nat (Suc i)"
      by (auto simp: index_ok_def best_ok_def)
    then show ?thesis
    proof cases
      case 1
      then have "prio Q (heap_of b) s = []" by (auto simp: prio_def)
      then show ?thesis by simp
    next
      case (2 i)
      then have ne: "Q s i \<noteq> []" by (cases s) (auto simp: is_greatest_def is_least_def)
      then obtain p ps where p: "Q s i = p # ps" by (cases "Q s i") auto
      then have "i < PRICE_LEVELS" using core_index [OF c, of p s i] by simp
      from prio_from_best [of s Q i "heap_of b"] 2(1) this p obtain ys where "prio Q (heap_of b) s = strip (heap_of b p) # ys" by simp
      moreover have "o_price (heap_of b p) = best (half b s)" using at_level_price [OF c, of p s i] p 2(2) by simp
      ultimately show ?thesis using ng by simp
    qed
  qed simp
  then show "swept Q s go a sd b Q b []"
    using assms by (simp add: swept_def)
qed

lemma prio_after_drain:
  assumes c: "core Q X pl L tb" and e: "extreme s (\<lambda>i. Q s i \<noteq> []) i" and i: "i < PRICE_LEVELS"
    and h: "\<And>p. p \<in> elsewhere s i Q \<Longrightarrow> h' p = h p"
  shows "prio (set_queue s i as' Q) h' s = map (\<lambda>p. strip (h' p)) as' @
     concat (map (\<lambda>j. map (\<lambda>p. strip (h p)) (Q s j)) (behind_ix s i))"
proof -
  have ne: "j \<noteq> i" if "j \<in> set (before_ix s i) \<union> set (behind_ix s i)" for j
    using not_in_around [of i s] that by auto
  have "map (\<lambda>p. strip (h' p)) (set_queue s i as' Q s j) = map (\<lambda>p. strip (h p)) (Q s j)"
    if "j \<in> set (before_ix s i) \<union> set (behind_ix s i)" for j
    using ne [OF that] h elsewhereI [of _ Q s j s i] by (auto simp: set_queue_apply)
  then have A: "map (\<lambda>j. map (\<lambda>p. strip (h' p)) (set_queue s i as' Q s j)) (before_ix s i) =
        map (\<lambda>j. map (\<lambda>p. strip (h p)) (Q s j)) (before_ix s i)"
    "map (\<lambda>j. map (\<lambda>p. strip (h' p)) (set_queue s i as' Q s j)) (behind_ix s i) =
        map (\<lambda>j. map (\<lambda>p. strip (h p)) (Q s j)) (behind_ix s i)" by auto
  have B: "concat (map (\<lambda>j. map (\<lambda>p. strip (h p)) (Q s j)) (before_ix s i)) = []"
    using extreme_before [OF e] by auto
  show ?thesis by (simp only: prio_split [OF i] A B set_queue_same append_Nil)
qed

text \<open>What the loop body does when the guard holds: the best level is drained.\<close>

lemma sweep_body:
  assumes c: "core Q {a} (pool b) (book_levels b) (order_table b)" and ix: "index_ok Q s (half b s)"
    and op: "open_orders Q (heap_of b)" "order_ok (heap_of b a)"
    and go: "go (best (half b s))" and no: "\<not> go (no_best s)"
  obtains i as' lv' b1 fs where "extreme s (\<lambda>i. Q s i \<noteq> []) i" "i < PRICE_LEVELS" "Q s i \<noteq> []"
    "idx (best (half b s)) = i" "best (half b s) = of_nat (Suc i)"
    "drain_level (levels (half b s) i) a sd b = Some (lv', b1)" "drained Q s i a sd b as' lv' b1 fs"
    "lv_empty lv' \<longleftrightarrow> as' = []"
proof -
  from ix go no obtain i where i: "extreme s (\<lambda>i. Q s i \<noteq> []) i" "best (half b s) = of_nat (Suc i)"
    by (auto simp: index_ok_def best_ok_def)
  then have ne: "Q s i \<noteq> []" by (cases s) (auto simp: is_greatest_def is_least_def)
  then have lt: "i < PRICE_LEVELS" using core_out [OF c, of i s] by (meson not_le)
  have "set_queue s i (levels (half b s) i) (book_levels b) = book_levels b"
    by (rule set_queue_idI) simp
  with c have c': "core Q {a} (pool b) (set_queue s i (levels (half b s) i) (book_levels b)) (order_table b)" by simp
  have "\<forall>p\<in>set (Q s i). order_ok (heap_of b p)"
    using op(1) liveI [of _ Q s i] order_ok_open by (auto simp: open_orders_def)
  from drain_level_correct [OF c' lt op(2) this] obtain as' lv' b1 fs where
    d: "drain_level (levels (half b s) i) a sd b = Some (lv', b1)" "drained Q s i a sd b as' lv' b1 fs" by blast
  from pl.empty_rep [OF core_level [OF drained_core [OF d(2)] lt, of s]] have "lv_empty lv' \<longleftrightarrow> as' = []" by simp
  with that [OF i(1) lt ne _ i(2) d] idx_of_index [OF lt] i(2) show thesis by simp
qed

lemma put_level_simps [simp]:
  "pool (put_level s i lv b) = pool b" "order_table (put_level s i lv b) = order_table b"
  "fills (put_level s i lv b) = fills b" "match_count (put_level s i lv b) = match_count b"
  "scan_calls (put_level s i lv b) = scan_calls b"
  "bits (half (put_level s i lv b) s') = bits (half b s')" "best (half (put_level s i lv b) s') = best (half b s')"
  "s' \<noteq> s \<Longrightarrow> half (put_level s i lv b) s' = half b s'"
  by (auto simp: put_level_def upd_half_def)

lemma upd_half_simps [simp]:
  "pool (upd_half s f b) = pool b" "order_table (upd_half s f b) = order_table b"
  "fills (upd_half s f b) = fills b" "match_count (upd_half s f b) = match_count b"
  "scan_calls (upd_half s f b) = scan_calls b"
  "half (upd_half s f b) s = f (half b s)" "s' \<noteq> s \<Longrightarrow> half (upd_half s f b) s' = half b s'"
  by (auto simp: upd_half_def)

lemma levels_upd_half [simp]:
  "book_levels (upd_half s (bits_update f) b) = book_levels b" "book_levels (upd_half s (best_update g) b) = book_levels b"
  by (auto simp: upd_half_def)

text \<open>Clearing the bit of an emptied level and rescanning restores the index of the side.\<close>

lemma clear_and_scan:
  assumes ix: "bs_ok (bits (half b s))" "occupied (bits (half b s)) = (\<lambda>j. Q s j \<noteq> [])" and i: "i < PRICE_LEVELS"
  obtains bs p where "bs_clear i (bits (half b s)) = Some bs"
    "scan_best s (upd_half s (\<lambda>x. x\<lparr>bits := bs\<rparr>) b) =
       Some (upd_half s (\<lambda>x. x\<lparr>bits := bs, best := p\<rparr>) (b\<lparr>scan_calls := scan_calls b + 1\<rparr>))"
    "bs_ok bs" "occupied bs = (\<lambda>j. set_queue s i [] Q s j \<noteq> [])"
    "best_ok s (\<lambda>j. set_queue s i [] Q s j \<noteq> []) p"
proof -
  have "(\<lambda>j. Q s j \<noteq> [] \<and> j \<noteq> i) = (\<lambda>j. set_queue s i [] Q s j \<noteq> [])"
    by (auto simp: set_queue_apply fun_eq_iff)
  with pb.del_law [OF ix(1) i] ix(2) obtain bs where
    bs: "bs_clear i (bits (half b s)) = Some bs" "bs_ok bs" "occupied bs = (\<lambda>j. set_queue s i [] Q s j \<noteq> [])"
    by auto
  let ?b = "upd_half s (\<lambda>x. x\<lparr>bits := bs\<rparr>) b"
  from scan_best_correct [of ?b s] bs(2,3) obtain p where
    "scan_best s ?b = Some (upd_half s (\<lambda>x. x\<lparr>best := p\<rparr>) (?b\<lparr>scan_calls := scan_calls ?b + 1\<rparr>))"
    "best_ok s (\<lambda>j. set_queue s i [] Q s j \<noteq> []) p" by auto
  moreover have "upd_half s (\<lambda>x. x\<lparr>best := p\<rparr>) (?b\<lparr>scan_calls := scan_calls ?b + 1\<rparr>) =
      upd_half s (\<lambda>x. x\<lparr>bits := bs, best := p\<rparr>) (b\<lparr>scan_calls := scan_calls b + 1\<rparr>)"
    by (simp add: upd_half_def)
  ultimately show thesis using that bs by simp
qed

lemma live_mono:
  assumes "\<And>i. set (Q' s i) \<subseteq> set (Q s i)" "\<And>s'. s' \<noteq> s \<Longrightarrow> Q' s' = Q s'"
  shows "live Q' \<subseteq> live Q"
proof
  fix p assume "p \<in> live Q'"
  then obtain s' i where "p \<in> set (Q' s' i)" by (auto simp: in_live)
  then have "p \<in> set (Q s' i)" using assms by (cases "s' = s") auto
  then show "p \<in> live Q" by (rule liveI)
qed

text \<open>A drained level followed by the rest of the loop.\<close>

lemma swept_after_drain:
  assumes d: "drained Q s i a sd b as' lv' b1 fs1" and c: "core Q {a} (pool b) L tb"
    and e: "extreme s (\<lambda>i. Q s i \<noteq> []) i" and i: "i < PRICE_LEVELS"
    and price: "\<And>p. p \<in> set (Q s i) \<Longrightarrow> go (o_price (heap_of b p))"
    and fin: "as' = [] \<or> is_filled (heap_of b1 a)"
    and b2: "pool b2 = pool b1" "order_table b2 = order_table b1" "fills b2 = fills b1"
      "match_count b2 = match_count b1" "\<And>s'. s' \<noteq> s \<Longrightarrow> half b2 s' = half b1 s'"
    and sw: "swept (set_queue s i as' Q) s go a sd b2 Q' b' fs2"
  shows "swept Q s go a sd b Q' b' (fs1 @ fs2)"
proof -
  let ?Q1 = "set_queue s i as' Q"
  let ?ys = "concat (map (\<lambda>j. map (\<lambda>p. strip (heap_of b p)) (Q s j)) (behind_ix s i))"
  have frame: "heap_of b1 p = heap_of b p" if "p \<notin> insert a (set (Q s i))" for p
    using d that unfolding drained_def by blast
  have el: "heap_of b1 p = heap_of b p" if "p \<in> elsewhere s i Q" for p
  proof (rule frame)
    show "p \<notin> insert a (set (Q s i))"
      using that core_elsewhere [OF c, of s i] core_X_live [OF c, of a] live_split [of Q s i] by blast
  qed
  have p1: "prio ?Q1 (heap_of b1) s = map (\<lambda>p. strip (heap_of b1 p)) as' @ ?ys"
    using prio_after_drain [OF c e i, where h = "heap_of b" and h' = "heap_of b1"] el by blast
  have m1: "match_q sd (\<lambda>_. True) (strip (heap_of b a)) (map (\<lambda>p. strip (heap_of b p)) (Q s i)) =
       (strip (heap_of b1 a), map (\<lambda>p. strip (heap_of b1 p)) as', fs1)"
    using d unfolding drained_def by blast
  have m2: "match_q sd go (strip (heap_of b1 a)) (map (\<lambda>p. strip (heap_of b1 p)) as' @ ?ys) =
       (strip (heap_of b' a), prio Q' (heap_of b') s, fs2)"
    using sw unfolding swept_def b2 p1 by blast
  have m: "match_q sd go (strip (heap_of b a)) (prio Q (heap_of b) s) =
       (strip (heap_of b' a), prio Q' (heap_of b') s, fs1 @ fs2)"
  proof (cases "as' = []")
    case True
    with m2 price show ?thesis
      unfolding prio_from_best [of s Q i "heap_of b", OF e i] by (subst match_q_append) (auto simp: m1)
  next
    case False
    with m2 price fin show ?thesis
      unfolding prio_from_best [of s Q i "heap_of b", OF e i] by (subst match_q_append) (auto simp: m1)
  qed
  have sub: "set (?Q1 s j) \<subseteq> set (Q s j)" for j
    using d unfolding drained_def by (auto simp: set_queue_apply)
  have oth: "?Q1 s' = Q s'" if "s' \<noteq> s" for s' using that by (auto simp: set_queue_def)
  have ids: "o_id (heap_of b1 p) = o_id (heap_of b p)" for p using d unfolding drained_def by blast
  have live: "live Q - live ?Q1 = set (Q s i) - set as'" "live ?Q1 \<subseteq> live Q" "live Q' \<subseteq> live ?Q1"
  proof -
    show "live Q - live ?Q1 = set (Q s i) - set as'"
      using core_elsewhere [OF c, of s i] sub [of i] live_split [of Q s i] by (auto simp: live_set_queue)
    show "live ?Q1 \<subseteq> live Q" using live_mono [of ?Q1 s Q] sub oth by blast
    show "live Q' \<subseteq> live ?Q1" using live_mono [of Q' s ?Q1] sw unfolding swept_def by blast
  qed
  then have "live Q - live Q' = (set (Q s i) - set as') \<union> (live ?Q1 - live Q')" by blast
  moreover have "order_table b1 = (\<lambda>t. if t \<in> (\<lambda>p. slot (o_id (heap_of b p))) ` (set (Q s i) - set as') then None else order_table b t)"
    using d unfolding drained_def by blast
  moreover have "order_table b' = (\<lambda>t. if t \<in> (\<lambda>p. slot (o_id (heap_of b p))) ` (live ?Q1 - live Q') then None else order_table b1 t)"
    using sw unfolding swept_def b2 ids by blast
  ultimately have tab: "order_table b' =
      (\<lambda>t. if t \<in> (\<lambda>p. slot (o_id (heap_of b p))) ` (live Q - live Q') then None else order_table b t)"
    by (simp add: fun_eq_iff image_Un)
  have f: "heap_of b' p = heap_of b p" if "p \<noteq> a" "\<forall>j. p \<notin> set (Q s j)" for p
  proof -
    have "p \<notin> set (?Q1 s j)" for j using sub [of j] that(2) by blast
    with sw that(1) have "heap_of b' p = heap_of b1 p" unfolding swept_def b2 by blast
    also have "\<dots> = heap_of b p" using that by (intro frame) simp
    finally show ?thesis .
  qed
  have mono: "set (Q' s j) \<subseteq> set (Q s j)" for j
    using sw sub [of j] unfolding swept_def by blast
  have rest: "fills b' = fills b @ fs1 @ fs2" "match_count b' = match_count b + of_nat (length (fs1 @ fs2))"
    "\<And>s'. s' \<noteq> s \<Longrightarrow> half b' s' = half b s' \<and> Q' s' = Q s'" "capacity (pool b') = capacity (pool b)"
    using sw d b2 oth by (simp_all add: swept_def drained_def)
  show ?thesis
    unfolding swept_def using sw m rest f mono ids tab unfolding swept_def b2 by auto
qed

text \<open>The loop over levels: it ends, keeps the invariant and computes \<open>match_q\<close>.\<close>

lemma length_prio_drained:
  assumes "core Q X pl L tb" "i < PRICE_LEVELS" "Q s i \<noteq> []"
  shows "length (prio (set_queue s i [] Q) h' s) < length (prio Q h s)"
proof -
  have "length (concat (map (\<lambda>j. map (\<lambda>p. strip (h' p)) (set_queue s i [] Q s j)) xs)) =
        length (concat (map (\<lambda>j. map (\<lambda>p. strip (h p)) (Q s j)) xs))" if "i \<notin> set xs" for xs
    using that by (induction xs) (auto simp: set_queue_apply)
  from this [OF not_in_around(1) [of i s]] this [OF not_in_around(2) [of i s]] assms(3)
  show ?thesis by (simp add: prio_split [OF assms(2)] del: length_concat)
qed

lemma sweep_correct:
  assumes "core Q {a} (pool b) (book_levels b) (order_table b)" "index_ok Q s (half b s)"
    and "open_orders Q (heap_of b)" "order_ok (heap_of b a)" and no: "\<not> go (no_best s)"
  shows "\<exists>Q' b' fs. sweep s go sd a b = Some b' \<and> swept Q s go a sd b Q' b' fs"
  using assms(1-4)
proof (induction "length (prio Q (heap_of b) s)" arbitrary: Q b rule: less_induct)
  case less
  note c = less.prems(1) and ix = less.prems(2) and op = less.prems(3,4)
  show ?case
  proof (cases "is_filled (heap_of b a) \<or> \<not> go (best (half b s))")
    case True
    with sweep_stop [OF c ix op, where sd = sd] show ?thesis by blast
  next
    case False
    then have nf: "\<not> is_filled (heap_of b a)" and g: "go (best (half b s))" by auto
    from sweep_body [where sd = sd, OF c ix op g no] obtain i as' lv' b1 fs1 where
      b1: "extreme s (\<lambda>i. Q s i \<noteq> []) i" "i < PRICE_LEVELS" "Q s i \<noteq> []"
        "idx (best (half b s)) = i" "best (half b s) = of_nat (Suc i)"
        "drain_level (levels (half b s) i) a sd b = Some (lv', b1)"
      and d: "drained Q s i a sd b as' lv' b1 fs1" and emp: "lv_empty lv' \<longleftrightarrow> as' = []" .
    let ?Q1 = "set_queue s i as' Q" and ?b2 = "put_level s i lv' b1"
    note op1 = drained_open [OF d c op]
    have price: "go (o_price (heap_of b p))" if "p \<in> set (Q s i)" for p
      using at_level_price [OF c that] g b1(5) by simp
    have half: "half b1 = half b" using d unfolding drained_def by blast
    note after = swept_after_drain [where go = go, OF d c b1(1,2) price op1(3)]
    show ?thesis
    proof (cases "as' = []")
      case True
      have "bs_ok (bits (half ?b2 s))" "occupied (bits (half ?b2 s)) = (\<lambda>j. Q s j \<noteq> [])"
        using ix half by (simp_all add: index_ok_def)
      then obtain bs p where bs1: "bs_clear i (bits (half ?b2 s)) = Some bs"
        and scan: "scan_best s (upd_half s (\<lambda>x. x\<lparr>bits := bs\<rparr>) ?b2) =
           Some (upd_half s (\<lambda>x. x\<lparr>bits := bs, best := p\<rparr>) (?b2\<lparr>scan_calls := scan_calls ?b2 + 1\<rparr>))"
        and bs: "bs_ok bs" "occupied bs = (\<lambda>j. ?Q1 s j \<noteq> [])" "best_ok s (\<lambda>j. ?Q1 s j \<noteq> []) p"
        unfolding True by (rule clear_and_scan [where Q = Q, OF _ _ b1(2)])
      let ?b3 = "upd_half s (\<lambda>x. x\<lparr>bits := bs, best := p\<rparr>) (?b2\<lparr>scan_calls := scan_calls ?b2 + 1\<rparr>)"
      have lv: "book_levels ?b3 = set_queue s i lv' (book_levels b1)"
        by (auto simp: put_level_def upd_half_def set_queue_def fun_eq_iff)
      have sw: "sweep s go sd a b = sweep s go sd a ?b3"
        using nf g b1 bs1 scan True emp by (subst sweep.simps) (simp add: Let_def)
      have c3: "core ?Q1 {a} (pool ?b3) (book_levels ?b3) (order_table ?b3)"
        unfolding lv using drained_core [OF d] by simp
      have ix3: "index_ok ?Q1 s (half ?b3 s)" using bs by (simp add: index_ok_def)
      have "length (prio ?Q1 (heap_of ?b3) s) < length (prio Q (heap_of b) s)"
        unfolding True by (rule length_prio_drained [OF c b1(2,3)])
      from less.hyps [OF this c3 ix3] op1 obtain Q' b' fs2 where
        rec: "sweep s go sd a ?b3 = Some b'" "swept ?Q1 s go a sd ?b3 Q' b' fs2" by auto
      have "swept Q s go a sd b Q' b' (fs1 @ fs2)"
        by (rule after [OF _ _ _ _ _ _ rec(2)]) simp_all
      with rec(1) sw show ?thesis by auto
    next
      case False
      with op1 have f: "is_filled (heap_of ?b2 a)" by simp
      have ne: "(\<lambda>j. ?Q1 s j \<noteq> []) = (\<lambda>j. Q s j \<noteq> [])"
        using False b1(3) by (auto simp: set_queue_apply fun_eq_iff)
      have c2: "core ?Q1 {a} (pool ?b2) (book_levels ?b2) (order_table ?b2)"
        unfolding levels_put_level using drained_core [OF d] by simp
      have ix2: "index_ok ?Q1 s (half ?b2 s)" using ix half by (simp add: index_ok_def ne)
      have op2: "open_orders ?Q1 (heap_of ?b2)" "order_ok (heap_of ?b2 a)" using op1 by simp_all
      note st = sweep_stop [OF c2 ix2 op2, of go sd]
      have "sweep s go sd a b = sweep s go sd a ?b2"
        using nf g b1 False emp by (subst sweep.simps) (simp add: Let_def)
      moreover have "swept Q s go a sd b ?Q1 ?b2 (fs1 @ [])"
        by (rule after [OF _ _ _ _ _ _ st(2)]) (use f in simp_all)
      ultimately show ?thesis using st(1) f by auto
    qed
  qed
qed

end
