(* ===== verification/Book_Steps.thy ===== *)
theory Book_Steps
  imports Book_Refinement
begin

section \<open>Resting and unlinking an order\<close>

text \<open>
  The two branches of the order book that change the queues other than by matching:
  \<open>rest_order\<close> (the tail of \<open>add_order\<close>) appends an order to its level, sets the bit of a
  level that was empty and improves the cached best price; \<open>unlink_order\<close> (the body of
  \<open>cancel_order\<close>) removes an order, clears the bit of an emptied level and rescans when the best
  level was emptied. Each lemma gives the invariant and the priority lists after the step.
\<close>

subsection \<open>The cached best price\<close>

lemma price_index_less:
  assumes "i < PRICE_LEVELS" "j < PRICE_LEVELS"
  shows "(of_nat (Suc i) :: Price) < of_nat (Suc j) \<longleftrightarrow> i < j"
    and "(of_nat (Suc i) :: Price) = of_nat (Suc j) \<longleftrightarrow> i = j"
  using unat_of_index [OF assms(1)] unat_of_index [OF assms(2)]
  by (auto simp: word_less_nat_alt word_unat_eq_iff simp del: of_nat_Suc)

lemma no_best_improved: "i < PRICE_LEVELS \<Longrightarrow> improves s (of_nat (Suc i)) (no_best s)"
  using unat_of_index [of i] by (cases s) (auto simp: const_defs word_less_nat_alt simp del: of_nat_Suc)

lemma best_ok_insert:
  assumes F: "\<And>j. F j \<Longrightarrow> j < PRICE_LEVELS" and i: "i < PRICE_LEVELS" and q: "best_ok s F q"
  shows "best_ok s (\<lambda>j. F j \<or> j = i) (if improves s (of_nat (Suc i)) q then of_nat (Suc i) else q)"
proof -
  have one: "extreme s (\<lambda>j. j = i) i" by (cases s) (auto simp: is_greatest_def is_least_def)
  from q consider "q = no_best s" "\<forall>j. \<not> F j" | k where "extreme s F k" "q = of_nat (Suc k)"
    by (auto simp: best_ok_def)
  then show ?thesis
  proof cases
    case 1
    with no_best_improved [OF i, of s] one show ?thesis by (auto simp: best_ok_def)
  next
    case (2 k)
    then have "k < PRICE_LEVELS" using F by (cases s) (auto simp: is_greatest_def is_least_def)
    note less = price_index_less [OF i this] price_index_less [OF this i]
    have "extreme s (\<lambda>j. F j \<or> j = i) (if improves s (of_nat (Suc i)) q then i else k)"
      using 2 less by (cases s) (auto simp: is_greatest_def is_least_def simp del: of_nat_Suc)
    with 2(2) show ?thesis by (auto simp: best_ok_def simp del: of_nat_Suc)
  qed
qed

lemma best_ok_delete:
  assumes "best_ok s F q" "q \<noteq> of_nat (Suc i)"
  shows "best_ok s (\<lambda>j. F j \<and> j \<noteq> i) q"
proof -
  have "extreme s (\<lambda>j. F j \<and> j \<noteq> i) k" if "extreme s F k" "k \<noteq> i" for k
    using that by (cases s) (auto simp: is_greatest_def is_least_def)
  with assms show ?thesis by (auto simp: best_ok_def)
qed

subsection \<open>Priority lists of changed queues\<close>

lemma insert_prio_between:
  assumes "\<forall>y\<in>set xs. \<not> improves s (o_price x) (o_price y)" "\<forall>y\<in>set ys. improves s (o_price x) (o_price y)"
  shows "insert_prio s x (xs @ ys) = xs @ x # ys"
proof -
  have "takeWhile (\<lambda>y. \<not> improves s (o_price x) (o_price y)) ys = []"
    "dropWhile (\<lambda>y. \<not> improves s (o_price x) (o_price y)) ys = ys"
    using assms(2) by (cases ys; simp)+
  with assms(1) show ?thesis by (simp add: insert_prio_def)
qed

lemma prio_congI:
  assumes "\<And>i. map (\<lambda>a. strip (h' a)) (Q' s i) = map (\<lambda>a. strip (h a)) (Q s i)"
  shows "prio Q' h' s = prio Q h s"
  using assms by (simp add: prio_def)

lemma prio_append:
  assumes c: "core Q X pl L tb" and i: "i < PRICE_LEVELS" and x: "strip (h a) = strip x" "o_price x = of_nat (Suc i)"
    and h: "\<And>p. strip (h p) = strip (arena pl p)"
  shows "prio (set_queue s i (Q s i @ [a]) Q) h s = insert_prio s (strip x) (prio Q (arena pl) s)"
proof -
  let ?part = "\<lambda>ix. concat (map (\<lambda>j. map (\<lambda>p. strip (arena pl p)) (Q s j)) ix)"
  have keep: "concat (map (\<lambda>j. map (\<lambda>p. strip (h p)) (set_queue s i (Q s i @ [a]) Q s j)) ix) = ?part ix"
    if "i \<notin> set ix" for ix
    using that h by (intro arg_cong [of _ _ concat] map_cong) (auto simp: set_queue_apply)
  have price: "\<exists>j\<in>set ix. j < PRICE_LEVELS \<and> o_price y = of_nat (Suc j)" if "y \<in> set (?part ix)" for y ix
    using that at_level_price [OF c] core_index [OF c] by fastforce
  have "\<not> improves s (of_nat (Suc i)) (o_price y)" if "y \<in> set (?part (before_ix s i) @ ?part [i])" for y
  proof -
    from that price [of y "before_ix s i"] price [of y "[i]"] obtain j where
      j: "j \<in> insert i (set (before_ix s i))" "j < PRICE_LEVELS" "o_price y = of_nat (Suc j)" by auto
    then show ?thesis using price_index_less [OF i j(2)] price_index_less [OF j(2) i]
      by (cases s) (auto simp del: of_nat_Suc)
  qed
  moreover have "improves s (of_nat (Suc i)) (o_price y)" if "y \<in> set (?part (behind_ix s i))" for y
  proof -
    from that price obtain j where j: "j \<in> set (behind_ix s i)" "j < PRICE_LEVELS" "o_price y = of_nat (Suc j)" by blast
    then show ?thesis using price_index_less [OF i j(2)] price_index_less [OF j(2) i]
      by (cases s) (auto simp del: of_nat_Suc)
  qed
  ultimately have "insert_prio s (strip x) ((?part (before_ix s i) @ ?part [i]) @ ?part (behind_ix s i)) =
      (?part (before_ix s i) @ ?part [i]) @ strip x # ?part (behind_ix s i)"
    using x by (intro insert_prio_between) auto
  moreover have "map (\<lambda>p. strip (h p)) (Q s i) = map (\<lambda>p. strip (arena pl p)) (Q s i)" using h by simp
  ultimately show ?thesis
    using keep [OF not_in_around(1)] keep [OF not_in_around(2)] x(1) by (simp add: prio_split [OF i])
qed

text \<open>The addresses of a side in priority order.\<close>

definition addrs :: "queues \<Rightarrow> book_half \<Rightarrow> addr list" where
  "addrs Q s = concat (map (Q s) (prio_ix s))"

lemma prio_addrs: "prio Q h s = map (\<lambda>a. strip (h a)) (addrs Q s)"
  by (simp add: prio_def addrs_def map_concat comp_def)

lemma set_addrs: "core Q X pl L tb \<Longrightarrow> set (addrs Q s) = (\<Union>i. set (Q s i))"
  using core_index [of Q X pl L tb] by (auto simp: addrs_def)

lemma ex_half: "(\<exists>s. P s) \<longleftrightarrow> P Bids \<or> P Asks"
  by (metis book_half.exhaust)

lemma all_half: "(\<forall>s. P s) \<longleftrightarrow> P Bids \<and> P Asks"
  by (metis book_half.exhaust)

lemma live_addrs: "core Q X pl L tb \<Longrightarrow> live Q = set (addrs Q Bids) \<union> set (addrs Q Asks)"
  by (rule set_eqI) (simp add: set_addrs in_live ex_half)

lemma distinct_addrs:
  assumes c: "core Q X pl L tb" shows "distinct (addrs Q s)"
proof -
  have "distinct (concat (map (Q s) ix))" if "distinct ix" for ix
    using that
  proof (induction ix)
    case (Cons i ix)
    have "set (Q s i) \<inter> set (Q s j) = {}" if "j \<in> set ix" for j
      using Cons.prems that by (intro core_disjoint [OF c]) auto
    with Cons core_distinct [OF c, of s i] show ?case by auto
  qed simp
  moreover have "distinct (prio_ix s)" by (cases s) auto
  ultimately show ?thesis unfolding addrs_def by blast
qed

lemma addrs_remove:
  assumes c: "core Q X pl L tb" and q: "Q s i = xs @ a # ys"
  shows "addrs (set_queue s i (xs @ ys) Q) s' = filter (\<lambda>p. p \<noteq> a) (addrs Q s')"
proof -
  have a: "a \<notin> set (Q s' j)" if "s' \<noteq> s \<or> j \<noteq> i" for j
    using core_unique [OF c, of a s i s' j] q that by auto
  have "a \<notin> set xs" "a \<notin> set ys" using core_distinct [OF c, of s i] q by auto
  then have "filter (\<lambda>p. p \<noteq> a) xs = xs" "filter (\<lambda>p. p \<noteq> a) ys = ys" by (auto intro: filter_True)
  then have "set_queue s i (xs @ ys) Q s' j = filter (\<lambda>p. p \<noteq> a) (Q s' j)" for j
    using a [of j] q by (auto simp: set_queue_apply intro!: filter_True [symmetric])
  then have "set_queue s i (xs @ ys) Q s' = (\<lambda>j. filter (\<lambda>p. p \<noteq> a) (Q s' j))" by (rule ext)
  then show ?thesis by (simp add: addrs_def filter_concat comp_def)
qed

subsection \<open>The two steps\<close>

text \<open>The parts of the book that neither step touches.\<close>

definition same_log :: "OrderBook \<Rightarrow> OrderBook \<Rightarrow> bool" where
  "same_log b b' \<longleftrightarrow> fills b' = fills b \<and> match_count b' = match_count b \<and> capacity (pool b') = capacity (pool b)"

lemma rest_order_correct:
  assumes c: "core Q {a} (pool b) (book_levels b) (order_table b)" and ix: "\<And>s. index_ok Q s (half b s)"
    and op: "open_orders Q (heap_of b)" and i: "i < PRICE_LEVELS" "p = of_nat (Suc i)"
    and at: "at_level s i (heap_of b a)" and nf: "\<not> is_filled (heap_of b a)"
  shows "\<exists>b'. rest_order s p a b = Some b'
       \<and> core (set_queue s i (Q s i @ [a]) Q) {} (pool b') (book_levels b') (order_table b')
       \<and> (\<forall>s'. index_ok (set_queue s i (Q s i @ [a]) Q) s' (half b' s'))
       \<and> (\<forall>p. strip (heap_of b' p) = strip (heap_of b p))
       \<and> open_orders (set_queue s i (Q s i @ [a]) Q) (heap_of b')
       \<and> same_log b b' \<and> order_table b' = order_table b"
proof -
  let ?Q = "set_queue s i (Q s i @ [a]) Q" and ?lv = "levels (half b s) i"
  have idx: "idx p = i" using idx_of_index [OF i(1)] i(2) by simp
  have occ: "bs_ok (bits (half b s))" "occupied (bits (half b s)) = (\<lambda>j. Q s j \<noteq> [])"
    and bo: "best_ok s (\<lambda>j. Q s j \<noteq> []) (best (half b s))"
    using ix [of s] by (simp_all add: index_ok_def)
  have emp: "lv_empty ?lv \<longleftrightarrow> Q s i = []" using pl.empty_rep [OF core_level [OF c i(1), of s]] .
  have F: "(\<lambda>j. ?Q s j \<noteq> []) = (\<lambda>j. Q s j \<noteq> [] \<or> j = i)" by (auto simp: set_queue_apply fun_eq_iff)
  obtain bs where bs: "(if lv_empty ?lv then bs_set i (bits (half b s)) else Some (bits (half b s))) = Some bs"
    "bs_ok bs" "occupied bs = (\<lambda>j. ?Q s j \<noteq> [])"
  proof (cases "lv_empty ?lv")
    case True
    with pb.put_law [OF occ(1) i(1)] occ(2) that F show thesis by auto
  next
    case False
    then have "(\<lambda>j. Q s j \<noteq> []) = (\<lambda>j. ?Q s j \<noteq> [])" using emp by (auto simp: set_queue_apply fun_eq_iff)
    with False occ that show thesis by simp
  qed
  obtain h lv' where push: "lv_push a (heap_of b) ?lv = (h, lv')" by fastforce
  let ?b1 = "put_level s i lv' (set_heap h (upd_half s (\<lambda>x. x\<lparr>bits := bs\<rparr>) b))"
  let ?b' = "if improves s p (best (half ?b1 s)) then upd_half s (\<lambda>x. x\<lparr>best := p\<rparr>) ?b1 else ?b1"
  have res: "rest_order s p a b = Some ?b'"
    using bs(1) push i(1) by (cases "lv_empty ?lv") (simp_all add: rest_order_def idx Let_def)
  have lv: "book_levels ?b' = set_queue s i lv' (book_levels b)"
    by (auto simp: put_level_def upd_half_def set_queue_def set_heap_def fun_eq_iff)
  have pool: "pool ?b' = (pool b)\<lparr>arena := h\<rparr>" "order_table ?b' = order_table b" by simp_all
  have core': "core ?Q {} (pool ?b') (book_levels ?b') (order_table ?b')"
    unfolding lv pool using core_push [OF c i(1) _ at push] by simp
  have bits: "bits (half ?b' s) = bs" and oth: "half ?b' s' = half b s'" if "s' \<noteq> s" for s'
    using that by simp_all
  have best: "best (half ?b' s) = (if improves s p (best (half b s)) then p else best (half b s))" by simp
  have "best_ok s (\<lambda>j. Q s j \<noteq> [] \<or> j = i) (if improves s (of_nat (Suc i)) (best (half b s)) then of_nat (Suc i) else best (half b s))"
    using core_out [OF c] by (intro best_ok_insert bo i(1)) (meson not_le)
  then have "best_ok s (\<lambda>j. ?Q s j \<noteq> []) (best (half ?b' s))" unfolding best F i(2) [symmetric] .
  moreover have "?Q s' = Q s'" if "s' \<noteq> s" for s' using that by (auto simp: set_queue_def)
  ultimately have ix': "index_ok ?Q s' (half ?b' s')" for s'
    using bs ix [of s'] oth by (cases "s' = s") (simp_all add: index_ok_def)
  have pay: "strip (heap_of ?b' q) = strip (heap_of b q)" for q
    using pl.push_payload [OF push] by simp
  have "live ?Q = insert a (live Q)" using live_split [of Q s i] by (auto simp: live_set_queue)
  moreover have "is_filled (heap_of ?b' q) = is_filled (heap_of b q)" for q
    using pay [of q] is_filled_strip by metis
  ultimately have "open_orders ?Q (heap_of ?b')" using op nf by (simp add: open_orders_def)
  moreover have "same_log b ?b'" by (simp add: same_log_def capacity_def)
  ultimately show ?thesis using res core' ix' pay pool(2) by blast
qed

lemma unlink_order_correct:
  assumes c: "core Q {} (pool b) (book_levels b) (order_table b)" and ix: "\<And>s. index_ok Q s (half b s)"
    and op: "open_orders Q (heap_of b)" and i: "i < PRICE_LEVELS" "p = of_nat (Suc i)"
    and q: "Q s i = xs @ a # ys"
  shows "\<exists>b1. unlink_order s p a b = Some b1
       \<and> core (set_queue s i (xs @ ys) Q) {} (pool (release a (unreg a b1))) (book_levels (release a (unreg a b1)))
           (order_table (release a (unreg a b1)))
       \<and> (\<forall>s'. index_ok (set_queue s i (xs @ ys) Q) s' (half (release a (unreg a b1)) s'))
       \<and> (\<forall>p. p \<noteq> a \<longrightarrow> strip (heap_of (release a (unreg a b1)) p) = strip (heap_of b p))
       \<and> (\<forall>p. o_id (heap_of (release a (unreg a b1)) p) = o_id (heap_of b p))
       \<and> same_log b (release a (unreg a b1))
       \<and> order_table (release a (unreg a b1)) = (order_table b)(slot (o_id (heap_of b a)) := None)"
proof -
  let ?Q = "set_queue s i (xs @ ys) Q" and ?lv = "levels (half b s) i"
  have idx: "idx p = i" using idx_of_index [OF i(1)] i(2) by simp
  have occ: "bs_ok (bits (half b s))" "occupied (bits (half b s)) = (\<lambda>j. Q s j \<noteq> [])"
    and bo: "best_ok s (\<lambda>j. Q s j \<noteq> []) (best (half b s))"
    using ix [of s] by (simp_all add: index_ok_def)
  obtain h lv' where rm: "lv_remove a (heap_of b) ?lv = (h, lv')" by fastforce
  let ?b1 = "put_level s i lv' (set_heap h b)"
  have pay: "strip (h r) = strip (heap_of b r)" for r by (rule pl.remove_payload [OF rm])
  note core' = core_remove [OF c i(1) q rm]
  have emp: "lv_empty lv' \<longleftrightarrow> xs @ ys = []"
    using pl.empty_rep [OF core_level [OF core' i(1), of s]] by simp
  have "\<exists>b1. unlink_order s p a b = Some b1 \<and> pool b1 = (pool b)\<lparr>arena := h\<rparr> \<and> order_table b1 = order_table b
      \<and> book_levels b1 = set_queue s i lv' (book_levels b) \<and> index_ok ?Q s (half b1 s)
      \<and> (\<forall>s'. s' \<noteq> s \<longrightarrow> half b1 s' = half b s') \<and> fills b1 = fills b \<and> match_count b1 = match_count b"
  proof (cases "lv_empty lv'")
    case False
    then have "unlink_order s p a b = Some ?b1" using rm i(1) by (simp add: unlink_order_def idx Let_def)
    moreover have "(\<lambda>j. Q s j \<noteq> []) = (\<lambda>j. ?Q s j \<noteq> [])"
      using False emp q by (auto simp: set_queue_apply fun_eq_iff)
    then have "index_ok ?Q s (half ?b1 s)" using ix [of s] by (simp add: index_ok_def)
    ultimately show ?thesis unfolding levels_put_level [symmetric] by auto
  next
    case True
    then have Q: "?Q = set_queue s i [] Q" using emp by simp
    have F: "(\<lambda>j. ?Q s j \<noteq> []) = (\<lambda>j. Q s j \<noteq> [] \<and> j \<noteq> i)" unfolding Q by (auto simp: set_queue_apply fun_eq_iff)
    have "bs_ok (bits (half ?b1 s))" "occupied (bits (half ?b1 s)) = (\<lambda>j. Q s j \<noteq> [])" using occ by simp_all
    then obtain bs r where bs1: "bs_clear i (bits (half ?b1 s)) = Some bs"
      and scan: "scan_best s (upd_half s (\<lambda>x. x\<lparr>bits := bs\<rparr>) ?b1) =
         Some (upd_half s (\<lambda>x. x\<lparr>bits := bs, best := r\<rparr>) (?b1\<lparr>scan_calls := scan_calls ?b1 + 1\<rparr>))"
      and bs: "bs_ok bs" "occupied bs = (\<lambda>j. ?Q s j \<noteq> [])" "best_ok s (\<lambda>j. ?Q s j \<noteq> []) r"
      unfolding Q by (rule clear_and_scan [where Q = Q, OF _ _ i(1)])
    let ?b2 = "upd_half s (\<lambda>x. x\<lparr>bits := bs\<rparr>) ?b1"
    let ?b3 = "if p = best (half ?b2 s) then upd_half s (\<lambda>x. x\<lparr>bits := bs, best := r\<rparr>) (?b1\<lparr>scan_calls := scan_calls ?b1 + 1\<rparr>) else ?b2"
    have "unlink_order s p a b = Some ?b3"
      using rm i(1) True bs1 scan by (simp add: unlink_order_def idx Let_def)
    moreover have "index_ok ?Q s (half ?b3 s)"
      using bs best_ok_delete [OF bo, of i] F i(2) by (auto simp: index_ok_def simp del: of_nat_Suc)
    moreover have "book_levels ?b3 = set_queue s i lv' (book_levels b)"
      by (auto simp: put_level_def upd_half_def set_queue_def set_heap_def fun_eq_iff)
    ultimately show ?thesis by (intro exI [of _ ?b3]) auto
  qed
  then obtain b1 where b1: "unlink_order s p a b = Some b1" "pool b1 = (pool b)\<lparr>arena := h\<rparr>" "order_table b1 = order_table b"
    "book_levels b1 = set_queue s i lv' (book_levels b)" "index_ok ?Q s (half b1 s)"
    "\<And>s'. s' \<noteq> s \<Longrightarrow> half b1 s' = half b s'" "fills b1 = fills b" "match_count b1 = match_count b" by blast
  let ?b' = "release a (unreg a b1)"
  have id: "o_id (h r) = o_id (heap_of b r)" for r by (rule payload_fields(6) [OF pay])
  have "core ?Q {} (pool ?b') (book_levels ?b') (order_table ?b')"
    using core' b1(2,3,4) by simp
  moreover have "?Q s' = Q s'" if "s' \<noteq> s" for s' using that by (auto simp: set_queue_def)
  then have "index_ok ?Q s' (half ?b' s')" for s'
    using b1(5,6) ix [of s'] by (cases "s' = s") (simp_all add: index_ok_def)
  moreover have "strip (heap_of ?b' r) = strip (heap_of b r)" if "r \<noteq> a" for r
    using pay that by (simp add: b1(2))
  moreover have "o_id (heap_of ?b' r) = o_id (heap_of b r)" for r using id by (simp add: b1(2))
  moreover have "same_log b ?b'" using b1 by (simp add: same_log_def capacity_def)
  moreover have "order_table ?b' = (order_table b)(slot (o_id (heap_of b a)) := None)" using b1 id by simp
  ultimately show ?thesis using b1(1) by blast
qed

end
