(* ===== verification/Book_Ops.thy ===== *)
theory Book_Ops
  imports Book_Steps
begin

section \<open>The operations of the order book against their specification\<close>

text \<open>
  The invariant \<open>book_ok\<close> of a whole book between operations, its abstraction \<open>abs_book\<close> (the two
  priority lists), and for \<open>add_order\<close>, \<open>cancel_order\<close> and \<open>modify_order\<close> the proof that they
  return, keep the invariant and act on the abstraction as \<open>spec_add\<close> and \<open>spec_cancel\<close>.

  \<open>tracked\<close> says that the lookup table finds every order of the book. The table has one entry per
  residue of the identifier modulo \<open>2 ^ 20\<close> and \<open>add_order\<close> overwrites an entry without checking,
  so \<open>tracked\<close> is kept by an \<open>add_order\<close> only if the new identifier's entry is \<open>fresh\<close>; the other
  parts of the invariant do not depend on it.
\<close>

subsection \<open>Invariant and abstraction\<close>

definition uncrossed :: "queues \<Rightarrow> bool" where
  "uncrossed Q \<longleftrightarrow> (\<forall>i j. Q Bids i \<noteq> [] \<longrightarrow> Q Asks j \<noteq> [] \<longrightarrow> i < j)"

definition book_rep :: "queues \<Rightarrow> OrderBook \<Rightarrow> bool" where
  "book_rep Q b \<longleftrightarrow> core Q {} (pool b) (book_levels b) (order_table b) \<and> (\<forall>s. index_ok Q s (half b s))
     \<and> open_orders Q (heap_of b) \<and> uncrossed Q"

definition queue :: "OrderBook \<Rightarrow> queues" where
  "queue b s i = (if i < PRICE_LEVELS then walk (capacity (pool b)) (heap_of b) (lv_head (levels (half b s) i)) else [])"

definition book_ok :: "OrderBook \<Rightarrow> bool" where
  "book_ok b \<longleftrightarrow> book_rep (queue b) b"

definition abs_book :: "OrderBook \<Rightarrow> spec_book" where
  "abs_book b = prio (queue b) (heap_of b)"

definition tracked_in :: "queues \<Rightarrow> OrderBook \<Rightarrow> bool" where
  "tracked_in Q b \<longleftrightarrow> (\<forall>a\<in>live Q. order_table b (slot (o_id (heap_of b a))) = Some a)"

definition tracked :: "OrderBook \<Rightarrow> bool" where
  "tracked b \<longleftrightarrow> tracked_in (queue b) b"

definition fresh :: "OrderId \<Rightarrow> OrderBook \<Rightarrow> bool" where
  "fresh i b \<longleftrightarrow> (\<forall>s. \<forall>x\<in>set (abs_book b s). slot (o_id x) \<noteq> slot i)"

lemma book_rep_queue:
  assumes "book_rep Q b" shows "queue b = Q"
proof (intro ext)
  fix s i
  from assms have c: "core Q {} (pool b) (book_levels b) (order_table b)" by (simp add: book_rep_def)
  show "queue b s i = Q s i"
    using core_walk [OF c] core_out [OF c, of i s] by (simp add: queue_def)
qed

lemma book_okI: "book_rep Q b \<Longrightarrow> book_ok b"
  using book_rep_queue by (auto simp: book_ok_def)

lemma book_ok_rep: "book_ok b \<Longrightarrow> book_rep (queue b) b"
  by (simp add: book_ok_def)

lemma book_repD:
  assumes "book_rep Q b"
  shows "core Q {} (pool b) (book_levels b) (order_table b)" "index_ok Q s (half b s)"
    "open_orders Q (heap_of b)" "uncrossed Q"
  using assms by (simp_all add: book_rep_def)

lemma book_new_ok: "n < 2 ^ 32 \<Longrightarrow> book_rep (\<lambda>_ _. []) (book_new n)"
  by (auto simp: book_rep_def book_new_def core_def pool_new_ok live_def pl.new_rep index_ok_def
      open_orders_def uncrossed_def pb.ok_new pb.occ_new best_ok_def fun_eq_iff)

text \<open>The orders of the book are counted by \<open>active_orders\<close>.\<close>

lemma book_count:
  assumes r: "book_rep Q b"
  shows "length (prio Q h Bids) + length (prio Q h Asks) = capacity (pool b) - available (pool b)"
    and "available (pool b) \<le> capacity (pool b)"
proof -
  note c = book_repD(1) [OF r]
  have "set (addrs Q Bids) \<inter> set (addrs Q Asks) = {}"
    using core_unique(1) [OF c] by (fastforce simp: set_addrs [OF c])
  then have "card (live Q) = length (addrs Q Bids) + length (addrs Q Asks)"
    using distinct_card [OF distinct_addrs [OF c]] by (simp add: live_addrs [OF c] card_Un_disjoint)
  moreover have "{..<capacity (pool b)} - free_slots (pool b) = live Q" using core_slots [OF c] by blast
  ultimately show "length (prio Q h Bids) + length (prio Q h Asks) = capacity (pool b) - available (pool b)"
    using op.used_count [OF core_pool_ok [OF c]] by (simp add: prio_addrs)
  show "available (pool b) \<le> capacity (pool b)"
    using op.avail_card [OF core_pool_ok [OF c]] card_mono [OF _ op.free_range [OF core_pool_ok [OF c]]] by simp
qed

lemma rejects_iff:
  assumes "book_rep Q b"
  shows "rejects (capacity (pool b)) ty p (prio Q h) \<longleftrightarrow>
     available (pool b) = 0 \<or> ty = Limit \<and> (p < MIN_PRICE \<or> p > MAX_PRICE)"
  using book_count(1) [OF assms, of h] book_count(2) [OF assms] by (auto simp: rejects_def)

subsection \<open>Matching an incoming order\<close>

fun guard :: "OrderType \<Rightarrow> book_half \<Rightarrow> Price \<Rightarrow> Price \<Rightarrow> bool" where
  "guard ty Asks p p' \<longleftrightarrow> (ty = Market \<or> p' \<le> p) \<and> p' \<le> MAX_PRICE"
| "guard ty Bids p p' \<longleftrightarrow> (ty = Market \<or> p' \<ge> p) \<and> p' \<noteq> INVALID_PRICE"

lemma guard_eq:
  "guard ty Asks p = (\<lambda>p'. (ty = Market \<or> p' \<le> p) \<and> p' \<le> MAX_PRICE)"
  "guard ty Bids p = (\<lambda>p'. (ty = Market \<or> p' \<ge> p) \<and> p' \<noteq> INVALID_PRICE)"
  by (simp_all add: fun_eq_iff)

lemma match_dispatch:
  assumes "o_side (heap_of b a) = sd" "o_price (heap_of b a) = p"
  shows "(if ty = Market then match_market a b else match_limit a b) =
     sweep (other (half_of sd)) (guard ty (other (half_of sd)) p) (canon_side sd) a b"
  using assms by (simp add: match_market_def match_limit_def half_of_def canon_side_def guard_eq)

lemma guard_no_best: "\<not> guard ty s p (no_best s)"
  by (cases s) (simp_all add: const_defs)

lemma guard_accepts: "j < PRICE_LEVELS \<Longrightarrow> guard ty s p (of_nat (Suc j)) = accepts ty s p (of_nat (Suc j))"
  using unat_of_index [of j]
  by (cases s) (auto simp: accepts_def const_defs not_less word_le_nat_alt word_unat_eq_iff simp del: of_nat_Suc)

lemma match_q_cong:
  "(\<And>x. x \<in> set rs \<Longrightarrow> go (o_price x) = go' (o_price x)) \<Longrightarrow> match_q sd go a rs = match_q sd go' a rs"
  by (induction rs arbitrary: a) (auto simp: Let_def)

lemma match_q_guard:
  assumes c: "core Q X pl L tb"
  shows "match_q sd (guard ty s p) x (prio Q (arena pl) s') = match_q sd (accepts ty s p) x (prio Q (arena pl) s')"
proof (rule match_q_cong)
  fix y assume "y \<in> set (prio Q (arena pl) s')"
  then obtain r j where "y = strip (arena pl r)" "r \<in> set (Q s' j)" by (auto simp: prio_def)
  then show "guard ty s p (o_price y) = accepts ty s p (o_price y)"
    using at_level_price [OF c] core_index [OF c] guard_accepts [of j ty s p] by simp
qed

lemma uncrossed_mono:
  assumes "uncrossed Q" "\<And>s i. set (Q' s i) \<subseteq> set (Q s i)" shows "uncrossed Q'"
  unfolding uncrossed_def
proof (intro allI impI)
  fix i j assume "Q' Bids i \<noteq> []" "Q' Asks j \<noteq> []"
  with assms(2) [of Bids i] assms(2) [of Asks j] have "Q Bids i \<noteq> []" "Q Asks j \<noteq> []" by auto
  with assms(1) show "i < j" by (simp add: uncrossed_def)
qed

text \<open>An order the opposite best price does not accept can rest without crossing the book.\<close>

lemma uncrossed_rest:
  assumes u: "uncrossed Q" and c: "core Q X pl L tb" and ix: "index_ok Q (other s) x"
    and ng: "\<not> guard Limit (other s) (of_nat (Suc i)) (best x)" and i: "i < PRICE_LEVELS"
  shows "uncrossed (set_queue s i ys Q)"
proof -
  have "case s of Bids \<Rightarrow> i < j | Asks \<Rightarrow> j < i" if j: "Q (other s) j \<noteq> []" for j
  proof -
    have jl: "j < PRICE_LEVELS" using core_out [OF c, of j "other s"] j by (meson not_le)
    from ix j obtain k where k: "extreme (other s) (\<lambda>j. Q (other s) j \<noteq> []) k" "best x = of_nat (Suc k)"
      by (auto simp: index_ok_def best_ok_def)
    then have "Q (other s) k \<noteq> []" by (cases s) (auto simp: is_greatest_def is_least_def)
    then have kl: "k < PRICE_LEVELS" using core_out [OF c, of k "other s"] by (meson not_le)
    have "improves (other s) (of_nat (Suc i)) (of_nat (Suc k))"
      using ng guard_accepts [OF kl, of Limit "other s" "of_nat (Suc i)"] k(2) by (simp add: accepts_def del: of_nat_Suc)
    then show ?thesis
      using k(1) j price_index_less [OF i kl] price_index_less [OF kl i]
      by (cases s) (auto simp: is_greatest_def is_least_def simp del: of_nat_Suc dest: spec [of _ j])
  qed
  with u show ?thesis by (cases s) (auto simp: uncrossed_def set_queue_apply)
qed

subsection \<open>add_order\<close>

text \<open>The state after the incoming order has been taken from the pool, filled in and registered.\<close>

definition admitted ::
  "Order \<Rightarrow> addr \<Rightarrow> OrderPool \<Rightarrow> OrderBook \<Rightarrow> OrderBook" where
  "admitted x a pl' b = b\<lparr>pool := pl'\<lparr>arena := (arena pl')(a := x)\<rparr>,
     order_table := (order_table b)(slot (o_id x) := Some a)\<rparr>"

lemma admitted_simps [simp]:
  "half (admitted x a pl' b) = half b" "fills (admitted x a pl' b) = fills b"
  "match_count (admitted x a pl' b) = match_count b" "pool (admitted x a pl' b) = pl'\<lparr>arena := (arena pl')(a := x)\<rparr>"
  "order_table (admitted x a pl' b) = (order_table b)(slot (o_id x) := Some a)"
  by (simp_all add: admitted_def)

lemma add_order_accepted:
  assumes al: "allocate (pool b) = Some (a, pl')" and ok: "\<not> (ty = Limit \<and> (p < MIN_PRICE \<or> p > MAX_PRICE))"
  shows "add_order i c sd ty p q ts b = do {
           b1 \<leftarrow> sweep (other (half_of sd)) (guard ty (other (half_of sd)) p) (canon_side sd) a
                  (admitted (mk_order i c sd ty p q ts) a pl' b);
           if \<not> is_filled (heap_of b1 a) \<and> ty = Limit
           then do { b2 \<leftarrow> rest_order (half_of sd) p a b1; Some (True, b2) }
           else Some (True, release a (unreg a b1)) }"
proof -
  have overwrite: "y\<lparr>o_id := i, o_client_id := c, o_price := p, o_quantity := q, o_filled_qty := 0, o_side := sd,
      o_type := ty, o_timestamp := ts, o_prev := None, o_next := None\<rparr> = mk_order i c sd ty p q ts" for y :: Order
    by (cases y) (simp add: mk_order_def)
  have "available (pool b) \<noteq> 0" using al by (auto simp: allocate_def available_def split: if_splits)
  moreover have "reg a (set_heap (upd_order a (\<lambda>x. x\<lparr>o_id := i, o_client_id := c, o_price := p,
        o_quantity := q, o_filled_qty := 0, o_side := sd, o_type := ty, o_timestamp := ts,
        o_prev := None, o_next := None\<rparr>) (arena pl')) (b\<lparr>pool := pl'\<rparr>)) = admitted (mk_order i c sd ty p q ts) a pl' b"
    unfolding overwrite upd_order_def by (simp add: reg_def set_heap_def admitted_def)
  moreover have "(if ty = Market then match_market a (admitted (mk_order i c sd ty p q ts) a pl' b)
      else match_limit a (admitted (mk_order i c sd ty p q ts) a pl' b)) =
      sweep (other (half_of sd)) (guard ty (other (half_of sd)) p) (canon_side sd) a (admitted (mk_order i c sd ty p q ts) a pl' b)"
    by (intro match_dispatch) (simp_all add: mk_order_def)
  ultimately show ?thesis
    using ok by (simp only: add_order_def al if_False Option.bind.simps Let_def split simp_thms)
qed

text \<open>Admission and matching together.\<close>

lemma match_stage:
  assumes r: "book_rep Q b" and al: "allocate (pool b) = Some (a, pl')" and x: "order_ok x" "strip x = x"
  obtains Q' b1 fs where
    "sweep s (guard ty s p) sd a (admitted x a pl' b) = Some b1"
    "swept Q s (guard ty s p) a sd (admitted x a pl' b) Q' b1 fs" "a \<notin> live Q"
    "match_q sd (accepts ty s p) x (prio Q (heap_of b) s) = (strip (heap_of b1 a), prio Q' (heap_of b1) s, fs)"
    "\<And>s'. s' \<noteq> s \<Longrightarrow> prio Q' (heap_of b1) s' = prio Q (heap_of b) s'"
    "core Q' {a} (pool b1) (book_levels b1) (order_table b1)" "\<And>s'. index_ok Q' s' (half b1 s')"
    "open_orders Q' (heap_of b1)" "uncrossed Q'" "capacity (pool b1) = capacity (pool b)"
    "fills b1 = fills b @ fs" "match_count b1 = match_count b + of_nat (length fs)"
    "is_filled (heap_of b1 a) \<or> \<not> guard ty s p (best (half b1 s))"
proof -
  let ?b0 = "admitted x a pl' b"
  note c = book_repD(1) [OF r] and ar = allocate_arena [OF al]
  have heap0: "heap_of ?b0 = (heap_of b)(a := x)" using ar by simp
  have c0: "core Q {a} (pool ?b0) (book_levels ?b0) (order_table ?b0)" and nl: "a \<notin> live Q"
    using core_alloc [OF c al, of x "o_id x"] ar by simp_all
  have op0: "open_orders Q (heap_of ?b0)" "order_ok (heap_of ?b0 a)"
    using book_repD(3) [OF r] nl x(1) unfolding heap0 by (auto simp: open_orders_def)
  have ix0: "index_ok Q s' (half ?b0 s')" for s' using book_repD(2) [OF r] by simp
  from sweep_correct [where sd = sd and go = "guard ty s p", OF c0 ix0 [of s] op0 guard_no_best [of ty s p]] obtain Q' b1 fs where
    sw: "sweep s (guard ty s p) sd a ?b0 = Some b1" "swept Q s (guard ty s p) a sd ?b0 Q' b1 fs" by blast
  have p0: "prio Q (heap_of ?b0) s' = prio Q (heap_of b) s'" for s'
    unfolding heap0 using nl liveI [of a Q s'] by (intro prio_cong) auto
  have m: "match_q sd (guard ty s p) x (prio Q (heap_of b) s) = (strip (heap_of b1 a), prio Q' (heap_of b1) s, fs)"
    using sw(2) p0 [of s] x(2) unfolding swept_def heap0 by simp
  have oth: "Q' s' = Q s'" "half b1 s' = half b s'" if "s' \<noteq> s" for s'
    using sw(2) that unfolding swept_def by auto
  have sub: "set (Q' s' j) \<subseteq> set (Q s' j)" for s' j
    using sw(2) oth [of s'] unfolding swept_def by (cases "s' = s") auto
  have keep: "prio Q' (heap_of b1) s' = prio Q (heap_of b) s'" if s': "s' \<noteq> s" for s'
  proof (rule prio_cong [of Q' s' Q, OF oth(1) [OF s']])
    fix r j assume rj: "r \<in> set (Q s' j)"
    then have "r \<noteq> a" using nl liveI [of r Q s' j] by blast
    moreover have "r \<notin> set (Q s k)" for k using core_unique(1) [OF c rj] s' by blast
    ultimately show "strip (heap_of b1 r) = strip (heap_of b r)"
      using sw(2) unfolding swept_def heap0 by simp
  qed
  have ix1: "index_ok Q' s' (half b1 s')" for s'
    using sw(2) oth [of s'] ix0 [of s'] unfolding swept_def by (cases "s' = s") (simp_all add: index_ok_def)
  have cap: "capacity (pool b1) = capacity (pool b)"
    using sw(2) ar unfolding swept_def by (simp add: capacity_def)
  show thesis
  proof (rule that [OF sw nl _ keep _ ix1 _ uncrossed_mono [OF book_repD(4) [OF r] sub] cap])
    show "match_q sd (accepts ty s p) x (prio Q (heap_of b) s) = (strip (heap_of b1 a), prio Q' (heap_of b1) s, fs)"
      using m match_q_guard [OF c] by simp
    show "core Q' {a} (pool b1) (book_levels b1) (order_table b1)" using sw(2) unfolding swept_def by blast
  qed (use sw(2) in \<open>simp_all add: swept_def\<close>)
qed

text \<open>The table after admission and matching still finds every remaining order.\<close>

lemma tracked_match:
  assumes c: "core Q X pl L tb" and t: "tracked_in Q b" and sw: "swept Q s go a sd (admitted x a pl' b) Q' b1 fs"
    and nl: "a \<notin> live Q" and sub: "live Q' \<subseteq> live Q" and ar: "arena pl' = heap_of b"
    and fr: "\<And>r. r \<in> live Q \<Longrightarrow> slot (o_id (heap_of b r)) \<noteq> slot (o_id x)"
  shows "tracked_in Q' b1" "order_table b1 (slot (o_id x)) = Some a"
    "\<And>r. r \<in> live Q' \<Longrightarrow> slot (o_id (heap_of b1 r)) \<noteq> slot (o_id x)" "o_id (heap_of b1 a) = o_id x"
proof -
  have ids: "o_id (heap_of b1 r) = (if r = a then o_id x else o_id (heap_of b r))" for r
    using sw ar unfolding swept_def by (simp split: if_splits)
  have tb: "order_table b1 = (\<lambda>t. if t \<in> (\<lambda>r. slot (o_id (heap_of b r))) ` (live Q - live Q') then None
      else ((order_table b)(slot (o_id x) := Some a)) t)"
  proof -
    have "(\<lambda>r. slot (o_id (heap_of (admitted x a pl' b) r))) ` (live Q - live Q') =
        (\<lambda>r. slot (o_id (heap_of b r))) ` (live Q - live Q')"
      using nl ar by (intro image_cong) auto
    with sw show ?thesis unfolding swept_def by (simp cong: if_cong)
  qed
  have inj: "slot (o_id (heap_of b r)) = slot (o_id (heap_of b r')) \<Longrightarrow> r = r'" if "r \<in> live Q" "r' \<in> live Q" for r r'
    using t that unfolding tracked_in_def by (metis option.inject)
  show idx: "o_id (heap_of b1 a) = o_id x" using ids by simp
  show nx: "slot (o_id (heap_of b1 r)) \<noteq> slot (o_id x)" if "r \<in> live Q'" for r
    using fr sub that nl ids by (metis subsetD)
  show "order_table b1 (slot (o_id x)) = Some a" using fr by (fastforce simp: tb)
  show "tracked_in Q' b1"
    unfolding tracked_in_def
  proof
    fix r assume r: "r \<in> live Q'"
    then have rl: "r \<in> live Q" "r \<noteq> a" using sub nl by blast+
    then have "slot (o_id (heap_of b r)) \<notin> (\<lambda>r. slot (o_id (heap_of b r))) ` (live Q - live Q')"
      using inj r by blast
    with rl t fr [OF rl(1)] show "order_table b1 (slot (o_id (heap_of b1 r))) = Some r"
      by (simp add: tb ids tracked_in_def)
  qed
qed

text \<open>The remainder of a limit order comes to rest behind the orders of its price.\<close>

lemma rest_stage:
  assumes c1: "core Q1 {a} (pool b1) (book_levels b1) (order_table b1)" and ix1: "\<And>s'. index_ok Q1 s' (half b1 s')"
    and op1: "open_orders Q1 (heap_of b1)" and u1: "uncrossed Q1" and pr: "MIN_PRICE \<le> p" "p \<le> MAX_PRICE"
    and lv: "at_level s (idx p) (heap_of b1 a)" and pay: "o_price (heap_of b1 a) = p" and nf: "\<not> is_filled (heap_of b1 a)"
    and stop: "\<not> guard Limit (other s) p (best (half b1 (other s)))"
  obtains b' Q' where "rest_order s p a b1 = Some b'" "book_rep Q' b'" "same_log b1 b'" "order_table b' = order_table b1" "live Q' = insert a (live Q1)"
    "prio Q' (heap_of b') = (prio Q1 (heap_of b1))(s := insert_prio s (strip (heap_of b1 a)) (prio Q1 (heap_of b1) s))"
    "\<And>r. o_id (heap_of b' r) = o_id (heap_of b1 r)"
proof -
  let ?i = "idx p"
  have i: "?i < PRICE_LEVELS" "p = of_nat (Suc ?i)" using idx_price [OF pr] by simp_all
  let ?Q = "set_queue s ?i (Q1 s ?i @ [a]) Q1"
  from rest_order_correct [OF c1 ix1 op1 i lv nf] obtain b' where
    b': "rest_order s p a b1 = Some b'" "core ?Q {} (pool b') (book_levels b') (order_table b')"
      "\<forall>s'. index_ok ?Q s' (half b' s')" "\<And>p. strip (heap_of b' p) = strip (heap_of b1 p)"
      "open_orders ?Q (heap_of b')" "same_log b1 b'" "order_table b' = order_table b1" by blast
  have "\<not> guard Limit (other s) (of_nat (Suc ?i)) (best (half b1 (other s)))" using stop i(2) by simp
  from uncrossed_rest [OF u1 c1 ix1 this i(1)] b' have rep: "book_rep ?Q b'" by (simp add: book_rep_def)
  have "prio ?Q (heap_of b') s' = ((prio Q1 (heap_of b1))(s := insert_prio s (strip (heap_of b1 a)) (prio Q1 (heap_of b1) s))) s'" for s'
  proof (cases "s' = s")
    case True
    then show ?thesis using prio_append [OF c1 i(1) b'(4) _ b'(4)] pay i(2) by simp
  next
    case s': False
    then show ?thesis using prio_cong [of ?Q s' Q1 "heap_of b'" "heap_of b1"] b'(4) by (simp add: set_queue_def)
  qed
  then have pq: "prio ?Q (heap_of b') = (prio Q1 (heap_of b1))(s := insert_prio s (strip (heap_of b1 a)) (prio Q1 (heap_of b1) s))" by (rule ext)
  have "live ?Q = insert a (live Q1)" using live_split [of Q1 s ?i] by (auto simp: live_set_queue)
  moreover have "o_id (heap_of b' r) = o_id (heap_of b1 r)" for r by (rule payload_fields(6) [OF b'(4)])
  ultimately show thesis using that [OF b'(1) rep b'(6,7) _ pq] by blast
qed

lemma add_order_rep:
  assumes r: "book_rep Q b"
  shows "\<exists>ok b' Q' fs. add_order i c sd ty p q ts b = Some (ok, b') \<and> book_rep Q' b'
       \<and> spec_add (capacity (pool b)) i c sd ty p q ts (prio Q (heap_of b)) = (ok, prio Q' (heap_of b'), fs)
       \<and> fills b' = fills b @ fs \<and> match_count b' = match_count b + of_nat (length fs)
       \<and> capacity (pool b') = capacity (pool b) \<and> (\<not> ok \<longrightarrow> b' = b)
       \<and> (tracked_in Q b \<and> (\<forall>r\<in>live Q. slot (o_id (heap_of b r)) \<noteq> slot i) \<longrightarrow> tracked_in Q' b')"
proof (cases "available (pool b) = 0 \<or> ty = Limit \<and> (p < MIN_PRICE \<or> p > MAX_PRICE)")
  case True
  then have "add_order i c sd ty p q ts b = Some (False, b)" by (auto simp: add_order_def)
  moreover have "spec_add (capacity (pool b)) i c sd ty p q ts (prio Q (heap_of b)) = (False, prio Q (heap_of b), [])"
    using True rejects_iff [OF r] by (simp add: spec_add_def)
  ultimately show ?thesis using r by auto
next
  case False
  let ?x = "mk_order i c sd ty p q ts" and ?s = "half_of sd"
  note rc = book_repD(1) [OF r]
  from False have "available (pool b) \<noteq> 0" by simp
  from op.alloc_law [OF core_pool_ok [OF rc] this] obtain a pl' where al: "allocate (pool b) = Some (a, pl')" by blast
  have x: "order_ok ?x" "strip ?x = ?x" by (simp_all add: mk_order_def order_ok_def strip_def)
  obtain Q1 b1 fs where
    sw: "sweep (other ?s) (guard ty (other ?s) p) (canon_side sd) a (admitted ?x a pl' b) = Some b1"
    and swd: "swept Q (other ?s) (guard ty (other ?s) p) a (canon_side sd) (admitted ?x a pl' b) Q1 b1 fs" and nl: "a \<notin> live Q"
    and m: "match_q (canon_side sd) (accepts ty (other ?s) p) ?x (prio Q (heap_of b) (other ?s)) =
        (strip (heap_of b1 a), prio Q1 (heap_of b1) (other ?s), fs)"
    and keep: "\<And>s'. s' \<noteq> other ?s \<Longrightarrow> prio Q1 (heap_of b1) s' = prio Q (heap_of b) s'"
    and c1: "core Q1 {a} (pool b1) (book_levels b1) (order_table b1)" and ix1: "\<And>s'. index_ok Q1 s' (half b1 s')"
    and op1: "open_orders Q1 (heap_of b1)" and u1: "uncrossed Q1" and cap: "capacity (pool b1) = capacity (pool b)"
    and log: "fills b1 = fills b @ fs" "match_count b1 = match_count b + of_nat (length fs)"
    and stop: "is_filled (heap_of b1 a) \<or> \<not> guard ty (other ?s) p (best (half b1 (other ?s)))"
    by (rule match_stage [where s = "other ?s" and ty = ty and p = p and sd = "canon_side sd", OF r al x]) (rule that; assumption)
  have os: "?s \<noteq> other ?s" by (cases ?s) auto
  have B1: "(prio Q (heap_of b))(other ?s := prio Q1 (heap_of b1) (other ?s)) = prio Q1 (heap_of b1)"
    using keep by (auto simp: fun_eq_iff)
  have spec: "spec_add (capacity (pool b)) i c sd ty p q ts (prio Q (heap_of b)) =
      (True, if \<not> is_filled (heap_of b1 a) \<and> ty = Limit
             then (prio Q1 (heap_of b1))(?s := insert_prio ?s (strip (heap_of b1 a)) (prio Q1 (heap_of b1) ?s))
             else prio Q1 (heap_of b1), fs)"
    using False rejects_iff [OF r] by (simp add: spec_add_def m B1 Let_def)
  note add = add_order_accepted [OF al, of ty p i c sd q ts, unfolded sw Option.bind.simps]
  have sub: "live Q1 \<subseteq> live Q"
    using swd live_mono [of Q1 "other ?s" Q] unfolding swept_def by blast
  have oid: "o_id ?x = i" by (simp add: mk_order_def)
  note tr = tracked_match [OF rc _ swd nl sub conjunct1 [OF allocate_arena [OF al]], unfolded oid]
  show ?thesis
  proof (cases "\<not> is_filled (heap_of b1 a) \<and> ty = Limit")
    case rest: True
    have pr: "MIN_PRICE \<le> p" "p \<le> MAX_PRICE" using False rest by auto
    from match_q_payload [OF m] have pay: "o_price (heap_of b1 a) = p" "o_side (heap_of b1 a) = sd" "o_type (heap_of b1 a) = ty"
      by (simp_all add: mk_order_def)
    have lv: "at_level ?s (idx p) (heap_of b1 a)" using pay idx_price(2) [OF pr] rest by (simp add: at_level_def)
    have ng: "\<not> guard Limit (other ?s) p (best (half b1 (other ?s)))" using stop rest by simp
    obtain b' Q' where b': "rest_order ?s p a b1 = Some b'" "book_rep Q' b'" "same_log b1 b'" "order_table b' = order_table b1" "live Q' = insert a (live Q1)"
      "prio Q' (heap_of b') = (prio Q1 (heap_of b1))(?s := insert_prio ?s (strip (heap_of b1 a)) (prio Q1 (heap_of b1) ?s))"
      "\<And>r. o_id (heap_of b' r) = o_id (heap_of b1 r)"
      by (rule rest_stage [OF c1 ix1 op1 u1 pr lv pay(1) conjunct1 [OF rest] ng]) (rule that; assumption)
    have "spec_add (capacity (pool b)) i c sd ty p q ts (prio Q (heap_of b)) = (True, prio Q' (heap_of b'), fs)"
      using spec rest b'(6) by simp
    moreover have "add_order i c sd ty p q ts b = Some (True, b')" using add False rest b'(1) by simp
    moreover have "tracked_in Q' b'" if "tracked_in Q b" "\<forall>r\<in>live Q. slot (o_id (heap_of b r)) \<noteq> slot i"
      using tr(1,2,4) that b'(4,5,7) by (simp add: tracked_in_def)
    ultimately show ?thesis using b'(2,3) log cap by (auto simp: same_log_def)
  next
    case norest: False
    let ?b = "release a (unreg a b1)"
    have "a \<notin> live Q1" using sub nl by blast
    then have heap: "heap_of ?b r = heap_of b1 r" if "r \<in> live Q1" for r using that by (cases "r = a") auto
    have rep: "book_rep Q1 ?b"
      using core_release [OF c1] ix1 op1 u1 heap by (auto simp: book_rep_def open_orders_def)
    have "prio Q1 (heap_of ?b) = prio Q1 (heap_of b1)"
      using heap liveI [of _ Q1] by (intro ext prio_cong) auto
    then have "spec_add (capacity (pool b)) i c sd ty p q ts (prio Q (heap_of b)) = (True, prio Q1 (heap_of ?b), fs)"
      using spec norest by auto
    moreover have "add_order i c sd ty p q ts b = Some (True, ?b)"
      using add False norest by auto
    moreover have "tracked_in Q1 ?b" if "tracked_in Q b" "\<forall>r\<in>live Q. slot (o_id (heap_of b r)) \<noteq> slot i"
      using tr that heap by (simp add: tracked_in_def)
    ultimately show ?thesis using rep log cap by auto
  qed
qed

subsection \<open>cancel_order and modify_order\<close>

lemma lookup_live:
  assumes r: "book_rep Q b" and l: "lookup i b = Some a"
  shows "a \<in> live Q" "o_id (heap_of b a) = i" "order_table b (slot i) = Some a"
  using core_table [OF book_repD(1) [OF r]] l by (auto simp: lookup_def split: option.splits if_splits)

lemma cancel_order_rep:
  assumes r: "book_rep Q b" and l: "lookup i b = Some a"
  shows "\<exists>b' Q'. cancel_order i b = Some (True, b') \<and> book_rep Q' b' \<and> same_log b b'
       \<and> (\<forall>s. prio Q' (heap_of b') s = map (\<lambda>p. strip (heap_of b p)) (filter (\<lambda>p. p \<noteq> a) (addrs Q s)))
       \<and> live Q' = live Q - {a} \<and> (\<forall>p. o_id (heap_of b' p) = o_id (heap_of b p))
       \<and> order_table b' = (order_table b)(slot i := None)"
proof -
  note c = book_repD(1) [OF r] and a = lookup_live [OF r l]
  from a(1) obtain s j where j: "a \<in> set (Q s j)" by (auto simp: in_live)
  then obtain xs ys where q: "Q s j = xs @ a # ys" by (auto dest: split_list)
  have at: "half_of (o_side (heap_of b a)) = s" "o_price (heap_of b a) = of_nat (Suc j)"
    using core_at [OF c j] at_level_price [OF c j] by (simp_all add: at_level_def)
  let ?Q = "set_queue s j (xs @ ys) Q"
  from unlink_order_correct [OF c book_repD(2,3) [OF r] core_index [OF c j] refl q] obtain b1 where
    un: "unlink_order s (of_nat (Suc j)) a b = Some b1" and rest:
      "core ?Q {} (pool (release a (unreg a b1))) (book_levels (release a (unreg a b1))) (order_table (release a (unreg a b1)))"
      "\<forall>s'. index_ok ?Q s' (half (release a (unreg a b1)) s')"
      "\<forall>p. p \<noteq> a \<longrightarrow> strip (heap_of (release a (unreg a b1)) p) = strip (heap_of b p)"
      "\<forall>p. o_id (heap_of (release a (unreg a b1)) p) = o_id (heap_of b p)"
      "same_log b (release a (unreg a b1))"
      "order_table (release a (unreg a b1)) = (order_table b)(slot (o_id (heap_of b a)) := None)" by blast
  define b' where "b' = release a (unreg a b1)"
  note rest = rest [folded b'_def]
  have can: "cancel_order i b = Some (True, b')" using l at un by (simp add: cancel_order_def b'_def)
  have live: "live ?Q = live Q - {a}"
    using core_elsewhere [OF c, of s j] core_distinct [OF c, of s j] live_split [of Q s j] q by (auto simp: live_set_queue)
  have "\<not> is_filled (heap_of b' p)" if "p \<in> live ?Q" for p
  proof -
    from that live have "p \<in> live Q" "p \<noteq> a" by auto
    with book_repD(3) [OF r] rest(3) show ?thesis unfolding open_orders_def by (metis is_filled_strip)
  qed
  moreover have "uncrossed ?Q"
    using q by (intro uncrossed_mono [OF book_repD(4) [OF r]]) (auto simp: set_queue_apply)
  ultimately have rep: "book_rep ?Q b'" using rest by (simp add: book_rep_def open_orders_def)
  have "prio ?Q (heap_of b') s' = map (\<lambda>p. strip (heap_of b p)) (filter (\<lambda>p. p \<noteq> a) (addrs Q s'))" for s'
    unfolding prio_addrs addrs_remove [OF c q] using rest(3) by auto
  then show ?thesis using can rep live rest(4,5,6) a(2) by blast
qed

lemma cancel_tracked:
  assumes "tracked_in Q b" "a \<in> live Q" "o_id (heap_of b a) = i"
    and "live Q' = live Q - {a}" "\<forall>p. o_id (heap_of b' p) = o_id (heap_of b p)"
    and "order_table b' = (order_table b)(slot i := None)"
  shows "tracked_in Q' b'" "\<And>p. p \<in> live Q' \<Longrightarrow> slot (o_id (heap_of b' p)) \<noteq> slot i"
proof -
  show ne: "slot (o_id (heap_of b' p)) \<noteq> slot i" if "p \<in> live Q'" for p
  proof
    assume "slot (o_id (heap_of b' p)) = slot i"
    with that assms(1-5) have "Some p = Some a" unfolding tracked_in_def by (metis Diff_iff)
    with that assms(4) show False by simp
  qed
  show "tracked_in Q' b'"
    unfolding tracked_in_def
  proof
    fix p assume p: "p \<in> live Q'"
    with assms(1,4,5) have "order_table b (slot (o_id (heap_of b' p))) = Some p" by (simp add: tracked_in_def)
    with ne [OF p] assms(6) show "order_table b' (slot (o_id (heap_of b' p))) = Some p" by simp
  qed
qed

lemma tracked_lookup:
  assumes "tracked_in Q b" "p \<in> live Q" shows "lookup (o_id (heap_of b p)) b = Some p"
  using assms by (simp add: tracked_in_def lookup_def)

text \<open>On a tracked book cancelling is deletion by identifier.\<close>

lemma cancel_order_spec:
  assumes r: "book_rep Q b" and t: "tracked_in Q b"
  shows "\<exists>ok b' Q'. cancel_order i b = Some (ok, b') \<and> book_rep Q' b' \<and> tracked_in Q' b' \<and> same_log b b'
       \<and> spec_cancel i (prio Q (heap_of b)) = (ok, prio Q' (heap_of b'))
       \<and> (ok \<longrightarrow> (\<forall>p\<in>live Q'. slot (o_id (heap_of b' p)) \<noteq> slot i))"
proof -
  note c = book_repD(1) [OF r]
  have mem: "p \<in> live Q \<longleftrightarrow> (\<exists>s. p \<in> set (addrs Q s))" for p
    by (simp add: live_addrs [OF c] ex_half)
  show ?thesis
  proof (cases "lookup i b")
    case None
    have no: "o_id (heap_of b p) \<noteq> i" if "p \<in> set (addrs Q s)" for p s
      using tracked_lookup [OF t, of p] None that mem by fastforce
    have "spec_cancel i (prio Q (heap_of b)) = (False, prio Q (heap_of b))"
      using no by (auto simp: spec_cancel_def prio_addrs filter_id_conv)
    moreover have "cancel_order i b = Some (False, b)" using None by (simp add: cancel_order_def)
    ultimately show ?thesis using r t by (auto simp: same_log_def)
  next
    case (Some a)
    note a = lookup_live [OF r Some]
    have uniq: "o_id (heap_of b p) = i \<longleftrightarrow> p = a" if "p \<in> set (addrs Q s)" for p s
      using tracked_lookup [OF t, of p] Some that mem a(2) by fastforce
    from cancel_order_rep [OF r Some] obtain b' Q' where b': "cancel_order i b = Some (True, b')" "book_rep Q' b'"
      "same_log b b'" "\<And>s. prio Q' (heap_of b') s = map (\<lambda>p. strip (heap_of b p)) (filter (\<lambda>p. p \<noteq> a) (addrs Q s))"
      "live Q' = live Q - {a}" "\<forall>p. o_id (heap_of b' p) = o_id (heap_of b p)"
      "order_table b' = (order_table b)(slot i := None)" by blast
    have "filter (\<lambda>x. o_id x \<noteq> i) (prio Q (heap_of b) s) = prio Q' (heap_of b') s" for s
    proof -
      have "filter (\<lambda>p. o_id (heap_of b p) \<noteq> i) (addrs Q s) = filter (\<lambda>p. p \<noteq> a) (addrs Q s)"
        using uniq by (intro filter_cong) auto
      then show ?thesis unfolding b'(4) by (simp add: prio_addrs filter_map comp_def)
    qed
    moreover have "\<exists>s. \<exists>x\<in>set (prio Q (heap_of b) s). o_id x = i"
      using a(1,2) mem by (auto simp: prio_addrs)
    ultimately have "spec_cancel i (prio Q (heap_of b)) = (True, prio Q' (heap_of b'))"
      by (simp add: spec_cancel_def)
    with b' cancel_tracked [OF t a(1,2) b'(5,6,7)] show ?thesis by blast
  qed
qed

lemma modify_order_rep:
  assumes r: "book_rep Q b"
  shows "\<exists>ok b' Q'. modify_order i p q ts b = Some (ok, b') \<and> book_rep Q' b' \<and> capacity (pool b') = capacity (pool b)"
proof (cases "lookup i b")
  case None
  then show ?thesis using r by (auto simp: modify_order_def)
next
  case (Some a)
  from cancel_order_rep [OF r Some] obtain b1 Q1 where b1: "cancel_order i b = Some (True, b1)" "book_rep Q1 b1" "same_log b b1"
    by blast
  from add_order_rep [OF b1(2)] obtain ok b' Q' where
    "add_order i (o_client_id (heap_of b a)) (o_side (heap_of b a)) Limit p q ts b1 = Some (ok, b')" "book_rep Q' b'"
    "capacity (pool b') = capacity (pool b1)" by metis
  with b1 Some show ?thesis by (auto simp: modify_order_def Let_def same_log_def)
qed

end
