(* ===== verification/Book_Contract.thy ===== *)
theory Book_Contract
  imports Book_Ops
begin

section \<open>The contract of the order book and what follows from it\<close>

text \<open>
  The locale \<open>price_time_book\<close> is the interface of the order book to its clients: adding and
  cancelling act on the two priority lists as \<open>spec_add\<close> and \<open>spec_cancel\<close> say, and the lists hold
  open orders sorted by price. What a participant relies on (conservation of quantity, no trade
  outside the limit, priority, cancelling undoes resting) is proved inside the locale, which is
  interpreted on the C++ model's \<open>add_order\<close> and \<open>cancel_order\<close>.
\<close>

subsection \<open>Consequences of the specification\<close>

definition all_open :: "spec_book \<Rightarrow> bool" where
  "all_open B \<longleftrightarrow> (\<forall>s. \<forall>x\<in>set (B s). \<not> is_filled x)"

definition price_sorted :: "book_half \<Rightarrow> Order list \<Rightarrow> bool" where
  "price_sorted s xs \<longleftrightarrow> sorted_wrt (\<lambda>x y. \<not> improves s (o_price y) (o_price x)) xs"

lemma mk_order_ok [simp]: "order_ok (mk_order i c sd ty p q ts)" "remaining (mk_order i c sd ty p q ts) = q"
  "o_id (mk_order i c sd ty p q ts) = i" "o_price (mk_order i c sd ty p q ts) = p"
  "o_side (mk_order i c sd ty p q ts) = sd" "o_type (mk_order i c sd ty p q ts) = ty"
  "is_filled (mk_order i c sd ty p q ts) \<longleftrightarrow> q = 0"
  by (auto simp: mk_order_def order_ok_def remaining_def is_filled_def)

lemma spec_add_accepted:
  assumes "spec_add cap i c sd ty p q ts B = (True, B', fs)"
  obtains a where "match_q (canon_side sd) (accepts ty (other (half_of sd)) p) (mk_order i c sd ty p q ts) (B (other (half_of sd))) =
       (a, B' (other (half_of sd)), fs)"
    "B' (half_of sd) = (if \<not> is_filled a \<and> ty = Limit then insert_prio (half_of sd) a (B (half_of sd)) else B (half_of sd))"
proof -
  have ne: "half_of sd \<noteq> other (half_of sd)" by (cases "half_of sd") auto
  obtain a rest fs' where m: "match_q (canon_side sd) (accepts ty (other (half_of sd)) p) (mk_order i c sd ty p q ts)
      (B (other (half_of sd))) = (a, rest, fs')" using prod_cases3 by blast
  with assms ne that show thesis by (auto simp: spec_add_def Let_def split: if_splits)
qed

lemma spec_add_rejected: "spec_add cap i c sd ty p q ts B = (False, B', fs) \<Longrightarrow> B' = B \<and> fs = []"
  by (auto simp: spec_add_def Let_def split: if_splits prod.splits)

lemma all_open_ok: "all_open B \<Longrightarrow> \<forall>r\<in>set (B s). order_ok r \<and> \<not> is_filled r"
  using order_ok_open by (auto simp: all_open_def)

text \<open>The incoming order after trades of \<open>n\<close> in total.\<close>

abbreviation part_filled :: "OrderId \<Rightarrow> ClientId \<Rightarrow> Side \<Rightarrow> OrderType \<Rightarrow> Price \<Rightarrow> Quantity \<Rightarrow> Timestamp \<Rightarrow> nat \<Rightarrow> Order" where
  "part_filled i c sd ty p q ts n \<equiv> (mk_order i c sd ty p q ts)\<lparr>o_filled_qty := of_nat n\<rparr>"

lemma spec_add_conserves:
  assumes s: "spec_add cap i c sd ty p q ts B = (True, B', fs)" and o: "all_open B"
  shows "total_remaining (B (other (half_of sd))) = total_filled fs + total_remaining (B' (other (half_of sd)))"
    and "total_filled fs \<le> unat q"
    and "B' (half_of sd) = (if total_filled fs < unat q \<and> ty = Limit
           then insert_prio (half_of sd) (part_filled i c sd ty p q ts (total_filled fs)) (B (half_of sd)) else B (half_of sd))"
proof -
  obtain a where m: "match_q (canon_side sd) (accepts ty (other (half_of sd)) p) (mk_order i c sd ty p q ts)
       (B (other (half_of sd))) = (a, B' (other (half_of sd)), fs)"
    "B' (half_of sd) = (if \<not> is_filled a \<and> ty = Limit then insert_prio (half_of sd) a (B (half_of sd)) else B (half_of sd))"
    by (rule spec_add_accepted [OF s])
  have c: "unat q = total_filled fs + unat (remaining a)" "total_remaining (B (other (half_of sd))) = total_filled fs + total_remaining (B' (other (half_of sd)))"
    using match_q_conserves [OF m(1)] all_open_ok [OF o, of "other (half_of sd)"] by auto
  show "total_remaining (B (other (half_of sd))) = total_filled fs + total_remaining (B' (other (half_of sd)))" by (rule c(2))
  show le: "total_filled fs \<le> unat q" using c(1) by simp
  have a: "a = part_filled i c sd ty p q ts (total_filled fs)" using match_q_aggressor [OF m(1)] by (simp add: mk_order_def)
  have "unat (of_nat (total_filled fs) :: Quantity) = total_filled fs"
    using order.strict_trans1 [OF le unsigned_less [of q, where 'a = nat]] by (simp add: unsigned_of_nat take_bit_nat_eq_self)
  then have "is_filled a \<longleftrightarrow> \<not> total_filled fs < unat q" by (simp add: a is_filled_def mk_order_def word_le_nat_alt not_less)
  then show "B' (half_of sd) = (if total_filled fs < unat q \<and> ty = Limit
      then insert_prio (half_of sd) (part_filled i c sd ty p q ts (total_filled fs)) (B (half_of sd)) else B (half_of sd))" using m(2) a by simp
qed

lemma spec_add_fills:
  assumes s: "spec_add cap i c sd ty p q ts B = (True, B', fs)" and o: "all_open B" and f: "f \<in> set fs"
  shows "f_quantity f \<noteq> 0" "accepts ty (other (half_of sd)) p (f_price f)"
    "\<exists>r\<in>set (B (other (half_of sd))). f_price f = o_price r"
proof -
  obtain a where "match_q (canon_side sd) (accepts ty (other (half_of sd)) p) (mk_order i c sd ty p q ts)
       (B (other (half_of sd))) = (a, B' (other (half_of sd)), fs)" by (rule spec_add_accepted [OF s])
  from match_q_fills [OF this _ all_open_ok [OF o] f]
  show "f_quantity f \<noteq> 0" "accepts ty (other (half_of sd)) p (f_price f)"
    "\<exists>r\<in>set (B (other (half_of sd))). f_price f = o_price r" by simp_all
qed

lemma spec_add_priority:
  assumes s: "spec_add cap i c sd ty p q ts B = (True, B', fs)" and o: "all_open B"
  shows "\<exists>k. B' (other (half_of sd)) = drop k (B (other (half_of sd))) \<or>
     (k < length (B (other (half_of sd))) \<and> (\<exists>n. B' (other (half_of sd)) =
        fill n (B (other (half_of sd)) ! k) # drop (Suc k) (B (other (half_of sd)))) \<and> B' (half_of sd) = B (half_of sd))"
proof -
  obtain a where m: "match_q (canon_side sd) (accepts ty (other (half_of sd)) p) (mk_order i c sd ty p q ts)
       (B (other (half_of sd))) = (a, B' (other (half_of sd)), fs)"
    "B' (half_of sd) = (if \<not> is_filled a \<and> ty = Limit then insert_prio (half_of sd) a (B (half_of sd)) else B (half_of sd))"
    by (rule spec_add_accepted [OF s])
  with match_q_suffix [OF m(1)] all_open_ok [OF o, of "other (half_of sd)"] show ?thesis by auto
qed

text \<open>Cancelling an order that has just come to rest gives back the lists.\<close>

lemma filter_insert_prio:
  assumes "\<forall>x\<in>set xs. o_id x \<noteq> o_id a"
  shows "filter (\<lambda>x. o_id x \<noteq> o_id a) (insert_prio s a xs) = xs"
proof -
  let ?P = "\<lambda>x. o_id x \<noteq> o_id a" and ?R = "\<lambda>y. \<not> improves s (o_price a) (o_price y)"
  have "filter ?P (insert_prio s a xs) = filter ?P (takeWhile ?R xs @ dropWhile ?R xs)"
    unfolding insert_prio_def filter_append by simp
  also have "\<dots> = xs" using assms by (simp add: filter_id_conv del: filter_append)
  finally show ?thesis .
qed

lemma spec_add_cancel:
  assumes s: "spec_add cap i c sd Limit p q ts B = (True, B', [])" and q: "q \<noteq> 0"
    and o: "all_open B" and i: "\<And>s x. x \<in> set (B s) \<Longrightarrow> o_id x \<noteq> i"
  shows "spec_cancel i B' = (True, B)"
proof -
  let ?s = "half_of sd"
  obtain a where m: "match_q (canon_side sd) (accepts Limit (other ?s) p) (mk_order i c sd Limit p q ts) (B (other ?s)) =
       (a, B' (other ?s), [])"
    "B' ?s = (if \<not> is_filled a \<and> Limit = Limit then insert_prio ?s a (B ?s) else B ?s)"
    by (rule spec_add_accepted [OF s])
  have a: "a = mk_order i c sd Limit p q ts" "B' (other ?s) = B (other ?s)"
    using m(1) by (cases "B (other ?s)"; auto simp: Let_def split: if_splits prod.splits)+
  then have B': "B' ?s = insert_prio ?s a (B ?s)" using m(2) q by simp
  have "filter (\<lambda>x. o_id x \<noteq> i) (B' s') = B s'" for s'
  proof (cases "s' = ?s")
    case True
    then show ?thesis using filter_insert_prio [of "B ?s" a ?s] i a(1) B' by auto
  next
    case False
    then have "s' = other ?s" by (cases s'; cases ?s) auto
    then show ?thesis using a(2) i by (auto simp: filter_id_conv)
  qed
  moreover have "a \<in> set (B' ?s)" unfolding B' by (simp add: insert_prio_def)
  then have "\<exists>s'. \<exists>x\<in>set (B' s'). o_id x = i" using a(1) by (intro exI [of _ ?s] bexI [of _ a]) auto
  ultimately show ?thesis by (simp add: spec_cancel_def)
qed

subsection \<open>The interface\<close>

locale price_time_book =
  fixes add :: "OrderId \<Rightarrow> ClientId \<Rightarrow> Side \<Rightarrow> OrderType \<Rightarrow> Price \<Rightarrow> Quantity \<Rightarrow> Timestamp \<Rightarrow> 'b \<Rightarrow> (bool \<times> 'b) option"
    and cancel :: "OrderId \<Rightarrow> 'b \<Rightarrow> (bool \<times> 'b) option"
    and abs :: "'b \<Rightarrow> spec_book" and log :: "'b \<Rightarrow> Fill list" and cap :: "'b \<Rightarrow> nat"
    and ok :: "'b \<Rightarrow> bool" and findable :: "'b \<Rightarrow> bool" and free_id :: "OrderId \<Rightarrow> 'b \<Rightarrow> bool"
  assumes add_law: "ok b \<Longrightarrow> \<exists>r b' fs. add i c sd ty p q ts b = Some (r, b') \<and> ok b' \<and> cap b' = cap b
           \<and> spec_add (cap b) i c sd ty p q ts (abs b) = (r, abs b', fs) \<and> log b' = log b @ fs
           \<and> (\<not> r \<longrightarrow> b' = b) \<and> (findable b \<and> free_id i b \<longrightarrow> findable b')"
    and cancel_law: "ok b \<Longrightarrow> findable b \<Longrightarrow> \<exists>r b'. cancel i b = Some (r, b') \<and> ok b' \<and> findable b' \<and> cap b' = cap b
           \<and> spec_cancel i (abs b) = (r, abs b') \<and> log b' = log b \<and> (r \<longrightarrow> free_id i b')"
    and open_law: "ok b \<Longrightarrow> all_open (abs b)"
    and sorted_law: "ok b \<Longrightarrow> price_sorted s (abs b s)"
    and free_id_law: "ok b \<Longrightarrow> free_id i b \<Longrightarrow> x \<in> set (abs b s) \<Longrightarrow> o_id x \<noteq> i"
begin

lemma add_accepted:
  assumes "ok b" "add i c sd ty p q ts b = Some (True, b')"
  obtains fs where "spec_add (cap b) i c sd ty p q ts (abs b) = (True, abs b', fs)" "log b' = log b @ fs" "ok b'" "all_open (abs b)"
proof -
  from add_law [OF assms(1), of i c sd ty p q ts] assms(2) obtain fs where
    "spec_add (cap b) i c sd ty p q ts (abs b) = (True, abs b', fs)" "log b' = log b @ fs" "ok b'" by auto
  with that open_law [OF assms(1)] show thesis by blast
qed

text \<open>Nothing is created or lost: what trades leaves both sides, the rest of a limit order rests.\<close>

lemma conservation:
  assumes "ok b" "add i c sd ty p q ts b = Some (True, b')"
  shows "\<exists>fs. log b' = log b @ fs
     \<and> total_remaining (abs b (other (half_of sd))) = total_filled fs + total_remaining (abs b' (other (half_of sd)))
     \<and> total_filled fs \<le> unat q
     \<and> abs b' (half_of sd) = (if total_filled fs < unat q \<and> ty = Limit
          then insert_prio (half_of sd) (part_filled i c sd ty p q ts (total_filled fs)) (abs b (half_of sd)) else abs b (half_of sd))"
proof -
  obtain fs where s: "spec_add (cap b) i c sd ty p q ts (abs b) = (True, abs b', fs)" "log b' = log b @ fs" "all_open (abs b)"
    by (rule add_accepted [OF assms])
  from spec_add_conserves [OF s(1,3)] s(2) show ?thesis by blast
qed

lemma no_trade_through:
  assumes "ok b" "add i c sd ty p q ts b = Some (True, b')"
  shows "\<exists>fs. log b' = log b @ fs \<and> (\<forall>f\<in>set fs. f_quantity f \<noteq> 0 \<and> accepts ty (other (half_of sd)) p (f_price f)
     \<and> (\<exists>r\<in>set (abs b (other (half_of sd))). f_price f = o_price r))"
proof -
  obtain fs where s: "spec_add (cap b) i c sd ty p q ts (abs b) = (True, abs b', fs)" "log b' = log b @ fs" "all_open (abs b)"
    by (rule add_accepted [OF assms])
  from spec_add_fills [OF s(1,3)] s(2) show ?thesis by blast
qed

lemma priority:
  assumes "ok b" "add i c sd ty p q ts b = Some (True, b')"
  shows "\<exists>k. abs b' (other (half_of sd)) = drop k (abs b (other (half_of sd))) \<or>
     (k < length (abs b (other (half_of sd))) \<and> (\<exists>n. abs b' (other (half_of sd)) =
        fill n (abs b (other (half_of sd)) ! k) # drop (Suc k) (abs b (other (half_of sd)))) \<and> abs b' (half_of sd) = abs b (half_of sd))"
  by (rule add_accepted [OF assms]) (use spec_add_priority in blast)

lemma rest_then_cancel:
  assumes "ok b" "findable b" "free_id i b" "q \<noteq> 0"
    and "add i c sd Limit p q ts b = Some (True, b1)" "log b1 = log b"
  shows "\<exists>b2. cancel i b1 = Some (True, b2) \<and> ok b2 \<and> findable b2 \<and> abs b2 = abs b"
proof -
  obtain fs where s: "spec_add (cap b) i c sd Limit p q ts (abs b) = (True, abs b1, fs)" "log b1 = log b @ fs" "ok b1" "all_open (abs b)"
    by (rule add_accepted [OF assms(1,5)])
  with assms(6) have "fs = []" by simp
  with s(1,4) assms(1,3,4) free_id_law have c: "spec_cancel i (abs b1) = (True, abs b)"
    by (intro spec_add_cancel [of "cap b" i c sd p q ts]) auto
  have "findable b1" using add_law [OF assms(1), of i c sd Limit p q ts] assms(2,3,5) by auto
  from cancel_law [OF s(3) this, of i] c show ?thesis by auto
qed

end

subsection \<open>The C++ order book honours the contract\<close>

lemma abs_book_rep: "book_rep Q b \<Longrightarrow> abs_book b = prio Q (heap_of b)"
  using book_rep_queue by (auto simp: abs_book_def)

lemma tracked_rep: "book_rep Q b \<Longrightarrow> tracked b = tracked_in Q b"
  using book_rep_queue by (auto simp: tracked_def)

lemma set_prio_half:
  assumes "core Q X pl L tb"
  shows "(\<forall>s. \<forall>x\<in>set (prio Q h s). P x) \<longleftrightarrow> (\<forall>a\<in>live Q. P (strip (h a)))"
  using live_addrs [OF assms] by (auto simp: prio_addrs all_half)

lemma fresh_rep:
  assumes "book_rep Q b"
  shows "fresh i b \<longleftrightarrow> (\<forall>a\<in>live Q. slot (o_id (heap_of b a)) \<noteq> slot i)"
  using set_prio_half [OF book_repD(1) [OF assms], of "heap_of b" "\<lambda>x. slot (o_id x) \<noteq> slot i"]
  by (simp add: fresh_def abs_book_rep [OF assms])

lemma abs_book_open: "book_ok b \<Longrightarrow> all_open (abs_book b)"
  using set_prio_half [OF book_repD(1) [OF book_ok_rep], of b "heap_of b" "\<lambda>x. \<not> is_filled x"] book_repD(3) [OF book_ok_rep]
  by (simp add: all_open_def open_orders_def abs_book_rep [OF book_ok_rep])

lemma prio_sorted:
  assumes c: "core Q X pl L tb" shows "price_sorted s (prio Q (arena pl) s)"
proof -
  let ?R = "\<lambda>x y. \<not> improves s (o_price y) (o_price x)" and ?l = "\<lambda>i. map (\<lambda>a. strip (arena pl a)) (Q s i)"
  have price: "o_price x = of_nat (Suc i)" if "x \<in> set (?l i)" for x i
    using that at_level_price [OF c, of _ s i] by auto
  have irr: "\<not> improves s x x" for x by (cases s) auto
  have all: "sorted_wrt ?R xs" if "\<And>x y. x \<in> set xs \<Longrightarrow> y \<in> set xs \<Longrightarrow> ?R x y" for xs
    using that by (induction xs) auto
  have same: "sorted_wrt ?R (?l i)" for i by (rule all) (metis price irr)
  have "price_sorted s (concat (map ?l ix))"
    if "sorted_wrt (\<lambda>i j. \<not> improves s (of_nat (Suc j)) (of_nat (Suc i))) ix" for ix
    using that
  proof (induction ix)
    case (Cons i ix)
    have "?R x y" if "x \<in> set (?l i)" "y \<in> set (concat (map ?l ix))" for x y
    proof -
      from that(2) obtain j where j: "j \<in> set ix" "y \<in> set (?l j)" by auto
      with Cons.prems price [OF that(1)] price [OF j(2)] show ?thesis by simp
    qed
    with Cons same [of i] show ?case by (simp add: price_sorted_def sorted_wrt_append)
  qed (simp add: price_sorted_def)
  moreover have "sorted_wrt (\<lambda>i j. \<not> improves s (of_nat (Suc j)) (of_nat (Suc i))) (prio_ix s)"
  proof (cases s)
    case Asks
    then show ?thesis
      using price_index_less(1) by (auto simp: sorted_wrt_iff_nth_less simp del: of_nat_Suc)
  next
    case Bids
    then show ?thesis
      using price_index_less(1) by (auto simp: sorted_wrt_iff_nth_less rev_nth simp del: of_nat_Suc)
  qed
  ultimately show ?thesis unfolding prio_def by blast
qed

interpretation ob: price_time_book add_order cancel_order abs_book fills "\<lambda>b. capacity (pool b)" book_ok tracked fresh
proof
  fix b i c sd ty p q ts
  assume ok: "book_ok b"
  note r = book_ok_rep [OF ok]
  from add_order_rep [OF r, of i c sd ty p q ts] obtain ok' b' Q' fs where
    b': "add_order i c sd ty p q ts b = Some (ok', b')" "book_rep Q' b'"
      "spec_add (capacity (pool b)) i c sd ty p q ts (prio (queue b) (heap_of b)) = (ok', prio Q' (heap_of b'), fs)"
      "fills b' = fills b @ fs" "capacity (pool b') = capacity (pool b)" "\<not> ok' \<longrightarrow> b' = b"
      "tracked_in (queue b) b \<and> (\<forall>r\<in>live (queue b). slot (o_id (heap_of b r)) \<noteq> slot i) \<longrightarrow> tracked_in Q' b'" by blast
  with tracked_rep [OF r] tracked_rep [OF b'(2)] fresh_rep [OF r, of i]
  show "\<exists>r b' fs. add_order i c sd ty p q ts b = Some (r, b') \<and> book_ok b' \<and> capacity (pool b') = capacity (pool b)
      \<and> spec_add (capacity (pool b)) i c sd ty p q ts (abs_book b) = (r, abs_book b', fs) \<and> fills b' = fills b @ fs
      \<and> (\<not> r \<longrightarrow> b' = b) \<and> (tracked b \<and> fresh i b \<longrightarrow> tracked b')"
    using book_okI [OF b'(2)] by (simp add: abs_book_rep [OF r] abs_book_rep [OF b'(2)])
next
  fix b i
  assume ok: "book_ok b" and t: "tracked b"
  note r = book_ok_rep [OF ok]
  from cancel_order_spec [OF r, of i] t tracked_rep [OF r] obtain ok' b' Q' where
    b': "cancel_order i b = Some (ok', b')" "book_rep Q' b'" "tracked_in Q' b'" "same_log b b'"
      "spec_cancel i (prio (queue b) (heap_of b)) = (ok', prio Q' (heap_of b'))"
      "ok' \<longrightarrow> (\<forall>p\<in>live Q'. slot (o_id (heap_of b' p)) \<noteq> slot i)" by auto
  then show "\<exists>r b'. cancel_order i b = Some (r, b') \<and> book_ok b' \<and> tracked b' \<and> capacity (pool b') = capacity (pool b)
      \<and> spec_cancel i (abs_book b) = (r, abs_book b') \<and> fills b' = fills b \<and> (r \<longrightarrow> fresh i b')"
    using book_okI [OF b'(2)] tracked_rep [OF b'(2)] fresh_rep [OF b'(2), of i]
    by (simp add: abs_book_rep [OF r] abs_book_rep [OF b'(2)] same_log_def)
next
  fix b s assume "book_ok b"
  then show "price_sorted s (abs_book b s)"
    using prio_sorted [OF book_repD(1) [OF book_ok_rep]] by (simp add: abs_book_rep [OF book_ok_rep])
qed (auto simp: abs_book_open fresh_def)

end
