(* ===== verification/Book_Properties.thy ===== *)
theory Book_Properties
  imports Book_Contract
begin

section \<open>Properties of the order book\<close>

text \<open>
  The correctness theorems of \<open>OrderBook\<close>, stated over the C++ model: refinement of the
  specification by each operation, the invariant of every reachable book, what a participant
  observes (conservation, price limits, priority, cancellation), the observers, and two behaviours
  of the lookup table and of \<open>modify_order\<close> that differ from what a caller may expect.
\<close>

subsection \<open>Helper lemmas\<close>

lemma best_ok_unique:
  assumes "best_ok s F p" "best_ok s F q" shows "p = q"
proof -
  have "i = j" if "extreme s F i" "extreme s F j" for i j
    using that by (cases s) (auto simp: is_greatest_def is_least_def intro: le_antisym)
  moreover have "F i" if "extreme s F i" for i using that by (cases s) (auto simp: is_greatest_def is_least_def)
  ultimately show ?thesis using assms by (auto simp: best_ok_def)
qed

lemma level_emptiness:
  assumes "book_rep Q b" "i < PRICE_LEVELS"
  shows "lv_empty (levels (half b s) i) \<longleftrightarrow> Q s i = []"
  using pl.empty_rep [OF core_level [OF book_repD(1) [OF assms(1)] assms(2)]] .

lemma first_bid_from_correct:
  assumes r: "book_rep Q b" and n: "n \<le> PRICE_LEVELS"
  shows "\<exists>p. first_bid_from b (of_nat n) = Some p \<and> best_ok Bids (\<lambda>i. i < n \<and> Q Bids i \<noteq> []) p"
  using n
proof (induction n)
  case 0
  then show ?case by (subst first_bid_from.simps) (simp add: best_ok_def MIN_PRICE_def)
next
  case (Suc k)
  then have k: "k < PRICE_LEVELS" by simp
  have min: "MIN_PRICE \<le> of_nat (Suc k)" "of_nat (Suc k) = MIN_PRICE \<longleftrightarrow> k = 0"
    using unat_of_index [OF k] by (auto simp: MIN_PRICE_def word_le_nat_alt word_unat_eq_iff simp del: of_nat_Suc)
  have unf: "first_bid_from b (of_nat (Suc k)) = (if Q Bids k \<noteq> [] then Some (of_nat (Suc k))
      else if k = 0 then Some INVALID_PRICE else first_bid_from b (of_nat k))"
    by (subst first_bid_from.simps) (use min k idx_of_index [OF k] level_emptiness [OF r k] in \<open>simp del: of_nat_Suc, simp\<close>)
  show ?case
  proof (cases "Q Bids k = []")
    case True
    then have "(\<lambda>i. i < Suc k \<and> Q Bids i \<noteq> []) = (\<lambda>i. i < k \<and> Q Bids i \<noteq> [])" by (auto simp: fun_eq_iff less_Suc_eq)
    with Suc True unf show ?thesis by (cases "k = 0") (auto simp: best_ok_def)
  next
    case False
    then have "extreme Bids (\<lambda>i. i < Suc k \<and> Q Bids i \<noteq> []) k" by (simp add: is_greatest_def)
    with False unf show ?thesis by (auto simp: best_ok_def)
  qed
qed

lemma first_ask_from_correct:
  assumes r: "book_rep Q b" and n: "n \<le> PRICE_LEVELS"
  shows "\<exists>p. first_ask_from b (of_nat (Suc n)) = Some p \<and> best_ok Asks (\<lambda>i. n \<le> i \<and> Q Asks i \<noteq> []) p"
  using n
proof (induction rule: inc_induct)
  case base
  have "\<not> (PRICE_LEVELS \<le> i \<and> Q Asks i \<noteq> [])" for i using core_out [OF book_repD(1) [OF r]] by auto
  then show ?case by (subst first_ask_from.simps) (simp add: best_ok_def const_defs)
next
  case (step k)
  then have k: "k < PRICE_LEVELS" by simp
  have max: "of_nat (Suc k) \<le> MAX_PRICE"
    using unat_of_index [OF k] k by (auto simp: const_defs word_le_nat_alt simp del: of_nat_Suc)
  have unf: "first_ask_from b (of_nat (Suc k)) = (if Q Asks k \<noteq> [] then Some (of_nat (Suc k))
      else first_ask_from b (of_nat (Suc (Suc k))))"
    by (subst first_ask_from.simps) (use max k idx_of_index [OF k] level_emptiness [OF r k] in \<open>simp del: of_nat_Suc, simp add: add.commute\<close>)
  show ?case
  proof (cases "Q Asks k = []")
    case True
    then have "(\<lambda>i. k \<le> i \<and> Q Asks i \<noteq> []) = (\<lambda>i. Suc k \<le> i \<and> Q Asks i \<noteq> [])"
      by (auto simp: fun_eq_iff) (metis le_antisym not_less_eq_eq)
    with step.IH True unf show ?thesis by simp
  next
    case False
    then have "extreme Asks (\<lambda>i. k \<le> i \<and> Q Asks i \<noteq> []) k" by (simp add: is_least_def)
    with False unf show ?thesis by (auto simp: best_ok_def)
  qed
qed

lemma validate_bbo_rep:
  assumes r: "book_rep Q b" shows "validate_bbo b = Some True"
proof -
  have out: "i < PRICE_LEVELS" if "Q s i \<noteq> []" for s i
    using core_out [OF book_repD(1) [OF r], of i s] that by (meson not_le)
  have F: "(\<lambda>i. i < PRICE_LEVELS \<and> Q Bids i \<noteq> []) = (\<lambda>i. Q Bids i \<noteq> [])" using out by (auto simp: fun_eq_iff)
  have max: "MAX_PRICE = of_nat PRICE_LEVELS" and min: "MIN_PRICE = of_nat (Suc 0)" by (simp_all add: const_defs)
  from first_bid_from_correct [OF r order_refl] obtain pb where
    pb: "first_bid_from b MAX_PRICE = Some pb" "best_ok Bids (\<lambda>i. Q Bids i \<noteq> []) pb" unfolding F max by blast
  from first_ask_from_correct [OF r le0] obtain pa where
    pa: "first_ask_from b MIN_PRICE = Some pa" "best_ok Asks (\<lambda>i. Q Asks i \<noteq> []) pa" unfolding min by auto
  have "best_ok s (\<lambda>i. Q s i \<noteq> []) (best (half b s))" for s
    using book_repD(2) [OF r, of s] by (simp add: index_ok_def)
  with pb(2) pa(2) best_ok_unique have "pb = best_bid b" "pa = best_ask b" by blast+
  with pb(1) pa(1) show ?thesis by (simp add: validate_bbo_def)
qed

lemma uncrossed_best:
  assumes r: "book_rep Q b" shows "best_bid b < best_ask b"
proof -
  note c = book_repD(1) [OF r]
  have out: "i < PRICE_LEVELS" if "Q s i \<noteq> []" for s i
    using core_out [OF c, of i s] that by (meson not_le)
  have cases: "best (half b s) = no_best s \<or> (\<exists>i. Q s i \<noteq> [] \<and> best (half b s) = of_nat (Suc i))" for s
    using book_repD(2) [OF r, of s] by (cases s) (auto simp: index_ok_def best_ok_def is_greatest_def is_least_def)
  have "of_nat (Suc i) < (of_nat (Suc j) :: Price)" if "Q Bids i \<noteq> []" "Q Asks j \<noteq> []" for i j
    using book_repD(4) [OF r] that price_index_less(1) [OF out out] by (simp add: uncrossed_def del: of_nat_Suc)
  with cases [of Bids] cases [of Asks] no_best_improved [OF out, of Asks _ Bids] no_best_improved [OF out, of Bids _ Asks]
  show ?thesis by (auto simp: const_defs simp del: of_nat_Suc)
qed

text \<open>The cached best price is the price of the first order of the side's list, or the sentinel of an empty side.\<close>

definition best_of :: "book_half \<Rightarrow> Order list \<Rightarrow> Price" where
  "best_of s xs = (case xs of [] \<Rightarrow> no_best s | x # _ \<Rightarrow> o_price x)"

lemma resting_index:
  assumes "book_rep Q b"
  shows "x \<in> set (abs_book b s) \<longleftrightarrow> (\<exists>i a. a \<in> set (Q s i) \<and> x = strip (heap_of b a))"
    and "a \<in> set (Q s i) \<Longrightarrow> i < PRICE_LEVELS \<and> o_price (strip (heap_of b a)) = of_nat (Suc i)"
proof -
  note c = book_repD(1) [OF assms]
  show "x \<in> set (abs_book b s) \<longleftrightarrow> (\<exists>i a. a \<in> set (Q s i) \<and> x = strip (heap_of b a))"
    using set_addrs [OF c, of s] by (auto simp: abs_book_rep [OF assms] prio_addrs)
  assume a: "a \<in> set (Q s i)"
  with core_index [OF c a] at_level_price [OF c a] show "i < PRICE_LEVELS \<and> o_price (strip (heap_of b a)) = of_nat (Suc i)" by simp
qed

lemma best_first:
  assumes "book_ok b" shows "best (half b s) = best_of s (abs_book b s)"
proof -
  obtain Q where r: "book_rep Q b" using book_ok_rep [OF assms] by blast
  have best: "best_ok s (\<lambda>i. Q s i \<noteq> []) (best (half b s))" using book_repD(2) [OF r, of s] by (simp add: index_ok_def)
  show ?thesis
  proof (cases "abs_book b s")
    case Nil
    then have "Q s i = []" for i using resting_index(1) [OF r, of _ s] by (metis empty_iff list.set(1) list.set_sel(1))
    with best Nil show ?thesis by (cases s) (auto simp: best_ok_def best_of_def is_greatest_def is_least_def)
  next
    case (Cons x xs)
    then obtain i a where x: "a \<in> set (Q s i)" "x = strip (heap_of b a)" using resting_index(1) [OF r, of x s] by auto
    note xi = resting_index(2) [OF r x(1)]
    from best x(1) obtain j where j: "extreme s (\<lambda>i. Q s i \<noteq> []) j" "best (half b s) = of_nat (Suc j)" by (auto simp: best_ok_def)
    from j(1) have "Q s j \<noteq> []" by (cases s) (simp_all add: is_greatest_def is_least_def)
    then obtain a' where a': "a' \<in> set (Q s j)" by (meson hd_in_set)
    note yj = resting_index(2) [OF r a']
    have "strip (heap_of b a') \<in> set (x # xs)" using resting_index(1) [OF r, of "strip (heap_of b a')" s] a' Cons by auto
    moreover have "price_sorted s (x # xs)" using ob.sorted_law [OF assms, of s] Cons by simp
    ultimately have "\<not> improves s (o_price (strip (heap_of b a'))) (o_price x)" by (cases s) (auto simp: price_sorted_def)
    with xi yj have "\<not> improves s (of_nat (Suc j)) (of_nat (Suc i))" unfolding x(2) by (simp only:) simp
    moreover have "Q s i \<noteq> []" using x(1) by auto
    ultimately have "i = j" using j(1) xi yj price_index_less(1) [of i j] price_index_less(1) [of j i]
      by (cases s) (auto simp: is_greatest_def is_least_def simp del: of_nat_Suc)
    with j(2) xi x(2) Cons show ?thesis by (simp add: best_of_def)
  qed
qed

subsection \<open>Refinement of the specification\<close>

text \<open>
  C5. \<open>add_order\<close> implements price-time priority matching. From every well-formed book it
  returns (all its array accesses, front reads and bit scans are defined and its matching loops
  end), leaves a well-formed book, and its effect on the two priority lists, its return value and
  the fills it appends are those of \<open>spec_add\<close>: reject when the pool is exhausted or a limit
  price is out of range (and then change nothing), otherwise match the incoming order against the
  opposite list from its head and rest the remainder of a limit order behind all orders of a price
  at least as good.
\<close>

theorem add_order_refines:
  assumes "book_ok b"
  shows "\<exists>ok b' fs. add_order i c sd ty p q ts b = Some (ok, b') \<and> book_ok b'
     \<and> spec_add (capacity (pool b)) i c sd ty p q ts (abs_book b) = (ok, abs_book b', fs)
     \<and> fills b' = fills b @ fs \<and> (\<not> ok \<longrightarrow> b' = b)"
  using ob.add_law [OF assms, of i c sd ty p q ts] by blast

lemma abs_book_new: "n < 2 ^ 32 \<Longrightarrow> abs_book (book_new n) = (\<lambda>_. [])"
  using abs_book_rep [OF book_new_ok] by (simp add: prio_def fun_eq_iff)

lemma book_new_book_ok: "n < 2 ^ 32 \<Longrightarrow> book_ok (book_new n)"
  using book_new_ok by (rule book_okI)

lemma book_new_tracked: "n < 2 ^ 32 \<Longrightarrow> tracked (book_new n)"
  using tracked_rep [OF book_new_ok] by (simp add: tracked_in_def live_def)

lemma capacity_book_new [simp]: "capacity (pool (book_new n)) = n" "fills (book_new n) = []"
  by (simp_all add: book_new_def pool_new_ok)

text \<open>One order in an otherwise empty book, as \<open>add_order\<close> leaves it.\<close>

lemma spec_add_empty:
  assumes "q \<noteq> 0" "MIN_PRICE \<le> p" "p \<le> MAX_PRICE" "n \<noteq> 0"
  shows "spec_add n i c sd Limit p q ts (\<lambda>_. []) = (True, (\<lambda>_. [])(half_of sd := [mk_order i c sd Limit p q ts]), [])"
  using assms by (simp add: spec_add_def rejects_def insert_prio_def not_less Let_def fun_eq_iff)

lemma first_order_state:
  assumes q: "q \<noteq> 0" and p: "MIN_PRICE \<le> p" "p \<le> MAX_PRICE"
  shows "\<exists>b. add_order i c sd Limit p q ts (book_new 4) = Some (True, b) \<and> book_ok b \<and> tracked b
     \<and> abs_book b = (\<lambda>_. [])(half_of sd := [mk_order i c sd Limit p q ts]) \<and> fills b = [] \<and> capacity (pool b) = 4"
proof -
  have "fresh i (book_new 4)" by (simp add: fresh_def abs_book_new)
  then show ?thesis
    using ob.add_law [OF book_new_book_ok [of 4], of i c sd Limit p q ts] book_new_tracked [of 4]
    by (auto simp: abs_book_new spec_add_empty [OF assms])
qed

theorem add_order_refines_witness:
  "book_ok (book_new 4) \<and> (\<exists>b'. add_order 9 7 Sell Limit 100 5 0 (book_new 4) = Some (True, b') \<and> book_ok b'
     \<and> abs_book b' Asks = [mk_order 9 7 Sell Limit 100 5 0] \<and> fills b' = [])"
  using add_order_refines [OF book_new_book_ok [of 4], of 9 7 Sell Limit 100 5 0] book_new_book_ok [of 4]
  by (auto simp: abs_book_new spec_add_empty const_defs half_of_def fun_upd_def split: if_splits dest: fun_cong [of _ _ Asks])

text \<open>
  C6. \<open>cancel_order\<close> is deletion by identifier on a book whose lookup table finds every order:
  it returns true exactly when an order with that identifier rests, removes that order and
  leaves every other order, and its place in the queue, as it was. And it undoes resting: a limit order that was accepted
  without trading, under an identifier whose table entry was free, can be cancelled, and then both lists are what they were before it arrived.
\<close>

theorem cancel_order_refines:
  assumes "book_ok b" and "tracked b"
  shows "(\<exists>ok b'. cancel_order i b = Some (ok, b') \<and> book_ok b' \<and> tracked b'
       \<and> spec_cancel i (abs_book b) = (ok, abs_book b') \<and> fills b' = fills b)
     \<and> (\<forall>c sd p q ts b1. fresh i b \<and> q \<noteq> 0 \<and> add_order i c sd Limit p q ts b = Some (True, b1) \<and> fills b1 = fills b \<longrightarrow>
          (\<exists>b2. cancel_order i b1 = Some (True, b2) \<and> book_ok b2 \<and> tracked b2 \<and> abs_book b2 = abs_book b))"
  using ob.cancel_law [OF assms, of i] ob.rest_then_cancel [OF assms, of i] by blast

theorem cancel_order_refines_witness:
  "\<exists>b. book_ok b \<and> tracked b \<and> abs_book b Bids = [mk_order 3 7 Buy Limit 100 5 0]
     \<and> (\<exists>b'. cancel_order 3 b = Some (True, b') \<and> book_ok b' \<and> abs_book b' = (\<lambda>_. []))"
proof -
  obtain b where b: "book_ok b" "tracked b" "abs_book b = (\<lambda>_. [])(Bids := [mk_order 3 7 Buy Limit 100 5 0])"
    using first_order_state [of 5 100 3 7 Buy 0] by (auto simp: const_defs half_of_def)
  have "spec_cancel 3 (abs_book b) = (True, \<lambda>_. [])"
    by (auto simp: spec_cancel_def b(3) fun_eq_iff intro!: exI [of _ Bids])
  with cancel_order_refines [OF b(1,2), of 3] b show ?thesis by auto
qed

text \<open>What \<open>modify_order\<close> does to the lists: cancel, then add as a new limit order.\<close>

definition spec_modify ::
  "nat \<Rightarrow> OrderId \<Rightarrow> Price \<Rightarrow> Quantity \<Rightarrow> Timestamp \<Rightarrow> spec_book \<Rightarrow> bool \<times> spec_book \<times> Fill list" where
  "spec_modify cap i p q ts B = (case find (\<lambda>x. o_id x = i) (B Bids @ B Asks) of
       None \<Rightarrow> (False, B, [])
     | Some x \<Rightarrow> spec_add cap i (o_client_id x) (o_side x) Limit p q ts (snd (spec_cancel i B)))"

lemma find_unique: "a \<in> set xs \<Longrightarrow> (\<And>x. x \<in> set xs \<Longrightarrow> P x \<longleftrightarrow> x = a) \<Longrightarrow> find P xs = Some a"
  by (induction xs) auto

lemma find_tracked:
  assumes r: "book_rep Q b" and t: "tracked_in Q b"
  shows "find (\<lambda>x. o_id x = i) (prio Q (heap_of b) Bids @ prio Q (heap_of b) Asks) =
     map_option (\<lambda>a. strip (heap_of b a)) (lookup i b)"
proof -
  let ?as = "addrs Q Bids @ addrs Q Asks"
  have set: "set ?as = live Q" using live_addrs [OF book_repD(1) [OF r]] by simp
  have id: "o_id (heap_of b a) = i \<longleftrightarrow> lookup i b = Some a" if "a \<in> set ?as" for a
    using tracked_lookup [OF t] lookup_live(2) [OF r] that set by auto
  have "find (\<lambda>a. o_id (heap_of b a) = i) ?as = lookup i b"
  proof (cases "lookup i b")
    case None
    with id show ?thesis by (auto simp: find_None_iff)
  next
    case (Some a)
    then have "a \<in> set ?as" using lookup_live(1) [OF r] set by simp
    with id Some show ?thesis by (intro find_unique [THEN trans]) auto
  qed
  moreover have "find (\<lambda>x. o_id x = i) (map (\<lambda>a. strip (heap_of b a)) xs) =
      map_option (\<lambda>a. strip (heap_of b a)) (find (\<lambda>a. o_id (heap_of b a) = i) xs)" for xs
    by (induction xs) auto
  ultimately show ?thesis by (simp add: prio_addrs flip: map_append)
qed

lemma modify_order_spec:
  assumes ok: "book_ok b" and t: "tracked b"
  shows "\<exists>r b' fs. modify_order i p q ts b = Some (r, b') \<and> book_ok b' \<and> tracked b'
     \<and> spec_modify (capacity (pool b)) i p q ts (abs_book b) = (r, abs_book b', fs) \<and> fills b' = fills b @ fs
     \<and> capacity (pool b') = capacity (pool b)"
proof -
  note r = book_ok_rep [OF ok]
  have find: "find (\<lambda>x. o_id x = i) (abs_book b Bids @ abs_book b Asks) = map_option (\<lambda>a. strip (heap_of b a)) (lookup i b)"
    using find_tracked [OF r] t tracked_rep [OF r] by (simp add: abs_book_rep [OF r])
  show ?thesis
  proof (cases "lookup i b")
    case None
    then show ?thesis using ok t find by (auto simp: modify_order_def spec_modify_def)
  next
    case (Some a)
    from cancel_order_rep [OF r Some] obtain b0 where "cancel_order i b = Some (True, b0)" by blast
    with ob.cancel_law [OF ok t, of i] obtain b1 where b1: "cancel_order i b = Some (True, b1)" "book_ok b1" "tracked b1"
      "capacity (pool b1) = capacity (pool b)" "spec_cancel i (abs_book b) = (True, abs_book b1)" "fills b1 = fills b" "fresh i b1"
      by auto
    from ob.add_law [OF b1(2), of i "o_client_id (heap_of b a)" "o_side (heap_of b a)" Limit p q ts] b1(3,7)
    obtain r b' fs where b': "add_order i (o_client_id (heap_of b a)) (o_side (heap_of b a)) Limit p q ts b1 = Some (r, b')"
      "book_ok b'" "tracked b'" "fills b' = fills b1 @ fs" "capacity (pool b') = capacity (pool b1)"
      "spec_add (capacity (pool b1)) i (o_client_id (heap_of b a)) (o_side (heap_of b a)) Limit p q ts (abs_book b1) = (r, abs_book b', fs)"
      by blast
    then show ?thesis using b1 Some find by (simp add: modify_order_def spec_modify_def Let_def)
  qed
qed

text \<open>
  C7. \<open>modify_order\<close> is a cancellation followed by a new limit order with the old order's client
  and side: on a tracked well-formed book it returns, keeps the book well-formed and tracked, and
  computes \<open>spec_modify\<close>; the order loses its place in the queue, and may trade at once.
\<close>

theorem modify_order_refines:
  assumes "book_ok b" and "tracked b"
  shows "\<exists>ok b' fs. modify_order i p q ts b = Some (ok, b') \<and> book_ok b' \<and> tracked b'
     \<and> spec_modify (capacity (pool b)) i p q ts (abs_book b) = (ok, abs_book b', fs) \<and> fills b' = fills b @ fs"
  using modify_order_spec [OF assms, of i p q ts] by blast

theorem modify_order_refines_witness:
  "\<exists>b. book_ok b \<and> tracked b \<and> abs_book b Bids = [mk_order 3 7 Buy Limit 100 5 0]
     \<and> (\<exists>b'. modify_order 3 90 8 1 b = Some (True, b') \<and> abs_book b' Bids = [mk_order 3 7 Buy Limit 90 8 1])"
proof -
  obtain b where b: "book_ok b" "tracked b" "abs_book b = (\<lambda>_. [])(Bids := [mk_order 3 7 Buy Limit 100 5 0])" "capacity (pool b) = 4"
    using first_order_state [of 5 100 3 7 Buy 0] by (auto simp: const_defs half_of_def)
  have "o_client_id (mk_order 3 7 Buy Limit 100 5 0) = 7" by (simp add: mk_order_def)
  then have "spec_modify 4 3 90 8 1 (abs_book b) = (True, (\<lambda>_. [])(Bids := [mk_order 3 7 Buy Limit 90 8 1]), [])"
    by (simp add: spec_modify_def spec_cancel_def spec_add_def rejects_def half_of_def insert_prio_def b(3) const_defs Let_def fun_eq_iff)
  with modify_order_refines [OF b(1,2), of 3 90 8 1] b(4) obtain b' where
    "modify_order 3 90 8 1 b = Some (True, b')" "abs_book b' = (\<lambda>_. [])(Bids := [mk_order 3 7 Buy Limit 90 8 1])" by auto
  with b show ?thesis by (intro exI [of _ b]) auto
qed

subsection \<open>Every reachable book\<close>

text \<open>The books a client can produce: from the constructor by any sequence of the public operations.\<close>

inductive reachable :: "OrderBook \<Rightarrow> bool" where
  new: "n < 2 ^ 32 \<Longrightarrow> reachable (book_new n)"
| add: "reachable b \<Longrightarrow> add_order i c sd ty p q ts b = Some (ok, b') \<Longrightarrow> reachable b'"
| cancel: "reachable b \<Longrightarrow> cancel_order i b = Some (ok, b') \<Longrightarrow> reachable b'"
| modify: "reachable b \<Longrightarrow> modify_order i p q ts b = Some (ok, b') \<Longrightarrow> reachable b'"
| clear: "reachable b \<Longrightarrow> reachable (clear_fills b)"

lemma cancel_order_ok: "book_ok b \<Longrightarrow> \<exists>ok b'. cancel_order i b = Some (ok, b') \<and> book_ok b' \<and> fills b' = fills b"
proof (cases "lookup i b")
  case None
  then show "book_ok b \<Longrightarrow> ?thesis" by (auto simp: cancel_order_def)
next
  case (Some a)
  assume "book_ok b"
  from cancel_order_rep [OF book_ok_rep [OF this] Some] show ?thesis
    using book_okI by (auto simp: same_log_def)
qed

lemma modify_order_ok: "book_ok b \<Longrightarrow> \<exists>ok b'. modify_order i p q ts b = Some (ok, b') \<and> book_ok b'"
  using modify_order_rep [OF book_ok_rep] book_okI by blast

lemma clear_fills_simps [simp]:
  "half (clear_fills b) = half b" "pool (clear_fills b) = pool b" "order_table (clear_fills b) = order_table b"
  "match_count (clear_fills b) = match_count b" "fills (clear_fills b) = []"
  "queue (clear_fills b) = queue b" "abs_book (clear_fills b) = abs_book b"
  "book_ok (clear_fills b) = book_ok b" "tracked (clear_fills b) = tracked b" "fresh i (clear_fills b) = fresh i b"
proof -
  show [simp]: "half (clear_fills b) = half b" "pool (clear_fills b) = pool b" "order_table (clear_fills b) = order_table b"
    "match_count (clear_fills b) = match_count b" "fills (clear_fills b) = []" by (simp_all add: clear_fills_def)
  show [simp]: "queue (clear_fills b) = queue b" by (simp add: queue_def fun_eq_iff)
  show [simp]: "abs_book (clear_fills b) = abs_book b" by (simp add: abs_book_def)
  show "book_ok (clear_fills b) = book_ok b" "tracked (clear_fills b) = tracked b" "fresh i (clear_fills b) = fresh i b"
    by (simp_all add: book_ok_def book_rep_def tracked_def tracked_in_def fresh_def)
qed

lemma reachable_ok: "reachable b \<Longrightarrow> book_ok b"
proof (induction rule: reachable.induct)
  case (add b i c sd ty p q ts ok b')
  then show ?case using ob.add_law [of b i c sd ty p q ts] by auto
next
  case (cancel b i ok b')
  then show ?case using cancel_order_ok [of b i] by auto
next
  case (modify b i p q ts ok b')
  then show ?case using modify_order_ok [of b i p q ts] by auto
qed (simp_all add: book_new_book_ok)

text \<open>
  C8. Safety of every reachable book. Whatever sequence of adds, cancels, modifies and clears led
  to it, whatever the identifiers, prices, raw side and type bytes were: the representation
  invariant holds, the book is not crossed, the cached best bid and ask agree with a brute-force
  scan of all levels (\<open>validate_bbo\<close>), and every operation returns (no failed assertion, no
  access out of range, no endless loop).
\<close>

theorem reachable_book_safe:
  assumes "reachable b"
  shows "book_ok b \<and> best_bid b < best_ask b \<and> validate_bbo b = Some True
     \<and> (\<exists>r. add_order i c sd ty p q ts b = Some r) \<and> (\<exists>r. cancel_order i b = Some r)
     \<and> (\<exists>r. modify_order i p q ts b = Some r)"
proof -
  note ok = reachable_ok [OF assms]
  with uncrossed_best validate_bbo_rep book_ok_rep have "best_bid b < best_ask b" "validate_bbo b = Some True" by blast+
  with ok ob.add_law [OF ok, of i c sd ty p q ts] cancel_order_ok [OF ok, of i] modify_order_ok [OF ok, of i p q ts]
  show ?thesis by blast
qed

theorem reachable_book_safe_witness:
  "\<exists>b. reachable b \<and> add_order 1 7 Buy Limit 100 5 0 (book_new 4) = Some (True, b)
     \<and> best_bid b < best_ask b \<and> validate_bbo b = Some True"
proof -
  obtain b where b: "add_order 1 7 Buy Limit 100 5 0 (book_new 4) = Some (True, b)"
    using first_order_state [of 5 100 1 7 Buy 0] by (auto simp: const_defs)
  have "reachable b" by (rule reachable.add [OF reachable.new b]) simp
  with reachable_book_safe b show ?thesis by blast
qed

subsection \<open>What a participant can rely on\<close>

lemma add_order_fill_prices:
  assumes "book_ok b" and "add_order i c sd ty p q ts b = Some (True, b')"
  shows "\<exists>fs. fills b' = fills b @ fs \<and> (\<forall>f\<in>set fs. f_quantity f \<noteq> 0
     \<and> (ty = Market \<or> (if sd = Buy then f_price f \<le> p else p \<le> f_price f))
     \<and> (\<exists>r\<in>set (abs_book b (other (half_of sd))). f_price f = o_price r))"
proof -
  have "accepts ty (other (half_of sd)) p x \<longleftrightarrow> ty = Market \<or> (if sd = Buy then x \<le> p else p \<le> x)" for x
    by (simp add: accepts_def half_of_def not_less)
  with ob.no_trade_through [OF assms] show ?thesis by simp
qed

text \<open>Evaluating one step through the specification, for the witnesses.\<close>

lemma add_order_step:
  assumes "book_ok b" "abs_book b = B" "capacity (pool b) = n" "spec_add n i c sd ty p q ts B = (r, B', fs)"
  shows "\<exists>b'. add_order i c sd ty p q ts b = Some (r, b') \<and> book_ok b' \<and> abs_book b' = B' \<and> fills b' = fills b @ fs
     \<and> capacity (pool b') = n"
  using ob.add_law [OF assms(1), of i c sd ty p q ts] assms(2-4) by auto

lemma spec_add_hit:
  "spec_add 4 2 8 Sell ty 90 3 1 ((\<lambda>_. [])(Bids := [mk_order 1 7 Buy Limit 100 5 0])) =
     (True, (\<lambda>_. [])(Bids := [fill 3 (mk_order 1 7 Buy Limit 100 5 0)]),
      [mk_fill Sell (fill 3 (mk_order 2 8 Sell ty 90 3 1)) (fill 3 (mk_order 1 7 Buy Limit 100 5 0)) 3])"
  by (simp add: spec_add_def rejects_def half_of_def canon_side_def accepts_def const_defs Let_def is_filled_def
      mk_order_def remaining_def fill_def)

text \<open>
  C9. Conservation of quantity, and no trade outside the limit. When an order is accepted, the quantity that leaves the opposite
  side is exactly the quantity of the new fills, which is at most the incoming quantity. The remainder rests on its own side, at its place in the
  queue, as the incoming order with exactly the traded quantity marked as filled, iff the order is a limit order with something
  left: market orders never rest, nothing is created and nothing is lost. Every fill is for a positive quantity, at
  the price of an order that was resting on the opposite side (the resting order's price, not the
  incoming one's), and that price is acceptable to the incoming order: any price for a market
  order, at most (for a buy) or at least (for a sell) its limit otherwise.
\<close>

theorem add_order_conserves:
  assumes "book_ok b" and "add_order i c sd ty p q ts b = Some (True, b')"
  shows "\<exists>fs. fills b' = fills b @ fs
     \<and> total_remaining (abs_book b (other (half_of sd))) = total_filled fs + total_remaining (abs_book b' (other (half_of sd)))
     \<and> total_filled fs \<le> unat q
     \<and> abs_book b' (half_of sd) = (if total_filled fs < unat q \<and> ty = Limit
          then insert_prio (half_of sd) ((mk_order i c sd ty p q ts)\<lparr>o_filled_qty := of_nat (total_filled fs)\<rparr>) (abs_book b (half_of sd))
          else abs_book b (half_of sd))
     \<and> (\<forall>f\<in>set fs. f_quantity f \<noteq> 0 \<and> (ty = Market \<or> (if sd = Buy then f_price f \<le> p else p \<le> f_price f))
          \<and> (\<exists>r\<in>set (abs_book b (other (half_of sd))). f_price f = o_price r))"
proof -
  from add_order_fill_prices [OF assms] obtain fs where fs: "fills b' = fills b @ fs" "\<forall>f\<in>set fs. f_quantity f \<noteq> 0
     \<and> (ty = Market \<or> (if sd = Buy then f_price f \<le> p else p \<le> f_price f)) \<and> (\<exists>r\<in>set (abs_book b (other (half_of sd))). f_price f = o_price r)" by blast
  from ob.conservation [OF assms] fs(1) show ?thesis by (intro exI [of _ fs] conjI fs) auto
qed

theorem add_order_conserves_witness:
  "\<exists>b b'. book_ok b \<and> add_order 2 8 Sell Market 90 3 1 b = Some (True, b')
     \<and> total_remaining (abs_book b Bids) = 5 \<and> total_remaining (abs_book b' Bids) = 2 \<and> abs_book b' Asks = []
     \<and> (\<forall>f\<in>set (fills b'). f_price f = 100)"
proof -
  obtain b where b: "book_ok b" "abs_book b = (\<lambda>_. [])(Bids := [mk_order 1 7 Buy Limit 100 5 0])" "capacity (pool b) = 4" "fills b = []"
    using first_order_state [of 5 100 1 7 Buy 0] by (auto simp: const_defs half_of_def)
  from add_order_step [OF b(1-3) spec_add_hit [of Market]] b(4) obtain b' where
    b': "add_order 2 8 Sell Market 90 3 1 b = Some (True, b')" "total_filled (fills b') = 3" by auto
  from add_order_conserves [OF b(1) b'(1)] b(2,4) b'(2) show ?thesis
    by (intro exI [of _ b] exI [of _ b'] conjI b(1) b'(1)) (auto simp: half_of_def)
qed

text \<open>
  C11. Price-time priority: after an accepted order the opposite list is a suffix of what it was, of
  which at most the first order has been partly filled, and then the incoming order does not
  rest. An order is therefore touched only when every order ahead of it (better price, or
  same price and earlier) has been completely filled. The lists are sorted by price.
\<close>

theorem add_order_priority:
  assumes "book_ok b" and "add_order i c sd ty p q ts b = Some (True, b')"
  shows "price_sorted s (abs_book b s) \<and>
    (\<exists>k. abs_book b' (other (half_of sd)) = drop k (abs_book b (other (half_of sd))) \<or>
       (k < length (abs_book b (other (half_of sd))) \<and> (\<exists>n. abs_book b' (other (half_of sd)) =
          fill n (abs_book b (other (half_of sd)) ! k) # drop (Suc k) (abs_book b (other (half_of sd))))
        \<and> abs_book b' (half_of sd) = abs_book b (half_of sd)))"
  using ob.sorted_law [OF assms(1)] ob.priority [OF assms] by blast

theorem add_order_priority_witness:
  "\<exists>b b'. book_ok b \<and> add_order 2 8 Sell Limit 90 3 1 b = Some (True, b') \<and> price_sorted Bids (abs_book b Bids)
     \<and> length (abs_book b' Bids) \<le> 1"
proof -
  obtain b where b: "book_ok b" "abs_book b = (\<lambda>_. [])(Bids := [mk_order 1 7 Buy Limit 100 5 0])" "capacity (pool b) = 4" "fills b = []"
    using first_order_state [of 5 100 1 7 Buy 0] by (auto simp: const_defs half_of_def)
  from add_order_step [OF b(1-3) spec_add_hit [of Limit]] obtain b' where b': "add_order 2 8 Sell Limit 90 3 1 b = Some (True, b')" by auto
  from add_order_priority [OF b(1) b', of Bids] b show ?thesis
    by (intro exI [of _ b] exI [of _ b'] conjI b(1) b') (auto simp: half_of_def)
qed

subsection \<open>The observers\<close>

lemma filter_price_part:
  assumes c: "core Q X pl L tb" and i: "i \<notin> set ix" "i < PRICE_LEVELS"
  shows "filter (\<lambda>x. o_price x = of_nat (Suc i)) (concat (map (\<lambda>j. map (\<lambda>a. strip (arena pl a)) (Q s j)) ix)) = []"
proof -
  have "o_price (arena pl a) \<noteq> of_nat (Suc i)" if "j \<in> set ix" "a \<in> set (Q s j)" for j a
    using at_level_price [OF c that(2)] price_index_less(2) [OF core_index [OF c that(2)] i(2)] i(1) that(1) by auto
  then show ?thesis by (auto simp: filter_empty_conv simp del: of_nat_Suc)
qed

lemma qty_at_rep:
  assumes r: "book_rep Q b" and p: "MIN_PRICE \<le> p" "p \<le> MAX_PRICE"
  shows "lv_total_qty (levels (half b s) (idx p)) = (\<Sum>x\<leftarrow>filter (\<lambda>x. o_price x = p) (prio Q (heap_of b) s). remaining x)"
proof -
  note c = book_repD(1) [OF r] and i = idx_price [OF p]
  have p_eq: "p = of_nat (Suc (idx p))" using i(2) by simp
  have "filter (\<lambda>x. o_price x = p) (prio Q (heap_of b) s) = map (\<lambda>a. strip (heap_of b a)) (Q s (idx p))"
  proof -
    have "filter (\<lambda>x. o_price x = p) (map (\<lambda>a. strip (heap_of b a)) (Q s (idx p))) = map (\<lambda>a. strip (heap_of b a)) (Q s (idx p))"
      using at_level_price [OF c] p_eq by (intro filter_True) auto
    then show ?thesis
      using filter_price_part [OF c not_in_around(1) i(1)] filter_price_part [OF c not_in_around(2) i(1)] p_eq [symmetric]
      by (simp add: prio_split [OF i(1)])
  qed
  then show ?thesis using level_rep_total [OF core_level [OF c i(1), of s]] by (simp add: comp_def)
qed

lemma observers_correct:
  assumes "book_ok b" and "MIN_PRICE \<le> p" and "p \<le> MAX_PRICE"
  shows "active_orders b = length (abs_book b Bids) + length (abs_book b Asks)
     \<and> bid_qty_at b p = Some (\<Sum>x\<leftarrow>filter (\<lambda>x. o_price x = p) (abs_book b Bids). remaining x)
     \<and> ask_qty_at b p = Some (\<Sum>x\<leftarrow>filter (\<lambda>x. o_price x = p) (abs_book b Asks). remaining x)"
  using book_count(1) [OF book_ok_rep [OF assms(1)]] qty_at_rep [OF book_ok_rep [OF assms(1)] assms(2,3)] idx_price(1) [OF assms(2,3)]
  by (simp add: active_orders_def abs_book_rep [OF book_ok_rep [OF assms(1)]] bid_qty_at_def ask_qty_at_def)

subsection \<open>Identifier collisions and failed modifications\<close>

text \<open>At most one of two identifiers with the same table entry can be looked up.\<close>

lemma lookup_collision: "slot i = slot j \<Longrightarrow> i \<noteq> j \<Longrightarrow> lookup i b = None \<or> lookup j b = None"
  by (auto simp: lookup_def split: option.splits)

text \<open>
  C12. The lookup table is not injective: identifiers that agree modulo \<open>2 ^ 20\<close> share an entry, and
  \<open>reg\<close> overwrites it. There is a reachable book with a resting order that \<open>cancel_order\<close>, given
  its identifier, does not find: it returns false and the order stays.
\<close>

theorem slot_collision_uncancellable:
  "\<exists>b x. reachable b \<and> x \<in> set (abs_book b Bids) \<and> cancel_order (o_id x) b = Some (False, b)"
proof -
  let ?x = "mk_order 1 7 Buy Limit 100 5 0" and ?y = "mk_order 1048577 8 Buy Limit 99 5 1"
  obtain b where b: "add_order 1 7 Buy Limit 100 5 0 (book_new 4) = Some (True, b)" "book_ok b"
    "abs_book b = (\<lambda>_. [])(Bids := [?x])" "capacity (pool b) = 4"
    using first_order_state [of 5 100 1 7 Buy 0] by (auto simp: const_defs half_of_def)
  have "spec_add 4 1048577 8 Buy Limit 99 5 1 ((\<lambda>_. [])(Bids := [?x])) = (True, (\<lambda>_. [])(Bids := [?x, ?y]), [])"
    by (simp add: spec_add_def rejects_def half_of_def insert_prio_def const_defs Let_def fun_eq_iff)
  from add_order_step [OF b(2-4) this] obtain b' where
    b': "add_order 1048577 8 Buy Limit 99 5 1 b = Some (True, b')" "abs_book b' = (\<lambda>_. [])(Bids := [?x, ?y])" by blast
  have "reachable b'" by (rule reachable.add [OF reachable.add [OF reachable.new b(1)] b'(1)]) simp
  moreover have "slot 1 = slot 1048577" by (simp add: slot_def const_defs)
  from lookup_collision [OF this, of b'] have "lookup (o_id ?x) b' = None \<or> lookup (o_id ?y) b' = None" by simp
  then have "cancel_order (o_id ?x) b' = Some (False, b') \<or> cancel_order (o_id ?y) b' = Some (False, b')"
    by (auto simp: cancel_order_def)
  ultimately show ?thesis using b'(2) by (auto intro!: exI [of _ b'])
qed

text \<open>
  C13. A modification to a price out of range destroys the order: \<open>modify_order\<close> returns false, as it
  does when the identifier is unknown, but the order it was asked to modify is gone, because it
  cancels before \<open>add_order\<close> validates the new price.
\<close>

theorem modify_rejected_loses_order:
  assumes "book_ok b" and "tracked b" and "x \<in> set (abs_book b s)" and "p < MIN_PRICE \<or> p > MAX_PRICE"
  shows "\<exists>b'. modify_order (o_id x) p q ts b = Some (False, b')
     \<and> abs_book b' = (\<lambda>s. filter (\<lambda>y. o_id y \<noteq> o_id x) (abs_book b s))"
proof -
  let ?i = "o_id x"
  from assms(3) have "find (\<lambda>y. o_id y = ?i) (abs_book b Bids @ abs_book b Asks) \<noteq> None"
    by (cases s) (auto simp: find_None_iff)
  then obtain y where y: "find (\<lambda>y. o_id y = ?i) (abs_book b Bids @ abs_book b Asks) = Some y" by blast
  have "spec_modify (capacity (pool b)) ?i p q ts (abs_book b) =
      (False, \<lambda>s. filter (\<lambda>y. o_id y \<noteq> ?i) (abs_book b s), [])"
    unfolding spec_modify_def y using assms(4) by (simp add: spec_add_def rejects_def spec_cancel_def)
  with modify_order_spec [OF assms(1,2), of ?i p q ts] show ?thesis by auto
qed

theorem modify_rejected_loses_order_witness:
  "\<exists>b b'. book_ok b \<and> tracked b \<and> abs_book b Bids \<noteq> [] \<and> modify_order 1 0 9 2 b = Some (False, b') \<and> abs_book b' Bids = []"
proof -
  let ?x = "mk_order 1 7 Buy Limit 100 5 0"
  obtain b where b: "book_ok b" "tracked b" "abs_book b = (\<lambda>_. [])(Bids := [?x])"
    using first_order_state [of 5 100 1 7 Buy 0] by (auto simp: const_defs half_of_def)
  have x: "?x \<in> set (abs_book b Bids)" using b by simp
  obtain b' where "modify_order 1 0 9 2 b = Some (False, b')" "abs_book b' = (\<lambda>s. filter (\<lambda>y. o_id y \<noteq> o_id ?x) (abs_book b s))"
    using modify_rejected_loses_order [OF b(1,2) x, of 0 9 2] by (auto simp: const_defs)
  then show ?thesis using b by (intro exI [of _ b] exI [of _ b']) simp
qed

end
