(* ===== verification/Spsc_Ring.thy ===== *)
theory Spsc_Ring
  imports Tf_Prelude
begin

section \<open>The single-producer single-consumer ring\<close>

text \<open>
  Models \<^verbatim>\<open>src/src/transport/spsc_ring.h\<close>. The indices are 64-bit words that wrap; the template
  parameter \<open>Capacity\<close> is the argument \<open>cap\<close>, a power of two. \<open>pop\<close> returns the item instead of
  writing it through a reference.

  First the operations one after the other, with the list of items in the ring as abstraction and
  the interface \<open>bounded_queue\<close>. Then the two threads interleaved: every load and store of a
  shared field is a step of its own (\<open>ring_step\<close>), so that the caching of the other side's index
  is exposed. Stores are released and loads acquired in the code, which is what makes the
  interleaving of whole loads and stores the right granularity.
\<close>

subsection \<open>The class\<close>

record 'a ring =
  r_head :: u64
  r_tail :: u64
  cached_tail :: u64
  cached_head :: u64
  buffer :: "nat \<Rightarrow> 'a"

definition ring_new :: "(nat \<Rightarrow> 'a) \<Rightarrow> 'a ring" where
  "ring_new junk = \<lparr>r_head = 0, r_tail = 0, cached_tail = 0, cached_head = 0, buffer = junk\<rparr>"

definition MASK :: "nat \<Rightarrow> u64" where
  "MASK cap = of_nat cap - 1"

definition cell :: "nat \<Rightarrow> u64 \<Rightarrow> nat" where
  "cell cap i = unat (i AND MASK cap)"

definition ring_push :: "nat \<Rightarrow> 'a \<Rightarrow> 'a ring \<Rightarrow> bool \<times> 'a ring" where
  "ring_push cap item r =
     (let head = r_head r;
          full = head - cached_tail r \<ge> of_nat cap;
          r1 = (if full then r\<lparr>cached_tail := r_tail r\<rparr> else r)
      in if full \<and> head - cached_tail r1 \<ge> of_nat cap then (False, r1)
         else (True, r1\<lparr>buffer := (buffer r1)(cell cap head := item), r_head := head + 1\<rparr>))"

definition ring_pop :: "nat \<Rightarrow> 'a ring \<Rightarrow> 'a option \<times> 'a ring" where
  "ring_pop cap r =
     (let tail = r_tail r;
          none = cached_head r \<le> tail;
          r1 = (if none then r\<lparr>cached_head := r_head r\<rparr> else r)
      in if none \<and> cached_head r1 \<le> tail then (None, r1)
         else (Some (buffer r1 (cell cap tail)), r1\<lparr>r_tail := tail + 1\<rparr>))"

definition ring_size :: "'a ring \<Rightarrow> u64" where
  "ring_size r = r_head r - r_tail r"

definition ring_empty :: "'a ring \<Rightarrow> bool" where
  "ring_empty r \<longleftrightarrow> ring_size r = 0"

subsection \<open>Index arithmetic\<close>

definition cap_ok :: "nat \<Rightarrow> bool" where
  "cap_ok cap \<longleftrightarrow> (\<exists>k<64. cap = 2 ^ k)"

lemma cell_mod:
  assumes "cap_ok cap" shows "cell cap i = unat i mod cap"
proof -
  from assms obtain k where k: "k < 64" "cap = 2 ^ k" by (auto simp: cap_ok_def)
  have "i AND MASK cap = take_bit k i"
    by (simp add: MASK_def k take_bit_eq_mask mask_eq_exp_minus_1)
  then have "cell cap i = take_bit k (unat i)" by (simp only: cell_def unsigned_take_bit_eq)
  then show ?thesis by (simp add: take_bit_eq_mod k)
qed

lemma unat_diff_u64: "unat (b::u64) \<le> unat a \<Longrightarrow> unat (a - b) = unat a - unat b"
  by (simp add: unat_sub word_le_nat_alt)

lemma unat_succ_u64: "unat w < 2 ^ 64 - 1 \<Longrightarrow> unat (w + 1 :: u64) = Suc (unat w)"
  by (simp add: unat_word_ariths)

lemma cap_less: "cap_ok cap \<Longrightarrow> cap < 2 ^ 64"
  unfolding cap_ok_def by (metis one_less_numeral_iff power_strict_increasing_iff semiring_norm(76))

lemma unat_cap: "cap_ok cap \<Longrightarrow> unat (of_nat cap :: u64) = cap"
  using cap_less [of cap] by (simp add: unat_of_nat)

lemma cap_pos: "cap_ok cap \<Longrightarrow> 0 < cap"
  by (auto simp: cap_ok_def)

lemma full_iff:
  assumes "cap_ok cap" "unat (t::u64) \<le> unat h"
  shows "h - t \<ge> of_nat cap \<longleftrightarrow> unat h - unat t \<ge> cap"
  using assms unat_diff_u64 [OF assms(2)] by (simp add: word_le_nat_alt unat_cap)

text \<open>Two different positions less than \<open>cap\<close> apart lie in different cells.\<close>

lemma mod_window: "(i::nat) \<le> j \<Longrightarrow> j < i + cap \<Longrightarrow> i mod cap = j mod cap \<Longrightarrow> i = j"
  using mod_eq_dvd_iff_nat [of i j cap] nat_dvd_not_less [of "j - i" cap] by (cases "i = j") auto

subsection \<open>The ring as a list\<close>

definition ring_ok :: "nat \<Rightarrow> 'a ring \<Rightarrow> bool" where
  "ring_ok cap r \<longleftrightarrow> cap_ok cap \<and> unat (cached_tail r) \<le> unat (r_tail r) \<and> unat (r_tail r) \<le> unat (cached_head r)
     \<and> unat (cached_head r) \<le> unat (r_head r) \<and> unat (r_head r) \<le> unat (cached_tail r) + cap"

definition contents :: "nat \<Rightarrow> 'a ring \<Rightarrow> 'a list" where
  "contents cap r = map (\<lambda>i. buffer r (i mod cap)) [unat (r_tail r)..<unat (r_head r)]"

lemma ring_okD:
  assumes "ring_ok cap r"
  shows "cap_ok cap" "unat (cached_tail r) \<le> unat (r_tail r)" "unat (r_tail r) \<le> unat (cached_head r)"
    "unat (cached_head r) \<le> unat (r_head r)" "unat (r_head r) \<le> unat (cached_tail r) + cap"
    "unat (r_tail r) \<le> unat (r_head r)" "unat (r_head r) \<le> unat (r_tail r) + cap"
  using assms by (auto simp: ring_ok_def)

lemma length_contents [simp]: "length (contents cap r) = unat (r_head r) - unat (r_tail r)"
  by (simp add: contents_def)

lemma contents_bound: "ring_ok cap r \<Longrightarrow> length (contents cap r) \<le> cap"
  using ring_okD(7) [of cap r] by simp

lemma ring_push_full:
  assumes ok: "ring_ok cap r" and full: "length (contents cap r) = cap"
  shows "ring_push cap x r = (False, r\<lparr>cached_tail := r_tail r\<rparr>)"
proof -
  note d = ring_okD [OF ok]
  have "r_head r - cached_tail r \<ge> of_nat cap" "r_head r - r_tail r \<ge> of_nat cap"
    using d full full_iff [OF d(1), of "cached_tail r" "r_head r"] full_iff [OF d(1,6)] by auto
  then show ?thesis by (simp add: ring_push_def Let_def)
qed

lemma ring_push_room:
  assumes ok: "ring_ok cap r" and room: "length (contents cap r) < cap"
  shows "\<exists>ct. ring_push cap x r = (True, r\<lparr>cached_tail := ct, buffer := (buffer r)(unat (r_head r) mod cap := x), r_head := r_head r + 1\<rparr>)
     \<and> unat (cached_tail r) \<le> unat ct \<and> unat ct \<le> unat (r_tail r) \<and> unat (r_head r) < unat ct + cap"
proof -
  note d = ring_okD [OF ok]
  note iff = full_iff [OF d(1), of "cached_tail r" "r_head r"] full_iff [OF d(1,6)]
  have nf: "\<not> r_head r - r_tail r \<ge> of_nat cap" using iff(2) room by simp
  show ?thesis
  proof (cases "r_head r - cached_tail r \<ge> of_nat cap")
    case True
    with nf d room show ?thesis
      by (intro exI [of _ "r_tail r"]) (simp add: ring_push_def Let_def cell_mod [OF d(1)])
  next
    case False
    then have "unat (r_head r) < unat (cached_tail r) + cap" using iff(1) d by linarith
    with False d show ?thesis
      by (intro exI [of _ "cached_tail r"]) (simp add: ring_push_def Let_def cell_mod [OF d(1)])
  qed
qed

lemma contents_push:
  assumes d: "cap_ok cap" "unat (r_tail r) \<le> unat (r_head r)" "unat (r_head r) < unat (r_tail r) + cap" "unat (r_head r) < 2 ^ 64 - 1"
  shows "contents cap (r\<lparr>cached_tail := ct, buffer := (buffer r)(unat (r_head r) mod cap := x), r_head := r_head r + 1\<rparr>) = contents cap r @ [x]"
proof -
  have "((buffer r)(unat (r_head r) mod cap := x)) (i mod cap) = buffer r (i mod cap)"
    if "i \<in> set [unat (r_tail r)..<unat (r_head r)]" for i
    using that mod_window [of i "unat (r_head r)" cap] d by auto
  then have "map (\<lambda>i. ((buffer r)(unat (r_head r) mod cap := x)) (i mod cap)) [unat (r_tail r)..<unat (r_head r)] = contents cap r"
    unfolding contents_def by (intro map_cong refl)
  then show ?thesis
    using d by (simp add: contents_def unat_succ_u64)
qed

lemma ring_pop_empty:
  assumes ok: "ring_ok cap r" and e: "contents cap r = []"
  shows "ring_pop cap r = (None, r\<lparr>cached_head := r_head r\<rparr>)"
proof -
  note d = ring_okD [OF ok]
  have "cached_head r \<le> r_tail r" "r_head r \<le> r_tail r"
    using d e by (auto simp: contents_def word_le_nat_alt)
  then show ?thesis by (simp add: ring_pop_def Let_def)
qed

lemma ring_pop_item:
  assumes ok: "ring_ok cap r" and ne: "contents cap r \<noteq> []"
  shows "\<exists>ch. ring_pop cap r = (Some (buffer r (unat (r_tail r) mod cap)), r\<lparr>cached_head := ch, r_tail := r_tail r + 1\<rparr>)
     \<and> unat (r_tail r) < unat ch \<and> unat ch \<le> unat (r_head r)"
proof -
  note d = ring_okD [OF ok]
  have lt: "unat (r_tail r) < unat (r_head r)" using ne by (auto simp: contents_def)
  show ?thesis
  proof (cases "cached_head r \<le> r_tail r")
    case True
    with lt show ?thesis
      by (intro exI [of _ "r_head r"]) (simp add: ring_pop_def Let_def cell_mod [OF d(1)] word_le_nat_alt)
  next
    case False
    then show ?thesis
      using d by (intro exI [of _ "cached_head r"]) (simp add: ring_pop_def Let_def cell_mod [OF d(1)] word_le_nat_alt)
  qed
qed

lemma contents_pop:
  assumes "unat (r_tail r) < unat (r_head r)"
  shows "contents cap r = buffer r (unat (r_tail r) mod cap) # contents cap (r\<lparr>cached_head := ch, r_tail := r_tail r + 1\<rparr>)"
proof -
  have "unat (r_tail r + 1) = Suc (unat (r_tail r))"
    using assms unsigned_less [of "r_head r", where 'a = nat] by (intro unat_succ_u64) simp
  with assms show ?thesis by (simp add: contents_def upt_conv_Cons)
qed

text \<open>How many items have ever been pushed: the bound under which the indices do not wrap.\<close>

definition pushes_left :: "'a ring \<Rightarrow> nat" where
  "pushes_left r = 2 ^ 64 - 1 - unat (r_head r)"

lemma ring_push_law:
  assumes "ring_ok cap r" "pushes_left r \<noteq> 0"
  shows "\<exists>r'. ring_push cap x r = (length (contents cap r) < cap, r') \<and> ring_ok cap r'
     \<and> contents cap r' = (if length (contents cap r) < cap then contents cap r @ [x] else contents cap r)
     \<and> pushes_left r \<le> Suc (pushes_left r')"
proof (cases "length (contents cap r) < cap")
  case True
  note d = ring_okD [OF assms(1)]
  have lt: "unat (r_head r) < 2 ^ 64 - 1" using assms(2) by (simp add: pushes_left_def)
  from ring_push_room [OF assms(1) True, of x] obtain ct where
    ct: "ring_push cap x r = (True, r\<lparr>cached_tail := ct, buffer := (buffer r)(unat (r_head r) mod cap := x), r_head := r_head r + 1\<rparr>)"
    "unat (cached_tail r) \<le> unat ct" "unat ct \<le> unat (r_tail r)" "unat (r_head r) < unat ct + cap" by blast
  have c: "contents cap (r\<lparr>cached_tail := ct, buffer := (buffer r)(unat (r_head r) mod cap := x), r_head := r_head r + 1\<rparr>) = contents cap r @ [x]"
    using d lt ct(3,4) by (intro contents_push) auto
  show ?thesis
    unfolding ct(1) using True d ct lt c by (auto simp: ring_ok_def pushes_left_def unat_succ_u64 simp del: length_contents)
next
  case False
  then have full: "length (contents cap r) = cap" using contents_bound [OF assms(1)] by simp
  show ?thesis
    using ring_push_full [OF assms(1) full, of x] False ring_okD [OF assms(1)]
    by (auto simp: ring_ok_def pushes_left_def contents_def)
qed

lemma ring_pop_law:
  assumes "ring_ok cap r"
  shows "\<exists>r'. ring_pop cap r = (case contents cap r of [] \<Rightarrow> None | x # _ \<Rightarrow> Some x, r') \<and> ring_ok cap r'
     \<and> contents cap r' = tl (contents cap r) \<and> pushes_left r' = pushes_left r"
proof (cases "contents cap r = []")
  case True
  then show ?thesis
    using ring_pop_empty [OF assms True] ring_okD [OF assms] by (auto simp: ring_ok_def pushes_left_def contents_def)
next
  case False
  then have lt: "unat (r_tail r) < unat (r_head r)" by (auto simp: contents_def)
  have succ: "unat (r_tail r + 1) = Suc (unat (r_tail r))"
    using lt unsigned_less [of "r_head r", where 'a = nat] by (intro unat_succ_u64) simp
  from ring_pop_item [OF assms False] obtain ch where
    ch: "ring_pop cap r = (Some (buffer r (unat (r_tail r) mod cap)), r\<lparr>cached_head := ch, r_tail := r_tail r + 1\<rparr>)"
    "unat (r_tail r) < unat ch" "unat ch \<le> unat (r_head r)" by blast
  show ?thesis
    unfolding ch(1) using contents_pop [OF lt, of cap ch] ch(2,3) ring_okD [OF assms] succ by (auto simp: ring_ok_def pushes_left_def)
qed

lemma ring_new_ok: "cap_ok cap \<Longrightarrow> ring_ok cap (ring_new junk)" "contents cap (ring_new junk) = []"
  "pushes_left (ring_new junk) = 2 ^ 64 - 1"
  by (simp_all add: ring_ok_def ring_new_def contents_def pushes_left_def)

text \<open>Pushing several items without looking at the results, as the engine does with its replies.\<close>

definition push_all :: "nat \<Rightarrow> 'a list \<Rightarrow> 'a ring \<Rightarrow> 'a ring" where
  "push_all cap xs r = fold (\<lambda>x r. snd (ring_push cap x r)) xs r"

lemma push_all_simps [simp]:
  "push_all cap [] r = r" "push_all cap (x # xs) r = push_all cap xs (snd (ring_push cap x r))"
  "push_all cap (xs @ ys) r = push_all cap ys (push_all cap xs r)"
  by (simp_all add: push_all_def)

subsection \<open>The interface\<close>

locale bounded_queue =
  fixes push :: "'a \<Rightarrow> 'q \<Rightarrow> bool \<times> 'q" and pop :: "'q \<Rightarrow> 'a option \<times> 'q"
    and items :: "'q \<Rightarrow> 'a list" and bound :: nat and ok :: "'q \<Rightarrow> bool" and budget :: "'q \<Rightarrow> nat"
  assumes push_law: "ok q \<Longrightarrow> budget q \<noteq> 0 \<Longrightarrow> \<exists>q'. push x q = (length (items q) < bound, q') \<and> ok q'
           \<and> items q' = (if length (items q) < bound then items q @ [x] else items q) \<and> budget q \<le> Suc (budget q')"
    and pop_law: "ok q \<Longrightarrow> \<exists>q'. pop q = (case items q of [] \<Rightarrow> None | x # _ \<Rightarrow> Some x, q') \<and> ok q'
           \<and> items q' = tl (items q) \<and> budget q' = budget q"
    and bound_law: "ok q \<Longrightarrow> length (items q) \<le> bound"
begin

text \<open>Items offered to a queue nobody drains are kept in order until it is full; the rest is dropped.\<close>

lemma offer_all:
  assumes "ok q" "length xs \<le> budget q"
  shows "ok (fold (\<lambda>x q. snd (push x q)) xs q)
     \<and> items (fold (\<lambda>x q. snd (push x q)) xs q) = items q @ take (bound - length (items q)) xs
     \<and> budget q \<le> budget (fold (\<lambda>x q. snd (push x q)) xs q) + length xs"
  using assms
proof (induction xs arbitrary: q)
  case (Cons x xs)
  from Cons.prems push_law [of q x] obtain q' where
    q': "push x q = (length (items q) < bound, q')" "ok q'" "budget q \<le> Suc (budget q')"
      "items q' = (if length (items q) < bound then items q @ [x] else items q)" by auto
  have "items q' @ take (bound - length (items q')) xs = items q @ take (bound - length (items q)) (x # xs)"
    using q'(4) bound_law [OF Cons.prems(1)] by (auto simp: take_Cons' Suc_diff_Suc)
  with Cons.IH [OF q'(2)] q'(1,3) Cons.prems(2) show ?case by auto
qed simp

lemma push_pop_empty:
  assumes "ok q" "budget q \<noteq> 0" "items q = []" "bound \<noteq> 0"
  shows "\<exists>q1 q2. push x q = (True, q1) \<and> pop q1 = (Some x, q2) \<and> items q2 = []"
proof -
  from push_law [OF assms(1,2), of x] assms(3,4) obtain q1 where "push x q = (True, q1)" "ok q1" "items q1 = [x]" by auto
  with pop_law [of q1] show ?thesis by auto
qed

end

interpretation rq: bounded_queue "ring_push cap" "ring_pop cap" "contents cap" cap "ring_ok cap" pushes_left for cap
  by unfold_locales (rule ring_push_law ring_pop_law contents_bound; assumption)+

lemma push_all_law:
  assumes "ring_ok cap r" "length xs \<le> pushes_left r"
  shows "ring_ok cap (push_all cap xs r)" "contents cap (push_all cap xs r) = contents cap r @ take (cap - length (contents cap r)) xs"
    "pushes_left r \<le> pushes_left (push_all cap xs r) + length xs"
  using rq.offer_all [OF assms] unfolding push_all_def by blast+

subsection \<open>Two threads\<close>

text \<open>
  The program counter of the producer in \<open>push\<close> (its local \<open>head\<close>, the item) and of the consumer in
  \<open>pop\<close>. The histories \<open>sent\<close> and \<open>rcvd\<close> are ghost state: the items of completed successful
  pushes and pops.
\<close>

datatype 'a producer = PIdle | PReload 'a u64 | PWrite 'a u64 | PPublish 'a u64

datatype 'a consumer = CIdle | CReload u64 | CRead u64 | CPublish u64 'a

record 'a ring_state =
  shared :: "'a ring"
  producer_pc :: "'a producer"
  consumer_pc :: "'a consumer"
  sent :: "'a list"
  rcvd :: "'a list"

definition ring_init :: "(nat \<Rightarrow> 'a) \<Rightarrow> 'a ring_state" where
  "ring_init junk = \<lparr>shared = ring_new junk, producer_pc = PIdle, consumer_pc = CIdle, sent = [], rcvd = []\<rparr>"

inductive ring_step :: "nat \<Rightarrow> 'a ring_state \<Rightarrow> 'a ring_state \<Rightarrow> bool" for cap where
  p_start: "producer_pc c = PIdle \<Longrightarrow> h = r_head (shared c) \<Longrightarrow>
     ring_step cap c (c\<lparr>producer_pc := if h - cached_tail (shared c) \<ge> of_nat cap then PReload x h else PWrite x h\<rparr>)"
| p_reload: "producer_pc c = PReload x h \<Longrightarrow> t = r_tail (shared c) \<Longrightarrow>
     ring_step cap c (c\<lparr>shared := (shared c)\<lparr>cached_tail := t\<rparr>, producer_pc := if h - t \<ge> of_nat cap then PIdle else PWrite x h\<rparr>)"
| p_write: "producer_pc c = PWrite x h \<Longrightarrow>
     ring_step cap c (c\<lparr>shared := (shared c)\<lparr>buffer := (buffer (shared c))(cell cap h := x)\<rparr>, producer_pc := PPublish x h\<rparr>)"
| p_publish: "producer_pc c = PPublish x h \<Longrightarrow>
     ring_step cap c (c\<lparr>shared := (shared c)\<lparr>r_head := h + 1\<rparr>, producer_pc := PIdle, sent := sent c @ [x]\<rparr>)"
| c_start: "consumer_pc c = CIdle \<Longrightarrow> t = r_tail (shared c) \<Longrightarrow>
     ring_step cap c (c\<lparr>consumer_pc := if cached_head (shared c) \<le> t then CReload t else CRead t\<rparr>)"
| c_reload: "consumer_pc c = CReload t \<Longrightarrow> h = r_head (shared c) \<Longrightarrow>
     ring_step cap c (c\<lparr>shared := (shared c)\<lparr>cached_head := h\<rparr>, consumer_pc := if h \<le> t then CIdle else CRead t\<rparr>)"
| c_read: "consumer_pc c = CRead t \<Longrightarrow>
     ring_step cap c (c\<lparr>consumer_pc := CPublish t (buffer (shared c) (cell cap t))\<rparr>)"
| c_publish: "consumer_pc c = CPublish t y \<Longrightarrow>
     ring_step cap c (c\<lparr>shared := (shared c)\<lparr>r_tail := t + 1\<rparr>, consumer_pc := CIdle, rcvd := rcvd c @ [y]\<rparr>)"

inductive ring_reach :: "nat \<Rightarrow> (nat \<Rightarrow> 'a) \<Rightarrow> 'a ring_state \<Rightarrow> bool" for cap junk where
  init: "ring_reach cap junk (ring_init junk)"
| step: "ring_reach cap junk c \<Longrightarrow> ring_step cap c c' \<Longrightarrow> ring_reach cap junk c'"

fun prod_ok :: "nat \<Rightarrow> 'a ring \<Rightarrow> 'a producer \<Rightarrow> bool" where
  "prod_ok cap r PIdle \<longleftrightarrow> True"
| "prod_ok cap r (PReload x h) \<longleftrightarrow> h = r_head r"
| "prod_ok cap r (PWrite x h) \<longleftrightarrow> h = r_head r \<and> unat h < unat (cached_tail r) + cap"
| "prod_ok cap r (PPublish x h) \<longleftrightarrow> h = r_head r \<and> unat h < unat (cached_tail r) + cap \<and> buffer r (unat h mod cap) = x"

fun cons_ok :: "nat \<Rightarrow> 'a ring \<Rightarrow> 'a consumer \<Rightarrow> bool" where
  "cons_ok cap r CIdle \<longleftrightarrow> True"
| "cons_ok cap r (CReload t) \<longleftrightarrow> t = r_tail r"
| "cons_ok cap r (CRead t) \<longleftrightarrow> t = r_tail r \<and> unat t < unat (cached_head r)"
| "cons_ok cap r (CPublish t y) \<longleftrightarrow> t = r_tail r \<and> unat t < unat (cached_head r) \<and> buffer r (unat t mod cap) = y"

definition ring_inv :: "nat \<Rightarrow> 'a ring_state \<Rightarrow> bool" where
  "ring_inv cap c \<longleftrightarrow> ring_ok cap (shared c) \<and> unat (r_head (shared c)) = length (sent c) \<and> unat (r_tail (shared c)) = length (rcvd c)
     \<and> sent c = rcvd c @ contents cap (shared c) \<and> prod_ok cap (shared c) (producer_pc c) \<and> cons_ok cap (shared c) (consumer_pc c)"

lemma ring_invD:
  assumes "ring_inv cap c"
  shows "ring_ok cap (shared c)" "unat (r_head (shared c)) = length (sent c)" "unat (r_tail (shared c)) = length (rcvd c)"
    "sent c = rcvd c @ contents cap (shared c)" "prod_ok cap (shared c) (producer_pc c)" "cons_ok cap (shared c) (consumer_pc c)"
  using assms unfolding ring_inv_def by blast+

lemma ring_invI:
  assumes "ring_ok cap r" "unat (r_head r) = length s" "unat (r_tail r) = length v"
    "s = v @ contents cap r" "prod_ok cap r p" "cons_ok cap r q"
  shows "ring_inv cap \<lparr>shared = r, producer_pc = p, consumer_pc = q, sent = s, rcvd = v\<rparr>"
  unfolding ring_inv_def ring_state.simps using assms by blast

lemma contents_cong:
  "r_head r' = r_head r \<Longrightarrow> r_tail r' = r_tail r \<Longrightarrow>
   (\<And>i. unat (r_tail r) \<le> i \<Longrightarrow> i < unat (r_head r) \<Longrightarrow> buffer r' (i mod cap) = buffer r (i mod cap)) \<Longrightarrow>
   contents cap r' = contents cap r"
  by (simp add: contents_def)

lemma inv_p_write:
  assumes ok: "ring_ok cap r" and p: "prod_ok cap r (PWrite x h)" and q: "cons_ok cap r q"
  defines "r' \<equiv> r\<lparr>buffer := (buffer r)(cell cap h := x)\<rparr>"
  shows "ring_ok cap r'" "contents cap r' = contents cap r" "prod_ok cap r' (PPublish x h)" "cons_ok cap r' q"
proof -
  note d = ring_okD [OF ok]
  have h: "h = r_head r" "unat (r_head r) < unat (r_tail r) + cap" using p d(2) by auto
  have other: "buffer r' (i mod cap) = buffer r (i mod cap)" if "unat (r_tail r) \<le> i" "i < unat (r_head r)" for i
    using mod_window [of i "unat (r_head r)" cap] that h by (auto simp: r'_def cell_mod [OF d(1)])
  show "ring_ok cap r'" using ok by (simp add: r'_def ring_ok_def)
  show "contents cap r' = contents cap r" using other by (intro contents_cong) (simp_all add: r'_def)
  show "prod_ok cap r' (PPublish x h)" using p h by (simp add: r'_def cell_mod [OF d(1)])
  show "cons_ok cap r' q"
    using q other [of "unat (r_tail r)"] d(4) by (cases q) (auto simp: r'_def)
qed

lemma inv_p_publish:
  assumes ok: "ring_ok cap r" and p: "prod_ok cap r (PPublish x h)" and q: "cons_ok cap r q" and lt: "unat (r_head r) < 2 ^ 64 - 1"
  defines "r' \<equiv> r\<lparr>r_head := h + 1\<rparr>"
  shows "ring_ok cap r'" "contents cap r' = contents cap r @ [x]" "cons_ok cap r' q" "unat (r_head r') = Suc (unat (r_head r))"
proof -
  note d = ring_okD [OF ok]
  have h: "h = r_head r" "unat (r_head r) < unat (cached_tail r) + cap" "buffer r (unat (r_head r) mod cap) = x" using p by auto
  show s: "unat (r_head r') = Suc (unat (r_head r))" using unat_succ_u64 [OF lt] h(1) by (simp add: r'_def)
  then show "ring_ok cap r'" using ok h(2) by (simp add: r'_def ring_ok_def)
  show "contents cap r' = contents cap r @ [x]" using s d(6) h(1,3) by (simp add: r'_def contents_def)
  show "cons_ok cap r' q" using q by (cases q) (auto simp: r'_def)
qed

lemma inv_c_publish:
  assumes ok: "ring_ok cap r" and p: "prod_ok cap r p" and q: "cons_ok cap r (CPublish t y)"
  defines "r' \<equiv> r\<lparr>r_tail := t + 1\<rparr>"
  shows "ring_ok cap r'" "contents cap r = y # contents cap r'" "prod_ok cap r' p" "unat (r_tail r') = Suc (unat (r_tail r))"
proof -
  note d = ring_okD [OF ok]
  have t: "t = r_tail r" "unat (r_tail r) < unat (cached_head r)" "buffer r (unat (r_tail r) mod cap) = y" using q by auto
  have "unat (r_tail r) < 2 ^ 64 - 1" using t(2) unsigned_less [of "cached_head r", where 'a = nat] by simp
  then show s: "unat (r_tail r') = Suc (unat (r_tail r))" using unat_succ_u64 t(1) by (simp add: r'_def)
  then show "ring_ok cap r'" using ok t(2) by (simp add: r'_def ring_ok_def)
  show "contents cap r = y # contents cap r'" using s d(4) t by (simp add: r'_def contents_def upt_conv_Cons)
  show "prod_ok cap r' p" using p by (cases p) (auto simp: r'_def)
qed

lemma ring_step_inv:
  assumes "ring_step cap c c'" "ring_inv cap c" "length (sent c') < 2 ^ 64"
  shows "ring_inv cap c'"
  using assms
proof (cases rule: ring_step.cases)
  case (p_start h x)
  note i = ring_invD [OF assms(2)] and d = ring_okD [OF i(1)]
  have "\<not> of_nat cap \<le> r_head (shared c) - cached_tail (shared c) \<Longrightarrow> unat (r_head (shared c)) < unat (cached_tail (shared c)) + cap"
    using full_iff [OF d(1), of "cached_tail (shared c)" "r_head (shared c)"] d(2-6) by linarith
  with i p_start show ?thesis by (cases c) (auto intro!: ring_invI simp del: length_contents)
next
  case (p_reload x h t)
  note i = ring_invD [OF assms(2)] and d = ring_okD [OF i(1)]
  let ?r = "(shared c)\<lparr>cached_tail := t\<rparr>"
  have h: "h = r_head (shared c)" using i(5) p_reload(2) by simp
  have "ring_ok cap ?r" using d p_reload(3) by (simp add: ring_ok_def)
  moreover have "contents cap ?r = contents cap (shared c)" by (simp add: contents_def)
  moreover have "\<not> of_nat cap \<le> h - t \<Longrightarrow> unat (r_head (shared c)) < unat t + cap"
    using full_iff [OF d(1,6)] d(6) p_reload(3) h by auto
  moreover have "cons_ok cap ?r (consumer_pc c)" using i(6) by (cases "consumer_pc c") auto
  ultimately show ?thesis using i p_reload(1) h by (cases c) (auto intro!: ring_invI simp del: length_contents)
next
  case (p_write x h)
  note i = ring_invD [OF assms(2)]
  from inv_p_write [OF i(1) i(5) [unfolded p_write(2)] i(6)] i(2-4) show ?thesis
    unfolding p_write(1) by (cases c) (auto intro!: ring_invI simp del: length_contents)
next
  case (p_publish x h)
  note i = ring_invD [OF assms(2)]
  have "unat (r_head (shared c)) < 2 ^ 64 - 1" using assms(3) p_publish(1) i(2) by simp
  from inv_p_publish [OF i(1) i(5) [unfolded p_publish(2)] i(6) this] i(2-4) show ?thesis
    unfolding p_publish(1) by (cases c) (auto intro!: ring_invI simp del: length_contents)
next
  case (c_start t)
  note i = ring_invD [OF assms(2)]
  with c_start show ?thesis by (cases c) (auto intro!: ring_invI simp: word_le_nat_alt simp del: length_contents)
next
  case (c_reload t h)
  note i = ring_invD [OF assms(2)] and d = ring_okD [OF i(1)]
  let ?r = "(shared c)\<lparr>cached_head := h\<rparr>"
  have "ring_ok cap ?r" using d c_reload(3) by (simp add: ring_ok_def)
  moreover have "contents cap ?r = contents cap (shared c)" by (simp add: contents_def)
  moreover have "prod_ok cap ?r (producer_pc c)" using i(5) by (cases "producer_pc c") auto
  ultimately show ?thesis using i c_reload by (cases c) (auto intro!: ring_invI simp: word_le_nat_alt simp del: length_contents)
next
  case (c_read t)
  note i = ring_invD [OF assms(2)] and d = ring_okD [OF i(1)]
  with c_read show ?thesis by (cases c) (auto intro!: ring_invI simp: cell_mod [OF d(1)] simp del: length_contents)
next
  case (c_publish t y)
  note i = ring_invD [OF assms(2)]
  from inv_c_publish [OF i(1,5) i(6) [unfolded c_publish(2)]] i(2-4) show ?thesis
    unfolding c_publish(1) by (cases c) (auto intro!: ring_invI simp del: length_contents)
qed

lemma ring_step_sent: "ring_step cap c c' \<Longrightarrow> length (sent c) \<le> length (sent c')"
  by (cases rule: ring_step.cases) auto

lemma ring_reach_inv:
  assumes "cap_ok cap" "ring_reach cap junk c" "length (sent c) < 2 ^ 64"
  shows "ring_inv cap c"
  using assms(2,3)
proof (induction rule: ring_reach.induct)
  case init
  then show ?case
    using ring_new_ok(1) [OF assms(1), of junk] ring_new_ok(2) [of cap junk] unfolding ring_init_def by (intro ring_invI) (simp_all add: ring_new_def)
next
  case (step c c')
  then show ?case using ring_step_inv ring_step_sent by (meson le_less_trans)
qed

subsection \<open>Properties\<close>

text \<open>
  C14. One operation after the other, the ring is a bounded FIFO queue: on a well-formed ring,
  \<open>push\<close> succeeds exactly when fewer than \<open>Capacity\<close> items are inside and then appends, \<open>pop\<close>
  returns the oldest item if there is one and removes it, the cached indices never change the
  outcome, and \<open>size\<close> is the number of items. (The hypothesis on the budget says that fewer than
  \<open>2 ^ 64 - 1\<close> items have ever been pushed.)
\<close>

theorem ring_is_bounded_queue:
  assumes "ring_ok cap r" and "pushes_left r \<noteq> 0"
  shows "fst (ring_push cap x r) = (length (contents cap r) < cap)
     \<and> ring_ok cap (snd (ring_push cap x r))
     \<and> contents cap (snd (ring_push cap x r)) = (if length (contents cap r) < cap then contents cap r @ [x] else contents cap r)
     \<and> fst (ring_pop cap r) = (if contents cap r = [] then None else Some (hd (contents cap r)))
     \<and> ring_ok cap (snd (ring_pop cap r)) \<and> contents cap (snd (ring_pop cap r)) = tl (contents cap r)
     \<and> unat (ring_size r) = length (contents cap r) \<and> (ring_empty r \<longleftrightarrow> contents cap r = [])"
proof -
  have size: "unat (ring_size r) = length (contents cap r)"
    using unat_diff_u64 [OF ring_okD(6) [OF assms(1)]] by (simp add: ring_size_def)
  moreover have "ring_empty r \<longleftrightarrow> contents cap r = []"
    using size unfolding ring_empty_def by (metis length_0_conv unat_eq_zero)
  moreover have "fst (ring_pop cap r) = (if contents cap r = [] then None else Some (hd (contents cap r)))"
    "ring_ok cap (snd (ring_pop cap r))" "contents cap (snd (ring_pop cap r)) = tl (contents cap r)"
    using rq.pop_law [OF assms(1)] by (cases "contents cap r"; auto)+
  ultimately show ?thesis using rq.push_law [OF assms, of x] by auto
qed

theorem ring_is_bounded_queue_witness:
  "ring_ok 4 (ring_new (\<lambda>_. 0::nat)) \<and> pushes_left (ring_new (\<lambda>_. 0::nat)) \<noteq> 0
     \<and> contents 4 (snd (ring_push 4 7 (ring_new (\<lambda>_. 0::nat)))) = [7]"
proof -
  have "cap_ok 4" unfolding cap_ok_def by (rule exI [of _ 2]) simp
  note ok = ring_new_ok(1) [OF this, of "\<lambda>_. 0::nat"]
  have b: "pushes_left (ring_new (\<lambda>_. 0::nat)) \<noteq> 0" by (simp add: ring_new_ok)
  show ?thesis using ring_is_bounded_queue [OF ok b, of 7] ok b by (simp add: ring_new_ok)
qed

text \<open>
  C15. With the producer and the consumer running concurrently, in every interleaving of their loads
  and stores: the items received are a prefix of the items sent, in order, without loss or
  duplication, the rest is in the buffer, and at most \<open>Capacity\<close> items are in flight. When the producer
  is about to write a cell and the consumer about to read one, the cells are different (no data
  race on the payload). A \<open>push\<close> that returns false saw a full ring, a \<open>pop\<close> that returns false
  an empty one.
\<close>

theorem ring_concurrent_fifo:
  assumes "cap_ok cap" and "ring_reach cap junk c" and "length (sent c) < 2 ^ 64"
  shows "sent c = rcvd c @ contents cap (shared c) \<and> length (sent c) \<le> length (rcvd c) + cap
     \<and> (\<forall>x h t. producer_pc c = PWrite x h \<longrightarrow> consumer_pc c = CRead t \<longrightarrow> cell cap h \<noteq> cell cap t)
     \<and> (\<forall>x h. producer_pc c = PReload x h \<longrightarrow> h - r_tail (shared c) \<ge> of_nat cap \<longrightarrow> length (contents cap (shared c)) = cap)
     \<and> (\<forall>t. consumer_pc c = CReload t \<longrightarrow> r_head (shared c) \<le> t \<longrightarrow> contents cap (shared c) = [])"
proof -
  note i = ring_invD [OF ring_reach_inv [OF assms]] and d = ring_okD [OF i(1)]
  have "cell cap h \<noteq> cell cap t" if p: "producer_pc c = PWrite x h" "consumer_pc c = CRead t" for x h t
  proof
    assume eq: "cell cap h = cell cap t"
    from p i(5,6) have "unat t < unat (cached_head (shared c))" "t = r_tail (shared c)" "h = r_head (shared c)"
      "unat h < unat (cached_tail (shared c)) + cap" by auto
    then have "unat t < unat h" "unat h < unat t + cap" using d by auto
    with mod_window [of "unat t" "unat h" cap] eq show False by (simp add: cell_mod [OF d(1)])
  qed
  moreover have "length (contents cap (shared c)) = cap" if "producer_pc c = PReload x h" "h - r_tail (shared c) \<ge> of_nat cap" for x h
    using that i(5) full_iff [OF d(1,6)] d(7) by simp
  moreover have "contents cap (shared c) = []" if "consumer_pc c = CReload t" "r_head (shared c) \<le> t" for t
    using that i(6) by (simp add: contents_def word_le_nat_alt)
  moreover have "length (sent c) \<le> length (rcvd c) + cap" using i(2,3) d(7) by simp
  ultimately show ?thesis using i(4) by blast
qed

theorem ring_concurrent_fifo_witness:
  "\<exists>c. ring_reach 4 (\<lambda>_. 0::nat) c \<and> producer_pc c = PPublish 9 0 \<and> sent c = rcvd c @ contents 4 (shared c)"
proof -
  have cap: "cap_ok 4" unfolding cap_ok_def by (rule exI [of _ 2]) simp
  let ?a = "ring_init (\<lambda>_. 0::nat)"
  let ?b = "?a\<lparr>producer_pc := PWrite 9 0\<rparr>"
  let ?c = "?b\<lparr>shared := (shared ?b)\<lparr>buffer := (buffer (shared ?b))(cell 4 0 := 9)\<rparr>, producer_pc := PPublish 9 0\<rparr>"
  have "ring_step 4 ?a ?b"
    using ring_step.p_start [of ?a 0 4 9] by (simp add: ring_init_def ring_new_def)
  moreover have "ring_step 4 ?b ?c" by (rule ring_step.p_write) simp
  ultimately have r: "ring_reach 4 (\<lambda>_. 0::nat) ?c" by (meson ring_reach.intros)
  have "length (sent ?c) < 2 ^ 64" by (simp add: ring_init_def)
  with ring_concurrent_fifo [OF cap r] r show ?thesis by (intro exI [of _ ?c]) simp
qed

text \<open>A ring that has been used \<open>n\<close> times for one item: every push and pop succeeds, as long as the head index does not wrap.\<close>

definition turn :: "nat \<Rightarrow> 'a \<Rightarrow> 'a ring \<Rightarrow> 'a ring" where
  "turn cap x r = snd (ring_pop cap (snd (ring_push cap x r)))"

lemma turn_step:
  assumes "ring_ok cap r" "contents cap r = []" "unat (r_head r) < 2 ^ 64 - 1"
  shows "fst (ring_push cap x r)" "fst (ring_pop cap (snd (ring_push cap x r))) = Some x"
    "ring_ok cap (turn cap x r)" "contents cap (turn cap x r) = []" "r_head (turn cap x r) = r_head r + 1"
proof -
  have left: "pushes_left r \<noteq> 0" using assms(3) by (simp add: pushes_left_def)
  have pos: "0 < cap" by (rule cap_pos [OF ring_okD(1) [OF assms(1)]])
  have room: "length (contents cap r) < cap" using pos by (simp only: assms(2) list.size)
  from ring_push_law [OF assms(1) left, of x] obtain r1 where
    r1: "ring_push cap x r = (True, r1)" "ring_ok cap r1" "contents cap r1 = [x]" using room by (auto simp: assms(2) simp del: length_contents)
  have h1: "r_head r1 = r_head r + 1" using ring_push_room [OF assms(1) room, of x] r1(1) by auto
  from ring_pop_law [OF r1(2)] r1(3) obtain r2 where r2: "ring_pop cap r1 = (Some x, r2)" "ring_ok cap r2" "contents cap r2 = []" by auto
  have h2: "r_head r2 = r_head r1" using ring_pop_item [OF r1(2)] r1(3) r2(1) by auto
  show "fst (ring_push cap x r)" "fst (ring_pop cap (snd (ring_push cap x r))) = Some x"
    "ring_ok cap (turn cap x r)" "contents cap (turn cap x r) = []" "r_head (turn cap x r) = r_head r + 1"
    using r1(1) r2 h1 h2 by (simp_all add: turn_def)
qed

lemma turns:
  assumes "cap_ok cap" "n \<le> 2 ^ 64 - 1"
  shows "ring_ok cap ((turn cap x ^^ n) (ring_new junk)) \<and> contents cap ((turn cap x ^^ n) (ring_new junk)) = []
     \<and> unat (r_head ((turn cap x ^^ n) (ring_new junk))) = n"
  using assms(2)
proof (induction n)
  case 0
  show ?case using ring_new_ok(1) [OF assms(1), of junk] by (simp add: ring_new_def contents_def)
next
  case (Suc n)
  let ?r = "(turn cap x ^^ n) (ring_new junk)"
  from Suc have r: "ring_ok cap ?r" "contents cap ?r = []" "unat (r_head ?r) = n" "unat (r_head ?r) < 2 ^ 64 - 1" by simp_all
  from turn_step [OF r(1,2,4), of x] unat_succ_u64 [OF r(4)] r(3) show ?case by simp
qed

lemma pop_behind: "r_head r \<le> r_tail r \<Longrightarrow> cached_head r \<le> r_tail r \<Longrightarrow> ring_pop cap r = (None, r\<lparr>cached_head := r_head r\<rparr>)"
  by (simp add: ring_pop_def Let_def)

text \<open>
  C16. The comparison in \<open>pop\<close> is not wrap-safe, unlike the subtraction in \<open>push\<close>. A new ring of any capacity serves \<open>2 ^ 64 - 1\<close> rounds of one push and one pop, all of which
  succeed. The push after them succeeds too and \<open>size\<close> is 1, but the head index has wrapped and is behind the tail: from then on every \<open>pop\<close>, however often it is
  tried, reports the ring empty, and the item is never delivered.
\<close>

theorem ring_pop_wrap_stuck:
  assumes "cap_ok cap"
  shows "(\<forall>n<2 ^ 64 - 1. let r = (turn cap x ^^ n) (ring_new junk)
            in fst (ring_push cap x r) \<and> fst (ring_pop cap (snd (ring_push cap x r))) = Some x)
     \<and> (let r = snd (ring_push cap x ((turn cap x ^^ (2 ^ 64 - 1)) (ring_new junk)))
         in fst (ring_push cap x ((turn cap x ^^ (2 ^ 64 - 1)) (ring_new junk))) \<and> ring_size r = 1
          \<and> (\<forall>k. fst (ring_pop cap (((snd \<circ> ring_pop cap) ^^ k) r)) = None))"
proof -
  have "let r = (turn cap x ^^ n) (ring_new junk) in fst (ring_push cap x r) \<and> fst (ring_pop cap (snd (ring_push cap x r))) = Some x"
    if "n < 2 ^ 64 - 1" for n
    using turns [OF assms, of n x junk] turn_step(1,2) [of cap "(turn cap x ^^ n) (ring_new junk)" x] that by (simp add: Let_def)
  moreover define s where "s = (turn cap x ^^ (2 ^ 64 - 1)) (ring_new junk)"
  have s: "ring_ok cap s" "contents cap s = []" "unat (r_head s) = 2 ^ 64 - 1" using turns [OF assms, of "2 ^ 64 - 1" x junk] by (simp_all only: s_def)
  note d = ring_okD [OF s(1)]
  have "0 < cap" by (rule cap_pos [OF assms])
  then have room: "length (contents cap s) < cap" by (simp only: s(2) list.size)
  from s(2) d(6) have "unat (r_tail s) = unat (r_head s)" by (auto simp: contents_def)
  then have ht: "r_tail s = r_head s" by (simp add: word_unat_eq_iff)
  have h: "r_head s = - 1"
  proof -
    have "r_head s = of_nat (unat (r_head s))" by simp
    then show ?thesis unfolding s(3) by simp
  qed
  from ring_push_room [OF s(1) room, of x] obtain ct where
    p: "ring_push cap x s = (True, s\<lparr>cached_tail := ct, buffer := (buffer s)(unat (r_head s) mod cap := x), r_head := r_head s + 1\<rparr>)" by blast
  let ?r = "s\<lparr>cached_tail := ct, buffer := (buffer s)(unat (r_head s) mod cap := x), r_head := r_head s + 1\<rparr>"
  have ends: "r_head ?r = 0" "r_tail ?r = - 1" using ht h by simp_all
  have stuck: "r_head (((snd \<circ> ring_pop cap) ^^ k) ?r) = 0 \<and> r_tail (((snd \<circ> ring_pop cap) ^^ k) ?r) = - 1" for k
    by (induction k) (use ends in \<open>auto simp: pop_behind word_order.extremum\<close>)
  then have "fst (ring_pop cap (((snd \<circ> ring_pop cap) ^^ k) ?r)) = None" for k
    by (simp add: pop_behind word_order.extremum)
  moreover have "ring_size ?r = 1" using ends by (simp add: ring_size_def)
  ultimately show ?thesis using p by (simp add: Let_def s_def)
qed

theorem ring_pop_wrap_stuck_witness:
  "cap_ok 4 \<and> fst (ring_pop 4 (snd (ring_push 4 (5::nat) ((turn 4 5 ^^ (2 ^ 64 - 1)) (ring_new (\<lambda>_. 0)))))) = None"
proof -
  have cap: "cap_ok 4" unfolding cap_ok_def by (rule exI [of _ 2]) simp
  from ring_pop_wrap_stuck [OF cap, of 5 "\<lambda>_. 0"]
  have "\<forall>k. fst (ring_pop 4 (((snd \<circ> ring_pop 4) ^^ k) (snd (ring_push 4 (5::nat) ((turn 4 5 ^^ (2 ^ 64 - 1)) (ring_new (\<lambda>_. 0))))))) = None"
    unfolding Let_def by blast
  from spec [OF this, of 0] have "fst (ring_pop 4 (snd (ring_push 4 (5::nat) ((turn 4 5 ^^ (2 ^ 64 - 1)) (ring_new (\<lambda>_. 0)))))) = None" by (simp only: funpow_0)
  with cap show ?thesis by blast
qed

end
