(* ===== verification/Sbe_Messages.thy ===== *)
theory Sbe_Messages
  imports Order_Types
begin

section \<open>Messages and their wire format\<close>

text \<open>
  Models \<^verbatim>\<open>src/src/codec/sbe_messages.h\<close>: the two internal message structs and the packed
  32-byte \<open>WireMessage\<close>, with its memory layout on a little-endian host (both supported targets,
  x86-64 and AArch64, are), since the gateway copies the struct to and from the byte stream with
  \<open>memcpy\<close> and \<open>send\<close>. The casts between the enumerations of \<^verbatim>\<open>src/src/core/types.h\<close> and the
  bytes of the wire are functions; bytes that are no enumerator become the \<open>raw\<close> constructors.
\<close>

subsection \<open>The structs\<close>

record InboundMessage =
  in_type :: MessageType
  in_side :: Side
  in_order_type :: OrderType
  in_client_id :: ClientId
  in_order_id :: OrderId
  in_price :: Price
  in_quantity :: Quantity
  in_recv_tsc :: Timestamp

record OutboundMessage =
  out_type :: MessageType
  out_aggressor_side :: Side
  out_reject_reason :: u8
  out_client_id :: ClientId
  out_order_id :: OrderId
  out_price :: Price
  out_quantity :: Quantity
  out_match_number :: OrderId
  out_engine_tsc :: Timestamp

record WireMessage =
  w_type :: u8
  w_side :: u8
  w_order_type :: u8
  w_pad :: u8
  w_client_id :: u32
  w_order_id :: u64
  w_price :: u32
  w_quantity :: u32
  w_timestamp :: u64

definition WIRE_MSG_SIZE :: nat where [const_defs]: "WIRE_MSG_SIZE = 32"

subsection \<open>Enumerations and bytes\<close>

definition side_of_u8 :: "u8 \<Rightarrow> Side" where
  "side_of_u8 w = (if w = 0 then Buy else if w = 1 then Sell else Side_raw w)"

definition order_type_of_u8 :: "u8 \<Rightarrow> OrderType" where
  "order_type_of_u8 w = (if w = 0 then Limit else if w = 1 then Market else OrderType_raw w)"

definition msg_type_of_u8 :: "u8 \<Rightarrow> MessageType" where
  "msg_type_of_u8 w = (if w = 1 then NewOrder else if w = 2 then CancelOrder else if w = 3 then ModifyOrder
     else if w = 10 then OrderAccepted else if w = 11 then OrderCanceled else if w = 12 then OrderExecuted
     else if w = 13 then OrderRejected else MessageType_raw w)"

fun u8_of_side :: "Side \<Rightarrow> u8" where
  "u8_of_side Buy = 0"
| "u8_of_side Sell = 1"
| "u8_of_side (Side_raw w) = w"

fun u8_of_order_type :: "OrderType \<Rightarrow> u8" where
  "u8_of_order_type Limit = 0"
| "u8_of_order_type Market = 1"
| "u8_of_order_type (OrderType_raw w) = w"

fun u8_of_msg_type :: "MessageType \<Rightarrow> u8" where
  "u8_of_msg_type NewOrder = 1"
| "u8_of_msg_type CancelOrder = 2"
| "u8_of_msg_type ModifyOrder = 3"
| "u8_of_msg_type OrderAccepted = 10"
| "u8_of_msg_type OrderCanceled = 11"
| "u8_of_msg_type OrderExecuted = 12"
| "u8_of_msg_type OrderRejected = 13"
| "u8_of_msg_type (MessageType_raw w) = w"

lemma u8_enum_roundtrip [simp]:
  "u8_of_side (side_of_u8 w) = w" "u8_of_order_type (order_type_of_u8 w) = w" "u8_of_msg_type (msg_type_of_u8 w) = w"
  by (simp_all add: side_of_u8_def order_type_of_u8_def msg_type_of_u8_def)

lemma enum_u8_roundtrip [simp]:
  "side_of_u8 0 = Buy" "side_of_u8 1 = Sell" "order_type_of_u8 0 = Limit" "order_type_of_u8 1 = Market"
  "msg_type_of_u8 (u8_of_msg_type m) = (case m of MessageType_raw w \<Rightarrow> msg_type_of_u8 w | _ \<Rightarrow> m)"
  by (simp_all add: side_of_u8_def order_type_of_u8_def msg_type_of_u8_def split: MessageType.splits)

subsection \<open>Little-endian layout\<close>

definition le_bytes :: "nat \<Rightarrow> 'a::len word \<Rightarrow> u8 list" where
  "le_bytes n w = map (\<lambda>i. ucast (drop_bit (8 * i) w)) [0..<n]"

primrec le_word :: "u8 list \<Rightarrow> 'a::len word" where
  "le_word [] = 0"
| "le_word (b # bs) = ucast b OR push_bit 8 (le_word bs)"

lemma length_le_bytes [simp]: "length (le_bytes n w) = n"
  by (simp add: le_bytes_def)

lemma bit_le_word:
  "k < LENGTH('a) \<Longrightarrow> bit (le_word bs :: 'a::len word) k \<longleftrightarrow> k div 8 < length bs \<and> bit (bs ! (k div 8)) (k mod 8)"
proof (induction bs arbitrary: k)
  case (Cons b bs)
  show ?case
  proof (cases "k < 8")
    case True
    with Cons.prems show ?thesis by (simp add: bit_or_iff bit_push_bit_iff bit_ucast_iff)
  next
    case False
    then have "k = 8 + (k - 8)" "k div 8 = Suc ((k - 8) div 8)" "k mod 8 = (k - 8) mod 8" by (simp_all add: div_if mod_if)
    moreover have "\<not> bit b k" using False bit_imp_le_length [of b k] by auto
    ultimately show ?thesis
      using Cons.IH [of "k - 8"] Cons.prems False by (simp add: bit_or_iff bit_push_bit_iff bit_ucast_iff)
  qed
qed simp

lemma le_word_bytes:
  assumes "8 * n = LENGTH('a)" shows "le_word (le_bytes n w) = (w :: 'a::len word)"
proof (rule bit_word_eqI)
  fix k assume k: "k < LENGTH('a)"
  then have "k div 8 < n" using assms by (simp add: less_mult_imp_div_less)
  then show "bit (le_word (le_bytes n w) :: 'a word) k = bit w k"
    using k by (simp add: bit_le_word) (simp add: le_bytes_def bit_ucast_iff bit_drop_bit_eq)
qed

lemma le_bytes_word:
  assumes "8 * length bs = LENGTH('a)" shows "le_bytes (length bs) (le_word bs :: 'a::len word) = bs"
proof (rule nth_equalityI)
  fix i assume "i < length (le_bytes (length bs) (le_word bs :: 'a word))"
  then have i: "i < length bs" by simp
  show "le_bytes (length bs) (le_word bs :: 'a word) ! i = bs ! i"
  proof (rule bit_word_eqI)
    fix j assume j: "j < LENGTH(8)"
    then have "8 * i + j < LENGTH('a)" using i assms by simp
    then show "bit (le_bytes (length bs) (le_word bs :: 'a word) ! i) j = bit (bs ! i) j"
      using i j by (simp add: le_bytes_def bit_ucast_iff bit_drop_bit_eq bit_le_word)
  qed
qed simp

definition wire_bytes :: "WireMessage \<Rightarrow> u8 list" where
  "wire_bytes w = [w_type w, w_side w, w_order_type w, w_pad w] @ le_bytes 4 (w_client_id w) @ le_bytes 8 (w_order_id w)
     @ le_bytes 4 (w_price w) @ le_bytes 4 (w_quantity w) @ le_bytes 8 (w_timestamp w)"

definition wire_of_bytes :: "u8 list \<Rightarrow> WireMessage" where
  "wire_of_bytes bs =
     \<lparr>w_type = bs ! 0, w_side = bs ! 1, w_order_type = bs ! 2, w_pad = bs ! 3,
      w_client_id = le_word (take 4 (drop 4 bs)), w_order_id = le_word (take 8 (drop 8 bs)),
      w_price = le_word (take 4 (drop 16 bs)), w_quantity = le_word (take 4 (drop 20 bs)),
      w_timestamp = le_word (take 8 (drop 24 bs))\<rparr>"

lemma length_wire_bytes [simp]: "length (wire_bytes w) = WIRE_MSG_SIZE"
  by (simp add: wire_bytes_def WIRE_MSG_SIZE_def)

lemma wire_of_bytes_bytes [simp]: "wire_of_bytes (wire_bytes w) = w"
  by (simp add: wire_of_bytes_def wire_bytes_def le_word_bytes)

lemma le_bytes_take_drop:
  assumes "length bs = 32" "8 * n = LENGTH('a)" "k + n \<le> 32"
  shows "le_bytes n (le_word (take n (drop k bs)) :: 'a::len word) = take n (drop k bs)"
  using le_bytes_word [where 'a = 'a, of "take n (drop k bs)"] assms by simp

lemma wire_bytes_of_bytes:
  assumes "length bs = WIRE_MSG_SIZE" shows "wire_bytes (wire_of_bytes bs) = bs"
proof -
  have len: "length bs = 32" using assms by (simp add: WIRE_MSG_SIZE_def)
  have head: "[bs ! 0, bs ! 1, bs ! 2, bs ! 3] = take 4 bs"
    using len by (intro nth_equalityI) (auto simp: less_Suc_eq numeral_eq_Suc)
  have "wire_bytes (wire_of_bytes bs) = take 4 bs @ take 4 (drop 4 bs) @ take 8 (drop 8 bs) @ take 4 (drop 16 bs)
      @ take 4 (drop 20 bs) @ take 8 (drop 24 bs)"
    unfolding head [symmetric] using le_bytes_take_drop [where 'a = 64, OF len, of 8 24]
    by (simp add: wire_bytes_def wire_of_bytes_def le_bytes_take_drop len)
  also have "\<dots> = bs"
  proof -
    have step: "take n (drop k bs) @ drop (k + n) bs = drop k bs" for n k
      by (metis append_take_drop_id drop_drop add.commute)
    show ?thesis using step [of 4 0] step [of 4 4] step [of 8 8] step [of 4 16] step [of 4 20] len by simp
  qed
  finally show ?thesis .
qed

subsection \<open>Property\<close>

text \<open>
  C17. The wire format is unambiguous: laying out a message gives exactly 32 bytes from which the
  same message is read back, every 32-byte frame is the layout of exactly one message, and casting
  a byte to an enumeration and back loses nothing, whatever its value.
\<close>

theorem wire_roundtrip:
  assumes "length bs = WIRE_MSG_SIZE"
  shows "wire_of_bytes (wire_bytes w) = w \<and> length (wire_bytes w) = 32 \<and> wire_bytes (wire_of_bytes bs) = bs
     \<and> u8_of_side (side_of_u8 v) = v \<and> u8_of_order_type (order_type_of_u8 v) = v \<and> u8_of_msg_type (msg_type_of_u8 v) = v"
  using wire_bytes_of_bytes [OF assms] by (simp add: WIRE_MSG_SIZE_def)

theorem wire_roundtrip_witness:
  "length (replicate 32 (7::u8)) = WIRE_MSG_SIZE \<and> wire_bytes (wire_of_bytes (replicate 32 7)) = replicate 32 7"
  using wire_roundtrip [of "replicate 32 7"] by (simp add: WIRE_MSG_SIZE_def)

end
