(* ===== verification/Matching_Engine.thy ===== *)
theory Matching_Engine
  imports Book_Properties Spsc_Ring Sbe_Messages
begin

section \<open>The matching engine\<close>

text \<open>
  Models \<^verbatim>\<open>src/src/core/matching_engine.h\<close> and \<^verbatim>\<open>src/src/core/matching_engine.cpp\<close>: the engine
  takes requests from the inbound ring, applies them to the book and pushes its replies into the
  outbound ring, ignoring whether the push succeeded. The value of \<open>rdtsc()\<close> is an argument
  (\<open>tsc\<close>); in \<open>run\<close> the list of its values has one element per iteration for which the flag
  \<open>running\<close> was read as true.

  The abstract engine \<open>spec_process\<close> works on the priority lists and yields the list of replies.
\<close>

subsection \<open>The class\<close>

record MatchingEngine =
  book :: OrderBook
  inbound :: "InboundMessage ring"
  outbound :: "OutboundMessage ring"
  next_id :: OrderId
  match_number :: u64

definition engine_new :: "InboundMessage ring \<Rightarrow> OutboundMessage ring \<Rightarrow> MatchingEngine" where
  "engine_new i o' = \<lparr>book = book_new MAX_ORDERS, inbound = i, outbound = o', next_id = 1, match_number = 1\<rparr>"

definition blank_out :: OutboundMessage where
  "blank_out = \<lparr>out_type = MessageType_raw 0, out_aggressor_side = Buy, out_reject_reason = 0, out_client_id = 0,
     out_order_id = 0, out_price = 0, out_quantity = 0, out_match_number = 0, out_engine_tsc = 0\<rparr>"

definition push_out :: "OutboundMessage \<Rightarrow> MatchingEngine \<Rightarrow> MatchingEngine" where
  "push_out m e = e\<lparr>outbound := snd (ring_push RING_SIZE m (outbound e))\<rparr>"

definition emit_accept :: "ClientId \<Rightarrow> OrderId \<Rightarrow> Timestamp \<Rightarrow> MatchingEngine \<Rightarrow> MatchingEngine" where
  "emit_accept c i tsc = push_out (blank_out\<lparr>out_type := OrderAccepted, out_client_id := c, out_order_id := i, out_engine_tsc := tsc\<rparr>)"

definition emit_reject :: "ClientId \<Rightarrow> OrderId \<Rightarrow> u8 \<Rightarrow> Timestamp \<Rightarrow> MatchingEngine \<Rightarrow> MatchingEngine" where
  "emit_reject c i reason tsc = push_out (blank_out\<lparr>out_type := OrderRejected, out_client_id := c, out_order_id := i,
     out_reject_reason := reason, out_engine_tsc := tsc\<rparr>)"

definition emit_cancel :: "ClientId \<Rightarrow> OrderId \<Rightarrow> Timestamp \<Rightarrow> MatchingEngine \<Rightarrow> MatchingEngine" where
  "emit_cancel c i tsc = push_out (blank_out\<lparr>out_type := OrderCanceled, out_client_id := c, out_order_id := i, out_engine_tsc := tsc\<rparr>)"

text \<open>One iteration of the loop of \<open>emit_fills\<close>, then the loop.\<close>

definition emit_fill :: "Timestamp \<Rightarrow> Fill \<Rightarrow> MatchingEngine \<Rightarrow> MatchingEngine" where
  "emit_fill tsc f e =
     (let m = blank_out\<lparr>out_type := OrderExecuted, out_price := f_price f, out_quantity := f_quantity f,
                out_match_number := match_number e, out_engine_tsc := tsc\<rparr>;
          e1 = e\<lparr>match_number := match_number e + 1\<rparr>;
          e2 = push_out (m\<lparr>out_order_id := f_bid_id f, out_client_id := f_bid_client f\<rparr>) e1
      in push_out (m\<lparr>out_order_id := f_ask_id f, out_client_id := f_ask_client f\<rparr>) e2)"

definition emit_fills :: "Timestamp \<Rightarrow> MatchingEngine \<Rightarrow> MatchingEngine" where
  "emit_fills tsc e = fold (emit_fill tsc) (fills (book e)) e"

definition process :: "Timestamp \<Rightarrow> InboundMessage \<Rightarrow> MatchingEngine \<Rightarrow> MatchingEngine option" where
  "process tsc msg e =
     (case in_type msg of
        NewOrder \<Rightarrow> do {
          let i = next_id e;
          let e1 = e\<lparr>next_id := next_id e + 1, book := clear_fills (book e)\<rparr>;
          (ok, b) \<leftarrow> add_order i (in_client_id msg) (in_side msg) (in_order_type msg) (in_price msg) (in_quantity msg)
                       (in_recv_tsc msg) (book e1);
          let e2 = e1\<lparr>book := b\<rparr>;
          Some (if ok then emit_fills tsc (emit_accept (in_client_id msg) i tsc e2)
                else emit_reject (in_client_id msg) i 1 tsc e2)
        }
      | CancelOrder \<Rightarrow> do {
          (ok, b) \<leftarrow> cancel_order (in_order_id msg) (book e);
          let e1 = e\<lparr>book := b\<rparr>;
          Some (if ok then emit_cancel (in_client_id msg) (in_order_id msg) tsc e1
                else emit_reject (in_client_id msg) (in_order_id msg) 2 tsc e1)
        }
      | ModifyOrder \<Rightarrow> do {
          let e1 = e\<lparr>book := clear_fills (book e)\<rparr>;
          (ok, b) \<leftarrow> modify_order (in_order_id msg) (in_price msg) (in_quantity msg) (in_recv_tsc msg) (book e1);
          let e2 = e1\<lparr>book := b\<rparr>;
          Some (if ok then emit_fills tsc (emit_accept (in_client_id msg) (in_order_id msg) tsc e2)
                else emit_reject (in_client_id msg) (in_order_id msg) 3 tsc e2)
        }
      | _ \<Rightarrow> Some e)"

definition run_once :: "Timestamp \<Rightarrow> MatchingEngine \<Rightarrow> MatchingEngine option" where
  "run_once tsc e = (case ring_pop RING_SIZE (inbound e) of
       (None, r) \<Rightarrow> Some (e\<lparr>inbound := r\<rparr>)
     | (Some msg, r) \<Rightarrow> process tsc msg (e\<lparr>inbound := r\<rparr>))"

primrec run :: "Timestamp list \<Rightarrow> MatchingEngine \<Rightarrow> MatchingEngine option" where
  "run [] e = Some e"
| "run (tsc # ts) e = do { e' \<leftarrow> run_once tsc e; run ts e' }"

subsection \<open>The abstract engine\<close>

definition accept_msg :: "ClientId \<Rightarrow> OrderId \<Rightarrow> Timestamp \<Rightarrow> OutboundMessage" where
  "accept_msg c i tsc = blank_out\<lparr>out_type := OrderAccepted, out_client_id := c, out_order_id := i, out_engine_tsc := tsc\<rparr>"

definition reject_msg :: "ClientId \<Rightarrow> OrderId \<Rightarrow> u8 \<Rightarrow> Timestamp \<Rightarrow> OutboundMessage" where
  "reject_msg c i reason tsc = blank_out\<lparr>out_type := OrderRejected, out_client_id := c, out_order_id := i,
     out_reject_reason := reason, out_engine_tsc := tsc\<rparr>"

definition cancel_msg :: "ClientId \<Rightarrow> OrderId \<Rightarrow> Timestamp \<Rightarrow> OutboundMessage" where
  "cancel_msg c i tsc = blank_out\<lparr>out_type := OrderCanceled, out_client_id := c, out_order_id := i, out_engine_tsc := tsc\<rparr>"

definition exec_pair :: "Timestamp \<Rightarrow> u64 \<Rightarrow> Fill \<Rightarrow> OutboundMessage list" where
  "exec_pair tsc n f = map (\<lambda>(i, c). blank_out\<lparr>out_type := OrderExecuted, out_price := f_price f, out_quantity := f_quantity f,
       out_match_number := n, out_engine_tsc := tsc, out_order_id := i, out_client_id := c\<rparr>)
     [(f_bid_id f, f_bid_client f), (f_ask_id f, f_ask_client f)]"

fun exec_msgs :: "Timestamp \<Rightarrow> u64 \<Rightarrow> Fill list \<Rightarrow> OutboundMessage list" where
  "exec_msgs tsc n [] = []"
| "exec_msgs tsc n (f # fs) = exec_pair tsc n f @ exec_msgs tsc (n + 1) fs"

record spec_engine =
  se_book :: spec_book
  se_next :: OrderId
  se_match :: u64

definition spec_process :: "nat \<Rightarrow> Timestamp \<Rightarrow> InboundMessage \<Rightarrow> spec_engine \<Rightarrow> spec_engine \<times> OutboundMessage list" where
  "spec_process cap tsc msg S =
     (case in_type msg of
        NewOrder \<Rightarrow>
          (case spec_add cap (se_next S) (in_client_id msg) (in_side msg) (in_order_type msg) (in_price msg) (in_quantity msg)
                  (in_recv_tsc msg) (se_book S) of
             (ok, B, fs) \<Rightarrow> (\<lparr>se_book = B, se_next = se_next S + 1, se_match = se_match S + of_nat (length fs)\<rparr>,
                if ok then accept_msg (in_client_id msg) (se_next S) tsc # exec_msgs tsc (se_match S) fs
                else [reject_msg (in_client_id msg) (se_next S) 1 tsc]))
      | CancelOrder \<Rightarrow>
          (case spec_cancel (in_order_id msg) (se_book S) of
             (ok, B) \<Rightarrow> (S\<lparr>se_book := B\<rparr>,
                if ok then [cancel_msg (in_client_id msg) (in_order_id msg) tsc]
                else [reject_msg (in_client_id msg) (in_order_id msg) 2 tsc]))
      | ModifyOrder \<Rightarrow>
          (case spec_modify cap (in_order_id msg) (in_price msg) (in_quantity msg) (in_recv_tsc msg) (se_book S) of
             (ok, B, fs) \<Rightarrow> (S\<lparr>se_book := B, se_match := se_match S + of_nat (length fs)\<rparr>,
                if ok then accept_msg (in_client_id msg) (in_order_id msg) tsc # exec_msgs tsc (se_match S) fs
                else [reject_msg (in_client_id msg) (in_order_id msg) 3 tsc]))
      | _ \<Rightarrow> (S, []))"

primrec spec_run :: "nat \<Rightarrow> (Timestamp \<times> InboundMessage) list \<Rightarrow> spec_engine \<Rightarrow> spec_engine \<times> OutboundMessage list" where
  "spec_run cap [] S = (S, [])"
| "spec_run cap (x # xs) S =
     (case spec_process cap (fst x) (snd x) S of (S1, ms) \<Rightarrow> case spec_run cap xs S1 of (S2, ns) \<Rightarrow> (S2, ms @ ns))"

subsection \<open>Emitting replies\<close>

lemma push_out_simps [simp]:
  "book (push_out m e) = book e" "inbound (push_out m e) = inbound e" "next_id (push_out m e) = next_id e"
  "match_number (push_out m e) = match_number e" "outbound (push_out m e) = snd (ring_push RING_SIZE m (outbound e))"
  by (simp_all add: push_out_def)

text \<open>What a sequence of pushes of the replies \<open>ms\<close> does to the engine.\<close>

definition emitted :: "OutboundMessage list \<Rightarrow> nat \<Rightarrow> MatchingEngine \<Rightarrow> MatchingEngine" where
  "emitted ms n e = e\<lparr>outbound := push_all RING_SIZE ms (outbound e), match_number := match_number e + of_nat n\<rparr>"

lemma emit_single:
  "emit_accept c i tsc e = emitted [accept_msg c i tsc] 0 e"
  "emit_reject c i r tsc e = emitted [reject_msg c i r tsc] 0 e"
  "emit_cancel c i tsc e = emitted [cancel_msg c i tsc] 0 e"
  by (simp_all add: emit_accept_def emit_reject_def emit_cancel_def accept_msg_def reject_msg_def cancel_msg_def emitted_def push_out_def)

lemma emitted_append: "emitted ms k (emitted ns j e) = emitted (ns @ ms) (j + k) e"
  by (simp add: emitted_def add.assoc)

lemma emit_fill_emitted: "emit_fill tsc f e = emitted (exec_pair tsc (match_number e) f) 1 e"
  by (simp add: emit_fill_def emitted_def exec_pair_def push_out_def Let_def)

lemma fold_emit_fill: "fold (emit_fill tsc) fs e = emitted (exec_msgs tsc (match_number e) fs) (length fs) e"
proof (induction fs arbitrary: e)
  case Nil
  then show ?case by (simp add: emitted_def)
next
  case (Cons f fs)
  have "match_number (emit_fill tsc f e) = match_number e + 1" by (simp add: emit_fill_emitted emitted_def)
  with Cons show ?case by (simp add: emit_fill_emitted emitted_append)
qed

lemma emit_fills_emitted: "emit_fills tsc e = emitted (exec_msgs tsc (match_number e) (fills (book e))) (length (fills (book e))) e"
  by (simp add: emit_fills_def fold_emit_fill)

lemma emitted_simps [simp]:
  "book (emitted ms n e) = book e" "inbound (emitted ms n e) = inbound e" "next_id (emitted ms n e) = next_id e"
  "match_number (emitted ms n e) = match_number e + of_nat n" "outbound (emitted ms n e) = push_all RING_SIZE ms (outbound e)"
  by (simp_all add: emitted_def)

subsection \<open>Identifiers\<close>

definition spec_ids :: "spec_book \<Rightarrow> OrderId set" where
  "spec_ids B = (\<Union>s. o_id ` set (B s))"

lemma match_q_ids: "match_q sd go a rs = (a', rs', fs) \<Longrightarrow> o_id ` set rs' \<subseteq> o_id ` set rs"
  by (induction rs arbitrary: a a' rs' fs) (auto simp: Let_def split: if_splits prod.splits, blast+)

lemma set_insert_prio [simp]: "set (insert_prio s x xs) = insert x (set xs)"
proof -
  have "set xs = set (takeWhile P xs) \<union> set (dropWhile P xs)" for P
    by (metis set_append takeWhile_dropWhile_id)
  then show ?thesis unfolding insert_prio_def by auto
qed

lemma spec_add_ids:
  assumes "spec_add cap i c sd ty p q ts B = (r, B', fs)"
  shows "spec_ids B' \<subseteq> insert i (spec_ids B)"
proof (cases r)
  case True
  let ?s = "half_of sd"
  obtain a where m: "match_q (canon_side sd) (accepts ty (other ?s) p) (mk_order i c sd ty p q ts) (B (other ?s)) = (a, B' (other ?s), fs)"
    "B' ?s = (if \<not> is_filled a \<and> ty = Limit then insert_prio ?s a (B ?s) else B ?s)"
    using assms True by (auto elim: spec_add_accepted)
  have "o_id a = i" using match_q_payload [OF m(1)] by simp
  with m(2) have own: "o_id ` set (B' ?s) \<subseteq> insert i (spec_ids B)" by (auto simp: spec_ids_def)
  have "o_id ` set (B' (other ?s)) \<subseteq> spec_ids B" using match_q_ids [OF m(1)] by (auto simp: spec_ids_def)
  then have each: "o_id ` set (B' s') \<subseteq> insert i (spec_ids B)" for s'
    using own by (cases "s' = ?s"; cases s'; cases ?s) auto
  have "spec_ids B' = (\<Union>s'. o_id ` set (B' s'))" by (simp add: spec_ids_def)
  with each show ?thesis by blast
next
  case False
  with spec_add_rejected [of cap i c sd ty p q ts B B' fs] assms show ?thesis by auto
qed

lemma spec_cancel_ids: "spec_cancel i B = (r, B') \<Longrightarrow> spec_ids B' \<subseteq> spec_ids B"
  by (auto simp: spec_cancel_def spec_ids_def)

lemma spec_modify_ids:
  assumes "spec_modify cap i p q ts B = (r, B', fs)" shows "spec_ids B' \<subseteq> spec_ids B"
proof (cases "find (\<lambda>x. o_id x = i) (B Bids @ B Asks)")
  case None
  with assms show ?thesis by (simp add: spec_modify_def)
next
  case (Some x)
  then obtain k where "k < length (B Bids @ B Asks)" "o_id ((B Bids @ B Asks) ! k) = i" "x = (B Bids @ B Asks) ! k"
    by (auto simp: find_Some_iff)
  then have "x \<in> set (B Bids @ B Asks)" "o_id x = i" using nth_mem by blast+
  then have i: "i \<in> spec_ids B" by (auto simp: spec_ids_def intro!: rev_image_eqI)
  have "spec_ids B' \<subseteq> insert i (spec_ids (snd (spec_cancel i B)))"
    using assms Some spec_add_ids by (simp add: spec_modify_def)
  with spec_cancel_ids [of i B] i show ?thesis by (metis insert_absorb insert_mono order_trans prod.collapse)
qed

lemma slot_mod: "slot i = unat i mod MAX_ORDERS"
proof -
  have "i AND ORDER_MASK = take_bit 20 i"
    by (simp add: take_bit_eq_mask mask_eq_exp_minus_1 ORDER_MASK_def)
  then have "slot i = take_bit 20 (unat i)" by (simp only: slot_def unsigned_take_bit_eq)
  then show ?thesis by (simp add: take_bit_eq_mod MAX_ORDERS_def)
qed

lemma fresh_small:
  assumes "unat i < MAX_ORDERS" "\<And>j. j \<in> spec_ids (abs_book b) \<Longrightarrow> unat j < unat i"
  shows "fresh i b"
proof -
  have "slot j \<noteq> slot i" if "j \<in> spec_ids (abs_book b)" for j
    using assms(1) assms(2) [OF that] by (simp add: slot_mod)
  then show ?thesis by (auto simp: fresh_def spec_ids_def)
qed

subsection \<open>Refinement\<close>

definition engine_ok :: "MatchingEngine \<Rightarrow> bool" where
  "engine_ok e \<longleftrightarrow> book_ok (book e) \<and> tracked (book e) \<and> capacity (pool (book e)) = MAX_ORDERS
     \<and> (\<forall>j\<in>spec_ids (abs_book (book e)). unat j < unat (next_id e)) \<and> unat (next_id e) \<le> MAX_ORDERS
     \<and> ring_ok RING_SIZE (inbound e) \<and> ring_ok RING_SIZE (outbound e)"

definition engine_abs :: "MatchingEngine \<Rightarrow> spec_engine" where
  "engine_abs e = \<lparr>se_book = abs_book (book e), se_next = next_id e, se_match = match_number e\<rparr>"

lemma engine_ok_emitted:
  assumes "engine_ok e" "length ms \<le> pushes_left (outbound e)"
  shows "engine_ok (emitted ms n e)"
    "contents RING_SIZE (outbound (emitted ms n e)) =
       contents RING_SIZE (outbound e) @ take (RING_SIZE - length (contents RING_SIZE (outbound e))) ms"
    "pushes_left (outbound e) \<le> pushes_left (outbound (emitted ms n e)) + length ms"
  using assms push_all_law [of RING_SIZE "outbound e" ms] by (simp_all add: engine_ok_def)

text \<open>What one call of \<open>process\<close> does before it emits: the new book and the replies.\<close>

definition steps_as :: "Timestamp \<Rightarrow> InboundMessage \<Rightarrow> MatchingEngine \<Rightarrow> bool" where
  "steps_as tsc msg e \<longleftrightarrow> (\<exists>b i n ms. process tsc msg e = Some (emitted ms n (e\<lparr>book := b, next_id := i\<rparr>))
     \<and> engine_ok (e\<lparr>book := b, next_id := i\<rparr>)
     \<and> spec_process MAX_ORDERS tsc msg (engine_abs e) =
         (\<lparr>se_book = abs_book b, se_next = i, se_match = match_number e + of_nat n\<rparr>, ms))"

lemma engine_okD:
  assumes "engine_ok e"
  shows "book_ok (book e)" "tracked (book e)" "capacity (pool (book e)) = MAX_ORDERS"
    "ring_ok RING_SIZE (inbound e)" "ring_ok RING_SIZE (outbound e)"
    "\<And>j. j \<in> spec_ids (abs_book (book e)) \<Longrightarrow> unat j < unat (next_id e)"
  using assms by (auto simp: engine_ok_def)

lemma process_new:
  assumes ok: "engine_ok e" and id: "unat (next_id e) < MAX_ORDERS" and new: "in_type msg = NewOrder"
  shows "steps_as tsc msg e"
proof -
  note bk = engine_okD(1-3) [OF ok] and rings = engine_okD(4,5) [OF ok] and ids = engine_okD(6) [OF ok]
  note law = ob.add_law [of "clear_fills (book e)" "next_id e" "in_client_id msg" "in_side msg" "in_order_type msg" "in_price msg"
      "in_quantity msg" "in_recv_tsc msg"]
  have "fresh (next_id e) (book e)" using fresh_small [OF id] ids by blast
  with law bk obtain r b fs where
    b: "add_order (next_id e) (in_client_id msg) (in_side msg) (in_order_type msg) (in_price msg) (in_quantity msg)
         (in_recv_tsc msg) (clear_fills (book e)) = Some (r, b)" "book_ok b" "capacity (pool b) = MAX_ORDERS" "tracked b"
      "spec_add MAX_ORDERS (next_id e) (in_client_id msg) (in_side msg) (in_order_type msg) (in_price msg) (in_quantity msg)
         (in_recv_tsc msg) (abs_book (book e)) = (r, abs_book b, fs)" "fills b = fs" by auto
  have succ: "unat (next_id e + 1) = Suc (unat (next_id e))"
    using id by (intro unat_succ_u64) (simp add: MAX_ORDERS_def)
  have eok: "engine_ok (e\<lparr>book := b, next_id := next_id e + 1\<rparr>)"
    using b bk id rings spec_add_ids [OF b(5)] ids by (auto simp: engine_ok_def succ less_Suc_eq dest!: subsetD)
  let ?ms = "if r then accept_msg (in_client_id msg) (next_id e) tsc # exec_msgs tsc (match_number e) fs
     else [reject_msg (in_client_id msg) (next_id e) 1 tsc]"
  have "process tsc msg e = Some (emitted ?ms (if r then length fs else 0) (e\<lparr>book := b, next_id := next_id e + 1\<rparr>))"
    using new b(1,6) by (simp add: process_def Let_def emit_single emit_fills_emitted emitted_append)
  moreover have "fs = []" if "\<not> r" using spec_add_rejected [of MAX_ORDERS] b(5) that by auto
  ultimately show ?thesis unfolding steps_as_def using eok b(5) new
    by (intro exI [of _ b] exI [of _ "next_id e + 1"] exI [of _ "if r then length fs else 0"] exI [of _ ?ms])
      (auto simp: spec_process_def engine_abs_def)
qed

lemma process_cancel:
  assumes ok: "engine_ok e" and cancel: "in_type msg = CancelOrder"
  shows "steps_as tsc msg e"
proof -
  note bk = engine_okD(1-3) [OF ok]
  from ob.cancel_law [OF bk(1,2), of "in_order_id msg"] bk(3) obtain r b where
    b: "cancel_order (in_order_id msg) (book e) = Some (r, b)" "book_ok b" "tracked b" "capacity (pool b) = MAX_ORDERS"
      "spec_cancel (in_order_id msg) (abs_book (book e)) = (r, abs_book b)" by auto
  have eok: "engine_ok (e\<lparr>book := b, next_id := next_id e\<rparr>)"
    using b ok spec_cancel_ids [OF b(5)] by (auto simp: engine_ok_def)
  let ?ms = "if r then [cancel_msg (in_client_id msg) (in_order_id msg) tsc] else [reject_msg (in_client_id msg) (in_order_id msg) 2 tsc]"
  have "process tsc msg e = Some (emitted ?ms 0 (e\<lparr>book := b, next_id := next_id e\<rparr>))"
    using cancel b(1) by (simp add: process_def Let_def emit_single)
  then show ?thesis unfolding steps_as_def using eok b(5) cancel
    by (intro exI [of _ b] exI [of _ "next_id e"] exI [of _ 0] exI [of _ ?ms]) (simp add: spec_process_def engine_abs_def)
qed

lemma process_modify:
  assumes ok: "engine_ok e" and modify: "in_type msg = ModifyOrder"
  shows "steps_as tsc msg e"
proof -
  note bk = engine_okD(1-3) [OF ok]
  from modify_order_spec [of "clear_fills (book e)" "in_order_id msg" "in_price msg" "in_quantity msg" "in_recv_tsc msg"] bk obtain r b fs where
    b: "modify_order (in_order_id msg) (in_price msg) (in_quantity msg) (in_recv_tsc msg) (clear_fills (book e)) = Some (r, b)"
      "book_ok b" "tracked b" "capacity (pool b) = MAX_ORDERS" "fills b = fs"
      "spec_modify MAX_ORDERS (in_order_id msg) (in_price msg) (in_quantity msg) (in_recv_tsc msg) (abs_book (book e)) = (r, abs_book b, fs)"
    by auto
  have eok: "engine_ok (e\<lparr>book := b, next_id := next_id e\<rparr>)"
    using b ok spec_modify_ids [OF b(6)] by (auto simp: engine_ok_def)
  let ?ms = "if r then accept_msg (in_client_id msg) (in_order_id msg) tsc # exec_msgs tsc (match_number e) fs
     else [reject_msg (in_client_id msg) (in_order_id msg) 3 tsc]"
  have "process tsc msg e = Some (emitted ?ms (if r then length fs else 0) (e\<lparr>book := b, next_id := next_id e\<rparr>))"
    using modify b(1,5) by (simp add: process_def Let_def emit_single emit_fills_emitted emitted_append)
  moreover have "fs = []" if "\<not> r"
    using b(6) that spec_add_rejected by (auto simp: spec_modify_def split: option.splits)
  ultimately show ?thesis unfolding steps_as_def using eok b(6) modify
    by (intro exI [of _ b] exI [of _ "next_id e"] exI [of _ "if r then length fs else 0"] exI [of _ ?ms])
      (auto simp: spec_process_def engine_abs_def)
qed

lemma process_other: "engine_ok e \<Longrightarrow> in_type msg \<notin> {NewOrder, CancelOrder, ModifyOrder} \<Longrightarrow> steps_as tsc msg e"
  unfolding steps_as_def
  by (intro exI [of _ "book e"] exI [of _ "next_id e"] exI [of _ 0] exI [of _ "[]"])
    (cases "in_type msg"; simp add: process_def spec_process_def emitted_def engine_abs_def)

lemma process_step:
  assumes "engine_ok e" and "unat (next_id e) < MAX_ORDERS"
  shows "\<exists>b i n ms. process tsc msg e = Some (emitted ms n (e\<lparr>book := b, next_id := i\<rparr>))
     \<and> engine_ok (e\<lparr>book := b, next_id := i\<rparr>)
     \<and> spec_process MAX_ORDERS tsc msg (engine_abs e) =
         (\<lparr>se_book = abs_book b, se_next = i, se_match = match_number e + of_nat n\<rparr>, ms)"
  using process_new [OF assms] process_cancel [OF assms(1)] process_modify [OF assms(1)] process_other [OF assms(1)]
  unfolding steps_as_def by blast

lemma spec_process_next:
  "spec_process cap tsc msg S = (S', ms) \<Longrightarrow> se_next S' = se_next S \<or> se_next S' = se_next S + 1"
  by (auto simp: spec_process_def split: MessageType.splits prod.splits)

lemma process_spec:
  assumes "engine_ok e" "unat (next_id e) < MAX_ORDERS"
    and "spec_process MAX_ORDERS tsc msg (engine_abs e) = (S, ms)" "length ms \<le> pushes_left (outbound e)"
  shows "\<exists>e'. process tsc msg e = Some e' \<and> engine_ok e' \<and> engine_abs e' = S \<and> inbound e' = inbound e
     \<and> contents RING_SIZE (outbound e') = contents RING_SIZE (outbound e) @ take (RING_SIZE - length (contents RING_SIZE (outbound e))) ms
     \<and> pushes_left (outbound e) \<le> pushes_left (outbound e') + length ms"
proof -
  from process_step [OF assms(1,2), of tsc msg] assms(3) obtain b i n where
    p: "process tsc msg e = Some (emitted ms n (e\<lparr>book := b, next_id := i\<rparr>))" "engine_ok (e\<lparr>book := b, next_id := i\<rparr>)"
      "S = \<lparr>se_book = abs_book b, se_next = i, se_match = match_number e + of_nat n\<rparr>" by auto
  from engine_ok_emitted [OF p(2), of ms n] assms(4) p show ?thesis
    by (intro exI [of _ "emitted ms n (e\<lparr>book := b, next_id := i\<rparr>)"]) (simp add: engine_abs_def)
qed

text \<open>
  C18. The engine answers every request correctly. As long as fewer than \<open>2 ^ 20\<close> order identifiers
  have been handed out, \<open>process\<close> returns, keeps the engine well-formed (in particular every
  resting order can still be found by its identifier) and acts as the abstract engine: a new order
  gets the next identifier and is accepted with two execution reports per fill, numbered
  consecutively, or rejected with reason 1; a cancel or modify of an unknown order is rejected with
  reason 2 or 3; other message types are ignored. The replies are appended to the outbound ring in
  order, except that those for which the ring has no room are dropped silently.
\<close>

theorem process_refines:
  assumes "engine_ok e" and "unat (next_id e) < MAX_ORDERS"
    and "spec_process MAX_ORDERS tsc msg (engine_abs e) = (S, ms)" and "length ms \<le> pushes_left (outbound e)"
  shows "\<exists>e'. process tsc msg e = Some e' \<and> engine_ok e' \<and> engine_abs e' = S \<and> inbound e' = inbound e
     \<and> contents RING_SIZE (outbound e') = contents RING_SIZE (outbound e) @ take (RING_SIZE - length (contents RING_SIZE (outbound e))) ms"
  using process_spec [OF assms] by blast

lemma cap_ok_RING_SIZE: "cap_ok RING_SIZE"
  unfolding cap_ok_def RING_SIZE_def by (rule exI [of _ 18]) simp

lemma engine_new_ok:
  assumes "ring_ok RING_SIZE i" "ring_ok RING_SIZE o'"
  shows "engine_ok (engine_new i o')" "engine_abs (engine_new i o') = \<lparr>se_book = (\<lambda>_. []), se_next = 1, se_match = 1\<rparr>"
  using assms book_new_book_ok [of MAX_ORDERS] book_new_tracked [of MAX_ORDERS] abs_book_new [of MAX_ORDERS]
  by (simp_all add: engine_ok_def engine_new_def engine_abs_def spec_ids_def MAX_ORDERS_def)

definition sample_msg :: "MessageType \<Rightarrow> Side \<Rightarrow> InboundMessage" where
  "sample_msg t sd = \<lparr>in_type = t, in_side = sd, in_order_type = Limit, in_client_id = 7, in_order_id = 5, in_price = 100,
     in_quantity = 4, in_recv_tsc = 0\<rparr>"

theorem process_refines_witness:
  "\<exists>e e'. engine_ok e \<and> process 3 (sample_msg NewOrder Sell) e = Some e'
     \<and> contents RING_SIZE (outbound e') = [accept_msg 7 1 3] \<and> next_id e' = 2
     \<and> abs_book (book e') Asks = [mk_order 1 7 Sell Limit 100 4 0]"
proof -
  let ?e = "engine_new (ring_new (\<lambda>_. undefined)) (ring_new (\<lambda>_. undefined))"
  note e = engine_new_ok [OF ring_new_ok(1) [OF cap_ok_RING_SIZE, of "\<lambda>_. undefined"] ring_new_ok(1) [OF cap_ok_RING_SIZE, of "\<lambda>_. undefined"]]
  have out: "outbound ?e = ring_new (\<lambda>_. undefined)" "next_id ?e = 1" by (simp_all add: engine_new_def)
  have sp: "spec_process MAX_ORDERS 3 (sample_msg NewOrder Sell) (engine_abs ?e) =
      (\<lparr>se_book = (\<lambda>_. [])(Asks := [mk_order 1 7 Sell Limit 100 4 0]), se_next = 2, se_match = 1\<rparr>, [accept_msg 7 1 3])"
    using spec_add_empty [of 4 100 MAX_ORDERS 1 7 Sell 0]
    by (simp add: e spec_process_def sample_msg_def const_defs half_of_def)
  from process_refines [OF e(1) _ sp] out obtain e' where
    "process 3 (sample_msg NewOrder Sell) ?e = Some e'"
    "engine_abs e' = \<lparr>se_book = (\<lambda>_. [])(Asks := [mk_order 1 7 Sell Limit 100 4 0]), se_next = 2, se_match = 1\<rparr>"
    "contents RING_SIZE (outbound e') = [accept_msg 7 1 3]"
    by (auto simp: ring_new_ok MAX_ORDERS_def RING_SIZE_def)
  with e(1) show ?thesis by (intro exI [of _ ?e] exI [of _ e']) (auto simp: engine_abs_def)
qed

text \<open>
  C19. Whatever the requests were and however many, \<open>process\<close> returns and the engine's book stays one
  that the public operations can reach, hence safe: no message a client can send (unknown types,
  raw side and type bytes, any price or identifier) makes the engine fail.
\<close>

theorem process_total:
  assumes "reachable (book e)"
  shows "\<exists>e'. process tsc msg e = Some e' \<and> reachable (book e')"
proof -
  note ok = reachable_ok [OF assms] and cl = reachable.clear [OF assms]
  have okc: "book_ok (clear_fills (book e))" using ok by simp
  obtain r b where a: "add_order (next_id e) (in_client_id msg) (in_side msg) (in_order_type msg) (in_price msg) (in_quantity msg)
      (in_recv_tsc msg) (clear_fills (book e)) = Some (r, b)" using ob.add_law [OF okc] by blast
  obtain r' b' where c: "cancel_order (in_order_id msg) (book e) = Some (r', b')" using cancel_order_ok [OF ok] by blast
  obtain r'' b'' where m: "modify_order (in_order_id msg) (in_price msg) (in_quantity msg) (in_recv_tsc msg) (clear_fills (book e)) = Some (r'', b'')"
    using modify_order_ok [OF okc] by blast
  show ?thesis
    using assms a c m reachable.add [OF cl a] reachable.cancel [OF assms c] reachable.modify [OF cl m]
    by (cases "in_type msg") (simp_all add: process_def Let_def emit_single emit_fills_emitted)
qed

theorem process_total_witness:
  "\<exists>e. reachable (book e) \<and> (\<exists>e'. process 0 (sample_msg (MessageType_raw 99) (Side_raw 5)) e = Some e' \<and> reachable (book e'))"
proof -
  let ?e = "engine_new (ring_new (\<lambda>_. undefined)) (ring_new (\<lambda>_. undefined))"
  have r: "reachable (book ?e)" unfolding engine_new_def by (simp add: reachable.new MAX_ORDERS_def)
  from process_total [OF r] r show ?thesis by blast
qed

subsection \<open>The engine loop\<close>

lemma run_once_item:
  assumes ok: "engine_ok e" and x: "contents RING_SIZE (inbound e) = msg # rest"
  shows "\<exists>r. run_once tsc e = process tsc msg (e\<lparr>inbound := r\<rparr>) \<and> engine_ok (e\<lparr>inbound := r\<rparr>)
     \<and> contents RING_SIZE r = rest"
proof -
  have "ring_ok RING_SIZE (inbound e)" using ok by (simp add: engine_ok_def)
  from rq.pop_law [OF this] x obtain r where
    r: "ring_pop RING_SIZE (inbound e) = (Some msg, r)" "ring_ok RING_SIZE r" "contents RING_SIZE r = rest" by auto
  with ok show ?thesis by (auto simp: run_once_def engine_ok_def)
qed

lemma take_two_rooms:
  assumes "length xs \<le> n" "zs = xs @ take (n - length xs) ms"
  shows "zs @ take (n - length zs) ns = xs @ take (n - length xs) (ms @ ns)"
  using assms by (auto simp: min_def)

lemma run_spec:
  assumes "engine_ok e" "length ts = length (contents RING_SIZE (inbound e))"
    and "unat (next_id e) + length ts \<le> MAX_ORDERS"
    and "spec_run MAX_ORDERS (zip ts (contents RING_SIZE (inbound e))) (engine_abs e) = (S, ms)"
    and "length ms \<le> pushes_left (outbound e)"
  shows "\<exists>e'. run ts e = Some e' \<and> engine_ok e' \<and> engine_abs e' = S \<and> contents RING_SIZE (inbound e') = []
     \<and> contents RING_SIZE (outbound e') = contents RING_SIZE (outbound e) @ take (RING_SIZE - length (contents RING_SIZE (outbound e))) ms"
  using assms
proof (induction ts arbitrary: e ms)
  case Nil
  then show ?case by (simp del: length_contents)
next
  case (Cons tsc ts)
  from Cons.prems(2) obtain msg rest where x: "contents RING_SIZE (inbound e) = msg # rest" by (cases "contents RING_SIZE (inbound e)") auto
  from run_once_item [OF Cons.prems(1) x, of tsc] obtain r where
    r: "run_once tsc e = process tsc msg (e\<lparr>inbound := r\<rparr>)" "engine_ok (e\<lparr>inbound := r\<rparr>)" "contents RING_SIZE r = rest" by blast
  let ?e1 = "e\<lparr>inbound := r\<rparr>"
  have abs: "engine_abs ?e1 = engine_abs e" by (simp add: engine_abs_def)
  from Cons.prems(4) obtain S1 ms1 ms2 where
    sp: "spec_process MAX_ORDERS tsc msg (engine_abs ?e1) = (S1, ms1)" "spec_run MAX_ORDERS (zip ts rest) S1 = (S, ms2)" "ms = ms1 @ ms2"
    by (auto simp: x abs split: prod.splits)
  have id: "unat (next_id ?e1) < MAX_ORDERS" using Cons.prems(3) by simp
  from process_spec [OF r(2) id sp(1)] Cons.prems(5) sp(3) obtain e2 where
    e2: "process tsc msg ?e1 = Some e2" "engine_ok e2" "engine_abs e2 = S1" "inbound e2 = r"
      "contents RING_SIZE (outbound e2) = contents RING_SIZE (outbound e) @ take (RING_SIZE - length (contents RING_SIZE (outbound e))) ms1"
      "pushes_left (outbound e) \<le> pushes_left (outbound e2) + length ms1" by auto
  have "next_id e2 = next_id e \<or> next_id e2 = next_id e + 1"
    using spec_process_next [OF sp(1)] e2(3) by (auto simp: engine_abs_def)
  moreover have "unat (next_id e + 1) = Suc (unat (next_id e))"
    using id by (intro unat_succ_u64) (simp add: MAX_ORDERS_def)
  ultimately have n: "unat (next_id e2) + length ts \<le> MAX_ORDERS" using Cons.prems(3) by auto
  have l: "length ts = length (contents RING_SIZE (inbound e2))" using Cons.prems(2) x r(3) e2(4) by (simp del: length_contents)
  have s2: "spec_run MAX_ORDERS (zip ts (contents RING_SIZE (inbound e2))) (engine_abs e2) = (S, ms2)" using sp(2) e2(3,4) r(3) by simp
  have room: "length ms2 \<le> pushes_left (outbound e2)" using e2(6) Cons.prems(5) sp(3) by simp
  from Cons.IH [OF e2(2) l n s2 room] obtain e' where
    e': "run ts e2 = Some e'" "engine_ok e'" "engine_abs e' = S" "contents RING_SIZE (inbound e') = []"
      "contents RING_SIZE (outbound e') = contents RING_SIZE (outbound e2) @ take (RING_SIZE - length (contents RING_SIZE (outbound e2))) ms2"
    by blast
  have "length (contents RING_SIZE (outbound e)) \<le> RING_SIZE"
    using Cons.prems(1) by (intro contents_bound) (simp add: engine_ok_def)
  from take_two_rooms [OF this e2(5), of ms2] e' e2(1) r(1) sp(3) show ?case by auto
qed

text \<open>
  C20. The loop of the engine serves the inbound ring first come, first served: run for as many
  iterations as there are requests waiting, it returns with the inbound ring empty, its state is
  that of the abstract engine after exactly these requests in their order, and the outbound ring has
  received their replies in that order, up to its capacity.
\<close>

theorem run_refines:
  assumes "engine_ok e" and "length ts = length (contents RING_SIZE (inbound e))"
    and "unat (next_id e) + length ts \<le> MAX_ORDERS"
    and "spec_run MAX_ORDERS (zip ts (contents RING_SIZE (inbound e))) (engine_abs e) = (S, ms)"
    and "length ms \<le> pushes_left (outbound e)"
  shows "\<exists>e'. run ts e = Some e' \<and> engine_ok e' \<and> engine_abs e' = S \<and> contents RING_SIZE (inbound e') = []
     \<and> contents RING_SIZE (outbound e') = contents RING_SIZE (outbound e) @ take (RING_SIZE - length (contents RING_SIZE (outbound e))) ms"
  by (rule run_spec [OF assms])

theorem run_refines_witness:
  "\<exists>e e'. engine_ok e \<and> contents RING_SIZE (inbound e) = [sample_msg NewOrder Buy, sample_msg CancelOrder Buy]
     \<and> run [3, 4] e = Some e' \<and> contents RING_SIZE (outbound e') = [accept_msg 7 1 3, reject_msg 7 5 2 4]
     \<and> length (abs_book (book e') Bids) = 1"
proof -
  note rn = ring_new_ok(1) [OF cap_ok_RING_SIZE, of "\<lambda>_. undefined"]
  obtain inb where i: "ring_ok RING_SIZE inb" "contents RING_SIZE inb = [sample_msg NewOrder Buy, sample_msg CancelOrder Buy]"
    using push_all_law [OF rn, of "[sample_msg NewOrder Buy, sample_msg CancelOrder Buy]"]
    by (simp add: ring_new_ok RING_SIZE_def del: push_all_simps)
  let ?e = "engine_new inb (ring_new (\<lambda>_. undefined))" and ?x = "mk_order 1 7 Buy Limit 100 4 0"
  note e = engine_new_ok [OF i(1) rn]
  have out: "outbound ?e = ring_new (\<lambda>_. undefined)" "next_id ?e = 1" "inbound ?e = inb" by (simp_all add: engine_new_def)
  have p1: "spec_process MAX_ORDERS 3 (sample_msg NewOrder Buy) (engine_abs ?e) =
      (\<lparr>se_book = (\<lambda>_. [])(Bids := [?x]), se_next = 2, se_match = 1\<rparr>, [accept_msg 7 1 3])"
    using spec_add_empty [of 4 100 MAX_ORDERS 1 7 Buy 0] by (simp add: e spec_process_def sample_msg_def const_defs half_of_def)
  have "spec_cancel 5 ((\<lambda>_. [])(Bids := [?x])) = (False, (\<lambda>_. [])(Bids := [?x]))"
    by (auto simp: spec_cancel_def fun_eq_iff)
  then have p2: "spec_process MAX_ORDERS 4 (sample_msg CancelOrder Buy) \<lparr>se_book = (\<lambda>_. [])(Bids := [?x]), se_next = 2, se_match = 1\<rparr> =
      (\<lparr>se_book = (\<lambda>_. [])(Bids := [?x]), se_next = 2, se_match = 1\<rparr>, [reject_msg 7 5 2 4])"
    by (simp add: spec_process_def sample_msg_def)
  have sp: "spec_run MAX_ORDERS (zip [3, 4] (contents RING_SIZE (inbound ?e))) (engine_abs ?e) =
      (\<lparr>se_book = (\<lambda>_. [])(Bids := [?x]), se_next = 2, se_match = 1\<rparr>, [accept_msg 7 1 3, reject_msg 7 5 2 4])"
    by (simp add: out(3) i(2) p1 p2)
  have len: "length [3::Timestamp, 4] = length (contents RING_SIZE (inbound ?e))" unfolding out(3) i(2) by simp
  from run_refines [OF e(1) len _ sp] out obtain e' where
    "run [3, 4] ?e = Some e'" "engine_abs e' = \<lparr>se_book = (\<lambda>_. [])(Bids := [?x]), se_next = 2, se_match = 1\<rparr>"
    "contents RING_SIZE (outbound e') = [accept_msg 7 1 3, reject_msg 7 5 2 4]"
    by (auto simp: ring_new_ok MAX_ORDERS_def RING_SIZE_def)
  with e(1) i(2) out(3) show ?thesis by (intro exI [of _ ?e] exI [of _ e']) (auto simp: engine_abs_def)
qed

end
