(* ===== verification/Gateway.thy ===== *)
theory Gateway
  imports Spsc_Ring Sbe_Messages "HOL-Library.Multiset"
begin

section \<open>The TCP gateway\<close>

text \<open>
  Models \<^verbatim>\<open>src/src/transport/socket_transport.h\<close> (its Linux branch): the client table, accepting and
  disconnecting, reassembling 32-byte frames from the byte stream of each client, broadcasting the
  replies, and one turn of the event loop.

  The operating system is a parameter: a record of the calls whose results the code looks at
  (\<open>accept\<close>, \<open>recv\<close>, and \<open>rdtsc\<close>), threading an abstract kernel state \<open>'k\<close>. Calls whose results
  the code ignores (\<open>close\<close>, \<open>epoll_ctl\<close>, \<open>send\<close>, \<open>fcntl\<close>, \<open>setsockopt\<close>) are appended to the trace
  \<open>io\<close>. The only thing that is relied on is \<open>recv_fits\<close>: \<open>recv\<close> does not
  return more bytes than it was asked for. When bytes arrive, in which pieces, and whether they ever stop is up to the kernel.
\<close>

subsection \<open>State\<close>

definition MAX_CLIENTS :: nat where [const_defs]: "MAX_CLIENTS = 64"

datatype recv_result = Recv_data "u8 list" | Recv_eof | Recv_again | Recv_error

record 'k os =
  os_accept :: "'k \<Rightarrow> int \<times> 'k"
  os_recv :: "int \<Rightarrow> nat \<Rightarrow> 'k \<Rightarrow> recv_result \<times> 'k"
  os_rdtsc :: "'k \<Rightarrow> Timestamp \<times> 'k"

datatype io_event = Io_close int | Io_epoll_add int | Io_epoll_del int | Io_nonblocking int | Io_nodelay int | Io_send int "u8 list"

record ClientState =
  c_fd :: int
  c_active :: bool
  c_read_buf :: "u8 list"
  c_read_pos :: nat

record Gateway =
  listen_fd :: int
  event_fd :: int
  ready :: bool
  g_inbound :: "InboundMessage ring"
  g_outbound :: "OutboundMessage ring"
  clients :: "ClientState list"
  io :: "io_event list"

definition client_new :: ClientState where
  "client_new = \<lparr>c_fd = -1, c_active = False, c_read_buf = replicate WIRE_MSG_SIZE 0, c_read_pos = 0\<rparr>"

text \<open>
  The constructor, given the results of its system calls in the order it makes them: \<open>socket\<close>,
  \<open>bind\<close>, \<open>listen\<close>, \<open>epoll_create1\<close>, \<open>epoll_ctl\<close>.
\<close>

definition gateway_new ::
  "InboundMessage ring \<Rightarrow> OutboundMessage ring \<Rightarrow> int \<Rightarrow> int \<Rightarrow> int \<Rightarrow> int \<Rightarrow> int \<Rightarrow> Gateway" where
  "gateway_new inb outb sock bind_rc listen_rc ep ctl_rc =
     (let g = \<lparr>listen_fd = -1, event_fd = -1, ready = False, g_inbound = inb, g_outbound = outb,
                clients = replicate MAX_CLIENTS client_new, io = []\<rparr>;
          g1 = g\<lparr>listen_fd := sock\<rparr>
      in if sock < 0 then g1
         else if bind_rc < 0 then g1
         else if listen_rc < 0 then g1
         else let g2 = g1\<lparr>io := io g1 @ [Io_nonblocking sock], event_fd := ep\<rparr>
              in if ep < 0 then g2
                 else let g3 = g2\<lparr>io := io g2 @ [Io_epoll_add sock]\<rparr>
                      in if ctl_rc < 0 then g3 else g3\<lparr>ready := True\<rparr>)"

definition gateway_destroy :: "Gateway \<Rightarrow> Gateway" where
  "gateway_destroy g = g\<lparr>io := io g @ map (\<lambda>c. Io_close (c_fd c)) (filter c_active (clients g))
     @ (if listen_fd g \<ge> 0 then [Io_close (listen_fd g)] else [])
     @ (if event_fd g \<ge> 0 then [Io_close (event_fd g)] else [])\<rparr>"

subsection \<open>Clients\<close>

definition find_slot :: "Gateway \<Rightarrow> nat option" where
  "find_slot g = find (\<lambda>i. \<not> c_active (clients g ! i)) [0..<MAX_CLIENTS]"

definition slot_for_fd :: "int \<Rightarrow> Gateway \<Rightarrow> nat option" where
  "slot_for_fd fd g = find (\<lambda>i. c_active (clients g ! i) \<and> c_fd (clients g ! i) = fd) [0..<MAX_CLIENTS]"

definition upd_client :: "nat \<Rightarrow> (ClientState \<Rightarrow> ClientState) \<Rightarrow> Gateway \<Rightarrow> Gateway" where
  "upd_client i f g = g\<lparr>clients := (clients g)[i := f (clients g ! i)]\<rparr>"

definition accept_client :: "'k os \<Rightarrow> 'k \<Rightarrow> Gateway \<Rightarrow> 'k \<times> Gateway" where
  "accept_client os k g =
     (case os_accept os k of (fd, k') \<Rightarrow>
        (k', if fd < 0 then g
             else case find_slot g of
                    None \<Rightarrow> g\<lparr>io := io g @ [Io_close fd]\<rparr>
                  | Some i \<Rightarrow>
                      (let g1 = g\<lparr>io := io g @ [Io_nonblocking fd, Io_nodelay fd]\<rparr>;
                           g2 = upd_client i (\<lambda>c. c\<lparr>c_fd := fd, c_active := True, c_read_pos := 0\<rparr>) g1
                       in g2\<lparr>io := io g2 @ [Io_epoll_add fd]\<rparr>)))"

definition disconnect :: "nat \<Rightarrow> Gateway \<Rightarrow> Gateway" where
  "disconnect i g =
     (let fd = c_fd (clients g ! i);
          g1 = g\<lparr>io := io g @ [Io_epoll_del fd, Io_close fd]\<rparr>
      in upd_client i (\<lambda>c. c\<lparr>c_fd := -1, c_active := False\<rparr>) g1)"

subsection \<open>Reading frames\<close>

text \<open>Writing received bytes into the buffer; beyond its end there is no result.\<close>

definition buf_write :: "u8 list \<Rightarrow> nat \<Rightarrow> u8 list \<Rightarrow> u8 list option" where
  "buf_write buf pos bs = (if pos + length bs \<le> length buf
     then Some (take pos buf @ bs @ drop (pos + length bs) buf) else None)"

definition to_inbound :: "Timestamp \<Rightarrow> WireMessage \<Rightarrow> InboundMessage" where
  "to_inbound tsc w = \<lparr>in_type = msg_type_of_u8 (w_type w), in_side = side_of_u8 (w_side w),
     in_order_type = order_type_of_u8 (w_order_type w), in_client_id = w_client_id w, in_order_id = w_order_id w,
     in_price = w_price w, in_quantity = w_quantity w, in_recv_tsc = tsc\<rparr>"

partial_function (option) read_loop :: "'k os \<Rightarrow> int \<Rightarrow> nat \<Rightarrow> 'k \<Rightarrow> Gateway \<Rightarrow> ('k \<times> Gateway) option" where
  "read_loop os fd i k g =
     (case os_recv os fd (WIRE_MSG_SIZE - c_read_pos (clients g ! i)) k of
        (Recv_data bs, k1) \<Rightarrow> do {
          buf \<leftarrow> buf_write (c_read_buf (clients g ! i)) (c_read_pos (clients g ! i)) bs;
          let pos = c_read_pos (clients g ! i) + length bs;
          if pos \<ge> WIRE_MSG_SIZE then do {
            let g1 = upd_client i (\<lambda>c. c\<lparr>c_read_buf := buf, c_read_pos := 0\<rparr>) g;
            let (tsc, k2) = os_rdtsc os k1;
            let msg = to_inbound tsc (wire_of_bytes buf);
            read_loop os fd i k2 (g1\<lparr>g_inbound := snd (ring_push RING_SIZE msg (g_inbound g1))\<rparr>)
          } else read_loop os fd i k1 (upd_client i (\<lambda>c. c\<lparr>c_read_buf := buf, c_read_pos := pos\<rparr>) g)
        }
      | (Recv_again, k1) \<Rightarrow> Some (k1, g)
      | (_, k1) \<Rightarrow> Some (k1, disconnect i g))"

definition read_client :: "'k os \<Rightarrow> int \<Rightarrow> 'k \<Rightarrow> Gateway \<Rightarrow> ('k \<times> Gateway) option" where
  "read_client os fd k g = (case slot_for_fd fd g of None \<Rightarrow> Some (k, g) | Some i \<Rightarrow> read_loop os fd i k g)"

subsection \<open>Broadcasting replies\<close>

definition to_wire :: "OutboundMessage \<Rightarrow> WireMessage" where
  "to_wire m = \<lparr>w_type = u8_of_msg_type (out_type m), w_side = 0, w_order_type = 0, w_pad = 0, w_client_id = out_client_id m,
     w_order_id = out_order_id m, w_price = out_price m, w_quantity = out_quantity m, w_timestamp = out_engine_tsc m\<rparr>"

definition broadcast :: "WireMessage \<Rightarrow> Gateway \<Rightarrow> Gateway" where
  "broadcast w g = fold (\<lambda>i g. if c_active (clients g ! i) \<and> c_fd (clients g ! i) \<ge> 0
       then g\<lparr>io := io g @ [Io_send (c_fd (clients g ! i)) (wire_bytes w)]\<rparr> else g) [0..<MAX_CLIENTS] g"

partial_function (option) drain_outbound :: "Gateway \<Rightarrow> Gateway option" where
  "drain_outbound g = (case ring_pop RING_SIZE (g_outbound g) of
       (None, r) \<Rightarrow> Some (g\<lparr>g_outbound := r\<rparr>)
     | (Some m, r) \<Rightarrow> drain_outbound (broadcast (to_wire m) (g\<lparr>g_outbound := r\<rparr>)))"

subsection \<open>The event loop\<close>

text \<open>One turn: the descriptors \<open>epoll_wait\<close> reported, in order, then the replies.\<close>

definition on_event :: "'k os \<Rightarrow> int \<Rightarrow> 'k \<times> Gateway \<Rightarrow> ('k \<times> Gateway) option" where
  "on_event os fd kg = (case kg of (k, g) \<Rightarrow>
     if fd = listen_fd g then Some (accept_client os k g) else read_client os fd k g)"

primrec on_events :: "'k os \<Rightarrow> int list \<Rightarrow> 'k \<times> Gateway \<Rightarrow> ('k \<times> Gateway) option" where
  "on_events os [] kg = Some kg"
| "on_events os (fd # fds) kg = do { kg' \<leftarrow> on_event os fd kg; on_events os fds kg' }"

definition gateway_turn :: "'k os \<Rightarrow> int list \<Rightarrow> 'k \<times> Gateway \<Rightarrow> ('k \<times> Gateway) option" where
  "gateway_turn os fds kg = do {
     (k, g) \<leftarrow> on_events os fds kg;
     g' \<leftarrow> drain_outbound g;
     Some (k, g')
   }"

primrec gateway_run :: "'k os \<Rightarrow> int list list \<Rightarrow> 'k \<times> Gateway \<Rightarrow> ('k \<times> Gateway) option" where
  "gateway_run os [] kg = Some kg"
| "gateway_run os (fds # turns) kg = do { kg' \<leftarrow> gateway_turn os fds kg; gateway_run os turns kg' }"

subsection \<open>Invariant\<close>

definition client_ok :: "ClientState \<Rightarrow> bool" where
  "client_ok c \<longleftrightarrow> length (c_read_buf c) = WIRE_MSG_SIZE \<and> c_read_pos c < WIRE_MSG_SIZE \<and> (c_active c \<longrightarrow> c_fd c \<ge> 0)"

definition active_fds :: "Gateway \<Rightarrow> int list" where
  "active_fds g = map c_fd (filter c_active (clients g))"

definition clients_ok :: "Gateway \<Rightarrow> bool" where
  "clients_ok g \<longleftrightarrow> length (clients g) = MAX_CLIENTS \<and> (\<forall>c\<in>set (clients g). client_ok c)"

definition pending :: "ClientState \<Rightarrow> u8 list" where
  "pending c = take (c_read_pos c) (c_read_buf c)"

lemma clients_okD: "clients_ok g \<Longrightarrow> i < MAX_CLIENTS \<Longrightarrow> client_ok (clients g ! i)"
  by (simp add: clients_ok_def)

lemma upd_client_simps [simp]:
  "g_inbound (upd_client i f g) = g_inbound g" "g_outbound (upd_client i f g) = g_outbound g" "io (upd_client i f g) = io g"
  "listen_fd (upd_client i f g) = listen_fd g" "event_fd (upd_client i f g) = event_fd g" "ready (upd_client i f g) = ready g"
  "clients (upd_client i f g) = (clients g)[i := f (clients g ! i)]"
  by (simp_all add: upd_client_def)

lemma clients_ok_upd:
  assumes "clients_ok g" "i < MAX_CLIENTS" "client_ok (f (clients g ! i))"
  shows "clients_ok (upd_client i f g)"
  using assms by (auto simp: clients_ok_def dest: set_update_subset_insert [THEN subsetD])

lemma slot_for_fd_Some:
  "slot_for_fd fd g = Some i \<longleftrightarrow> i < MAX_CLIENTS \<and> c_active (clients g ! i) \<and> c_fd (clients g ! i) = fd
     \<and> (\<forall>j<i. \<not> (c_active (clients g ! j) \<and> c_fd (clients g ! j) = fd))"
  unfolding slot_for_fd_def by (simp add: find_Some_iff_first)

lemma find_slot_Some:
  "find_slot g = Some i \<longleftrightarrow> i < MAX_CLIENTS \<and> \<not> c_active (clients g ! i) \<and> (\<forall>j<i. c_active (clients g ! j))"
  unfolding find_slot_def by (simp add: find_Some_iff_first)

subsection \<open>Reassembly\<close>

text \<open>The stream cut into frames, and what is left over.\<close>

function frames :: "u8 list \<Rightarrow> u8 list list" where
  "frames bs = (if length bs \<ge> WIRE_MSG_SIZE then take WIRE_MSG_SIZE bs # frames (drop WIRE_MSG_SIZE bs) else [])"
  by pat_completeness auto
termination by (relation "measure length") (auto simp: WIRE_MSG_SIZE_def)

declare frames.simps [simp del]

definition leftover :: "u8 list \<Rightarrow> u8 list" where
  "leftover bs = drop (WIRE_MSG_SIZE * length (frames bs)) bs"

lemma frames_short: "length bs < WIRE_MSG_SIZE \<Longrightarrow> frames bs = [] \<and> leftover bs = bs"
  by (simp add: frames.simps leftover_def)

lemma frames_cons:
  assumes "length f = WIRE_MSG_SIZE" shows "frames (f @ bs) = f # frames bs" "leftover (f @ bs) = leftover bs"
  using assms by (simp_all add: frames.simps [of "f @ bs"] leftover_def)

lemma frames_length: "f \<in> set (frames bs) \<Longrightarrow> length f = WIRE_MSG_SIZE"
proof (induction bs rule: frames.induct)
  case (1 bs)
  then show ?case by (subst (asm) (2) frames.simps) (auto split: if_splits)
qed

lemma concat_frames: "concat (frames bs) @ leftover bs = bs"
proof (induction bs rule: frames.induct)
  case (1 bs)
  show ?case
  proof (cases "WIRE_MSG_SIZE \<le> length bs")
    case True
    then have "length (take WIRE_MSG_SIZE bs) = WIRE_MSG_SIZE" by simp
    from frames_cons [OF this, of "drop WIRE_MSG_SIZE bs"] 1 [OF True] show ?thesis by simp
  next
    case False
    then show ?thesis using frames_short [of bs] by simp
  qed
qed

text \<open>What the reassembly relies on: \<open>recv\<close> never returns more bytes than were asked for. When bytes arrive, and in which pieces, is up to the kernel.\<close>

definition recv_fits :: "'k os \<Rightarrow> bool" where
  "recv_fits os \<longleftrightarrow> (\<forall>fd n k bs k'. n > 0 \<longrightarrow> os_recv os fd n k = (Recv_data bs, k') \<longrightarrow> length bs \<le> n)"

text \<open>
  The results \<open>rs\<close> of consecutive \<open>recv\<close> calls on \<open>fd\<close>, each for what is missing of the current frame, up to the first that is not data; \<open>ts\<close> are
  the times at which a frame was complete. \<open>pours\<close>: the next \<open>m\<close> calls all deliver data.
\<close>

inductive receives :: "'k os \<Rightarrow> int \<Rightarrow> nat \<Rightarrow> 'k \<Rightarrow> recv_result list \<Rightarrow> Timestamp list \<Rightarrow> 'k \<Rightarrow> bool" for os fd where
  stop: "os_recv os fd (WIRE_MSG_SIZE - pos) k = (r, k') \<Longrightarrow> r \<in> {Recv_again, Recv_eof, Recv_error} \<Longrightarrow> receives os fd pos k [r] [] k'"
| piece: "os_recv os fd (WIRE_MSG_SIZE - pos) k = (Recv_data bs, k1) \<Longrightarrow> pos + length bs < WIRE_MSG_SIZE \<Longrightarrow>
    receives os fd (pos + length bs) k1 rs ts k' \<Longrightarrow> receives os fd pos k (Recv_data bs # rs) ts k'"
| frame: "os_recv os fd (WIRE_MSG_SIZE - pos) k = (Recv_data bs, k1) \<Longrightarrow> pos + length bs \<ge> WIRE_MSG_SIZE \<Longrightarrow> os_rdtsc os k1 = (t, k2) \<Longrightarrow>
    receives os fd 0 k2 rs ts k' \<Longrightarrow> receives os fd pos k (Recv_data bs # rs) (t # ts) k'"

primrec pours :: "'k os \<Rightarrow> int \<Rightarrow> nat \<Rightarrow> nat \<Rightarrow> 'k \<Rightarrow> bool" where
  "pours os fd 0 pos k \<longleftrightarrow> True"
| "pours os fd (Suc m) pos k \<longleftrightarrow> (case os_recv os fd (WIRE_MSG_SIZE - pos) k of
       (Recv_data bs, k1) \<Rightarrow> (if pos + length bs \<ge> WIRE_MSG_SIZE then pours os fd m 0 (snd (os_rdtsc os k1)) else pours os fd m (pos + length bs) k1)
     | _ \<Rightarrow> False)"

fun data_of :: "recv_result \<Rightarrow> u8 list" where
  "data_of (Recv_data bs) = bs"
| "data_of _ = []"

text \<open>Either the kernel stops delivering at some point, or it pours forever.\<close>

lemma receives_or_pours: "(\<exists>rs ts k'. receives os fd pos k rs ts k') \<or> (\<forall>m. pours os fd m pos k)"
proof (rule ccontr)
  assume "\<not> ?thesis"
  then obtain m where "\<not> pours os fd m pos k" "\<not> (\<exists>rs ts k'. receives os fd pos k rs ts k')" by blast
  then show False
  proof (induction m arbitrary: pos k)
    case (Suc m)
    obtain r k1 where r: "os_recv os fd (WIRE_MSG_SIZE - pos) k = (r, k1)" by fastforce
    show False
    proof (cases r)
      case (Recv_data bs)
      obtain t k2 where t: "os_rdtsc os k1 = (t, k2)" by fastforce
      show False
        using Suc.IH [of "pos + length bs" k1] Suc.IH [of 0 k2] Suc.prems r Recv_data t receives.piece [of os fd pos k bs k1]
          receives.frame [of os fd pos k bs k1 t k2] by (cases "pos + length bs < WIRE_MSG_SIZE") (auto simp: not_less, blast+)
    qed (use receives.stop [OF r] Suc.prems(2) in auto)
  qed simp
qed

lemma receives_not_pours: "receives os fd pos k rs ts k' \<Longrightarrow> \<not> pours os fd (length rs) pos k"
  by (induction rule: receives.induct) auto

lemma buf_write_pending:
  assumes "length buf = WIRE_MSG_SIZE" "pos + length bs \<le> WIRE_MSG_SIZE"
  obtains buf' where "buf_write buf pos bs = Some buf'" "length buf' = WIRE_MSG_SIZE"
    "take (pos + length bs) buf' = take pos buf @ bs"
  using assms that by (simp add: buf_write_def)

text \<open>
  The outcome of reading a client that delivered the results \<open>rs\<close>: the frames of what was pending and what came are pushed, and the client is kept with the rest pending
  or disconnected, as the last result says.
\<close>

definition read_outcome :: "nat \<Rightarrow> recv_result list \<Rightarrow> Timestamp list \<Rightarrow> Gateway \<Rightarrow> Gateway \<Rightarrow> bool" where
  "read_outcome i rs ts g g' \<longleftrightarrow> clients_ok g'
     \<and> length ts = length (frames (pending (clients g ! i) @ concat (map data_of rs)))
     \<and> g_inbound g' = push_all RING_SIZE (map2 (\<lambda>t f. to_inbound t (wire_of_bytes f)) ts (frames (pending (clients g ! i) @ concat (map data_of rs)))) (g_inbound g)
     \<and> g_outbound g' = g_outbound g \<and> listen_fd g' = listen_fd g
     \<and> (\<forall>j. j \<noteq> i \<longrightarrow> clients g' ! j = clients g ! j)
     \<and> (last rs = Recv_again \<longrightarrow> c_active (clients g' ! i) \<and> c_fd (clients g' ! i) = c_fd (clients g ! i)
          \<and> pending (clients g' ! i) = leftover (pending (clients g ! i) @ concat (map data_of rs)) \<and> io g' = io g)
     \<and> (last rs \<noteq> Recv_again \<longrightarrow> \<not> c_active (clients g' ! i)
          \<and> io g' = io g @ [Io_epoll_del (c_fd (clients g ! i)), Io_close (c_fd (clients g ! i))])"

lemma read_outcome_stop:
  assumes c: "clients_ok g" and i: "i < MAX_CLIENTS" and a: "c_active (clients g ! i)"
  shows "read_outcome i [Recv_again] [] g g" and "r \<in> {Recv_eof, Recv_error} \<Longrightarrow> read_outcome i [r] [] g (disconnect i g)"
proof -
  have ok: "client_ok (clients g ! i)" by (rule clients_okD [OF c i])
  then have sh: "frames (pending (clients g ! i)) = []" "leftover (pending (clients g ! i)) = pending (clients g ! i)"
    using frames_short [of "pending (clients g ! i)"] by (simp_all add: client_ok_def pending_def)
  have len: "i < length (clients g)" using c i by (simp add: clients_ok_def)
  show "read_outcome i [Recv_again] [] g g" using c a sh by (simp add: read_outcome_def)
  have "clients_ok (disconnect i g)"
    unfolding disconnect_def Let_def using c i ok by (intro clients_ok_upd) (simp_all add: clients_ok_def client_ok_def)
  then show "read_outcome i [r] [] g (disconnect i g)" if "r \<in> {Recv_eof, Recv_error}"
    using that sh len by (auto simp: read_outcome_def disconnect_def Let_def)
qed

text \<open>Prefixing the outcome of the rest of the loop with one received piece.\<close>

lemma read_outcome_piece:
  assumes ro: "read_outcome i rs us g1 g'" and ne: "rs \<noteq> []"
    and fs: "frames (pending (clients g ! i) @ bs @ concat (map data_of rs)) = fs @ frames (pending (clients g1 ! i) @ concat (map data_of rs))"
      "leftover (pending (clients g ! i) @ bs @ concat (map data_of rs)) = leftover (pending (clients g1 ! i) @ concat (map data_of rs))"
    and inb: "length ts = length fs" "g_inbound g1 = push_all RING_SIZE (map2 (\<lambda>t f. to_inbound t (wire_of_bytes f)) ts fs) (g_inbound g)"
    and same: "g_outbound g1 = g_outbound g" "listen_fd g1 = listen_fd g" "io g1 = io g" "\<And>j. j \<noteq> i \<Longrightarrow> clients g1 ! j = clients g ! j"
      "c_fd (clients g1 ! i) = c_fd (clients g ! i)"
  shows "read_outcome i (Recv_data bs # rs) (ts @ us) g g'"
proof -
  have u: "length us = length (frames (pending (clients g1 ! i) @ concat (map data_of rs)))"
    "g_inbound g' = push_all RING_SIZE (map2 (\<lambda>t f. to_inbound t (wire_of_bytes f)) us (frames (pending (clients g1 ! i) @ concat (map data_of rs)))) (g_inbound g1)"
    using ro by (simp_all add: read_outcome_def)
  have "length (ts @ us) = length (frames (pending (clients g ! i) @ bs @ concat (map data_of rs)))" using u(1) inb(1) fs(1) by simp
  moreover have "g_inbound g' = push_all RING_SIZE (map2 (\<lambda>t f. to_inbound t (wire_of_bytes f)) (ts @ us)
      (frames (pending (clients g ! i) @ bs @ concat (map data_of rs)))) (g_inbound g)"
    using u(2) inb fs(1) by simp
  ultimately show ?thesis using ro ne fs(2) same by (simp add: read_outcome_def)
qed

lemma receives_nonempty: "receives os fd pos k rs ts k' \<Longrightarrow> rs \<noteq> []"
  by (induction rule: receives.induct) auto

text \<open>One iteration that receives data: into an incomplete frame, or completing one.\<close>

lemma read_loop_piece:
  assumes fits: "recv_fits os" and c: "clients_ok g" and i: "i < MAX_CLIENTS" and act: "c_active (clients g ! i)" and r: "os_recv os fd (WIRE_MSG_SIZE - c_read_pos (clients g ! i)) k = (Recv_data bs, k1)"
  obtains (piece) g1 where "c_read_pos (clients g ! i) + length bs < WIRE_MSG_SIZE" "read_loop os fd i k g = read_loop os fd i k1 g1" "clients_ok g1" "c_active (clients g1 ! i)"
      "c_read_pos (clients g1 ! i) = c_read_pos (clients g ! i) + length bs"
      "\<And>rs ts g'. rs \<noteq> [] \<Longrightarrow> read_outcome i rs ts g1 g' \<Longrightarrow> read_outcome i (Recv_data bs # rs) ts g g'"
  | (frame) t k2 g1 where "c_read_pos (clients g ! i) + length bs \<ge> WIRE_MSG_SIZE" "os_rdtsc os k1 = (t, k2)" "read_loop os fd i k g = read_loop os fd i k2 g1" "clients_ok g1"
      "c_active (clients g1 ! i)" "c_read_pos (clients g1 ! i) = 0"
      "\<And>rs ts g'. rs \<noteq> [] \<Longrightarrow> read_outcome i rs ts g1 g' \<Longrightarrow> read_outcome i (Recv_data bs # rs) (t # ts) g g'"
proof -
  have len: "i < length (clients g)" using c i by (simp add: clients_ok_def)
  have ok: "length (c_read_buf (clients g ! i)) = WIRE_MSG_SIZE" "c_read_pos (clients g ! i) < WIRE_MSG_SIZE" "c_fd (clients g ! i) \<ge> 0"
    using clients_okD [OF c i] act by (simp_all add: client_ok_def)
  let ?pos = "c_read_pos (clients g ! i)" and ?n = "WIRE_MSG_SIZE - c_read_pos (clients g ! i)" and ?pend = "pending (clients g ! i)"
  have "?n > 0" using ok(2) by simp
  with fits r have "length bs \<le> ?n" unfolding recv_fits_def by metis
  then have le: "?pos + length bs \<le> WIRE_MSG_SIZE" using ok(2) by simp
  obtain buf where buf: "buf_write (c_read_buf (clients g ! i)) ?pos bs = Some buf" "length buf = WIRE_MSG_SIZE"
    "take (?pos + length bs) buf = take ?pos (c_read_buf (clients g ! i)) @ bs"
    by (rule buf_write_pending [OF ok(1) le])
  show thesis
  proof (cases "?pos + length bs \<ge> WIRE_MSG_SIZE")
    case True
    then have full: "buf = ?pend @ bs" using buf(2,3) le by (simp add: pending_def)
    obtain t k2 where t: "os_rdtsc os k1 = (t, k2)" by fastforce
    let ?m = "to_inbound t (wire_of_bytes buf)"
    let ?g1 = "upd_client i (\<lambda>c. c\<lparr>c_read_buf := buf, c_read_pos := 0\<rparr>) g"
    let ?g2 = "?g1\<lparr>g_inbound := snd (ring_push RING_SIZE ?m (g_inbound ?g1))\<rparr>"
    have "clients_ok ?g2"
      using clients_ok_upd [OF c i, of "\<lambda>c. c\<lparr>c_read_buf := buf, c_read_pos := 0\<rparr>"] buf(2) ok
      by (simp add: clients_ok_def client_ok_def WIRE_MSG_SIZE_def)
    moreover have "read_loop os fd i k g = read_loop os fd i k2 ?g2"
      using r buf(1) True t by (subst read_loop.simps) (simp add: Let_def)
    moreover have "read_outcome i (Recv_data bs # rs) ([t] @ ts) g g'" if "rs \<noteq> []" "read_outcome i rs ts ?g2 g'" for rs ts g'
      by (rule read_outcome_piece [OF that(2,1), where fs = "[buf]"])
        (use full buf(2) len frames_cons [of buf "concat (map data_of rs)"] in \<open>simp_all add: pending_def\<close>)
    ultimately show thesis using frame [of t k2 ?g2] True t act len by simp
  next
    case False
    let ?g1 = "upd_client i (\<lambda>c. c\<lparr>c_read_buf := buf, c_read_pos := ?pos + length bs\<rparr>) g"
    have "clients_ok ?g1"
      using clients_ok_upd [OF c i, of "\<lambda>c. c\<lparr>c_read_buf := buf, c_read_pos := ?pos + length bs\<rparr>"] buf(2) ok False
      by (simp add: clients_ok_def client_ok_def)
    moreover have "read_loop os fd i k g = read_loop os fd i k1 ?g1"
      using r buf(1) False by (subst read_loop.simps) (simp add: Let_def)
    moreover have "read_outcome i (Recv_data bs # rs) ([] @ ts) g g'" if "rs \<noteq> []" "read_outcome i rs ts ?g1 g'" for rs ts g'
      by (rule read_outcome_piece [OF that(2,1), where fs = "[]"])
        (use buf(3) len in \<open>simp_all add: pending_def\<close>)
    ultimately show thesis using piece [of ?g1] False act len by simp
  qed
qed

lemma read_loop_correct:
  assumes fits: "recv_fits os" and "receives os fd pos k rs ts k'"
    and "clients_ok g" "i < MAX_CLIENTS" "c_active (clients g ! i)" "c_read_pos (clients g ! i) = pos"
  shows "\<exists>g'. read_loop os fd i k g = Some (k', g') \<and> read_outcome i rs ts g g'"
  using assms(2-)
proof (induction arbitrary: g rule: receives.induct)
  case (stop pos k r k')
  then show ?case using read_outcome_stop [OF stop.prems(1-3)] by (subst read_loop.simps) auto
next
  case (piece pos k bs k1 rs ts k')
  from piece.prems(4) piece.hyps(1) have r: "os_recv os fd (WIRE_MSG_SIZE - c_read_pos (clients g ! i)) k = (Recv_data bs, k1)" by simp
  from read_loop_piece [OF fits piece.prems(1-3) r] piece.hyps(2) piece.prems(4) obtain g1 where
    g1: "read_loop os fd i k g = read_loop os fd i k1 g1" "clients_ok g1" "c_active (clients g1 ! i)" "c_read_pos (clients g1 ! i) = pos + length bs"
      "\<And>rs ts g'. rs \<noteq> [] \<Longrightarrow> read_outcome i rs ts g1 g' \<Longrightarrow> read_outcome i (Recv_data bs # rs) ts g g'" by (metis not_le)
  from piece.IH [OF g1(2) piece.prems(2) g1(3,4)] g1(1,5) receives_nonempty [OF piece.hyps(3)] show ?case by auto
next
  case (frame pos k bs k1 t k2 rs ts k')
  from frame.prems(4) frame.hyps(1) have r: "os_recv os fd (WIRE_MSG_SIZE - c_read_pos (clients g ! i)) k = (Recv_data bs, k1)" by simp
  from read_loop_piece [OF fits frame.prems(1-3) r] frame.hyps(2,3) frame.prems(4) obtain g1 where
    g1: "read_loop os fd i k g = read_loop os fd i k2 g1" "clients_ok g1" "c_active (clients g1 ! i)" "c_read_pos (clients g1 ! i) = 0"
      "\<And>rs ts g'. rs \<noteq> [] \<Longrightarrow> read_outcome i rs ts g1 g' \<Longrightarrow> read_outcome i (Recv_data bs # rs) (t # ts) g g'" by (metis not_le prod.inject)
  from frame.IH [OF g1(2) frame.prems(2) g1(3,4)] g1(1,5) receives_nonempty [OF frame.hyps(4)] show ?case by auto
qed

text \<open>Conversely the loop returns only when the kernel has stopped delivering.\<close>

lemma read_loop_returns:
  assumes "read_loop os fd i k g = Some res"
  shows "i < length (clients g) \<longrightarrow> (\<exists>m. \<not> pours os fd m (c_read_pos (clients g ! i)) k)"
proof (rule read_loop.raw_induct [where P = "\<lambda>os fd i k g res. i < length (clients g) \<longrightarrow> (\<exists>m. \<not> pours os fd m (c_read_pos (clients g ! i)) k)"], goal_cases)
  case (1 rl os fd i k g res)
  note ih = 1(1) and body = 1(2)
  show ?case
  proof
  assume i: "i < length (clients g)"
  let ?pos = "c_read_pos (clients g ! i)"
  obtain r k1 where r: "os_recv os fd (WIRE_MSG_SIZE - ?pos) k = (r, k1)" by fastforce
  show "\<exists>m. \<not> pours os fd m (c_read_pos (clients g ! i)) k"
  proof (cases r)
    case (Recv_data bs)
    show ?thesis
    proof (cases "?pos + length bs \<ge> WIRE_MSG_SIZE")
      case True
      obtain t k2 where t: "os_rdtsc os k1 = (t, k2)" by fastforce
      from body r Recv_data True t obtain g1 where "rl os fd i k2 g1 = Some res" "clients g1 = (clients g)[i := clients g1 ! i]" "c_read_pos (clients g1 ! i) = 0"
        using i by (auto simp: Let_def split: Option.bind_splits)
      with ih [of os fd i k2 g1] i obtain m where "\<not> pours os fd m 0 k2" by (metis length_list_update)
      then have "\<not> pours os fd (Suc m) ?pos k" using r Recv_data True t by simp
      then show ?thesis by blast
    next
      case False
      from body r Recv_data False obtain g1 where "rl os fd i k1 g1 = Some res" "clients g1 = (clients g)[i := clients g1 ! i]" "c_read_pos (clients g1 ! i) = ?pos + length bs"
        using i by (auto simp: Let_def split: Option.bind_splits)
      with ih [of os fd i k1 g1] i obtain m where "\<not> pours os fd m (?pos + length bs) k1" by (metis length_list_update)
      then have "\<not> pours os fd (Suc m) ?pos k" using r Recv_data False by simp
      then show ?thesis by blast
    qed
  qed (use r in \<open>auto intro!: exI [of _ "Suc 0"]\<close>)
  qed
qed (rule assms)

subsection \<open>Replies\<close>

lemma active_fds_upt:
  assumes "length (clients g) = MAX_CLIENTS"
  shows "active_fds g = map (\<lambda>i. c_fd (clients g ! i)) (filter (\<lambda>i. c_active (clients g ! i)) [0..<MAX_CLIENTS])"
proof -
  have "clients g = map (\<lambda>i. clients g ! i) [0..<MAX_CLIENTS]" using assms map_nth [of "clients g"] by simp
  then have "filter c_active (clients g) = map (\<lambda>i. clients g ! i) (filter (\<lambda>i. c_active (clients g ! i)) [0..<MAX_CLIENTS])"
    by (metis (no_types, lifting) comp_apply filter_cong filter_map)
  then show ?thesis by (simp add: active_fds_def comp_def)
qed

lemma broadcast_correct:
  assumes c: "clients_ok g"
  shows "broadcast w g = g\<lparr>io := io g @ map (\<lambda>fd. Io_send fd (wire_bytes w)) (active_fds g)\<rparr>"
proof -
  have pos: "c_active (clients g ! i) \<Longrightarrow> c_fd (clients g ! i) \<ge> 0" if "i < MAX_CLIENTS" for i
    using clients_okD [OF c that] by (simp add: client_ok_def)
  have fold: "fold (\<lambda>i g'. if c_active (clients g' ! i) \<and> c_fd (clients g' ! i) \<ge> 0
       then g'\<lparr>io := io g' @ [Io_send (c_fd (clients g' ! i)) (wire_bytes w)]\<rparr> else g') is g0 =
     g0\<lparr>io := io g0 @ map (\<lambda>i. Io_send (c_fd (clients g0 ! i)) (wire_bytes w)) (filter (\<lambda>i. c_active (clients g0 ! i)) is)\<rparr>"
    if "\<forall>i\<in>set is. c_active (clients g0 ! i) \<longrightarrow> c_fd (clients g0 ! i) \<ge> 0" for "is" g0
    using that by (induction "is" arbitrary: g0) auto
  have len: "length (clients g) = MAX_CLIENTS" using c by (simp add: clients_ok_def)
  show ?thesis
    unfolding broadcast_def using pos by (subst fold) (auto simp: active_fds_upt [OF len] comp_def)
qed

lemma drain_outbound_correct:
  assumes "clients_ok g" "ring_ok RING_SIZE (g_outbound g)"
  shows "\<exists>r. drain_outbound g = Some (g\<lparr>g_outbound := r,
       io := io g @ concat (map (\<lambda>m. map (\<lambda>fd. Io_send fd (wire_bytes (to_wire m))) (active_fds g)) (contents RING_SIZE (g_outbound g)))\<rparr>)
     \<and> ring_ok RING_SIZE r \<and> contents RING_SIZE r = []"
  using assms
proof (induction "contents RING_SIZE (g_outbound g)" arbitrary: g)
  case Nil
  from rq.pop_law [OF Nil.prems(2)] Nil.hyps [symmetric] obtain r where
    "ring_pop RING_SIZE (g_outbound g) = (None, r)" "ring_ok RING_SIZE r" "contents RING_SIZE r = []" by auto
  with Nil.hyps [symmetric] show ?case by (subst drain_outbound.simps) auto
next
  case (Cons m ms)
  note ms = Cons.hyps(2) [symmetric]
  from rq.pop_law [OF Cons.prems(2)] ms obtain r where
    r: "ring_pop RING_SIZE (g_outbound g) = (Some m, r)" "ring_ok RING_SIZE r" "contents RING_SIZE r = ms" by auto
  let ?g0 = "g\<lparr>g_outbound := r\<rparr>"
  have c0: "clients_ok ?g0" using Cons.prems(1) by (simp add: clients_ok_def)
  let ?g1 = "?g0\<lparr>io := io ?g0 @ map (\<lambda>fd. Io_send fd (wire_bytes (to_wire m))) (active_fds ?g0)\<rparr>"
  have step: "drain_outbound g = drain_outbound ?g1"
    using r(1) broadcast_correct [OF c0] by (subst drain_outbound.simps) simp
  have "ms = contents RING_SIZE (g_outbound ?g1)" "clients_ok ?g1" "ring_ok RING_SIZE (g_outbound ?g1)"
    using r c0 by (simp_all add: clients_ok_def)
  from Cons.hyps(1) [OF this] step show ?case by (simp add: ms r(3) active_fds_def)
qed

subsection \<open>Connecting and disconnecting\<close>

lemma active_fds_update:
  assumes "i < length (clients g)"
  shows "active_fds (upd_client i f g) = map c_fd (filter c_active (take i (clients g)))
     @ (if c_active (f (clients g ! i)) then [c_fd (f (clients g ! i))] else []) @ map c_fd (filter c_active (drop (Suc i) (clients g)))"
  using assms by (simp add: active_fds_def upd_conv_take_nth_drop)

lemma active_fds_split:
  assumes "i < length (clients g)"
  shows "active_fds g = map c_fd (filter c_active (take i (clients g)))
     @ (if c_active (clients g ! i) then [c_fd (clients g ! i)] else []) @ map c_fd (filter c_active (drop (Suc i) (clients g)))"
proof -
  have "clients g = take i (clients g) @ clients g ! i # drop (Suc i) (clients g)" using assms by (rule id_take_nth_drop)
  then have "filter c_active (clients g) = filter c_active (take i (clients g) @ clients g ! i # drop (Suc i) (clients g))" by simp
  then show ?thesis unfolding active_fds_def by simp
qed

lemma active_fds_io [simp]: "active_fds (g\<lparr>io := x\<rparr>) = active_fds g" "clients_ok (g\<lparr>io := x\<rparr>) = clients_ok g"
  "slot_for_fd fd (g\<lparr>io := x\<rparr>) = slot_for_fd fd g" "upd_client i f (g\<lparr>io := x\<rparr>) = (upd_client i f g)\<lparr>io := x\<rparr>"
  by (simp_all add: active_fds_def clients_ok_def slot_for_fd_def upd_client_def)

lemma accept_correct:
  assumes c: "clients_ok g" and a: "os_accept os k = (fd, k')" "fd \<ge> 0"
  shows "\<exists>g'. accept_client os k g = (k', g') \<and> clients_ok g' \<and> g_inbound g' = g_inbound g \<and> g_outbound g' = g_outbound g \<and> listen_fd g' = listen_fd g
    \<and> (find_slot g = None \<longrightarrow> clients g' = clients g \<and> io g' = io g @ [Io_close fd])
    \<and> (\<forall>i. find_slot g = Some i \<longrightarrow> i < MAX_CLIENTS \<and> clients g' = (clients g)[i := (clients g ! i)\<lparr>c_fd := fd, c_active := True, c_read_pos := 0\<rparr>]
         \<and> mset (active_fds g') = add_mset fd (mset (active_fds g)))"
proof (cases "find_slot g")
  case None
  with a c show ?thesis by (simp add: accept_client_def)
next
  case (Some i)
  then have i: "i < MAX_CLIENTS" "\<not> c_active (clients g ! i)" by (simp_all add: find_slot_Some)
  have len: "i < length (clients g)" using c i by (simp add: clients_ok_def)
  have "client_ok ((clients g ! i)\<lparr>c_fd := fd, c_active := True, c_read_pos := 0\<rparr>)"
    using clients_okD [OF c i(1)] a(2) by (simp add: client_ok_def WIRE_MSG_SIZE_def)
  then have "clients_ok (upd_client i (\<lambda>c. c\<lparr>c_fd := fd, c_active := True, c_read_pos := 0\<rparr>) g)"
    by (intro clients_ok_upd [OF c i(1)])
  moreover have "mset (active_fds (upd_client i (\<lambda>c. c\<lparr>c_fd := fd, c_active := True, c_read_pos := 0\<rparr>) g)) = add_mset fd (mset (active_fds g))"
    using active_fds_split [OF len] i(2) by (simp add: active_fds_update [OF len])
  ultimately show ?thesis using Some a i by (simp add: accept_client_def Let_def)
qed


subsection \<open>One turn\<close>

text \<open>An event is served unless it is a read on a client that pours, and then it is not.\<close>

definition stuck_at :: "'k os \<Rightarrow> int \<Rightarrow> 'k \<Rightarrow> Gateway \<Rightarrow> bool" where
  "stuck_at os fd k g \<longleftrightarrow> fd \<noteq> listen_fd g \<and> (\<exists>i. slot_for_fd fd g = Some i \<and> (\<forall>m. pours os fd m (c_read_pos (clients g ! i)) k))"

lemma read_loop_pours: "i < length (clients g) \<Longrightarrow> \<forall>m. pours os fd m (c_read_pos (clients g ! i)) k \<Longrightarrow> read_loop os fd i k g = None"
  using read_loop_returns [of os fd i k g] by (cases "read_loop os fd i k g") auto

lemma on_event_stuck:
  assumes "clients_ok g" "stuck_at os fd k g" shows "on_event os fd (k, g) = None"
proof -
  from assms(2) obtain i where i: "fd \<noteq> listen_fd g" "slot_for_fd fd g = Some i" "\<forall>m. pours os fd m (c_read_pos (clients g ! i)) k" by (auto simp: stuck_at_def)
  have "i < length (clients g)" using assms(1) i(2) by (simp add: slot_for_fd_Some clients_ok_def)
  with i show ?thesis by (simp add: on_event_def read_client_def read_loop_pours)
qed

lemma on_event_ok:
  assumes "recv_fits os" "clients_ok g" "ring_ok RING_SIZE (g_outbound g)"
  shows "(\<exists>k' g'. on_event os fd (k, g) = Some (k', g') \<and> clients_ok g' \<and> ring_ok RING_SIZE (g_outbound g'))
     \<or> on_event os fd (k, g) = None \<and> stuck_at os fd k g"
proof (cases "fd = listen_fd g")
  case True
  obtain nfd k' where a: "os_accept os k = (nfd, k')" by fastforce
  show ?thesis
  proof (cases "nfd \<ge> 0")
    case True
    with accept_correct [OF assms(2) a] assms(3) \<open>fd = listen_fd g\<close> show ?thesis by (auto simp: on_event_def)
  next
    case False
    with a assms \<open>fd = listen_fd g\<close> show ?thesis by (simp add: on_event_def accept_client_def)
  qed
next
  case False
  show ?thesis
  proof (cases "slot_for_fd fd g")
    case None
    with False assms show ?thesis by (simp add: on_event_def read_client_def)
  next
    case (Some i)
    then have i: "i < MAX_CLIENTS" "c_active (clients g ! i)" by (simp_all add: slot_for_fd_Some)
    show ?thesis
    proof (cases "\<forall>m. pours os fd m (c_read_pos (clients g ! i)) k")
      case False
      with receives_or_pours [of os fd "c_read_pos (clients g ! i)" k] obtain rs ts k' where "receives os fd (c_read_pos (clients g ! i)) k rs ts k'" by blast
      from read_loop_correct [OF assms(1) this assms(2) i refl] Some assms(3) \<open>fd \<noteq> listen_fd g\<close> show ?thesis
        by (auto simp: on_event_def read_client_def read_outcome_def)
    next
      case True
      with Some \<open>fd \<noteq> listen_fd g\<close> have "stuck_at os fd k g" by (auto simp: stuck_at_def)
      with on_event_stuck [OF assms(2) this] show ?thesis by blast
    qed
  qed
qed

lemma on_events_append: "on_events os (xs @ ys) kg = do { kg' \<leftarrow> on_events os xs kg; on_events os ys kg' }"
  by (induction xs arbitrary: kg) (simp_all split: Option.bind_split)

lemma on_events_ok:
  assumes "recv_fits os" "clients_ok g" "ring_ok RING_SIZE (g_outbound g)"
  shows "(\<exists>k' g'. on_events os fds (k, g) = Some (k', g') \<and> clients_ok g' \<and> ring_ok RING_SIZE (g_outbound g'))
     \<or> on_events os fds (k, g) = None \<and> (\<exists>before fd after k1 g1. fds = before @ fd # after \<and> on_events os before (k, g) = Some (k1, g1) \<and> stuck_at os fd k1 g1)"
  using assms(2,3)
proof (induction fds arbitrary: k g)
  case (Cons fd fds)
  from on_event_ok [OF assms(1) Cons.prems, of fd k] show ?case
  proof (elim disjE exE conjE)
    fix k1 g1 assume e: "on_event os fd (k, g) = Some (k1, g1)" and g1: "clients_ok g1" "ring_ok RING_SIZE (g_outbound g1)"
    from Cons.IH [OF g1, of k1] show ?thesis
    proof (elim disjE exE conjE)
      fix before fd2 after k2 g2 assume "fds = before @ fd2 # after" "on_events os before (k1, g1) = Some (k2, g2)" "stuck_at os fd2 k2 g2"
        "on_events os fds (k1, g1) = None"
      with e have "fd # fds = (fd # before) @ fd2 # after \<and> on_events os (fd # before) (k, g) = Some (k2, g2) \<and> stuck_at os fd2 k2 g2"
        "on_events os (fd # fds) (k, g) = None" by simp_all
      then show ?thesis by blast
    qed (use e in simp)
  next
    assume none: "on_event os fd (k, g) = None" and "stuck_at os fd k g"
    then have "fd # fds = [] @ fd # fds \<and> on_events os [] (k, g) = Some (k, g) \<and> stuck_at os fd k g" by simp
    moreover have "on_events os (fd # fds) (k, g) = None" using none by simp
    ultimately show ?thesis by blast
  qed
qed simp

lemma on_events_stuck:
  assumes "recv_fits os" "clients_ok g" "ring_ok RING_SIZE (g_outbound g)" "on_events os before (k, g) = Some (k1, g1)" "stuck_at os fd k1 g1"
  shows "on_events os (before @ fd # after) (k, g) = None"
proof -
  from on_events_ok [OF assms(1-3), of before k] assms(4) have "clients_ok g1" by auto
  with assms(4,5) show ?thesis by (simp add: on_events_append on_event_stuck)
qed

subsection \<open>Properties\<close>

text \<open>
  C21. Frame reassembly does not depend on how and when TCP delivers the stream. Let \<open>rs\<close> be the results of the \<open>recv\<close> calls on a connected client up to the first that is not data; nothing
  is assumed of them but that no call returns more than it was asked for. Then reading the client returns; the messages pushed to the inbound ring are exactly the consecutive 32-byte frames of
  the bytes that were left over from earlier reads followed by the bytes received now, in order and
  decoded field by field, with the times at which they were complete; if the last result was \<open>EAGAIN\<close>, the client stays connected
  and the incomplete rest is kept for the next read; if it was the end of the stream or an error, the client is disconnected and its descriptor closed. Other clients are untouched.
  And reading returns unless \<open>recv\<close> delivers data in every call, forever.
\<close>

theorem read_client_frames:
  assumes "recv_fits os" and "clients_ok g" and "slot_for_fd fd g = Some i"
  shows "(\<forall>rs ts k'. receives os fd (c_read_pos (clients g ! i)) k rs ts k' \<longrightarrow>
       (\<exists>g'. read_client os fd k g = Some (k', g') \<and> clients_ok g'
         \<and> length ts = length (frames (pending (clients g ! i) @ concat (map data_of rs)))
         \<and> g_inbound g' = push_all RING_SIZE (map2 (\<lambda>t f. to_inbound t (wire_of_bytes f)) ts (frames (pending (clients g ! i) @ concat (map data_of rs)))) (g_inbound g)
         \<and> (\<forall>j. j \<noteq> i \<longrightarrow> clients g' ! j = clients g ! j)
         \<and> (last rs = Recv_again \<longrightarrow> slot_for_fd fd g' = Some i \<and> pending (clients g' ! i) = leftover (pending (clients g ! i) @ concat (map data_of rs)) \<and> io g' = io g)
         \<and> (last rs \<noteq> Recv_again \<longrightarrow> \<not> c_active (clients g' ! i) \<and> io g' = io g @ [Io_epoll_del fd, Io_close fd])))
     \<and> (read_client os fd k g = None \<longleftrightarrow> (\<forall>m. pours os fd m (c_read_pos (clients g ! i)) k))"
proof -
  from assms(3) have i: "i < MAX_CLIENTS" "c_active (clients g ! i)" "c_fd (clients g ! i) = fd" by (simp_all add: slot_for_fd_Some)
  have rc: "read_client os fd k g = read_loop os fd i k g" using assms(3) by (simp add: read_client_def)
  have out: "\<exists>g'. read_client os fd k g = Some (k', g') \<and> read_outcome i rs ts g g'" if "receives os fd (c_read_pos (clients g ! i)) k rs ts k'" for rs ts k'
    using read_loop_correct [OF assms(1) that assms(2) i(1,2) refl] rc by simp
  have slot: "slot_for_fd fd g' = Some i" if "read_outcome i rs ts g g'" "last rs = Recv_again" for rs ts g'
  proof -
    have "c_active (clients g' ! i)" "c_fd (clients g' ! i) = fd" "\<And>j. j \<noteq> i \<Longrightarrow> clients g' ! j = clients g ! j"
      using that i by (simp_all add: read_outcome_def)
    then show ?thesis using assms(3) by (simp add: slot_for_fd_Some)
  qed
  have never: "read_client os fd k g = None \<longleftrightarrow> (\<forall>m. pours os fd m (c_read_pos (clients g ! i)) k)"
  proof
    assume none: "read_client os fd k g = None"
    show "\<forall>m. pours os fd m (c_read_pos (clients g ! i)) k"
      using receives_or_pours [of os fd "c_read_pos (clients g ! i)" k] read_loop_correct [OF assms(1) _ assms(2) i(1,2) refl] none rc by fastforce
  next
    assume pours: "\<forall>m. pours os fd m (c_read_pos (clients g ! i)) k"
    have "i < length (clients g)" using assms(2) i(1) by (simp add: clients_ok_def)
    with pours show "read_client os fd k g = None" unfolding rc by (simp add: read_loop_pours)
  qed
  show ?thesis
  proof (intro conjI allI impI never)
    fix rs ts k' assume "receives os fd (c_read_pos (clients g ! i)) k rs ts k'"
    from out [OF this] obtain g' where g': "read_client os fd k g = Some (k', g')" "read_outcome i rs ts g g'" by blast
    show "\<exists>g'. read_client os fd k g = Some (k', g') \<and> clients_ok g'
         \<and> length ts = length (frames (pending (clients g ! i) @ concat (map data_of rs)))
         \<and> g_inbound g' = push_all RING_SIZE (map2 (\<lambda>t f. to_inbound t (wire_of_bytes f)) ts (frames (pending (clients g ! i) @ concat (map data_of rs)))) (g_inbound g)
         \<and> (\<forall>j. j \<noteq> i \<longrightarrow> clients g' ! j = clients g ! j)
         \<and> (last rs = Recv_again \<longrightarrow> slot_for_fd fd g' = Some i \<and> pending (clients g' ! i) = leftover (pending (clients g ! i) @ concat (map data_of rs)) \<and> io g' = io g)
         \<and> (last rs \<noteq> Recv_again \<longrightarrow> \<not> c_active (clients g' ! i) \<and> io g' = io g @ [Io_epoll_del fd, Io_close fd])"
      using g' slot [OF g'(2)] i(3) by (intro exI [of _ g']) (simp add: read_outcome_def)
  qed
qed

text \<open>A concrete operating system: the kernel state is a list of pieces per descriptor.\<close>

fun piece_recv :: "nat \<Rightarrow> u8 list list \<Rightarrow> recv_result \<times> u8 list list" where
  "piece_recv n [] = (Recv_again, [])"
| "piece_recv n ([] # ps) = piece_recv n ps"
| "piece_recv n (p # ps) = (Recv_data (take n p), drop n p # ps)"

definition piece_os :: "(int \<Rightarrow> u8 list list) os" where
  "piece_os = \<lparr>os_accept = (\<lambda>k. (-1, k)), os_recv = (\<lambda>fd n k. case piece_recv n (k fd) of (r, ps) \<Rightarrow> (r, k(fd := ps))),
     os_rdtsc = (\<lambda>k. (0, k))\<rparr>"

lemma piece_os_simps [simp]: "os_recv piece_os fd n k = (case piece_recv n (k fd) of (r, ps) \<Rightarrow> (r, k(fd := ps)))" "os_rdtsc piece_os k = (0, k)"
  by (simp_all add: piece_os_def)

lemma piece_recv_cases:
  "n > 0 \<Longrightarrow> piece_recv n ps = (r, ps') \<Longrightarrow>
     (r = Recv_again \<and> concat ps = [] \<and> concat ps' = []) \<or> (\<exists>bs. r = Recv_data bs \<and> bs \<noteq> [] \<and> length bs \<le> n \<and> concat ps = bs @ concat ps')"
  by (induction n ps rule: piece_recv.induct) auto

lemma piece_os_fits: "recv_fits piece_os"
  unfolding recv_fits_def by (fastforce dest: piece_recv_cases split: prod.splits)

lemma piece_os_bounded: "pours piece_os fd m pos k \<Longrightarrow> pos < WIRE_MSG_SIZE \<Longrightarrow> m \<le> length (concat (k fd))"
proof (induction m arbitrary: pos k)
  case (Suc m)
  obtain r ps where r: "piece_recv (WIRE_MSG_SIZE - pos) (k fd) = (r, ps)" by fastforce
  from Suc.prems(2) have "WIRE_MSG_SIZE - pos > 0" by simp
  from piece_recv_cases [OF this r] Suc.prems(1) r obtain bs where
    bs: "r = Recv_data bs" "bs \<noteq> []" "concat (k fd) = bs @ concat ps" by (auto split: recv_result.splits)
  have p0: "0 < WIRE_MSG_SIZE" by (simp add: WIRE_MSG_SIZE_def)
  have "m \<le> length (concat ps)"
    using Suc.prems(1) r bs(1) Suc.IH [of 0 "k(fd := ps)"] Suc.IH [of "pos + length bs" "k(fd := ps)"] p0
    by (cases "pos + length bs < WIRE_MSG_SIZE") (simp_all add: fun_upd_def)
  moreover have "0 < length bs" using bs(2) by simp
  ultimately show ?case unfolding bs(3) length_append by linarith
qed simp

definition one_client :: Gateway where
  "one_client = (gateway_new (ring_new (\<lambda>_. undefined)) (ring_new (\<lambda>_. undefined)) 3 0 0 4 0)
     \<lparr>clients := (replicate MAX_CLIENTS client_new)[0 := client_new\<lparr>c_fd := 7, c_active := True\<rparr>]\<rparr>"

lemma one_client_clients: "clients one_client = client_new\<lparr>c_fd := 7, c_active := True\<rparr> # replicate 63 client_new"
  by (simp add: one_client_def MAX_CLIENTS_def numeral_eq_Suc)

lemma one_client_ok: "clients_ok one_client" "slot_for_fd 7 one_client = Some 0" "pending (clients one_client ! 0) = []"
  "g_inbound one_client = ring_new (\<lambda>_. undefined)" "active_fds one_client = [7]" "ring_ok RING_SIZE (g_outbound one_client)"
proof -
  note cl = one_client_clients
  show "clients_ok one_client" by (auto simp: clients_ok_def cl client_ok_def client_new_def MAX_CLIENTS_def WIRE_MSG_SIZE_def)
  show "slot_for_fd 7 one_client = Some 0" by (simp add: slot_for_fd_Some cl MAX_CLIENTS_def)
  show "pending (clients one_client ! 0) = []" by (simp add: cl pending_def client_new_def)
  show "g_inbound one_client = ring_new (\<lambda>_. undefined)" by (simp add: one_client_def gateway_new_def Let_def)
  show "active_fds one_client = [7]" by (simp add: active_fds_def cl client_new_def)
  have "cap_ok RING_SIZE" unfolding cap_ok_def RING_SIZE_def by (rule exI [of _ 18]) simp
  then show "ring_ok RING_SIZE (g_outbound one_client)" by (simp add: one_client_def gateway_new_def Let_def ring_new_ok)
qed

theorem read_client_frames_witness:
  "\<exists>k' g' ts. read_client piece_os 7 ((\<lambda>_. [])(7 := [replicate 20 1, replicate 20 2])) one_client = Some (k', g')
     \<and> length ts = 1 \<and> g_inbound g' = push_all RING_SIZE (map2 (\<lambda>t f. to_inbound t (wire_of_bytes f)) ts [replicate 20 1 @ replicate 12 2]) (ring_new (\<lambda>_. undefined))
     \<and> slot_for_fd 7 g' = Some 0 \<and> pending (clients g' ! 0) = replicate 8 2"
proof -
  let ?k = "(\<lambda>_. [])(7 := [replicate 20 1, replicate 20 2]) :: int \<Rightarrow> u8 list list"
  let ?rs = "[Recv_data (replicate 20 1), Recv_data (replicate 12 2), Recv_data (replicate 8 2), Recv_again]"
  have n: "replicate 20 (1::u8) = 1 # replicate 19 1" "replicate 20 (2::u8) = 2 # replicate 19 2" "replicate 8 (2::u8) = 2 # replicate 7 2" by (simp_all add: numeral_eq_Suc)
  have 4: "receives piece_os 7 8 (?k(7 := [[]])) [Recv_again] [] (?k(7 := []))" by (rule receives.stop) simp_all
  have 3: "receives piece_os 7 0 (?k(7 := [replicate 8 2])) [Recv_data (replicate 8 2), Recv_again] [] (?k(7 := []))"
    by (rule receives.piece [of _ _ _ _ _ "?k(7 := [[]])"]) (use 4 in \<open>simp_all add: WIRE_MSG_SIZE_def n(3)\<close>)
  have 2: "receives piece_os 7 20 (?k(7 := [[], replicate 20 2])) [Recv_data (replicate 12 2), Recv_data (replicate 8 2), Recv_again] [0] (?k(7 := []))"
    by (rule receives.frame [OF _ _ _ 3, where t = 0]) (simp_all add: WIRE_MSG_SIZE_def numeral_eq_Suc)
  have 1: "receives piece_os 7 0 ?k ?rs [0] (?k(7 := []))"
    by (rule receives.piece [of _ _ _ _ _ "?k(7 := [[], replicate 20 2])"]) (use 2 in \<open>simp_all add: WIRE_MSG_SIZE_def n(1)\<close>)
  have bytes: "concat (map data_of ?rs) = (replicate 20 1 @ replicate 12 2) @ replicate 8 2" by (simp add: numeral_eq_Suc)
  have fr: "frames (concat (map data_of ?rs)) = [replicate 20 1 @ replicate 12 2]" "leftover (concat (map data_of ?rs)) = replicate 8 2"
    unfolding bytes using frames_cons [of "replicate 20 1 @ replicate 12 2" "replicate 8 2"] frames_short [of "replicate 8 2"] by (simp_all add: WIRE_MSG_SIZE_def)
  have pos: "c_read_pos (clients one_client ! 0) = 0" by (simp add: one_client_clients client_new_def)
  from read_client_frames [OF piece_os_fits one_client_ok(1,2), of ?k, THEN conjunct1, rule_format, of ?rs "[0]" "?k(7 := [])"] 1 fr
  obtain g' where "read_client piece_os 7 ?k one_client = Some (?k(7 := []), g')"
      "g_inbound g' = push_all RING_SIZE (map2 (\<lambda>t f. to_inbound t (wire_of_bytes f)) [0] [replicate 20 1 @ replicate 12 2]) (ring_new (\<lambda>_. undefined))"
      "slot_for_fd 7 g' = Some 0" "pending (clients g' ! 0) = replicate 8 2"
    unfolding pos one_client_ok(3,4) append_Nil by (auto simp del: map2_map_map push_all_simps)
  then show ?thesis by (intro exI [of _ "?k(7 := [])"] exI [of _ g'] exI [of _ "[0]"]) simp
qed

text \<open>
  C22. Replies are broadcast: \<open>drain_outbound\<close> ends, empties the outbound ring, and for each message
  in order issues one send of its 32-byte image to every connected client, whoever the message is
  addressed to; nothing else changes.
\<close>

theorem drain_outbound_broadcasts:
  assumes "clients_ok g" and "ring_ok RING_SIZE (g_outbound g)"
  shows "\<exists>r. drain_outbound g = Some (g\<lparr>g_outbound := r,
       io := io g @ concat (map (\<lambda>m. map (\<lambda>fd. Io_send fd (wire_bytes (to_wire m))) (active_fds g)) (contents RING_SIZE (g_outbound g)))\<rparr>)
     \<and> ring_ok RING_SIZE r \<and> contents RING_SIZE r = []"
  by (rule drain_outbound_correct [OF assms])

theorem drain_outbound_broadcasts_witness:
  "clients_ok one_client \<and> ring_ok RING_SIZE (g_outbound one_client) \<and>
   (\<exists>g'. drain_outbound one_client = Some g' \<and> contents RING_SIZE (g_outbound g') = [])"
  using drain_outbound_broadcasts [OF one_client_ok(1,6)] one_client_ok(1,6) by auto



text \<open>
  C24. A turn of the event loop, whatever descriptors \<open>epoll_wait\<close> reports (also unknown or
  closed ones) and whatever \<open>accept\<close> and \<open>recv\<close> return: it never writes beyond a client's buffer, keeps the
  client table well-formed and leaves the outbound ring empty. It ends, with one exception, which is real: \<open>read_client\<close> goes on for as long as there are bytes, so
  that a turn does not end exactly if, at one of its events, \<open>recv\<close> on that client delivers data in every call, forever. A peer that never stops sending
  keeps the gateway from serving anybody else.
\<close>

theorem gateway_turn_total:
  assumes "recv_fits os" and "clients_ok g" and "ring_ok RING_SIZE (g_outbound g)"
  shows "(\<forall>k' g'. gateway_turn os fds (k, g) = Some (k', g') \<longrightarrow>
       clients_ok g' \<and> ring_ok RING_SIZE (g_outbound g') \<and> contents RING_SIZE (g_outbound g') = [])
     \<and> (gateway_turn os fds (k, g) = None \<longleftrightarrow>
       (\<exists>before fd after k1 g1. fds = before @ fd # after \<and> on_events os before (k, g) = Some (k1, g1) \<and> stuck_at os fd k1 g1))"
proof (cases "on_events os fds (k, g)")
  case None
  with on_events_ok [OF assms, of fds k] show ?thesis by (simp add: gateway_turn_def)
next
  case (Some kg)
  with on_events_ok [OF assms, of fds k] obtain k' g' where g': "on_events os fds (k, g) = Some (k', g')" "clients_ok g'" "ring_ok RING_SIZE (g_outbound g')" by auto
  have "\<not> (\<exists>before fd after k1 g1. fds = before @ fd # after \<and> on_events os before (k, g) = Some (k1, g1) \<and> stuck_at os fd k1 g1)"
    using on_events_stuck [OF assms] g'(1) by (metis option.distinct(1))
  with drain_outbound_correct [OF g'(2,3)] g' show ?thesis by (auto simp: gateway_turn_def clients_ok_def)
qed

theorem gateway_turn_total_witness:
  "\<exists>k' g'. gateway_turn piece_os [7, 3, 99] (\<lambda>_. [], one_client) = Some (k', g') \<and> clients_ok g'"
proof (cases "gateway_turn piece_os [7, 3, 99] (\<lambda>_. [], one_client)")
  case None
  with gateway_turn_total [OF piece_os_fits one_client_ok(1,6), of "[7, 3, 99]" "\<lambda>_. []"] obtain before fd after k1 g1 where
    p: "on_events piece_os before (\<lambda>_. [], one_client) = Some (k1, g1)" "stuck_at piece_os fd k1 g1" by auto
  from on_events_ok [OF piece_os_fits one_client_ok(1,6), of before "\<lambda>_. []"] p(1) have c: "clients_ok g1" by auto
  from p(2) obtain i where i: "slot_for_fd fd g1 = Some i" "\<forall>m. pours piece_os fd m (c_read_pos (clients g1 ! i)) k1" by (auto simp: stuck_at_def)
  then have "c_read_pos (clients g1 ! i) < WIRE_MSG_SIZE" using c by (auto simp: slot_for_fd_Some dest: clients_okD simp: client_ok_def)
  with piece_os_bounded [of fd "Suc (length (concat (k1 fd)))"] i(2) show ?thesis by fastforce
next
  case (Some kg)
  with gateway_turn_total [OF piece_os_fits one_client_ok(1,6), of "[7, 3, 99]" "\<lambda>_. []"] show ?thesis by (cases kg) auto
qed

subsection \<open>Set-up and teardown\<close>

text \<open>
  \<open>ready()\<close> is true exactly when every step of the constructor succeeded; on
  every path, failed ones included, the new gateway has a well-formed table with no clients, and its
  destructor then closes exactly the descriptors that were obtained.
\<close>

lemma gateway_setup:
  "(ready (gateway_new inb outb sock bind_rc listen_rc ep ctl_rc) \<longleftrightarrow>
            sock \<ge> 0 \<and> bind_rc \<ge> 0 \<and> listen_rc \<ge> 0 \<and> ep \<ge> 0 \<and> ctl_rc \<ge> 0)
     \<and> clients_ok (gateway_new inb outb sock bind_rc listen_rc ep ctl_rc) \<and> active_fds (gateway_new inb outb sock bind_rc listen_rc ep ctl_rc) = []
     \<and> {fd. Io_close fd \<in> set (io (gateway_destroy (gateway_new inb outb sock bind_rc listen_rc ep ctl_rc)))}
         = {fd. fd \<ge> 0 \<and> (fd = sock \<or> fd = ep \<and> sock \<ge> 0 \<and> bind_rc \<ge> 0 \<and> listen_rc \<ge> 0)}"
  by (auto simp: gateway_new_def gateway_destroy_def Let_def clients_ok_def client_ok_def client_new_def active_fds_def WIRE_MSG_SIZE_def)

end
