(* ===== verification/Exchange.thy ===== *)
theory Exchange
  imports Matching_Engine Gateway "HOL-Library.Sublist"
begin

section \<open>The exchange process\<close>

text \<open>
  Models how \<^verbatim>\<open>src/src/main.cpp\<close> puts the parts together: it builds the two rings, the engine and the gateway, gives up
  when the gateway is not ready, and otherwise runs two threads, the loop of the engine and the loop of the gateway, until a
  signal clears \<open>g_running\<close>. The threads share the rings and nothing else that either changes.

  The threads interleave (\<open>exchange_step\<close>): an iteration of the engine's loop, and in the gateway each call of \<open>epoll_wait\<close>,
  each event, each \<open>recv\<close> of \<open>read_client\<close> with the push that may follow, and each reply that \<open>drain_outbound\<close> pops and broadcasts
  are steps of their own. (Inside a step at most one item is pushed to or popped from a ring by the gateway; that a single
  push and pop may themselves overlap is the subject of \<open>Spsc_Ring\<close>.) Between steps the kernel may change in any way: bytes
  arrive, connections come and go.

  The rings are references in the code; here the two records hold copies, which \<open>share_gateway\<close> and \<open>share_engine\<close> keep equal. The fields
  \<open>h_\<close> are ghost state: the bytes received from and the messages read from the connection in each slot, the messages offered to and accepted by the
  inbound ring, the requests the engine has processed with the value of \<open>rdtsc()\<close>, and the replies broadcast with their recipients.

  What \<open>main\<close> does around the two threads (arguments, pinning, the status line, joining them) is in \<open>Exchange_Main\<close>.
\<close>

subsection \<open>State and start\<close>

datatype gateway_pc = G_wait | G_events "int list" | G_read int nat "int list" | G_drain

record 'k exchange =
  x_running :: bool
  x_engine :: MatchingEngine
  x_gateway :: Gateway
  x_pc :: gateway_pc
  x_k :: 'k
  h_stream :: "nat \<Rightarrow> u8 list"
  h_msgs :: "nat \<Rightarrow> InboundMessage list"
  h_offered :: "InboundMessage list"
  h_accepted :: "InboundMessage list"
  h_done :: "(Timestamp \<times> InboundMessage) list"
  h_sent :: "(OutboundMessage \<times> int list) list"

text \<open>The results of the system calls of the gateway's constructor are arguments; \<open>None\<close> is the exit with status 1.\<close>

definition exchange_start ::
  "(nat \<Rightarrow> InboundMessage) \<Rightarrow> (nat \<Rightarrow> OutboundMessage) \<Rightarrow> int \<Rightarrow> int \<Rightarrow> int \<Rightarrow> int \<Rightarrow> int \<Rightarrow> 'k \<Rightarrow> 'k exchange option" where
  "exchange_start junk_in junk_out sock bind_rc listen_rc ep ctl_rc k =
     (let inb = ring_new junk_in; outb = ring_new junk_out;
          e = engine_new inb outb; g = gateway_new inb outb sock bind_rc listen_rc ep ctl_rc
      in if \<not> ready g then None
         else Some \<lparr>x_running = True, x_engine = e, x_gateway = g, x_pc = G_wait, x_k = k, h_stream = (\<lambda>_. []), h_msgs = (\<lambda>_. []),
                 h_offered = [], h_accepted = [], h_done = [], h_sent = []\<rparr>)"

subsection \<open>Steps\<close>

definition share_engine :: "MatchingEngine \<Rightarrow> 'k exchange \<Rightarrow> 'k exchange" where
  "share_engine e x = x\<lparr>x_engine := e, x_gateway := (x_gateway x)\<lparr>g_inbound := inbound e, g_outbound := outbound e\<rparr>\<rparr>"

definition share_gateway :: "Gateway \<Rightarrow> 'k exchange \<Rightarrow> 'k exchange" where
  "share_gateway g x = x\<lparr>x_gateway := g, x_engine := (x_engine x)\<lparr>inbound := g_inbound g, outbound := g_outbound g\<rparr>\<rparr>"

text \<open>
  One iteration of the loop of \<open>read_client\<close>: whether it goes on, the bytes received, and the message offered to the ring
  with the outcome of the push.
\<close>

definition read_step ::
  "'k os \<Rightarrow> int \<Rightarrow> nat \<Rightarrow> 'k \<Rightarrow> Gateway \<Rightarrow> (bool \<times> u8 list \<times> (InboundMessage \<times> bool) option \<times> 'k \<times> Gateway) option" where
  "read_step os fd i k g =
     (case os_recv os fd (WIRE_MSG_SIZE - c_read_pos (clients g ! i)) k of
        (Recv_data bs, k1) \<Rightarrow> do {
          buf \<leftarrow> buf_write (c_read_buf (clients g ! i)) (c_read_pos (clients g ! i)) bs;
          let pos = c_read_pos (clients g ! i) + length bs;
          if pos \<ge> WIRE_MSG_SIZE then do {
            let g1 = upd_client i (\<lambda>c. c\<lparr>c_read_buf := buf, c_read_pos := 0\<rparr>) g;
            let (tsc, k2) = os_rdtsc os k1;
            let msg = to_inbound tsc (wire_of_bytes buf);
            let (ok, r) = ring_push RING_SIZE msg (g_inbound g1);
            Some (True, bs, Some (msg, ok), k2, g1\<lparr>g_inbound := r\<rparr>)
          } else Some (True, bs, None, k1, upd_client i (\<lambda>c. c\<lparr>c_read_buf := buf, c_read_pos := pos\<rparr>) g)
        }
      | (Recv_again, k1) \<Rightarrow> Some (False, [], None, k1, g)
      | (_, k1) \<Rightarrow> Some (False, [], None, k1, disconnect i g))"

definition offered :: "(InboundMessage \<times> bool) option \<Rightarrow> InboundMessage list" where
  "offered mo = (case mo of None \<Rightarrow> [] | Some (m, ok) \<Rightarrow> [m])"

definition accepted :: "(InboundMessage \<times> bool) option \<Rightarrow> InboundMessage list" where
  "accepted mo = (case mo of None \<Rightarrow> [] | Some (m, ok) \<Rightarrow> if ok then [m] else [])"

definition popped :: "Timestamp \<Rightarrow> InboundMessage ring \<Rightarrow> (Timestamp \<times> InboundMessage) list" where
  "popped tsc r = (case fst (ring_pop RING_SIZE r) of None \<Rightarrow> [] | Some m \<Rightarrow> [(tsc, m)])"

text \<open>Who makes a step: the kernel or a signal, or one of the two threads.\<close>

datatype actor = Environment | Engine_thread | Gateway_thread

inductive exchange_step :: "'k os \<Rightarrow> actor \<Rightarrow> 'k exchange \<Rightarrow> 'k exchange \<Rightarrow> bool" for os where
  kernel: "exchange_step os Environment x (x\<lparr>x_k := k\<rparr>)"
| signal: "exchange_step os Environment x (x\<lparr>x_running := False\<rparr>)"
| engine: "x_running x \<Longrightarrow> run_once tsc (x_engine x) = Some e \<Longrightarrow>
    exchange_step os Engine_thread x ((share_engine e x)\<lparr>h_done := h_done x @ popped tsc (inbound (x_engine x))\<rparr>)"
| wait: "x_running x \<Longrightarrow> x_pc x = G_wait \<Longrightarrow> exchange_step os Gateway_thread x (x\<lparr>x_pc := G_events fds\<rparr>)"
| accept: "x_pc x = G_events (fd # fds) \<Longrightarrow> fd = listen_fd (x_gateway x) \<Longrightarrow> accept_client os (x_k x) (x_gateway x) = (k, g) \<Longrightarrow>
    find_slot (x_gateway x) = sl \<Longrightarrow>
    exchange_step os Gateway_thread x ((share_gateway g x)\<lparr>x_k := k, x_pc := G_events fds,
      h_stream := (\<lambda>i. if sl = Some i then [] else h_stream x i), h_msgs := (\<lambda>i. if sl = Some i then [] else h_msgs x i)\<rparr>)"
| client: "x_pc x = G_events (fd # fds) \<Longrightarrow> fd \<noteq> listen_fd (x_gateway x) \<Longrightarrow> slot_for_fd fd (x_gateway x) = Some i \<Longrightarrow>
    exchange_step os Gateway_thread x (x\<lparr>x_pc := G_read fd i fds\<rparr>)"
| unknown: "x_pc x = G_events (fd # fds) \<Longrightarrow> fd \<noteq> listen_fd (x_gateway x) \<Longrightarrow> slot_for_fd fd (x_gateway x) = None \<Longrightarrow>
    exchange_step os Gateway_thread x (x\<lparr>x_pc := G_events fds\<rparr>)"
| read: "x_pc x = G_read fd i fds \<Longrightarrow> read_step os fd i (x_k x) (x_gateway x) = Some (go, bs, mo, k, g) \<Longrightarrow>
    exchange_step os Gateway_thread x ((share_gateway g x)\<lparr>x_k := k, x_pc := if go then G_read fd i fds else G_events fds,
      h_stream := (h_stream x)(i := h_stream x i @ bs), h_msgs := (h_msgs x)(i := h_msgs x i @ offered mo),
      h_offered := h_offered x @ offered mo, h_accepted := h_accepted x @ accepted mo\<rparr>)"
| drain: "x_pc x = G_events [] \<Longrightarrow> exchange_step os Gateway_thread x (x\<lparr>x_pc := G_drain\<rparr>)"
| reply: "x_pc x = G_drain \<Longrightarrow> ring_pop RING_SIZE (g_outbound (x_gateway x)) = (Some m, r) \<Longrightarrow>
    exchange_step os Gateway_thread x ((share_gateway (broadcast (to_wire m) ((x_gateway x)\<lparr>g_outbound := r\<rparr>)) x)
      \<lparr>h_sent := h_sent x @ [(m, active_fds (x_gateway x))]\<rparr>)"
| drained: "x_pc x = G_drain \<Longrightarrow> ring_pop RING_SIZE (g_outbound (x_gateway x)) = (None, r) \<Longrightarrow>
    exchange_step os Gateway_thread x ((share_gateway ((x_gateway x)\<lparr>g_outbound := r\<rparr>) x)\<lparr>x_pc := G_wait\<rparr>)"

inductive exchange_reach :: "'k os \<Rightarrow> 'k exchange \<Rightarrow> 'k exchange \<Rightarrow> bool" for os x0 where
  start: "exchange_reach os x0 x0"
| step: "exchange_reach os x0 x \<Longrightarrow> exchange_step os w x y \<Longrightarrow> exchange_reach os x0 y"

text \<open>The step of reading is the body of the loop that the gateway model iterates.\<close>

lemma read_loop_iterates:
  "read_loop os fd i k g = do { (go, bs, mo, k', g') \<leftarrow> read_step os fd i k g; if go then read_loop os fd i k' g' else Some (k', g') }"
  by (subst read_loop.simps) (auto simp: read_step_def Let_def split: recv_result.splits prod.splits option.splits if_splits Option.bind_splits)

subsection \<open>Invariant of the connections\<close>

definition decoded :: "InboundMessage \<Rightarrow> u8 list \<Rightarrow> bool" where
  "decoded m f \<longleftrightarrow> (\<exists>t. m = to_inbound t (wire_of_bytes f))"

fun is_send :: "io_event \<Rightarrow> bool" where
  "is_send (Io_send fd bs) = True"
| "is_send _ = False"

fun pc_ok :: "Gateway \<Rightarrow> gateway_pc \<Rightarrow> bool" where
  "pc_ok g (G_read fd i fds) \<longleftrightarrow> i < MAX_CLIENTS \<and> c_active (clients g ! i) \<and> c_fd (clients g ! i) = fd"
| "pc_ok g _ \<longleftrightarrow> True"

definition slot_ok :: "ClientState \<Rightarrow> u8 list \<Rightarrow> InboundMessage list \<Rightarrow> bool" where
  "slot_ok c s ms \<longleftrightarrow> (c_active c \<longrightarrow> pending c = leftover s \<and> list_all2 decoded ms (frames s))"

definition conn_inv :: "Gateway \<Rightarrow> (nat \<Rightarrow> u8 list) \<Rightarrow> (nat \<Rightarrow> InboundMessage list) \<Rightarrow> InboundMessage list \<Rightarrow> bool" where
  "conn_inv g stream msgs off \<longleftrightarrow> clients_ok g \<and> (\<forall>i<MAX_CLIENTS. slot_ok (clients g ! i) (stream i) (msgs i)) \<and> (\<forall>i. subseq (msgs i) off)"

lemma frames_append: "frames (s @ bs) = frames s @ frames (leftover s @ bs) \<and> leftover (s @ bs) = leftover (leftover s @ bs)"
proof (induction s rule: frames.induct)
  case (1 s)
  show ?case
  proof (cases "WIRE_MSG_SIZE \<le> length s")
    case True
    then have l: "length (take WIRE_MSG_SIZE s) = WIRE_MSG_SIZE" by simp
    have "s = take WIRE_MSG_SIZE s @ drop WIRE_MSG_SIZE s" by simp
    then have "frames (s @ bs) = take WIRE_MSG_SIZE s # frames (drop WIRE_MSG_SIZE s @ bs)" "leftover (s @ bs) = leftover (drop WIRE_MSG_SIZE s @ bs)"
      using frames_cons [OF l, of "drop WIRE_MSG_SIZE s @ bs"] by (metis append.assoc)+
    moreover have "frames s = take WIRE_MSG_SIZE s # frames (drop WIRE_MSG_SIZE s)" "leftover s = leftover (drop WIRE_MSG_SIZE s)"
      using frames_cons [OF l, of "drop WIRE_MSG_SIZE s"] by simp_all
    ultimately show ?thesis using 1 [OF True] by simp
  next
    case False
    then show ?thesis using frames_short [of s] by simp
  qed
qed

lemma slot_ok_more:
  assumes "slot_ok c s ms" "c_active c" "c_active c' \<longrightarrow> pending c' = leftover (pending c @ bs)" "list_all2 decoded ns (frames (pending c @ bs))"
  shows "slot_ok c' (s @ bs) (ms @ ns)"
  using assms frames_append [of s bs] by (auto simp: slot_ok_def intro: list_all2_appendI)

text \<open>The effect of one iteration of the reading loop.\<close>

definition read_effect :: "nat \<Rightarrow> Gateway \<Rightarrow> bool \<Rightarrow> u8 list \<Rightarrow> (InboundMessage \<times> bool) option \<Rightarrow> Gateway \<Rightarrow> bool" where
  "read_effect i g go bs mo g' \<longleftrightarrow> clients_ok g' \<and> (\<forall>j. j \<noteq> i \<longrightarrow> clients g' ! j = clients g ! j)
     \<and> g_outbound g' = g_outbound g \<and> filter is_send (io g') = filter is_send (io g)
     \<and> (go \<longrightarrow> c_active (clients g' ! i) \<and> c_fd (clients g' ! i) = c_fd (clients g ! i))
     \<and> (c_active (clients g' ! i) \<longrightarrow> pending (clients g' ! i) = leftover (pending (clients g ! i) @ bs))
     \<and> list_all2 decoded (offered mo) (frames (pending (clients g ! i) @ bs))
     \<and> (case mo of None \<Rightarrow> g_inbound g' = g_inbound g | Some (m, ok) \<Rightarrow> ring_push RING_SIZE m (g_inbound g) = (ok, g_inbound g'))"

lemma read_step_stop:
  assumes "clients_ok g" "i < MAX_CLIENTS"
  shows "read_effect i g False [] None g" "read_effect i g False [] None (disconnect i g)"
proof -
  have ok: "client_ok (clients g ! i)" by (rule clients_okD [OF assms])
  then have sh: "frames (pending (clients g ! i)) = []" "leftover (pending (clients g ! i)) = pending (clients g ! i)"
    using frames_short [of "pending (clients g ! i)"] by (simp_all add: client_ok_def pending_def)
  then show "read_effect i g False [] None g" using assms by (simp add: read_effect_def offered_def)
  have "clients_ok (disconnect i g)"
    unfolding disconnect_def Let_def using assms ok by (intro clients_ok_upd) (simp_all add: clients_ok_def client_ok_def)
  with sh assms show "read_effect i g False [] None (disconnect i g)"
    by (simp add: read_effect_def offered_def disconnect_def Let_def clients_ok_def)
qed

lemma read_step_effect:
  assumes "recv_fits os" "clients_ok g" "i < MAX_CLIENTS" "c_active (clients g ! i)"
  shows "\<exists>go bs mo k' g'. read_step os fd i k g = Some (go, bs, mo, k', g') \<and> read_effect i g go bs mo g'"
proof -
  let ?c = "clients g ! i" and ?n = "WIRE_MSG_SIZE - c_read_pos (clients g ! i)"
  have ok: "length (c_read_buf ?c) = WIRE_MSG_SIZE" "c_read_pos ?c < WIRE_MSG_SIZE" "c_fd ?c \<ge> 0"
    using clients_okD [OF assms(2,3)] assms(4) by (simp_all add: client_ok_def)
  have len: "i < length (clients g)" using assms(2,3) by (simp add: clients_ok_def)
  obtain res k1 where r: "os_recv os fd ?n k = (res, k1)" by fastforce
  note stop = read_step_stop [OF assms(2,3)]
  show ?thesis
  proof (cases res)
    case (Recv_data bs)
    have fit: "c_read_pos ?c + length bs \<le> WIRE_MSG_SIZE"
      using assms(1) r ok(2) unfolding recv_fits_def Recv_data by (metis add.commute le_diff_conv2 less_imp_le zero_less_diff)
    obtain buf where b: "buf_write (c_read_buf ?c) (c_read_pos ?c) bs = Some buf" "length buf = WIRE_MSG_SIZE"
      "take (c_read_pos ?c + length bs) buf = pending ?c @ bs"
      by (rule buf_write_pending [OF ok(1) fit]) (simp add: pending_def)
    have lp: "length (pending ?c) = c_read_pos ?c" using ok by (simp add: pending_def)
    show ?thesis
    proof (cases "c_read_pos ?c + length bs \<ge> WIRE_MSG_SIZE")
      case True
      obtain tsc k2 where t: "os_rdtsc os k1 = (tsc, k2)" by fastforce
      let ?m = "to_inbound tsc (wire_of_bytes buf)" and ?g1 = "upd_client i (\<lambda>c. c\<lparr>c_read_buf := buf, c_read_pos := 0\<rparr>) g"
      obtain pushed rg where p: "ring_push RING_SIZE ?m (g_inbound g) = (pushed, rg)" by fastforce
      have full: "pending ?c @ bs = buf" using b(2,3) True fit by simp
      have "clients_ok ?g1" using b(2) ok by (intro clients_ok_upd [OF assms(2,3)]) (simp add: client_ok_def)
      then have c: "clients_ok (?g1\<lparr>g_inbound := rg\<rparr>)" by (simp add: clients_ok_def)
      have f: "frames buf = [buf]" "leftover buf = []" using frames_cons [OF b(2), of "[]"] frames_short [of "[]"] by (simp_all add: WIRE_MSG_SIZE_def)
      have "read_effect i g True bs (Some (?m, pushed)) (?g1\<lparr>g_inbound := rg\<rparr>)"
        using c len p f full assms(4) by (auto simp: read_effect_def offered_def decoded_def pending_def)
      with True r b(1) t p show ?thesis by (auto simp: read_step_def Recv_data)
    next
      case False
      let ?g1 = "upd_client i (\<lambda>c. c\<lparr>c_read_buf := buf, c_read_pos := c_read_pos ?c + length bs\<rparr>) g"
      have c: "clients_ok ?g1" using False b(2) ok by (intro clients_ok_upd [OF assms(2,3)]) (simp add: client_ok_def)
      have "length (pending ?c @ bs) < WIRE_MSG_SIZE" using False lp by simp
      from frames_short [OF this] c len b(3) assms(4) have "read_effect i g True bs None ?g1"
        by (simp add: read_effect_def offered_def pending_def)
      with False r b(1) show ?thesis by (auto simp: read_step_def Recv_data)
    qed
  qed (use r stop in \<open>auto simp: read_step_def\<close>)
qed

subsection \<open>Invariant of the rings and of the engine\<close>

definition spec_start :: spec_engine where
  "spec_start = \<lparr>se_book = (\<lambda>_. []), se_next = 1, se_match = 1\<rparr>"

text \<open>The replies that the abstract engine gives to the processed requests.\<close>

definition replies :: "(Timestamp \<times> InboundMessage) list \<Rightarrow> OutboundMessage list" where
  "replies dn = snd (spec_run MAX_ORDERS dn spec_start)"

definition in_inv :: "InboundMessage ring \<Rightarrow> InboundMessage list \<Rightarrow> InboundMessage list \<Rightarrow> (Timestamp \<times> InboundMessage) list \<Rightarrow> bool" where
  "in_inv r acc off dn \<longleftrightarrow> ring_ok RING_SIZE r \<and> acc = map snd dn @ contents RING_SIZE r \<and> subseq acc off
     \<and> (length off \<le> RING_SIZE \<longrightarrow> acc = off) \<and> 2 ^ 64 - 1 \<le> pushes_left r + length off"

definition out_inv :: "MatchingEngine \<Rightarrow> (Timestamp \<times> InboundMessage) list \<Rightarrow> OutboundMessage list \<Rightarrow> bool" where
  "out_inv e dn snt \<longleftrightarrow> engine_ok e \<and> fst (spec_run MAX_ORDERS dn spec_start) = engine_abs e
     \<and> unat (next_id e) \<le> Suc (length dn) \<and> subseq (snt @ contents RING_SIZE (outbound e)) (replies dn)
     \<and> (length (replies dn) \<le> RING_SIZE \<longrightarrow> snt @ contents RING_SIZE (outbound e) = replies dn)
     \<and> 2 ^ 64 - 1 \<le> pushes_left (outbound e) + length (replies dn)"

lemma spec_run_snoc:
  "spec_run cap (xs @ [y]) S = (case spec_run cap xs S of (S1, ms) \<Rightarrow> case spec_process cap (fst y) (snd y) S1 of (S2, ns) \<Rightarrow> (S2, ms @ ns))"
  by (induction xs arbitrary: S) (auto split: prod.splits)

lemma in_inv_push:
  assumes "in_inv r acc off dn" "Suc (length off) < 2 ^ 64" "ring_push RING_SIZE m r = (ok, r')"
  shows "in_inv r' (acc @ (if ok then [m] else [])) (off @ [m]) dn"
proof -
  from assms have r: "ring_ok RING_SIZE r" "pushes_left r \<noteq> 0" by (auto simp: in_inv_def)
  from rq.push_law [OF r, of m] assms(3) have p: "ok \<longleftrightarrow> length (contents RING_SIZE r) < RING_SIZE" "ring_ok RING_SIZE r'"
    "contents RING_SIZE r' = (if ok then contents RING_SIZE r @ [m] else contents RING_SIZE r)" "pushes_left r \<le> Suc (pushes_left r')" by auto
  have a: "acc = map snd dn @ contents RING_SIZE r" "subseq acc off" "length off \<le> RING_SIZE \<longrightarrow> acc = off"
    using assms(1) unfolding in_inv_def by blast+
  have full: "ok" if "length (off @ [m]) \<le> RING_SIZE"
  proof -
    have "length (map snd dn @ contents RING_SIZE r) < RING_SIZE" using that a by simp
    then show ?thesis unfolding p(1) by (simp del: length_contents)
  qed
  have "subseq (acc @ (if ok then [m] else [])) (off @ [m])" using a(2) by (auto intro: list_emb_append_mono subseq_rev_drop_many)
  with p a full assms(1) show ?thesis by (auto simp: in_inv_def simp del: length_contents)
qed

lemma in_inv_pop:
  assumes "in_inv r acc off dn" "ring_pop RING_SIZE r = (mo, r')"
  shows "in_inv r' acc off (dn @ popped tsc r)"
proof -
  from assms(1) have r: "ring_ok RING_SIZE r" by (simp add: in_inv_def)
  from rq.pop_law [OF r] assms(2) have "mo = (case contents RING_SIZE r of [] \<Rightarrow> None | x # _ \<Rightarrow> Some x)" "ring_ok RING_SIZE r'"
    "contents RING_SIZE r' = tl (contents RING_SIZE r)" "pushes_left r' = pushes_left r" by auto
  with assms show ?thesis by (cases "contents RING_SIZE r") (auto simp: in_inv_def popped_def)
qed

lemma out_inv_pop:
  assumes "out_inv e dn snt" "ring_pop RING_SIZE (outbound e) = (mo, r')"
  shows "out_inv (e\<lparr>outbound := r'\<rparr>) dn (snt @ (case mo of None \<Rightarrow> [] | Some m \<Rightarrow> [m]))"
proof -
  from assms(1) have r: "ring_ok RING_SIZE (outbound e)" by (simp add: out_inv_def engine_ok_def)
  from rq.pop_law [OF r] assms(2) have "mo = (case contents RING_SIZE (outbound e) of [] \<Rightarrow> None | x # _ \<Rightarrow> Some x)" "ring_ok RING_SIZE r'"
    "contents RING_SIZE r' = tl (contents RING_SIZE (outbound e))" "pushes_left r' = pushes_left (outbound e)" by auto
  with assms(1) show ?thesis
    by (cases "contents RING_SIZE (outbound e)") (auto simp: out_inv_def engine_ok_def engine_abs_def)
qed

lemma out_inv_inbound: "out_inv e dn snt \<Longrightarrow> ring_ok RING_SIZE r \<Longrightarrow> out_inv (e\<lparr>inbound := r\<rparr>) dn snt"
  by (simp add: out_inv_def engine_ok_def engine_abs_def)

lemma out_inv_process:
  assumes "out_inv e dn snt" "process tsc m e = Some e'" "Suc (length dn) < MAX_ORDERS" "length (replies (dn @ [(tsc, m)])) < 2 ^ 64"
  shows "out_inv e' (dn @ [(tsc, m)]) snt \<and> inbound e' = inbound e
    \<and> (\<exists>ms. replies (dn @ [(tsc, m)]) = replies dn @ ms
         \<and> contents RING_SIZE (outbound e') = contents RING_SIZE (outbound e) @ take (RING_SIZE - length (contents RING_SIZE (outbound e))) ms)"
proof -
  let ?c = "contents RING_SIZE (outbound e)"
  note o = assms(1) [unfolded out_inv_def]
  from o have ok: "engine_ok e" and id: "unat (next_id e) < MAX_ORDERS" using assms(3) by auto
  obtain S ms where sp: "spec_process MAX_ORDERS tsc m (engine_abs e) = (S, ms)" by fastforce
  from o sp have sr: "spec_run MAX_ORDERS (dn @ [(tsc, m)]) spec_start = (S, replies dn @ ms)"
    by (auto simp: spec_run_snoc replies_def split: prod.splits)
  then have rep: "replies (dn @ [(tsc, m)]) = replies dn @ ms" by (simp add: replies_def)
  then have "length ms \<le> pushes_left (outbound e)" using o assms(4) by auto
  from process_spec [OF ok id sp this] assms(2) have e': "engine_ok e'" "engine_abs e' = S" "inbound e' = inbound e"
    "contents RING_SIZE (outbound e') = ?c @ take (RING_SIZE - length ?c) ms" "pushes_left (outbound e) \<le> pushes_left (outbound e') + length ms" by auto
  have "next_id e' = next_id e \<or> next_id e' = next_id e + 1" using spec_process_next [OF sp] e'(2) by (auto simp: engine_abs_def)
  moreover have "unat (next_id e + 1) = Suc (unat (next_id e))" using id by (intro unat_succ_u64) (simp add: MAX_ORDERS_def)
  ultimately have n: "unat (next_id e') \<le> Suc (Suc (length dn))" using o by auto
  have "subseq (take (RING_SIZE - length ?c) ms) ms" by (metis append_take_drop_id list_emb_append2 prefix_imp_subseq take_is_prefix)
  then have sub: "subseq (snt @ ?c @ take (RING_SIZE - length ?c) ms) (replies dn @ ms)" using o by (metis append.assoc list_emb_append_mono)
  have all: "take (RING_SIZE - length ?c) ms = ms" if "length (replies dn @ ms) \<le> RING_SIZE"
  proof -
    have "snt @ ?c = replies dn" using o that by simp
    then have "length snt + length ?c + length ms \<le> RING_SIZE" using that by (metis length_append)
    then show ?thesis by simp
  qed
  have "2 ^ 64 - 1 \<le> pushes_left (outbound e') + length (replies dn @ ms)" using o e'(5) by auto
  moreover have "snt @ ?c @ take (RING_SIZE - length ?c) ms = replies dn @ ms" if "length (replies dn @ ms) \<le> RING_SIZE"
  proof -
    have "snt @ ?c = replies dn" using o that by simp
    then show ?thesis using all [OF that] by (metis append.assoc)
  qed
  ultimately have "out_inv e' (dn @ [(tsc, m)]) snt" using e'(1-4) sr rep n sub by (simp add: out_inv_def)
  with e'(3,4) rep show ?thesis by blast
qed

subsection \<open>Invariant of the process\<close>

definition send_events :: "OutboundMessage \<times> int list \<Rightarrow> io_event list" where
  "send_events d = map (\<lambda>fd. Io_send fd (wire_bytes (to_wire (fst d)))) (snd d)"

definition exchange_inv :: "'k exchange \<Rightarrow> bool" where
  "exchange_inv x \<longleftrightarrow> inbound (x_engine x) = g_inbound (x_gateway x) \<and> outbound (x_engine x) = g_outbound (x_gateway x)
     \<and> conn_inv (x_gateway x) (h_stream x) (h_msgs x) (h_offered x) \<and> pc_ok (x_gateway x) (x_pc x)
     \<and> in_inv (g_inbound (x_gateway x)) (h_accepted x) (h_offered x) (h_done x)
     \<and> out_inv (x_engine x) (h_done x) (map fst (h_sent x))
     \<and> filter is_send (io (x_gateway x)) = concat (map send_events (h_sent x))"

text \<open>The bounds under which neither the order identifiers nor the ring indices run out.\<close>

definition within_limits :: "'k exchange \<Rightarrow> bool" where
  "within_limits x \<longleftrightarrow> Suc (length (h_done x)) < MAX_ORDERS \<and> length (h_offered x) < 2 ^ 64 \<and> length (replies (h_done x)) < 2 ^ 64"

lemma replies_append: "length (replies dn) \<le> length (replies (dn @ xs))"
proof (induction xs rule: rev_induct)
  case (snoc y xs)
  have "length (replies (dn @ xs)) \<le> length (replies ((dn @ xs) @ [y]))"
    unfolding replies_def spec_run_snoc by (auto split: prod.splits)
  with snoc show ?case by simp
qed simp

lemma within_limits_mono: "exchange_step os w x y \<Longrightarrow> within_limits y \<Longrightarrow> within_limits x"
  by (cases rule: exchange_step.cases) (auto simp: within_limits_def share_engine_def share_gateway_def intro: le_less_trans [OF replies_append])

lemma conn_inv_rings:
  "conn_inv (g\<lparr>g_inbound := a\<rparr>) s m f = conn_inv g s m f" "conn_inv (g\<lparr>g_outbound := b\<rparr>) s m f = conn_inv g s m f"
  "conn_inv (g\<lparr>io := t\<rparr>) s m f = conn_inv g s m f"
  by (simp_all add: conn_inv_def clients_ok_def)

lemma engine_rings_id: "a = inbound e \<Longrightarrow> b = outbound e \<Longrightarrow> e\<lparr>inbound := a, outbound := b\<rparr> = e"
  by (cases e) simp

lemma pc_ok_clients: "clients g' = clients g \<Longrightarrow> pc_ok g' pc = pc_ok g pc"
  by (cases pc) auto

text \<open>
  What a step may lose: the messages it offers to the inbound ring and the replies it gives to the outbound ring are kept as far as the ring, filled as it is at that moment,
  has free cells.
\<close>

abbreviation in_ring :: "'k exchange \<Rightarrow> InboundMessage list" where
  "in_ring x \<equiv> contents RING_SIZE (g_inbound (x_gateway x))"

abbreviation out_ring :: "'k exchange \<Rightarrow> OutboundMessage list" where
  "out_ring x \<equiv> contents RING_SIZE (g_outbound (x_gateway x))"

definition keeps_what_fits :: "'k exchange \<Rightarrow> 'k exchange \<Rightarrow> bool" where
  "keeps_what_fits x y \<longleftrightarrow>
     (\<exists>ms. h_offered y = h_offered x @ ms \<and> h_accepted y = h_accepted x @ take (RING_SIZE - length (in_ring x)) ms)
     \<and> (\<exists>ns. replies (h_done y) = replies (h_done x) @ ns
          \<and> map fst (h_sent y) @ out_ring y = (map fst (h_sent x) @ out_ring x) @ take (RING_SIZE - length (out_ring x)) ns)"

lemma keeps_what_fits_same:
  assumes "h_offered y = h_offered x" "h_accepted y = h_accepted x" "h_done y = h_done x" "map fst (h_sent y) @ out_ring y = map fst (h_sent x) @ out_ring x"
  shows "keeps_what_fits x y"
  using assms by (auto simp: keeps_what_fits_def intro: exI [of _ "[]"])

lemma exchange_inv_engine:
  assumes "exchange_inv x" "run_once tsc (x_engine x) = Some e" "within_limits y"
    "y = (share_engine e x)\<lparr>h_done := h_done x @ popped tsc (inbound (x_engine x))\<rparr>"
  shows "exchange_inv y \<and> keeps_what_fits x y"
proof -
  note i = assms(1) [unfolded exchange_inv_def]
  obtain mo r where p: "ring_pop RING_SIZE (inbound (x_engine x)) = (mo, r)" by fastforce
  let ?dn = "h_done x @ popped tsc (inbound (x_engine x))" and ?e1 = "(x_engine x)\<lparr>inbound := r\<rparr>"
  have "in_inv (inbound (x_engine x)) (h_accepted x) (h_offered x) (h_done x)" using i by simp
  then have in1: "in_inv r (h_accepted x) (h_offered x) ?dn" by (rule in_inv_pop [OF _ p])
  then have "ring_ok RING_SIZE r" by (simp add: in_inv_def)
  then have out1: "out_inv ?e1 (h_done x) (map fst (h_sent x))" using out_inv_inbound i by blast
  have e: "out_inv e ?dn (map fst (h_sent x)) \<and> inbound e = r \<and> (\<exists>ms. replies ?dn = replies (h_done x) @ ms
      \<and> contents RING_SIZE (outbound e) = contents RING_SIZE (outbound (x_engine x)) @ take (RING_SIZE - length (contents RING_SIZE (outbound (x_engine x)))) ms)"
  proof (cases mo)
    case None
    with p assms(2) out1 show ?thesis by (auto simp: run_once_def popped_def intro: exI [of _ "[]"])
  next
    case (Some m)
    with p assms(2) have pr: "process tsc m ?e1 = Some e" and dn: "?dn = h_done x @ [(tsc, m)]" by (auto simp: run_once_def popped_def)
    have "Suc (length (h_done x)) < MAX_ORDERS" "length (replies (h_done x @ [(tsc, m)])) < 2 ^ 64"
      using assms(3) unfolding assms(4) within_limits_def by (simp_all add: dn)
    from out_inv_process [OF out1 pr this] dn show ?thesis by simp
  qed
  with i in1 pc_ok_clients [of "(x_gateway x)\<lparr>g_inbound := inbound e, g_outbound := outbound e\<rparr>" "x_gateway x"] have "exchange_inv y"
    unfolding assms(4) by (simp add: exchange_inv_def share_engine_def conn_inv_rings)
  moreover have "outbound (x_engine x) = g_outbound (x_gateway x)" using i by simp
  with e have "keeps_what_fits x y" unfolding assms(4) by (auto simp: keeps_what_fits_def share_engine_def intro: exI [of _ "[]"])
  ultimately show ?thesis ..
qed

lemma accept_client_cases:
  assumes "clients_ok g" "accept_client os k g = (k', g')"
  shows "g_inbound g' = g_inbound g \<and> g_outbound g' = g_outbound g \<and> filter is_send (io g') = filter is_send (io g) \<and> clients_ok g'
    \<and> (clients g' = clients g \<or> (\<exists>i c. find_slot g = Some i \<and> clients g' = (clients g)[i := c] \<and> pending c = []))"
proof -
  obtain fd k1 where a: "os_accept os k = (fd, k1)" by fastforce
  show ?thesis
  proof (cases "fd \<ge> 0")
    case True
    have "filter is_send (io g') = filter is_send (io g)" using assms(2) a by (auto simp: accept_client_def Let_def split: option.splits if_splits)
    moreover have "g_inbound g' = g_inbound g" "g_outbound g' = g_outbound g" "clients_ok g'" using accept_correct [OF assms(1) a True] assms(2) by auto
    moreover have "clients g' = clients g \<or> (\<exists>i c. find_slot g = Some i \<and> clients g' = (clients g)[i := c] \<and> pending c = [])"
      using accept_correct [OF assms(1) a True] assms(2) by (cases "find_slot g") (auto simp: pending_def intro!: exI)
    ultimately show ?thesis by blast
  next
    case False
    with a assms show ?thesis by (auto simp: accept_client_def)
  qed
qed

lemma exchange_inv_accept:
  assumes "exchange_inv x" "accept_client os (x_k x) (x_gateway x) = (k, g)"
  shows "exchange_inv ((share_gateway g x)\<lparr>x_k := k, x_pc := G_events fds,
      h_stream := (\<lambda>i. if find_slot (x_gateway x) = Some i then [] else h_stream x i), h_msgs := (\<lambda>i. if find_slot (x_gateway x) = Some i then [] else h_msgs x i)\<rparr>)"
proof -
  note i = assms(1) [unfolded exchange_inv_def]
  then have c: "clients_ok (x_gateway x)" "\<And>i. i < MAX_CLIENTS \<Longrightarrow> slot_ok (clients (x_gateway x) ! i) (h_stream x i) (h_msgs x i)"
    "\<And>i. subseq (h_msgs x i) (h_offered x)" by (simp_all add: conn_inv_def)
  note a = accept_client_cases [OF c(1) assms(2)]
  let ?free = "\<lambda>i. find_slot (x_gateway x) = Some i"
  have fr: "frames [] = []" "leftover [] = []" using frames_short [of "[]"] by (simp_all add: WIRE_MSG_SIZE_def)
  have len: "length (clients (x_gateway x)) = MAX_CLIENTS" using c(1) by (simp add: clients_ok_def)
  have "slot_ok (clients g ! i) (if ?free i then [] else h_stream x i) (if ?free i then [] else h_msgs x i)" if "i < MAX_CLIENTS" for i
  proof (cases "?free i")
    case True
    then have "\<not> c_active (clients (x_gateway x) ! i)" by (simp add: find_slot_Some)
    with True a that len fr show ?thesis by (auto simp: slot_ok_def nth_list_update)
  next
    case False
    with a have "clients g ! i = clients (x_gateway x) ! i" by (auto simp: nth_list_update)
    with False c(2) [OF that] show ?thesis by simp
  qed
  with c(3) a have "conn_inv g (\<lambda>i. if ?free i then [] else h_stream x i) (\<lambda>i. if ?free i then [] else h_msgs x i) (h_offered x)"
    by (simp add: conn_inv_def)
  moreover have "out_inv ((x_engine x)\<lparr>inbound := g_inbound g, outbound := g_outbound g\<rparr>) (h_done x) (map fst (h_sent x))"
    using i a by (simp add: engine_rings_id)
  moreover have "in_inv (g_inbound g) (h_accepted x) (h_offered x) (h_done x)" "filter is_send (io g) = concat (map send_events (h_sent x))" using i a by auto
  ultimately show ?thesis by (simp add: exchange_inv_def share_gateway_def)
qed

lemma exchange_inv_read:
  assumes "recv_fits os" "exchange_inv x" "x_pc x = G_read fd i fds" "read_step os fd i (x_k x) (x_gateway x) = Some (go, bs, mo, k, g)"
    "length (h_offered x @ offered mo) < 2 ^ 64"
  shows "exchange_inv ((share_gateway g x)\<lparr>x_k := k, x_pc := if go then G_read fd i fds else G_events fds,
      h_stream := (h_stream x)(i := h_stream x i @ bs), h_msgs := (h_msgs x)(i := h_msgs x i @ offered mo),
      h_offered := h_offered x @ offered mo, h_accepted := h_accepted x @ accepted mo\<rparr>)"
proof -
  note v = assms(2) [unfolded exchange_inv_def]
  then have c: "clients_ok (x_gateway x)" "\<And>i. i < MAX_CLIENTS \<Longrightarrow> slot_ok (clients (x_gateway x) ! i) (h_stream x i) (h_msgs x i)"
    "\<And>i. subseq (h_msgs x i) (h_offered x)" by (simp_all add: conn_inv_def)
  have pc: "i < MAX_CLIENTS" "c_active (clients (x_gateway x) ! i)" "c_fd (clients (x_gateway x) ! i) = fd" using v assms(3) by simp_all
  have ef: "read_effect i (x_gateway x) go bs mo g" using read_step_effect [OF assms(1) c(1) pc(1,2), of fd "x_k x"] assms(4) by auto
  have "slot_ok (clients g ! i) (h_stream x i @ bs) (h_msgs x i @ offered mo)"
    using ef by (intro slot_ok_more [OF c(2) [OF pc(1)] pc(2)]) (simp_all add: read_effect_def)
  moreover have "subseq (h_msgs x i @ offered mo) (h_offered x @ offered mo)" "subseq (h_msgs x j) (h_offered x @ offered mo)" for j
    using c(3) by (auto intro: list_emb_append_mono list_emb_prefix)
  moreover have "clients_ok g" "\<And>j. j \<noteq> i \<Longrightarrow> clients g ! j = clients (x_gateway x) ! j" using ef by (simp_all add: read_effect_def)
  ultimately have conn: "conn_inv g ((h_stream x)(i := h_stream x i @ bs)) ((h_msgs x)(i := h_msgs x i @ offered mo)) (h_offered x @ offered mo)"
    using c(2) by (simp add: conn_inv_def)
  have inv0: "in_inv (g_inbound (x_gateway x)) (h_accepted x) (h_offered x) (h_done x)" using v by simp
  have inn: "in_inv (g_inbound g) (h_accepted x @ accepted mo) (h_offered x @ offered mo) (h_done x)"
  proof (cases mo)
    case None
    with inv0 ef show ?thesis by (simp add: read_effect_def offered_def accepted_def)
  next
    case (Some p)
    obtain m ok where p: "p = (m, ok)" by force
    with ef Some have "ring_push RING_SIZE m (g_inbound (x_gateway x)) = (ok, g_inbound g)" by (simp add: read_effect_def)
    with in_inv_push [OF inv0 _ this] assms(5) show ?thesis by (simp add: Some p offered_def accepted_def)
  qed
  have "outbound (x_engine x) = g_outbound g" using v ef by (simp add: read_effect_def)
  then have "(x_engine x)\<lparr>inbound := g_inbound g, outbound := g_outbound g\<rparr> = (x_engine x)\<lparr>inbound := g_inbound g\<rparr>" by (cases "x_engine x") simp
  moreover have "out_inv ((x_engine x)\<lparr>inbound := g_inbound g\<rparr>) (h_done x) (map fst (h_sent x))"
    using v inn by (intro out_inv_inbound) (simp_all add: in_inv_def)
  ultimately have "out_inv ((x_engine x)\<lparr>inbound := g_inbound g, outbound := g_outbound g\<rparr>) (h_done x) (map fst (h_sent x))" by (simp only:)
  moreover have "filter is_send (io g) = concat (map send_events (h_sent x))" using v ef by (simp add: read_effect_def)
  moreover have "pc_ok g (if go then G_read fd i fds else G_events fds)" using ef pc by (simp add: read_effect_def)
  ultimately show ?thesis using conn inn by (simp add: exchange_inv_def share_gateway_def)
qed

lemma read_keeps_what_fits:
  assumes "recv_fits os" "exchange_inv x" "x_pc x = G_read fd i fds" "read_step os fd i (x_k x) (x_gateway x) = Some (go, bs, mo, k, g)"
    "length (h_offered x @ offered mo) < 2 ^ 64" "h_offered y = h_offered x @ offered mo" "h_accepted y = h_accepted x @ accepted mo"
    "h_done y = h_done x" "h_sent y = h_sent x" "g_outbound (x_gateway y) = g_outbound g"
  shows "keeps_what_fits x y"
proof -
  note v = assms(2) [unfolded exchange_inv_def]
  then have c: "clients_ok (x_gateway x)" and pc: "i < MAX_CLIENTS" "c_active (clients (x_gateway x) ! i)" and inv0: "in_inv (g_inbound (x_gateway x)) (h_accepted x) (h_offered x) (h_done x)"
    using assms(3) by (simp_all add: conn_inv_def)
  have ef: "read_effect i (x_gateway x) go bs mo g" using read_step_effect [OF assms(1) c pc, of fd "x_k x"] assms(4) by auto
  have "accepted mo = take (RING_SIZE - length (in_ring x)) (offered mo)"
  proof (cases mo)
    case (Some p)
    obtain m ok where p: "p = (m, ok)" by force
    with ef Some have push: "ring_push RING_SIZE m (g_inbound (x_gateway x)) = (ok, g_inbound g)" by (simp add: read_effect_def)
    have "ring_ok RING_SIZE (g_inbound (x_gateway x))" "pushes_left (g_inbound (x_gateway x)) \<noteq> 0"
      using inv0 assms(5) by (auto simp: in_inv_def Some p offered_def)
    from rq.push_law [OF this, of m] push have "ok \<longleftrightarrow> length (in_ring x) < RING_SIZE" by auto
    then show ?thesis by (auto simp: Some p offered_def accepted_def simp del: length_contents)
  qed (simp add: accepted_def offered_def)
  moreover have "g_outbound g = g_outbound (x_gateway x)" using ef by (simp add: read_effect_def)
  ultimately show ?thesis using assms(6-) by (auto simp: keeps_what_fits_def intro: exI [of _ "[]"])
qed

lemma exchange_inv_pop:
  assumes "exchange_inv x" "x_pc x = G_drain" "ring_pop RING_SIZE (g_outbound (x_gateway x)) = (mo, r)" "g_inbound g = g_inbound (x_gateway x)"
    "g_outbound g = r" "clients g = clients (x_gateway x)" "pc_ok g pc" "dl = (case mo of None \<Rightarrow> [] | Some m \<Rightarrow> [(m, active_fds (x_gateway x))])"
    "io g = io (x_gateway x) @ concat (map send_events dl)"
  shows "exchange_inv ((share_gateway g x)\<lparr>x_pc := pc, h_sent := h_sent x @ dl\<rparr>)"
proof -
  note v = assms(1) [unfolded exchange_inv_def]
  have "out_inv ((x_engine x)\<lparr>outbound := r\<rparr>) (h_done x) (map fst (h_sent x) @ (case mo of None \<Rightarrow> [] | Some m \<Rightarrow> [m]))"
    using v assms(3) by (intro out_inv_pop) simp_all
  moreover have "map fst (h_sent x @ dl) = map fst (h_sent x) @ (case mo of None \<Rightarrow> [] | Some m \<Rightarrow> [m])" by (simp add: assms(8) split: option.split)
  moreover have "inbound (x_engine x) = g_inbound g" using v assms(4) by simp
  then have "(x_engine x)\<lparr>inbound := g_inbound g, outbound := g_outbound g\<rparr> = (x_engine x)\<lparr>outbound := r\<rparr>" using assms(5) by (cases "x_engine x") simp
  ultimately have "out_inv ((x_engine x)\<lparr>inbound := g_inbound g, outbound := g_outbound g\<rparr>) (h_done x) (map fst (h_sent x @ dl))" by (simp only:)
  moreover have "conn_inv g (h_stream x) (h_msgs x) (h_offered x)" using v assms(6) by (simp add: conn_inv_def clients_ok_def)
  moreover have "filter is_send (concat (map send_events ds)) = concat (map send_events ds)" for ds
    by (induction ds) (auto simp: send_events_def filter_map comp_def)
  then have "filter is_send (io g) = concat (map send_events (h_sent x @ dl))" using v assms(9) by simp
  moreover have "in_inv (g_inbound g) (h_accepted x) (h_offered x) (h_done x)" using v assms(4) by simp
  ultimately show ?thesis using assms(7) by (simp add: exchange_inv_def share_gateway_def)
qed

lemma exchange_step_inv:
  assumes "recv_fits os" "exchange_step os w x y" "exchange_inv x" "within_limits y"
  shows "exchange_inv y"
  using assms(2)
proof (cases rule: exchange_step.cases)
  case (kernel k)
  with assms(3) show ?thesis by (simp add: exchange_inv_def)
next
  case signal
  with assms(3) show ?thesis by (simp add: exchange_inv_def)
next
  case (engine tsc e)
  with exchange_inv_engine [OF assms(3) engine(4) assms(4)] show ?thesis by simp
next
  case (wait fds)
  with assms(3) show ?thesis by (simp add: exchange_inv_def)
next
  case (accept fd fds k g sl)
  with exchange_inv_accept [OF assms(3) accept(5), of fds] show ?thesis by simp
next
  case (client fd fds i)
  with assms(3) show ?thesis by (simp add: exchange_inv_def slot_for_fd_Some)
next
  case (unknown fd fds)
  with assms(3) show ?thesis by (simp add: exchange_inv_def)
next
  case (read fd i fds go bs mo k g)
  then have "length (h_offered x @ offered mo) < 2 ^ 64" using assms(4) by (simp add: within_limits_def)
  with exchange_inv_read [OF assms(1,3) read(3,4)] read(1,2) show ?thesis by simp
next
  case drain
  with assms(3) show ?thesis by (simp add: exchange_inv_def)
next
  case (reply m r)
  let ?g = "broadcast (to_wire m) ((x_gateway x)\<lparr>g_outbound := r\<rparr>)"
  have "clients_ok ((x_gateway x)\<lparr>g_outbound := r\<rparr>)" using assms(3) by (simp add: exchange_inv_def conn_inv_def clients_ok_def)
  note b = broadcast_correct [OF this, of "to_wire m"]
  have "exchange_inv ((share_gateway ?g x)\<lparr>x_pc := G_drain, h_sent := h_sent x @ [(m, active_fds (x_gateway x))]\<rparr>)"
    by (rule exchange_inv_pop [OF assms(3) reply(3,4)]) (simp_all add: b send_events_def active_fds_def)
  with reply show ?thesis by (simp add: share_gateway_def exchange_inv_def)
next
  case (drained r)
  let ?g = "(x_gateway x)\<lparr>g_outbound := r\<rparr>"
  have "exchange_inv ((share_gateway ?g x)\<lparr>x_pc := G_wait, h_sent := h_sent x @ []\<rparr>)"
    by (rule exchange_inv_pop [OF assms(3) drained(3,4)]) simp_all
  with drained show ?thesis by (simp add: share_gateway_def)
qed

lemma exchange_step_keeps:
  assumes "recv_fits os" "exchange_step os w x y" "exchange_inv x" "within_limits y"
  shows "keeps_what_fits x y"
proof -
  have ok: "ring_ok RING_SIZE (g_outbound (x_gateway x))" using assms(3) by (auto simp: exchange_inv_def out_inv_def engine_ok_def)
  have pop: "(case mo of None \<Rightarrow> [] | Some m \<Rightarrow> [m]) @ contents RING_SIZE r = out_ring x" if "ring_pop RING_SIZE (g_outbound (x_gateway x)) = (mo, r)" for mo r
    using rq.pop_law [OF ok] that by (cases "out_ring x") auto
  have cl: "clients_ok (x_gateway x)" using assms(3) by (simp add: exchange_inv_def conn_inv_def)
  show ?thesis
    using assms(2)
  proof (cases rule: exchange_step.cases)
    case (engine tsc e)
    with exchange_inv_engine [OF assms(3) engine(4) assms(4)] show ?thesis by simp
  next
    case (accept fd fds k g sl)
    with accept_client_cases [OF cl accept(5)] show ?thesis by (intro keeps_what_fits_same) (simp_all add: share_gateway_def)
  next
    case (read fd i fds go bs mo k g)
    then have "length (h_offered x @ offered mo) < 2 ^ 64" using assms(4) by (simp add: within_limits_def)
    with read_keeps_what_fits [OF assms(1,3) read(3,4)] read(1,2) show ?thesis by (simp add: share_gateway_def)
  next
    case (reply m r)
    have "clients_ok ((x_gateway x)\<lparr>g_outbound := r\<rparr>)" using cl by (simp add: clients_ok_def)
    from broadcast_correct [OF this, of "to_wire m"] pop [OF reply(4)] reply show ?thesis
      by (intro keeps_what_fits_same) (simp_all add: share_gateway_def)
  next
    case (drained r)
    with pop [OF drained(4)] show ?thesis by (intro keeps_what_fits_same) (simp_all add: share_gateway_def)
  qed (auto intro: keeps_what_fits_same)
qed

lemma exchange_start_inv:
  assumes "exchange_start ji jo sock bind_rc listen_rc ep ctl_rc k = Some x"
  shows "exchange_inv x"
proof -
  note r = ring_new_ok(1) [OF cap_ok_RING_SIZE] and n = engine_new_ok [OF ring_new_ok(1) [OF cap_ok_RING_SIZE] ring_new_ok(1) [OF cap_ok_RING_SIZE]]
  have fr: "frames [] = []" "leftover [] = []" using frames_short [of "[]"] by (simp_all add: WIRE_MSG_SIZE_def)
  have "clients_ok (x_gateway x)" "filter is_send (io (x_gateway x)) = []" "clients (x_gateway x) = replicate MAX_CLIENTS client_new"
    using assms by (auto simp: exchange_start_def gateway_new_def Let_def clients_ok_def client_ok_def client_new_def WIRE_MSG_SIZE_def split: if_splits)
  moreover from this have "conn_inv (x_gateway x) (\<lambda>_. []) (\<lambda>_. []) []" by (simp add: conn_inv_def slot_ok_def client_new_def)
  moreover have "in_inv (ring_new ji) [] [] []" using r by (simp add: in_inv_def ring_new_ok)
  moreover have "out_inv (engine_new (ring_new ji) (ring_new jo)) [] []"
    using n by (simp add: out_inv_def replies_def spec_start_def) (simp add: engine_new_def ring_new_ok)
  moreover have "x_engine x = engine_new (ring_new ji) (ring_new jo)" "g_inbound (x_gateway x) = ring_new ji" "g_outbound (x_gateway x) = ring_new jo"
    "x_pc x = G_wait" "h_stream x = (\<lambda>_. [])" "h_msgs x = (\<lambda>_. [])" "h_offered x = []" "h_accepted x = []" "h_done x = []" "h_sent x = []"
    using assms by (auto simp: exchange_start_def gateway_new_def Let_def split: if_splits)
  ultimately show ?thesis by (simp add: exchange_inv_def) (simp add: engine_new_def)
qed

lemma exchange_reach_inv:
  assumes "recv_fits os" "exchange_inv x0"
  shows "exchange_reach os x0 x \<Longrightarrow> within_limits x \<Longrightarrow> exchange_inv x"
  by (induction rule: exchange_reach.induct) (auto intro: assms exchange_step_inv within_limits_mono)

lemma run_once_defined:
  assumes "engine_ok e" "unat (next_id e) < MAX_ORDERS"
  shows "run_once tsc e \<noteq> None"
proof -
  obtain mo r where p: "ring_pop RING_SIZE (inbound e) = (mo, r)" by fastforce
  have "ring_ok RING_SIZE r" using rq.pop_law [of RING_SIZE "inbound e"] assms(1) p by (auto simp: engine_ok_def)
  then have ok: "engine_ok (e\<lparr>inbound := r\<rparr>)" using assms(1) by (simp add: engine_ok_def)
  show ?thesis
  proof (cases mo)
    case (Some m)
    from process_step [OF ok, of tsc m] assms(2) p Some show ?thesis by (auto simp: run_once_def)
  qed (simp add: run_once_def p)
qed

subsection \<open>A concrete run\<close>

text \<open>The kernel state is what the one client, on descriptor 7, has sent; the server listens on descriptor 3.\<close>

definition talk_os :: "u8 list os" where
  "talk_os = \<lparr>os_accept = (\<lambda>k. (7, k)), os_recv = (\<lambda>fd n k. if k = [] then (Recv_again, k) else (Recv_data (take n k), drop n k)), os_rdtsc = (\<lambda>k. (0, k))\<rparr>"

lemma talk_os_fits: "recv_fits talk_os"
  by (auto simp: recv_fits_def talk_os_def split: if_splits)

definition sample_wire :: WireMessage where
  "sample_wire = \<lparr>w_type = u8_of_msg_type NewOrder, w_side = u8_of_side Buy, w_order_type = u8_of_order_type Limit, w_pad = 0, w_client_id = 7,
     w_order_id = 5, w_price = 100, w_quantity = 4, w_timestamp = 0\<rparr>"

definition sample_gateway :: Gateway where
  "sample_gateway = gateway_new (ring_new (\<lambda>_. undefined)) (ring_new (\<lambda>_. undefined)) 3 0 0 4 0"

definition talk_start :: "WireMessage \<Rightarrow> u8 list exchange" where
  "talk_start w = \<lparr>x_running = True, x_engine = engine_new (ring_new (\<lambda>_. undefined)) (ring_new (\<lambda>_. undefined)), x_gateway = sample_gateway,
     x_pc = G_wait, x_k = wire_bytes w, h_stream = (\<lambda>_. []), h_msgs = (\<lambda>_. []), h_offered = [], h_accepted = [], h_done = [], h_sent = []\<rparr>"

lemma talk_start_start: "exchange_start (\<lambda>_. undefined) (\<lambda>_. undefined) 3 0 0 4 0 (wire_bytes w) = Some (talk_start w)"
  by (simp add: exchange_start_def talk_start_def sample_gateway_def gateway_new_def Let_def)

lemma sample_inbound: "to_inbound 0 sample_wire = sample_msg NewOrder Buy"
  by (simp add: to_inbound_def sample_wire_def sample_msg_def msg_type_of_u8_def side_of_u8_def order_type_of_u8_def)

lemma sample_gateway_facts:
  "listen_fd sample_gateway = 3" "find_slot sample_gateway = Some 0" "g_inbound sample_gateway = ring_new (\<lambda>_. undefined)"
  "g_outbound sample_gateway = ring_new (\<lambda>_. undefined)" "clients sample_gateway = replicate MAX_CLIENTS client_new"
  by (simp_all add: sample_gateway_def gateway_new_def find_slot_Some MAX_CLIENTS_def client_new_def Let_def)

lemma talk_run:
  obtains x where "exchange_reach talk_os (talk_start w) x" "x_running x" "h_done x = []" "h_offered x = [to_inbound 0 w]"
    "h_accepted x = [to_inbound 0 w]" "x_engine x = engine_new (inbound (x_engine x)) (ring_new (\<lambda>_. undefined))"
    "x_pc x = G_read 7 0 []" "x_k x = []" "h_sent x = []" "h_stream x 0 = wire_bytes w" "h_msgs x 0 = [to_inbound 0 w]"
proof -
  obtain g k where acc: "accept_client talk_os (wire_bytes w) sample_gateway = (k, g)" by fastforce
  then have k: "k = wire_bytes w" and g: "listen_fd g = 3" "g_inbound g = ring_new (\<lambda>_. undefined)" "g_outbound g = ring_new (\<lambda>_. undefined)"
    "clients g = (replicate MAX_CLIENTS client_new)[0 := client_new\<lparr>c_fd := 7, c_active := True\<rparr>]"
    by (auto simp: accept_client_def talk_os_def sample_gateway_facts Let_def upd_client_def MAX_CLIENTS_def client_new_def)
  have c0: "clients g ! 0 = client_new\<lparr>c_fd := 7, c_active := True\<rparr>" by (simp add: g MAX_CLIENTS_def)
  have sl: "slot_for_fd 7 g = Some 0" by (simp add: slot_for_fd_Some c0 MAX_CLIENTS_def)
  let ?m = "to_inbound 0 w" and ?r0 = "ring_new (\<lambda>_. undefined) :: InboundMessage ring"
  obtain r where p: "ring_push RING_SIZE ?m ?r0 = (True, r)"
    using rq.push_law [OF ring_new_ok(1) [OF cap_ok_RING_SIZE], of "\<lambda>_. undefined" ?m] by (auto simp: ring_new_ok RING_SIZE_def)
  have pos: "c_read_pos (clients g ! 0) = 0" "c_read_buf (clients g ! 0) = replicate WIRE_MSG_SIZE 0" by (simp_all add: c0 client_new_def)
  have recv: "os_recv talk_os 7 WIRE_MSG_SIZE k = (Recv_data (wire_bytes w), [])" "os_rdtsc talk_os [] = (0, [])"
    using length_wire_bytes [of w] by (auto simp: talk_os_def k WIRE_MSG_SIZE_def simp del: length_wire_bytes)
  have buf: "buf_write (replicate WIRE_MSG_SIZE 0) 0 (wire_bytes w) = Some (wire_bytes w)" by (simp add: buf_write_def)
  obtain g' where rd: "read_step talk_os 7 0 k g = Some (True, wire_bytes w, Some (?m, True), [], g')" "g_outbound g' = g_outbound g"
    using p by (simp add: read_step_def pos recv buf g(2,3) Let_def)
  let ?x1 = "(talk_start w)\<lparr>x_pc := G_events [3, 7]\<rparr>"
  let ?x2 = "(share_gateway g ?x1)\<lparr>x_k := k, x_pc := G_events [7], h_stream := (\<lambda>i. if Some 0 = Some i then [] else h_stream ?x1 i),
      h_msgs := (\<lambda>i. if Some 0 = Some i then [] else h_msgs ?x1 i)\<rparr>"
  let ?x3 = "?x2\<lparr>x_pc := G_read 7 0 []\<rparr>"
  let ?x4 = "(share_gateway g' ?x3)\<lparr>x_k := [], x_pc := if True then G_read 7 0 [] else G_events [],
      h_stream := (h_stream ?x3)(0 := h_stream ?x3 0 @ wire_bytes w), h_msgs := (h_msgs ?x3)(0 := h_msgs ?x3 0 @ offered (Some (?m, True))),
      h_offered := h_offered ?x3 @ offered (Some (?m, True)), h_accepted := h_accepted ?x3 @ accepted (Some (?m, True))\<rparr>"
  have "exchange_step talk_os Gateway_thread (talk_start w) ?x1" by (rule exchange_step.wait) (simp_all add: talk_start_def)
  moreover have "exchange_step talk_os Gateway_thread ?x1 ?x2"
    by (rule exchange_step.accept [where fd = 3]) (simp_all add: talk_start_def sample_gateway_facts acc)
  moreover have "exchange_step talk_os Gateway_thread ?x2 ?x3"
    by (rule exchange_step.client [where fd = 7]) (simp_all add: talk_start_def share_gateway_def g sl)
  moreover have "exchange_step talk_os Gateway_thread ?x3 ?x4"
    by (rule exchange_step.read [where fd = 7]) (simp_all add: talk_start_def share_gateway_def rd)
  ultimately have "exchange_reach talk_os (talk_start w) ?x4" by (meson exchange_reach.intros)
  then show thesis
    by (rule that) (simp_all add: share_gateway_def talk_start_def offered_def accepted_def engine_new_def rd(2) g)
qed

text \<open>The engine has processed the request.\<close>

lemma sample_replies:
  "replies [(3, sample_msg NewOrder Buy)] = [accept_msg 7 1 3]"
  "se_book (fst (spec_run MAX_ORDERS [(3, sample_msg NewOrder Buy)] spec_start)) Bids = [mk_order 1 7 Buy Limit 100 4 0]"
  using spec_add_empty [of 4 100 MAX_ORDERS 1 7 Buy 0]
  by (simp_all add: replies_def spec_start_def spec_process_def sample_msg_def const_defs half_of_def)

lemma talk_processed:
  assumes "length (replies [(3, to_inbound 0 w)]) < 2 ^ 64"
  obtains y where "exchange_reach talk_os (talk_start w) y" "within_limits y" "h_done y = [(3, to_inbound 0 w)]"
    "h_offered y = [to_inbound 0 w]" "h_accepted y = [to_inbound 0 w]" "h_sent y = []" "x_pc y = G_read 7 0 []" "x_k y = []"
    "h_stream y 0 = wire_bytes w" "h_msgs y 0 = [to_inbound 0 w]"
proof -
  let ?m = "to_inbound 0 w"
  obtain x where x: "exchange_reach talk_os (talk_start w) x" "x_running x" "h_done x = []" "h_offered x = [?m]" "h_accepted x = [?m]"
    "x_engine x = engine_new (inbound (x_engine x)) (ring_new (\<lambda>_. undefined))" "x_pc x = G_read 7 0 []" "x_k x = []" "h_sent x = []" "h_stream x 0 = wire_bytes w" "h_msgs x 0 = [to_inbound 0 w]"
    by (rule talk_run)
  have "within_limits x" using x by (simp add: within_limits_def replies_def MAX_ORDERS_def)
  note inv = exchange_reach_inv [OF talk_os_fits exchange_start_inv [OF talk_start_start] x(1) this, unfolded exchange_inv_def]
  have ok: "engine_ok (x_engine x)" using inv by (simp add: out_inv_def)
  have id: "unat (next_id (x_engine x)) < MAX_ORDERS" by (subst x(6)) (simp add: engine_new_def MAX_ORDERS_def)
  have con: "contents RING_SIZE (inbound (x_engine x)) = [?m]" using inv x(3,5) by (simp add: in_inv_def)
  obtain e where e: "run_once 3 (x_engine x) = Some e" using run_once_defined [OF ok id] by blast
  let ?y = "(share_engine e x)\<lparr>h_done := h_done x @ popped 3 (inbound (x_engine x))\<rparr>"
  have "fst (ring_pop RING_SIZE (inbound (x_engine x))) = Some ?m" using rq.pop_law [of RING_SIZE "inbound (x_engine x)"] ok con by (auto simp: engine_ok_def)
  then have "h_done ?y = [(3, ?m)]" "h_offered ?y = [?m]" using x(3,4) by (simp_all add: popped_def share_engine_def)
  moreover from this have "within_limits ?y" unfolding within_limits_def using assms by (simp add: MAX_ORDERS_def)
  ultimately show thesis
    using x by (intro that [OF exchange_reach.step [OF x(1) exchange_step.engine [OF x(2) e]]]) (simp_all add: share_engine_def)
qed

subsection \<open>Property\<close>

text \<open>
  C38. The exchange end to end, in every interleaving of the two threads, the arrival of bytes and the signal. As long as fewer than \<open>2 ^ 20 - 1\<close>
  requests have been processed (and neither ring has seen \<open>2 ^ 64\<close> items):
  for every open connection the messages read from it are the 32-byte frames of its byte stream, decoded, and all of them are offered to the inbound
  ring in their order; the engine processes a prefix of the accepted messages, in order, without loss or duplication, the others are waiting in the ring;
  its state is that of the abstract price-time-priority engine after these requests; the replies broadcast, followed by those waiting in the outbound
  ring, are replies of the abstract engine in order, none invented or duplicated. None is lost while the ring has room, however many went through it before: whatever step
  comes next, the messages it offers to the inbound ring are accepted, and the replies it gives are added to those sent and waiting, up to the cells that are free in the ring
  at that moment. In particular nothing at all is lost while no more than the capacity of the ring were offered, or produced, altogether.
  The bytes sent are the images of these replies to
  the clients connected at the time. Neither thread can run into undefined behaviour.
\<close>

theorem exchange_end_to_end:
  assumes "recv_fits os" and "exchange_start ji jo sock bind_rc listen_rc ep ctl_rc k0 = Some x0" and "exchange_reach os x0 x" and "within_limits x"
  shows "(\<forall>i<MAX_CLIENTS. c_active (clients (x_gateway x) ! i) \<longrightarrow> list_all2 decoded (h_msgs x i) (frames (h_stream x i)) \<and> subseq (h_msgs x i) (h_offered x))
     \<and> h_accepted x = map snd (h_done x) @ contents RING_SIZE (g_inbound (x_gateway x))
     \<and> subseq (h_accepted x) (h_offered x) \<and> (length (h_offered x) \<le> RING_SIZE \<longrightarrow> h_accepted x = h_offered x)
     \<and> engine_abs (x_engine x) = fst (spec_run MAX_ORDERS (h_done x) spec_start)
     \<and> subseq (map fst (h_sent x) @ contents RING_SIZE (g_outbound (x_gateway x))) (replies (h_done x))
     \<and> (length (replies (h_done x)) \<le> RING_SIZE \<longrightarrow> map fst (h_sent x) @ contents RING_SIZE (g_outbound (x_gateway x)) = replies (h_done x))
     \<and> filter is_send (io (x_gateway x)) = concat (map send_events (h_sent x))
     \<and> (\<forall>w y. exchange_step os w x y \<and> within_limits y \<longrightarrow>
          (\<exists>ms. h_offered y = h_offered x @ ms \<and> h_accepted y = h_accepted x @ take (RING_SIZE - length (contents RING_SIZE (g_inbound (x_gateway x)))) ms)
        \<and> (\<exists>ns. replies (h_done y) = replies (h_done x) @ ns
             \<and> map fst (h_sent y) @ contents RING_SIZE (g_outbound (x_gateway y))
                = map fst (h_sent x) @ contents RING_SIZE (g_outbound (x_gateway x))
                    @ take (RING_SIZE - length (contents RING_SIZE (g_outbound (x_gateway x)))) ns))
     \<and> run_once tsc (x_engine x) \<noteq> None
     \<and> (x_pc x = G_read fd i fds \<longrightarrow> read_step os fd i (x_k x) (x_gateway x) \<noteq> None)"
proof -
  note inv = exchange_reach_inv [OF assms(1) exchange_start_inv [OF assms(2)] assms(3,4)]
  note v = inv [unfolded exchange_inv_def]
  then have c: "clients_ok (x_gateway x)" "\<forall>i<MAX_CLIENTS. slot_ok (clients (x_gateway x) ! i) (h_stream x i) (h_msgs x i)" "\<forall>i. subseq (h_msgs x i) (h_offered x)"
    by (simp_all add: conn_inv_def)
  from v have o: "outbound (x_engine x) = g_outbound (x_gateway x)" "out_inv (x_engine x) (h_done x) (map fst (h_sent x))" by simp_all
  from o(2) have ok: "engine_ok (x_engine x)" "unat (next_id (x_engine x)) < MAX_ORDERS" using assms(4) by (simp_all add: out_inv_def within_limits_def)
  have "read_step os fd i (x_k x) (x_gateway x) \<noteq> None" if "x_pc x = G_read fd i fds"
    using read_step_effect [OF assms(1) c(1), of i fd "x_k x"] v that by auto
  with v c o run_once_defined [OF ok] have part:
    "(\<forall>i<MAX_CLIENTS. c_active (clients (x_gateway x) ! i) \<longrightarrow> list_all2 decoded (h_msgs x i) (frames (h_stream x i)) \<and> subseq (h_msgs x i) (h_offered x))"
    "h_accepted x = map snd (h_done x) @ in_ring x" "subseq (h_accepted x) (h_offered x)" "length (h_offered x) \<le> RING_SIZE \<longrightarrow> h_accepted x = h_offered x"
    "engine_abs (x_engine x) = fst (spec_run MAX_ORDERS (h_done x) spec_start)" "subseq (map fst (h_sent x) @ out_ring x) (replies (h_done x))"
    "length (replies (h_done x)) \<le> RING_SIZE \<longrightarrow> map fst (h_sent x) @ out_ring x = replies (h_done x)"
    "filter is_send (io (x_gateway x)) = concat (map send_events (h_sent x))" "run_once tsc (x_engine x) \<noteq> None"
    "x_pc x = G_read fd i fds \<longrightarrow> read_step os fd i (x_k x) (x_gateway x) \<noteq> None"
    by (auto simp: in_inv_def out_inv_def slot_ok_def)
  have "keeps_what_fits x y" if "exchange_step os w x y" "within_limits y" for w y
    by (rule exchange_step_keeps [OF assms(1) that(1) inv that(2)])
  then have "\<forall>w y. exchange_step os w x y \<and> within_limits y \<longrightarrow>
      (\<exists>ms. h_offered y = h_offered x @ ms \<and> h_accepted y = h_accepted x @ take (RING_SIZE - length (in_ring x)) ms)
    \<and> (\<exists>ns. replies (h_done y) = replies (h_done x) @ ns
         \<and> map fst (h_sent y) @ out_ring y = map fst (h_sent x) @ out_ring x @ take (RING_SIZE - length (out_ring x)) ns)"
    unfolding keeps_what_fits_def append.assoc by blast
  with part show ?thesis by (intro conjI)
qed

theorem exchange_end_to_end_witness:
  "\<exists>x. exchange_reach talk_os (talk_start sample_wire) x \<and> h_accepted x = [sample_msg NewOrder Buy] \<and> h_done x = [(3, sample_msg NewOrder Buy)]
     \<and> contents RING_SIZE (g_inbound (x_gateway x)) = [] \<and> map fst (h_sent x) @ contents RING_SIZE (g_outbound (x_gateway x)) = [accept_msg 7 1 3]
     \<and> se_book (engine_abs (x_engine x)) Bids = [mk_order 1 7 Buy Limit 100 4 0]"
proof -
  let ?m = "sample_msg NewOrder Buy"
  obtain y where y: "exchange_reach talk_os (talk_start sample_wire) y" "within_limits y" "h_done y = [(3, ?m)]" "h_offered y = [?m]" "h_accepted y = [?m]"
    by (rule talk_processed [of sample_wire]) (simp_all add: sample_inbound sample_replies)
  from exchange_end_to_end [OF talk_os_fits talk_start_start y(1,2), of 3 7 0 "[]"] y sample_replies show ?thesis
    by (intro exI [of _ y]) (auto simp: RING_SIZE_def)
qed

end
