(* ===== verification/Engine_Replies.thy ===== *)
theory Engine_Replies
  imports Exchange
begin

section \<open>What the engine's replies look like\<close>

text \<open>
  A typing discipline for the replies of \<^verbatim>\<open>src/src/core/matching_engine.cpp\<close> and for the bytes the gateway makes of them. The orders of
  the abstract book are well typed (price within the range of the exchange, something left to fill, identifier already given out); every
  operation keeps that, hence every reply has one of the four reply types and the fields that belong to it, and so has every message that a client receives.
  The executions are counted on the way: they come in pairs, one pair for each match.
\<close>

subsection \<open>Types of orders and replies\<close>

definition order_typed :: "OrderId \<Rightarrow> Order \<Rightarrow> bool" where
  "order_typed n x \<longleftrightarrow> MIN_PRICE \<le> o_price x \<and> o_price x \<le> MAX_PRICE \<and> \<not> is_filled x \<and> 0 < o_id x \<and> o_id x < n"

definition book_typed :: "OrderId \<Rightarrow> spec_book \<Rightarrow> bool" where
  "book_typed n B \<longleftrightarrow> (\<forall>s. \<forall>x\<in>set (B s). order_typed n x)"

definition fill_typed :: "OrderId \<Rightarrow> Fill \<Rightarrow> bool" where
  "fill_typed n f \<longleftrightarrow> MIN_PRICE \<le> f_price f \<and> f_price f \<le> MAX_PRICE \<and> f_quantity f \<noteq> 0
     \<and> 0 < f_bid_id f \<and> f_bid_id f < n \<and> 0 < f_ask_id f \<and> f_ask_id f < n"

definition reply_typed :: "OrderId \<Rightarrow> OutboundMessage \<Rightarrow> bool" where
  "reply_typed n m \<longleftrightarrow> (case out_type m of
       OrderExecuted \<Rightarrow> MIN_PRICE \<le> out_price m \<and> out_price m \<le> MAX_PRICE \<and> out_quantity m \<noteq> 0 \<and> 0 < out_order_id m \<and> out_order_id m < n
         \<and> out_reject_reason m = 0
     | OrderRejected \<Rightarrow> out_price m = 0 \<and> out_quantity m = 0 \<and> out_reject_reason m \<in> {1, 2, 3}
     | OrderAccepted \<Rightarrow> out_price m = 0 \<and> out_quantity m = 0 \<and> 0 < out_order_id m \<and> out_order_id m < n \<and> out_reject_reason m = 0
     | OrderCanceled \<Rightarrow> out_price m = 0 \<and> out_quantity m = 0 \<and> 0 < out_order_id m \<and> out_order_id m < n \<and> out_reject_reason m = 0
     | _ \<Rightarrow> False)"

lemma order_typed_mono: "order_typed n x \<Longrightarrow> n \<le> n' \<Longrightarrow> order_typed n' x"
  by (auto simp: order_typed_def)

lemma book_typed_mono: "book_typed n B \<Longrightarrow> n \<le> n' \<Longrightarrow> book_typed n' B"
  by (auto simp: book_typed_def intro: order_typed_mono)

lemma reply_typed_mono: "reply_typed n m \<Longrightarrow> n \<le> n' \<Longrightarrow> reply_typed n' m"
  by (auto simp: reply_typed_def split: MessageType.splits)

lemma book_typed_open: "book_typed n B \<Longrightarrow> all_open B"
  by (auto simp: book_typed_def order_typed_def all_open_def)

subsection \<open>The operations keep the types\<close>

lemma match_q_kept:
  "match_q sd go a rs = (a', rs', fs) \<Longrightarrow> (\<lambda>x. (o_price x, o_id x)) ` set rs' \<subseteq> (\<lambda>x. (o_price x, o_id x)) ` set rs"
  by (induction rs arbitrary: a a' rs' fs) (auto simp: Let_def split: if_splits prod.splits, blast+)

lemma mk_fill_ids:
  "{f_bid_id (mk_fill sd a r q), f_ask_id (mk_fill sd a r q)} = {o_id a, o_id r}"
  by (auto simp: mk_fill_def)

lemma match_q_fill_ids:
  "match_q sd go a rs = (a', rs', fs) \<Longrightarrow> f \<in> set fs \<Longrightarrow> {f_bid_id f, f_ask_id f} \<subseteq> insert (o_id a) (o_id ` set rs)"
proof (induction rs arbitrary: a a' rs' fs)
  case (Cons r rs)
  let ?q = "min (remaining a) (remaining r)"
  have m: "{f_bid_id (mk_fill sd (fill ?q a) (fill ?q r) ?q), f_ask_id (mk_fill sd (fill ?q a) (fill ?q r) ?q)} = {o_id a, o_id r}"
    by (simp add: mk_fill_ids)
  from Cons.prems consider "f = mk_fill sd (fill ?q a) (fill ?q r) ?q"
    | fs' where "match_q sd go (fill ?q a) rs = (a', rs', fs')" "f \<in> set fs'"
    by (auto simp: Let_def split: if_splits prod.splits)
  then show ?case
  proof cases
    case 1
    show ?thesis unfolding 1 m by simp
  next
    case 2
    from Cons.IH [OF 2] show ?thesis by auto
  qed
qed simp

lemma match_q_typed:
  assumes "match_q sd go a rs = (a', rs', fs)" "order_ok a" "0 < o_id a" "o_id a < n" "\<forall>r\<in>set rs. order_typed n r"
  shows "\<forall>r\<in>set rs'. order_typed n r" "\<forall>f\<in>set fs. fill_typed n f"
proof -
  have op: "\<forall>r\<in>set rs. \<not> is_filled r" using assms(5) by (simp add: order_typed_def)
  show "\<forall>r\<in>set rs'. order_typed n r"
  proof
    fix x assume x: "x \<in> set rs'"
    with match_q_kept [OF assms(1)] obtain r where "r \<in> set rs" "o_price x = o_price r" "o_id x = o_id r" by blast
    with match_q_open [OF assms(1,2) op] x assms(5) show "order_typed n x" by (simp add: order_typed_def)
  qed
  show "\<forall>f\<in>set fs. fill_typed n f"
  proof
    fix f assume f: "f \<in> set fs"
    have "\<forall>r\<in>set rs. order_ok r \<and> \<not> is_filled r" using op order_ok_open by auto
    from match_q_fills [OF assms(1,2) this f] match_q_fill_ids [OF assms(1) f] assms(3-5) show "fill_typed n f"
      by (auto simp: fill_typed_def order_typed_def)
  qed
qed

lemma all_other: "(\<forall>s'. P s') \<longleftrightarrow> P s \<and> P (other s)"
  by (cases s) (auto simp: all_half)

lemma spec_add_typed:
  assumes "spec_add cap i c sd ty p q ts B = (ok, B', fs)" "book_typed n B" "0 < i" "i < n"
  shows "book_typed n B'" "\<forall>f\<in>set fs. fill_typed n f"
proof -
  let ?s = "half_of sd" and ?x = "mk_order i c sd ty p q ts"
  have B: "\<forall>x\<in>set (B s). order_typed n x" for s using assms(2) by (simp add: book_typed_def)
  have "book_typed n B' \<and> (\<forall>f\<in>set fs. fill_typed n f)"
  proof (cases ok)
    case True
    obtain a where m: "match_q (canon_side sd) (accepts ty (other ?s) p) ?x (B (other ?s)) = (a, B' (other ?s), fs)"
      "B' ?s = (if \<not> is_filled a \<and> ty = Limit then insert_prio ?s a (B ?s) else B ?s)"
      using assms(1) True by (auto elim: spec_add_accepted)
    have "ty = Limit \<longrightarrow> MIN_PRICE \<le> p \<and> p \<le> MAX_PRICE" using assms(1) True by (auto simp: spec_add_def rejects_def split: if_splits)
    then have "\<not> is_filled a \<and> ty = Limit \<longrightarrow> order_typed n a" using match_q_payload [OF m(1)] assms(3,4) by (simp add: order_typed_def)
    then have "\<forall>x\<in>set (B' ?s). order_typed n x" using m(2) B [of ?s] by auto
    moreover have "\<forall>x\<in>set (B' (other ?s)). order_typed n x" "\<forall>f\<in>set fs. fill_typed n f"
      using match_q_typed [OF m(1) mk_order_ok(1) _ _ B] assms(3,4) mk_order_ok(3) by metis+
    ultimately show ?thesis unfolding book_typed_def all_other [where s = ?s] by blast
  next
    case False
    with assms(1) spec_add_rejected [of cap i c sd ty p q ts B B' fs] assms(2) show ?thesis by simp
  qed
  then show "book_typed n B'" "\<forall>f\<in>set fs. fill_typed n f" by simp_all
qed

lemma spec_cancel_typed: "book_typed n B \<Longrightarrow> book_typed n (snd (spec_cancel i B))"
  by (auto simp: spec_cancel_def book_typed_def)

lemma find_Some_set: "find P xs = Some x \<Longrightarrow> x \<in> set xs \<and> P x"
  by (induction xs) (auto split: if_splits)

lemma spec_modify_typed:
  assumes "spec_modify cap i p q ts B = (ok, B', fs)" "book_typed n B"
  shows "book_typed n B' \<and> (\<forall>f\<in>set fs. fill_typed n f) \<and> (ok \<longrightarrow> 0 < i \<and> i < n)"
proof (cases "find (\<lambda>x. o_id x = i) (B Bids @ B Asks)")
  case (Some x)
  then have "x \<in> set (B Bids @ B Asks)" "o_id x = i" using find_Some_set [OF Some] by blast+
  moreover have "\<forall>x\<in>set (B Bids @ B Asks). order_typed n x" using assms(2) by (auto simp: book_typed_def)
  ultimately have "order_typed n x" "o_id x = i" by blast+
  then have i: "0 < i" "i < n" by (auto simp: order_typed_def)
  have "spec_add cap i (o_client_id x) (o_side x) Limit p q ts (snd (spec_cancel i B)) = (ok, B', fs)"
    using assms(1) Some by (simp add: spec_modify_def)
  from spec_add_typed [OF this spec_cancel_typed [OF assms(2)] i] i show ?thesis by blast
qed (use assms in \<open>simp add: spec_modify_def\<close>)

lemma exec_msgs_typed: "\<forall>f\<in>set fs. fill_typed n f \<Longrightarrow> m \<in> set (exec_msgs tsc k fs) \<Longrightarrow> reply_typed n m \<and> out_type m = OrderExecuted"
  by (induction fs arbitrary: k) (auto simp: exec_pair_def reply_typed_def fill_typed_def blank_out_def)

subsection \<open>The abstract engine\<close>

definition is_exec :: "OutboundMessage \<Rightarrow> bool" where
  "is_exec m \<longleftrightarrow> out_type m = OrderExecuted"

definition typed_state :: "spec_engine \<Rightarrow> bool" where
  "typed_state S \<longleftrightarrow> book_typed (se_next S) (se_book S) \<and> 0 < se_next S"

lemma exec_msgs_count: "length (filter is_exec (exec_msgs tsc k fs)) = 2 * length fs"
  by (induction fs arbitrary: k) (auto simp: exec_pair_def is_exec_def)

lemma single_typed:
  "0 < i \<Longrightarrow> i < n \<Longrightarrow> reply_typed n (accept_msg c i tsc)" "0 < i \<Longrightarrow> i < n \<Longrightarrow> reply_typed n (cancel_msg c i tsc)"
  "r \<in> {1, 2, 3} \<Longrightarrow> reply_typed n (reject_msg c i r tsc)"
  "\<not> is_exec (accept_msg c i tsc)" "\<not> is_exec (cancel_msg c i tsc)" "\<not> is_exec (reject_msg c i r tsc)"
  by (simp_all add: reply_typed_def is_exec_def accept_msg_def cancel_msg_def reject_msg_def blank_out_def)

text \<open>A step of the engine from \<open>S\<close> to \<open>S'\<close> with the replies \<open>ms\<close> respects the types.\<close>

definition typed_step :: "spec_engine \<Rightarrow> spec_engine \<Rightarrow> OutboundMessage list \<Rightarrow> bool" where
  "typed_step S S' ms \<longleftrightarrow> typed_state S' \<and> se_next S \<le> se_next S' \<and> (\<forall>m\<in>set ms. reply_typed (se_next S') m)
     \<and> (\<exists>k. length (filter is_exec ms) = 2 * k \<and> se_match S' = se_match S + of_nat k)"

lemma typed_step_fills:
  assumes "book_typed n B" "0 < n" "se_next S \<le> n" "0 < i" "i < n" "\<forall>f\<in>set fs. fill_typed n f"
  shows "typed_step S \<lparr>se_book = B, se_next = n, se_match = se_match S + of_nat (length fs)\<rparr> (accept_msg c i tsc # exec_msgs tsc k fs)"
  using assms exec_msgs_typed [OF assms(6)]
  by (auto simp: typed_step_def typed_state_def single_typed exec_msgs_count)

lemma typed_step_quiet:
  assumes "book_typed n B" "0 < n" "se_next S \<le> n" "reply_typed n m" "\<not> is_exec m"
  shows "typed_step S \<lparr>se_book = B, se_next = n, se_match = se_match S\<rparr> [m]"
  using assms by (auto simp: typed_step_def typed_state_def)

lemma spec_process_typed:
  assumes "spec_process cap tsc msg S = (S', ms)" "typed_state S" "se_next S < se_next S + 1"
  shows "typed_step S S' ms"
proof -
  let ?n = "se_next S"
  have t: "book_typed ?n (se_book S)" "0 < ?n" "book_typed (?n + 1) (se_book S)" "0 < ?n + 1"
    using assms(2,3) by (auto simp: typed_state_def intro: book_typed_mono)
  consider (new) "in_type msg = NewOrder" | (cancel) "in_type msg = CancelOrder" | (modify) "in_type msg = ModifyOrder"
    | (quiet) "S' = S" "ms = []" using assms(1) by (cases "in_type msg") (auto simp: spec_process_def)
  then show ?thesis
  proof cases
    case new
    obtain ok B fs where a: "spec_add cap ?n (in_client_id msg) (in_side msg) (in_order_type msg) (in_price msg) (in_quantity msg)
        (in_recv_tsc msg) (se_book S) = (ok, B, fs)" using prod_cases3 by blast
    note b = spec_add_typed [OF a t(3,2) assms(3)]
    show ?thesis
    proof (cases ok)
      case True
      with typed_step_fills [OF b(1) t(4) less_imp_le [OF assms(3)] t(2) assms(3) b(2)] assms(1) new a show ?thesis by (auto simp: spec_process_def)
    next
      case False
      with a have "fs = []" using spec_add_rejected by (metis (full_types))
      with typed_step_quiet [OF b(1) t(4), of S "reject_msg (in_client_id msg) ?n 1 tsc"] assms(1,3) new a False
      show ?thesis by (simp add: spec_process_def single_typed)
    qed
  next
    case cancel
    obtain ok B where c: "spec_cancel (in_order_id msg) (se_book S) = (ok, B)" by fastforce
    have B: "book_typed ?n B" using spec_cancel_typed [OF t(1), of "in_order_id msg"] c by simp
    have "0 < j \<and> j < ?n" if "x \<in> set (se_book S s)" "o_id x = j" for x s j using t(1) that by (auto simp: book_typed_def order_typed_def)
    then have "ok \<longrightarrow> 0 < in_order_id msg \<and> in_order_id msg < ?n" using c unfolding spec_cancel_def by blast
    then have "reply_typed ?n (if ok then cancel_msg (in_client_id msg) (in_order_id msg) tsc else reject_msg (in_client_id msg) (in_order_id msg) 2 tsc)"
      by (simp add: single_typed)
    from typed_step_quiet [OF B t(2) order_refl this] assms(1) cancel c show ?thesis
      by (cases S) (simp add: spec_process_def single_typed split: if_splits)
  next
    case modify
    obtain ok B fs where a: "spec_modify cap (in_order_id msg) (in_price msg) (in_quantity msg) (in_recv_tsc msg) (se_book S) = (ok, B, fs)"
      using prod_cases3 by blast
    note b = spec_modify_typed [OF a t(1)]
    show ?thesis
    proof (cases ok)
      case True
      with typed_step_fills [of ?n B S "in_order_id msg" fs] b t(2) assms(1) modify a show ?thesis by (cases S) (auto simp: spec_process_def)
    next
      case False
      with a have "fs = []" using spec_add_rejected by (auto simp: spec_modify_def split: option.splits)
      with typed_step_quiet [of ?n B S "reject_msg (in_client_id msg) (in_order_id msg) 3 tsc"] b t(2) assms(1) modify a False
      show ?thesis by (cases S) (simp add: spec_process_def single_typed)
    qed
  qed (use assms(2) in \<open>simp add: typed_step_def\<close>)
qed

lemma typed_step_trans: "typed_step S S1 ms \<Longrightarrow> typed_step S1 S2 ns \<Longrightarrow> typed_step S S2 (ms @ ns)"
  by (auto simp: typed_step_def add.assoc dest: reply_typed_mono intro: exI [of _ "_ + _"])

lemma spec_run_typed:
  assumes "typed_state S" "unat (se_next S) + length xs < 2 ^ 64" "spec_run cap xs S = (S', ms)"
  shows "typed_step S S' ms"
  using assms
proof (induction xs arbitrary: S ms)
  case (Cons x xs)
  then obtain S1 ms1 ms2 where r: "spec_process cap (fst x) (snd x) S = (S1, ms1)" "spec_run cap xs S1 = (S', ms2)" "ms = ms1 @ ms2"
    by (auto split: prod.splits)
  have n: "unat (se_next S + 1) = Suc (unat (se_next S))" using Cons.prems(2) by (intro unat_succ_u64) simp
  then have "se_next S < se_next S + 1" by (simp add: word_less_nat_alt)
  from spec_process_typed [OF r(1) Cons.prems(1) this] have t: "typed_step S S1 ms1" .
  have "unat (se_next S1) + length xs < 2 ^ 64" using spec_process_next [OF r(1)] n Cons.prems(2) by auto
  with Cons.IH [OF _ this r(2)] t have "typed_step S1 S' ms2" by (simp add: typed_step_def)
  with typed_step_trans [OF t] r(3) show ?case by simp
qed (simp add: typed_step_def)

lemma spec_start_typed: "typed_state spec_start"
  by (simp add: typed_state_def spec_start_def book_typed_def)

text \<open>The number of matches among the replies to the requests \<open>dn\<close>.\<close>

definition matches :: "(Timestamp \<times> InboundMessage) list \<Rightarrow> nat" where
  "matches dn = length (filter is_exec (replies dn)) div 2"

lemma replies_typed:
  assumes "Suc (length dn) < 2 ^ 64" "spec_run MAX_ORDERS dn spec_start = (S, ms)"
  shows "\<forall>m\<in>set (replies dn). reply_typed (se_next S) m" "length (filter is_exec (replies dn)) = 2 * matches dn"
    "se_match S = 1 + of_nat (matches dn)"
proof -
  have "typed_step spec_start S ms"
    by (rule spec_run_typed [OF spec_start_typed _ assms(2)]) (use assms(1) in \<open>simp add: spec_start_def\<close>)
  moreover have "replies dn = ms" by (simp add: replies_def assms(2))
  ultimately show "\<forall>m\<in>set (replies dn). reply_typed (se_next S) m" "length (filter is_exec (replies dn)) = 2 * matches dn"
    "se_match S = 1 + of_nat (matches dn)" by (auto simp: typed_step_def matches_def spec_start_def)
qed

subsection \<open>On the wire\<close>

definition wire_typed :: "WireMessage \<Rightarrow> bool" where
  "wire_typed w \<longleftrightarrow> w_side w = 0 \<and> w_order_type w = 0 \<and> w_pad w = 0 \<and> (case msg_type_of_u8 (w_type w) of
       OrderExecuted \<Rightarrow> MIN_PRICE \<le> w_price w \<and> w_price w \<le> MAX_PRICE \<and> w_quantity w \<noteq> 0 \<and> 0 < w_order_id w
     | OrderRejected \<Rightarrow> w_price w = 0 \<and> w_quantity w = 0
     | OrderAccepted \<Rightarrow> w_price w = 0 \<and> w_quantity w = 0 \<and> 0 < w_order_id w
     | OrderCanceled \<Rightarrow> w_price w = 0 \<and> w_quantity w = 0 \<and> 0 < w_order_id w
     | _ \<Rightarrow> False)"

lemma to_wire_typed: "reply_typed n m \<Longrightarrow> wire_typed (to_wire m)"
  by (auto simp: reply_typed_def wire_typed_def to_wire_def msg_type_of_u8_def split: MessageType.splits)

lemma subseq_mem: "subseq xs ys \<Longrightarrow> x \<in> set xs \<Longrightarrow> x \<in> set ys"
  by (induction rule: list_emb.induct) auto

text \<open>
  C25. Every message that the exchange ever sends to a client is well typed: 32 bytes that decode to an acceptance, a rejection, a cancellation or an
  execution; an execution has a price within \<open>MIN_PRICE\<close> to \<open>MAX_PRICE\<close>, a positive quantity and an order identifier that was given out before (from 1 up to the next one), an acceptance and a
  cancellation such an identifier and neither price nor quantity; and the executions produced come in pairs. Here for every interleaving of the threads.
\<close>

theorem sent_messages_typed:
  assumes "recv_fits os" and "exchange_start ji jo sock bind_rc listen_rc ep ctl_rc k0 = Some x0" and "exchange_reach os x0 x" and "within_limits x"
    and "Io_send fd bs \<in> set (io (x_gateway x))"
  shows "\<exists>w. bs = wire_bytes w \<and> length bs = WIRE_MSG_SIZE \<and> wire_of_bytes bs = w \<and> wire_typed w
     \<and> (msg_type_of_u8 (w_type w) \<noteq> OrderRejected \<longrightarrow> w_order_id w < next_id (x_engine x))
     \<and> even (length (filter is_exec (replies (h_done x))))"
proof -
  note v = exchange_reach_inv [OF assms(1) exchange_start_inv [OF assms(2)] assms(3,4), unfolded exchange_inv_def]
  obtain S ms where r: "spec_run MAX_ORDERS (h_done x) spec_start = (S, ms)" by fastforce
  have d: "Suc (length (h_done x)) < 2 ^ 64" using assms(4) by (simp add: within_limits_def MAX_ORDERS_def)
  note t = replies_typed [OF d r]
  have n: "se_next S = next_id (x_engine x)" using v r by (simp add: out_inv_def engine_abs_def)
  have "Io_send fd bs \<in> set (concat (map send_events (h_sent x)))" 
    using v assms(5) by (metis (mono_tags, lifting) filter_set is_send.simps(1) mem_Collect_eq set_filter)
  then obtain m where m: "m \<in> set (map fst (h_sent x))" "bs = wire_bytes (to_wire m)" by (auto simp: send_events_def)
  have "out_inv (x_engine x) (h_done x) (map fst (h_sent x))" using v by blast
  then have "subseq (map fst (h_sent x) @ contents RING_SIZE (outbound (x_engine x))) (replies (h_done x))" by (simp add: out_inv_def)
  from subseq_mem [OF this, of m] m(1) have "m \<in> set (replies (h_done x))" by simp
  with t(1) have "reply_typed (next_id (x_engine x)) m" by (simp add: n)
  then have "out_type m \<noteq> OrderRejected \<longrightarrow> out_order_id m < next_id (x_engine x)" "msg_type_of_u8 (w_type (to_wire m)) = out_type m"
    by (auto simp: reply_typed_def to_wire_def msg_type_of_u8_def split: MessageType.splits)
  then show ?thesis using m(2) t(2) to_wire_typed [OF \<open>reply_typed (next_id (x_engine x)) m\<close>] by (intro exI [of _ "to_wire m"]) (simp add: to_wire_def WIRE_MSG_SIZE_def)
qed

text \<open>The run of one client, continued until the acceptance of its order has been sent back.\<close>

lemma sample_reply:
  obtains x where "exchange_reach talk_os (talk_start sample_wire) x" "within_limits x" "Io_send 7 (wire_bytes (to_wire (accept_msg 7 1 3))) \<in> set (io (x_gateway x))"
proof -
  let ?m = "sample_msg NewOrder Buy"
  note inv_of = exchange_reach_inv [OF talk_os_fits exchange_start_inv [OF talk_start_start]] and rep = sample_replies(1)
  obtain y where y: "exchange_reach talk_os (talk_start sample_wire) y" "within_limits y"
    and yf: "h_done y = [(3, ?m)]" "h_offered y = [?m]" "h_accepted y = [?m]" "h_sent y = []" "x_pc y = G_read 7 0 []" "x_k y = []"
    by (rule talk_processed [of sample_wire]) (simp_all add: sample_inbound sample_replies)
  define z where "z = (share_gateway (x_gateway y) y)\<lparr>x_k := [], x_pc := if False then G_read 7 0 [] else G_events [],
      h_stream := (h_stream y)(0 := h_stream y 0 @ []), h_msgs := (h_msgs y)(0 := h_msgs y 0 @ offered None),
      h_offered := h_offered y @ offered None, h_accepted := h_accepted y @ accepted None\<rparr>\<lparr>x_pc := G_drain\<rparr>"
  have "exchange_reach talk_os (talk_start sample_wire) z" unfolding z_def
    by (rule exchange_reach.step [OF exchange_reach.step [OF y(1) exchange_step.read [where fd = 7 and fds = "[]"]] exchange_step.drain])
       (simp_all add: yf read_step_def talk_os_def)
  moreover have zf: "h_done z = [(3, ?m)]" "h_offered z = [?m]" "h_sent z = []" "x_pc z = G_drain" "x_gateway z = x_gateway y"
    by (simp_all add: z_def yf share_gateway_def offered_def)
  ultimately have z: "exchange_reach talk_os (talk_start sample_wire) z" "within_limits z" by (simp_all add: within_limits_def rep MAX_ORDERS_def)
  note vz = inv_of [OF z, unfolded exchange_inv_def]
  have o: "outbound (x_engine z) = g_outbound (x_gateway z)" "out_inv (x_engine z) (h_done z) (map fst (h_sent z))" using vz by blast+
  from o(2) have "contents RING_SIZE (outbound (x_engine z)) = [accept_msg 7 1 3]" "ring_ok RING_SIZE (outbound (x_engine z))"
    unfolding zf out_inv_def rep engine_ok_def by (simp_all add: RING_SIZE_def)
  with o(1) have "contents RING_SIZE (g_outbound (x_gateway z)) = [accept_msg 7 1 3]" "ring_ok RING_SIZE (g_outbound (x_gateway z))" by simp_all
  then obtain r where r: "ring_pop RING_SIZE (g_outbound (x_gateway z)) = (Some (accept_msg 7 1 3), r)"
    using rq.pop_law [of RING_SIZE "g_outbound (x_gateway z)"] by auto
  from inv_of [OF y] have "clients_ok (x_gateway y)" "pc_ok (x_gateway y) (G_read 7 0 [])" by (auto simp: exchange_inv_def conn_inv_def yf)
  then have fd: "7 \<in> set (active_fds (x_gateway z))"
    by (auto simp: active_fds_upt clients_ok_def zf intro!: image_eqI [of _ _ 0])
  define v where "v = (share_gateway (broadcast (to_wire (accept_msg 7 1 3)) ((x_gateway z)\<lparr>g_outbound := r\<rparr>)) z)
      \<lparr>h_sent := h_sent z @ [(accept_msg 7 1 3, active_fds (x_gateway z))]\<rparr>"
  have "exchange_reach talk_os (talk_start sample_wire) v" unfolding v_def by (rule exchange_reach.step [OF z(1) exchange_step.reply [OF zf(4) r]])
  moreover have vf: "h_done v = [(3, ?m)]" "h_offered v = [?m]" "h_sent v = [(accept_msg 7 1 3, active_fds (x_gateway z))]"
    by (simp_all add: v_def zf share_gateway_def)
  ultimately have v: "exchange_reach talk_os (talk_start sample_wire) v" "within_limits v" by (simp_all add: within_limits_def rep MAX_ORDERS_def)
  from inv_of [OF v] have "filter is_send (io (x_gateway v)) = send_events (accept_msg 7 1 3, active_fds (x_gateway z))"
    by (simp add: exchange_inv_def vf)
  then have "Io_send 7 (wire_bytes (to_wire (accept_msg 7 1 3))) \<in> set (filter is_send (io (x_gateway v)))" using fd by (simp add: send_events_def)
  then show thesis using that [OF v] by simp
qed

theorem sent_messages_typed_witness:
  "\<exists>x bs w. exchange_reach talk_os (talk_start sample_wire) x \<and> Io_send 7 bs \<in> set (io (x_gateway x)) \<and> length bs = 32 \<and> wire_of_bytes bs = w
     \<and> wire_typed w \<and> msg_type_of_u8 (w_type w) = OrderAccepted \<and> w_order_id w = 1 \<and> 1 < next_id (x_engine x)"
proof -
  obtain x where x: "exchange_reach talk_os (talk_start sample_wire) x" "within_limits x" "Io_send 7 (wire_bytes (to_wire (accept_msg 7 1 3))) \<in> set (io (x_gateway x))"
    by (rule sample_reply)
  from sent_messages_typed [OF talk_os_fits talk_start_start x] show ?thesis
    by (intro exI [of _ x] exI [of _ "wire_bytes (to_wire (accept_msg 7 1 3))"] exI [of _ "to_wire (accept_msg 7 1 3)"])
       (use x in \<open>auto simp: to_wire_def accept_msg_def msg_type_of_u8_def WIRE_MSG_SIZE_def\<close>)
qed

end
