(* ===== verification/Book_Counts.thy ===== *)
theory Book_Counts
  imports Book_Properties
begin

section \<open>Counting matches and orders\<close>

text \<open>
  Two counts that the programs around the book report (\<^verbatim>\<open>src/src/main.cpp\<close>, \<^verbatim>\<open>src/bench/order_book_bench.cpp\<close>): \<open>match_count\<close> grows by the number of fills an
  operation logs, and the number of resting orders by at most one.
\<close>

subsection \<open>Matches\<close>

text \<open>An operation that logs a fill counts it, and one that reports failure has logged none.\<close>

definition counts :: "OrderBook \<Rightarrow> bool \<Rightarrow> OrderBook \<Rightarrow> bool" where
  "counts b ok b' \<longleftrightarrow> book_ok b' \<and> capacity (pool b') = capacity (pool b)
     \<and> (\<exists>fs. fills b' = fills b @ fs \<and> match_count b' = match_count b + of_nat (length fs) \<and> (ok \<or> fs = []))"

lemma add_order_counts:
  assumes "book_ok b" "add_order i c sd ty p q ts b = Some (ok, b')"
  shows "counts b ok b'"
  using add_order_rep [OF book_ok_rep [OF assms(1)], of i c sd ty p q ts] assms(2) book_okI by (auto simp: counts_def)

lemma cancel_order_counts:
  assumes "book_ok b" "cancel_order i b = Some (ok, b')"
  shows "book_ok b' \<and> same_log b b'"
  using assms cancel_order_rep [OF book_ok_rep [OF assms(1)], of i] book_okI
  by (cases "lookup i b") (auto simp: cancel_order_def [of i b] same_log_def)

lemma modify_order_counts:
  assumes "book_ok b" "modify_order i p q ts b = Some (ok, b')"
  shows "counts b ok b'"
proof (cases "lookup i b")
  case (Some a)
  then obtain r b1 where c: "cancel_order i b = Some (r, b1)"
    "add_order i (o_client_id (heap_of b a)) (o_side (heap_of b a)) Limit p q ts b1 = Some (ok, b')"
    using assms(2) by (auto simp: modify_order_def Let_def split: Option.bind_splits)
  with cancel_order_counts [OF assms(1) c(1)] add_order_counts [OF _ c(2)] show ?thesis by (auto simp: same_log_def counts_def)
qed (use assms in \<open>simp add: modify_order_def counts_def\<close>)

subsection \<open>Orders\<close>

definition book_size :: "spec_book \<Rightarrow> nat" where
  "book_size B = length (B Bids) + length (B Asks)"

lemma match_q_length: "match_q sd go a rs = (a', rs', fs) \<Longrightarrow> length rs' \<le> length rs"
  by (induction rs arbitrary: a a' rs' fs) (auto simp: Let_def le_Suc_eq split: if_splits prod.splits)

lemma length_insert_prio: "length (insert_prio s x xs) = Suc (length xs)"
  by (metis insert_prio_def length_append list.size(4) add_Suc_right add.right_neutral takeWhile_dropWhile_id)

lemma book_size_other: "book_size B = length (B s) + length (B (other s))"
  by (cases s) (simp_all add: book_size_def)

lemma spec_add_size: "spec_add cap i c sd ty p q ts B = (ok, B', fs) \<Longrightarrow> book_size B' \<le> Suc (book_size B)"
proof (cases ok)
  case True
  let ?s = "half_of sd"
  assume "spec_add cap i c sd ty p q ts B = (ok, B', fs)"
  with True obtain a where m: "match_q (canon_side sd) (accepts ty (other ?s) p) (mk_order i c sd ty p q ts) (B (other ?s)) = (a, B' (other ?s), fs)"
    "B' ?s = (if \<not> is_filled a \<and> ty = Limit then insert_prio ?s a (B ?s) else B ?s)" by (auto elim: spec_add_accepted)
  have "length (B' ?s) \<le> Suc (length (B ?s))" unfolding m(2) by (simp add: length_insert_prio)
  with match_q_length [OF m(1)] show ?thesis by (simp add: book_size_other [where s = ?s])
qed (auto dest: spec_add_rejected)

lemma spec_cancel_size: "book_size (snd (spec_cancel i B)) \<le> book_size B"
  by (simp add: spec_cancel_def book_size_def add_mono)

lemma spec_modify_size:
  assumes "spec_modify cap i p q ts B = (ok, B', fs)" shows "book_size B' \<le> Suc (book_size B)"
proof (cases "find (\<lambda>x. o_id x = i) (B Bids @ B Asks)")
  case (Some x)
  with assms have "spec_add cap i (o_client_id x) (o_side x) Limit p q ts (snd (spec_cancel i B)) = (ok, B', fs)" by (simp add: spec_modify_def)
  from spec_add_size [OF this] spec_cancel_size [of i B] show ?thesis by simp
qed (use assms in \<open>simp add: spec_modify_def\<close>)

lemma active_orders_size: "book_ok b \<Longrightarrow> active_orders b = book_size (abs_book b)"
  using book_count(1) [OF book_ok_rep] by (simp add: active_orders_def book_size_def abs_book_rep [OF book_ok_rep])

text \<open>Everything that one call of \<open>add_order\<close> does, seen from outside.\<close>

lemma add_order_effect:
  assumes "book_ok b"
  shows "\<exists>r b' fs. add_order i c sd ty p q ts b = Some (r, b') \<and> book_ok b' \<and> capacity (pool b') = capacity (pool b)
     \<and> spec_add (capacity (pool b)) i c sd ty p q ts (abs_book b) = (r, abs_book b', fs) \<and> fills b' = fills b @ fs
     \<and> match_count b' = match_count b + of_nat (length fs) \<and> (tracked b \<and> fresh i b \<longrightarrow> tracked b')"
proof -
  from ob.add_law [OF assms, of i c sd ty p q ts] obtain r b' fs where a: "add_order i c sd ty p q ts b = Some (r, b')" "book_ok b'" "capacity (pool b') = capacity (pool b)"
    "spec_add (capacity (pool b)) i c sd ty p q ts (abs_book b) = (r, abs_book b', fs)" "fills b' = fills b @ fs" "tracked b \<and> fresh i b \<longrightarrow> tracked b'" by blast
  with add_order_counts [OF assms a(1)] show ?thesis by (auto simp: counts_def)
qed

end
