(* ===== verification/Civil_Time.thy ===== *)
theory Civil_Time
  imports Tf_Prelude
begin

section \<open>Calendar dates and timestamps of the feed\<close>

text \<open>
  Models \<open>days_from_civil\<close> and \<open>parse_rfc3339_ns\<close> of \<^verbatim>\<open>src/src/feed/feed_normalizer.h\<close>. Signed
  quantities are integers (the values stay far inside \<open>int64_t\<close>), unsigned ones 32-bit words that
  wrap; C++ division truncates towards zero (\<open>tdiv\<close>).

  The reference is the Gregorian calendar itself: the day after a date has the next number, and
  1970-01-01 has number 0.
\<close>

subsection \<open>days_from_civil\<close>

definition tdiv :: "int \<Rightarrow> int \<Rightarrow> int" where
  "tdiv a b = (if a \<ge> 0 then a div b else - ((- a) div b))"

definition days_from_civil :: "int \<Rightarrow> u32 \<Rightarrow> u32 \<Rightarrow> int" where
  "days_from_civil y0 m d =
     (let y = (if m \<le> 2 then y0 - 1 else y0);
          era = tdiv (if y \<ge> 0 then y else y - 399) 400;
          yoe = (word_of_int (y - era * 400) :: u32);
          doy = (153 * (m + (if m > 2 then - 3 else 9)) + 2) div 5 + d - 1;
          doe = yoe * 365 + yoe div 4 - yoe div 100 + doy
      in era * 146097 + uint doe - 719468)"

subsection \<open>parse_rfc3339_ns\<close>

definition is_digit :: "char \<Rightarrow> bool" where
  "is_digit c \<longleftrightarrow> (48::nat) \<le> of_char c \<and> of_char c \<le> (57::nat)"

definition digit_val :: "char \<Rightarrow> int" where
  "digit_val c = int (of_char c) - 48"

text \<open>The lambda \<open>num\<close>: a loop over the positions, ended early by a character that is no digit.\<close>

fun num_loop :: "string \<Rightarrow> nat \<Rightarrow> nat \<Rightarrow> int \<Rightarrow> int option" where
  "num_loop s off 0 v = Some v"
| "num_loop s off (Suc n) v =
     (if off < length s
      then if is_digit (s ! off) then num_loop s (Suc off) n (v * 10 + digit_val (s ! off)) else Some v
      else None)"

definition num :: "string \<Rightarrow> nat \<Rightarrow> nat \<Rightarrow> int option" where
  "num s off len = num_loop s off len 0"

text \<open>The fraction: at most nine digits are read, then the value is scaled to nanoseconds.\<close>

fun frac_loop :: "string \<Rightarrow> nat \<Rightarrow> int \<Rightarrow> int \<times> nat" where
  "frac_loop [] digits nanos = (nanos, digits)"
| "frac_loop (c # cs) digits nanos =
     (if is_digit c \<and> digits < 9 then frac_loop cs (digits + 1) (nanos * 10 + digit_val c) else (nanos, digits))"

function pad_loop :: "nat \<Rightarrow> int \<Rightarrow> int" where
  "pad_loop digits nanos = (if digits < 9 then pad_loop (digits + 1) (nanos * 10) else nanos)"
  by pat_completeness auto
termination by (relation "measure (\<lambda>(digits, _). 9 - digits)") auto

declare pad_loop.simps [simp del]

definition parse_rfc3339_ns :: "string \<Rightarrow> u64 option" where
  "parse_rfc3339_ns s =
     (if length s < 20 then Some 0 else do {
        yy \<leftarrow> num s 0 4;
        mm \<leftarrow> num s 5 2;
        dd \<leftarrow> num s 8 2;
        let days = days_from_civil yy (word_of_int mm) (word_of_int dd);
        hh \<leftarrow> num s 11 2;
        mi \<leftarrow> num s 14 2;
        ss \<leftarrow> num s 17 2;
        let secs = days * 86400 + hh * 3600 + mi * 60 + ss;
        let nanos = (if length s > 20 \<and> s ! 19 = CHR ''.''
                     then case frac_loop (drop 20 s) 0 0 of (n, digits) \<Rightarrow> pad_loop digits n else 0);
        Some (word_of_int secs * 1000000000 + word_of_int nanos)
      })"

subsection \<open>The calendar\<close>

definition leap :: "int \<Rightarrow> bool" where
  "leap y \<longleftrightarrow> 4 dvd y \<and> (\<not> 100 dvd y \<or> 400 dvd y)"

definition month_length :: "int \<Rightarrow> nat \<Rightarrow> nat" where
  "month_length y m = (if m = 2 then (if leap y then 29 else 28) else if m \<in> {4, 6, 9, 11} then 30 else 31)"

definition valid_date :: "int \<Rightarrow> nat \<Rightarrow> nat \<Rightarrow> bool" where
  "valid_date y m d \<longleftrightarrow> 1 \<le> m \<and> m \<le> 12 \<and> 1 \<le> d \<and> d \<le> month_length y m"

definition next_day :: "int \<Rightarrow> nat \<Rightarrow> nat \<Rightarrow> int \<times> nat \<times> nat" where
  "next_day y m d = (if d < month_length y m then (y, m, d + 1)
     else if m < 12 then (y, m + 1, 1) else (y + 1, 1, 1))"

text \<open>Days before month \<open>m\<close> in a year that starts in March.\<close>

definition march_days :: "nat \<Rightarrow> int" where
  "march_days m = (153 * (if m > 2 then int m - 3 else int m + 9) + 2) div 5"

definition leaps :: "int \<Rightarrow> int" where
  "leaps y = y div 4 - y div 100 + y div 400"

definition closed_days :: "int \<Rightarrow> nat \<Rightarrow> nat \<Rightarrow> int" where
  "closed_days y m d = (let y' = (if m \<le> 2 then y - 1 else y)
     in 365 * y' + leaps y' + march_days m + int d - 719469)"

lemma era_floor: "tdiv (if y \<ge> 0 then y else y - 399) 400 = y div 400"
proof (cases "y \<ge> 0")
  case False
  have "399 - y = 400 * (- (y div 400)) + (399 - y mod 400)" by (simp add: minus_mod_eq_mult_div [symmetric])
  then have "(399 - y) div 400 = - (y div 400)" by (rule int_div_pos_eq) (use pos_mod_bound [of 400 y] in simp_all)
  with False show ?thesis by (simp add: tdiv_def)
qed (simp add: tdiv_def)

lemma century_split:
  "365 * y + leaps y = (y div 400) * 146097 + (365 * (y mod 400) + (y mod 400) div 4 - (y mod 400) div 100)"
proof -
  define q r where "q = y div 400" and "r = y mod 400"
  have y: "y = r + 400 * q" by (simp add: q_def r_def)
  have "r div 400 = 0" by (simp add: r_def)
  moreover have "(r + 400 * q) div 4 = r div 4 + 100 * q" "(r + 400 * q) div 100 = r div 100 + 4 * q"
    using div_mult_self2 [of 4 r "100 * q"] div_mult_self2 [of 100 r "4 * q"] by simp_all
  ultimately show ?thesis unfolding q_def [symmetric] r_def [symmetric] by (simp add: y leaps_def)
qed

lemma month_cases:
  assumes "1 \<le> m" "m \<le> (12::nat)"
  shows "m \<in> {1, 2, 3, 4, 5, 6, 7, 8, 9, 10, 11, 12}"
  using assms by (simp add: le_Suc_eq numeral_eq_Suc)

lemma doy_word:
  assumes m: "1 \<le> m" "m \<le> 12" and d: "1 \<le> d" "d \<le> 31"
  shows "(153 * (of_nat m + (if (of_nat m :: u32) > 2 then - 3 else 9)) + 2) div 5 + of_nat d - 1 = (of_nat (nat (march_days m) + d - 1) :: u32)"
  using month_cases [OF m] d
  by (elim insertE emptyE) (simp_all add: march_days_def of_nat_diff)

lemma of_nat_div_word: "a < 2 ^ 32 \<Longrightarrow> b < 2 ^ 32 \<Longrightarrow> of_nat a div of_nat b = (of_nat (a div b) :: u32)"
  by (simp add: word_arith_nat_div unat_of_nat)

lemma uint_of_nat_small: "n < 2 ^ 32 \<Longrightarrow> uint (of_nat n :: u32) = int n"
  by (simp add: uint_nat unat_of_nat)

lemma doe_word:
  assumes "yoe < 400" "doy < 400"
  shows "uint (of_nat yoe * 365 + of_nat yoe div 4 - of_nat yoe div 100 + of_nat doy :: u32) = int (yoe * 365 + yoe div 4 - yoe div 100 + doy)"
proof -
  have "of_nat yoe * 365 + of_nat yoe div 4 - of_nat yoe div 100 + of_nat doy = (of_nat (yoe * 365 + yoe div 4 - yoe div 100 + doy) :: u32)"
    using assms of_nat_div_word [of yoe 4] of_nat_div_word [of yoe 100] by (simp add: of_nat_diff)
  then show ?thesis using assms by (simp only:) (rule uint_of_nat_small, simp)
qed

lemma march_days_bounds: "1 \<le> m \<Longrightarrow> m \<le> 12 \<Longrightarrow> 0 \<le> march_days m \<and> march_days m < 340"
  using month_cases [of m] by (auto simp: march_days_def)

lemma days_from_civil_closed:
  assumes m: "1 \<le> m" "m \<le> 12" and d: "1 \<le> d" "d \<le> 31"
  shows "days_from_civil y (of_nat m) (of_nat d) = closed_days y m d"
proof -
  define y' where "y' = (if m \<le> 2 then y - 1 else y)"
  define doy where "doy = nat (march_days m) + d - 1"
  have m2: "of_nat m \<le> (2::u32) \<longleftrightarrow> m \<le> 2" using m by (simp add: word_le_nat_alt unat_of_nat)
  have doy: "doy < 400" "int doy = march_days m + int d - 1" using march_days_bounds [OF m] d by (auto simp: doy_def)
  have yoe: "nat (y' mod 400) < 400" using pos_mod_bound [of 400 y'] by simp
  have yoe_le: "nat (y' mod 400) div 100 \<le> nat (y' mod 400) * 365 + nat (y' mod 400) div 4" by (intro trans_le_add2 div_le_mono2) simp_all
  have w: "word_of_int (y' - y' div 400 * 400) = (of_nat (nat (y' mod 400)) :: u32)"
    by (simp add: minus_div_mult_eq_mod)
  have "uint (of_nat (nat (y' mod 400)) * 365 + of_nat (nat (y' mod 400)) div 4 - of_nat (nat (y' mod 400)) div 100 + of_nat doy :: u32)
      = 365 * (y' mod 400) + (y' mod 400) div 4 - (y' mod 400) div 100 + int doy"
    unfolding doe_word [OF yoe doy(1)] using yoe_le by (simp add: of_nat_diff zdiv_int)
  then show ?thesis
    unfolding days_from_civil_def m2 Let_def y'_def [symmetric] era_floor w doy_word [OF m d] doy_def [symmetric]
    using century_split [of y'] doy(2) by (simp add: closed_days_def Let_def y'_def [symmetric])
qed

lemma div_pred: "(k::int) > 0 \<Longrightarrow> y div k = (y - 1) div k + (if k dvd y then 1 else 0)"
proof (cases "k dvd y")
  case True
  assume k: "k > 0"
  have "(y - 1) div k = y div k - 1" 
    by (rule int_div_pos_eq [of _ _ _ "k - 1"]) (use True k in \<open>auto simp: right_diff_distrib\<close>)
  with True show ?thesis by simp
next
  case False
  assume k: "k > 0"
  have "y mod k > 0" using False k by (metis mod_0_imp_dvd pos_mod_sign order_le_less)
  moreover have "y mod k - 1 < k" using pos_mod_bound [OF k, of y] by linarith
  moreover have "y - 1 = k * (y div k) + (y mod k - 1)" by simp
  ultimately have "(y - 1) div k = y div k" by (intro int_div_pos_eq) simp_all
  with False show ?thesis by simp
qed

lemma leap_count:
  fixes a :: int
  assumes "a = a' + (if A then 1 else 0)" "b = b' + (if B then 1 else 0)" "c = c' + (if C then 1 else 0)" "B \<Longrightarrow> A" "C \<Longrightarrow> B"
  shows "a - b + c = a' - b' + c' + (if A \<and> (\<not> B \<or> C) then 1 else 0)"
  using assms by auto

lemma leaps_pred: "leaps y = leaps (y - 1) + (if leap y then 1 else 0)"
  unfolding leaps_def leap_def
  by (rule leap_count; (rule div_pred)?) (auto elim: dvd_trans [rotated])

lemma closed_days_next:
  assumes "valid_date y m d" and "next_day y m d = (y2, m2, d2)"
  shows "closed_days y2 m2 d2 = closed_days y m d + 1"
proof -
  have m: "1 \<le> m" "m \<le> 12" using assms(1) by (auto simp: valid_date_def)
  show ?thesis using month_cases [OF m] assms leaps_pred [of y]
    by (elim insertE emptyE) (auto simp: valid_date_def next_day_def month_length_def closed_days_def march_days_def Let_def split: if_splits)
qed

subsection \<open>Printing timestamps\<close>

definition digit_char :: "nat \<Rightarrow> char" where
  "digit_char n = char_of (48 + n mod 10)"

primrec dec :: "nat \<Rightarrow> nat \<Rightarrow> string" where
  "dec 0 n = []"
| "dec (Suc w) n = dec w (n div 10) @ [digit_char n]"

text \<open>
  The timestamp of a date and time of day with a fraction of \<open>k\<close> digits (none and no point when
  \<open>k = 0\<close>), ending with \<open>Z\<close>.
\<close>

definition rfc3339 :: "nat \<Rightarrow> nat \<Rightarrow> nat \<Rightarrow> nat \<Rightarrow> nat \<Rightarrow> nat \<Rightarrow> nat \<Rightarrow> nat \<Rightarrow> string" where
  "rfc3339 y m d h mi s k f =
     dec 4 y @ ''-'' @ dec 2 m @ ''-'' @ dec 2 d @ ''T'' @ dec 2 h @ '':'' @ dec 2 mi @ '':'' @ dec 2 s
       @ (if k = 0 then [] else ''.'' @ dec k f) @ ''Z''"

definition digits_val :: "int \<Rightarrow> string \<Rightarrow> int" where
  "digits_val v ds = foldl (\<lambda>v c. v * 10 + digit_val c) v ds"

lemma digit_char_props [simp]: "is_digit (digit_char n)" "digit_val (digit_char n) = int (n mod 10)"
proof -
  have "48 + n mod 10 < 256" using mod_less_divisor [of 10 n] by linarith
  then show "is_digit (digit_char n)" "digit_val (digit_char n) = int (n mod 10)"
    by (auto simp: is_digit_def digit_char_def digit_val_def)
qed

lemma length_dec [simp]: "length (dec w n) = w"
  by (induction w arbitrary: n) auto

lemma digits_dec [simp]: "list_all is_digit (dec w n)"
  by (induction w arbitrary: n) auto

lemma digits_val_dec: "n < 10 ^ w \<Longrightarrow> digits_val v (dec w n) = v * 10 ^ w + int n"
proof (induction w arbitrary: n)
  case (Suc w)
  then have "n div 10 < 10 ^ w" by (simp add: less_mult_imp_div_less mult.commute)
  from Suc.IH [OF this] have "digits_val v (dec (Suc w) n) = (v * 10 ^ w + int (n div 10)) * 10 + int (n mod 10)"
    by (simp add: digits_val_def)
  also have "\<dots> = v * 10 ^ Suc w + (int (n div 10) * 10 + int (n mod 10))" by (simp add: algebra_simps)
  also have "int (n div 10) * 10 + int (n mod 10) = int n" by (metis div_mult_mod_eq of_nat_add of_nat_mult of_nat_numeral)
  finally show ?case .
qed (simp add: digits_val_def)

lemma num_loop_digits:
  "list_all is_digit ds \<Longrightarrow> num_loop (pre @ ds @ post) (length pre) (length ds) v = Some (digits_val v ds)"
proof (induction ds arbitrary: pre v)
  case (Cons c ds)
  then show ?case using Cons.IH [of "pre @ [c]"] by (simp add: digits_val_def nth_append)
qed (simp add: digits_val_def)

lemma num_dec: "s = pre @ dec w n @ post \<Longrightarrow> n < 10 ^ w \<Longrightarrow> length pre = off \<Longrightarrow> num s off w = Some (int n)"
  using num_loop_digits [of "dec w n" pre post 0] by (simp add: num_def digits_val_dec)

lemma frac_loop_digits:
  "list_all is_digit ds \<Longrightarrow> k + length ds \<le> 9 \<Longrightarrow> \<not> is_digit c \<Longrightarrow> frac_loop (ds @ c # post) k v = (digits_val v ds, k + length ds)"
  by (induction ds arbitrary: k v) (auto simp: digits_val_def)

lemma pad_loop_pow: "k \<le> 9 \<Longrightarrow> pad_loop k n = n * 10 ^ (9 - k)"
proof (induction k n rule: pad_loop.induct)
  case (1 k n)
  then show ?case
    by (cases "k < 9") (simp_all add: pad_loop.simps [of k n] pad_loop.simps [of 9] Suc_diff_Suc [symmetric])
qed

subsection \<open>Properties\<close>

lemma valid_date_bounds: "valid_date y m d \<Longrightarrow> 1 \<le> m \<and> m \<le> 12 \<and> 1 \<le> d \<and> d \<le> 31"
  by (auto simp: valid_date_def month_length_def split: if_splits)

lemma next_day_valid: "valid_date y m d \<Longrightarrow> next_day y m d = (y2, m2, d2) \<Longrightarrow> valid_date y2 m2 d2"
  by (auto simp: valid_date_def next_day_def month_length_def split: if_splits)

lemma days_from_civil_valid: "valid_date y m d \<Longrightarrow> days_from_civil y (of_nat m) (of_nat d) = closed_days y m d"
  using valid_date_bounds [of y m d] by (simp add: days_from_civil_closed)

lemma epoch_day: "valid_date 1970 1 1" "closed_days 1970 1 1 = 0"
  by (simp_all add: valid_date_def month_length_def closed_days_def march_days_def leaps_def Let_def)

lemma nth_day:
  "case ((\<lambda>(y, m, d). next_day y m d) ^^ n) (1970, 1, 1) of (y, m, d) \<Rightarrow> valid_date y m d \<and> closed_days y m d = int n"
proof (induction n)
  case (Suc n)
  then show ?case
    by (auto simp: closed_days_next split: prod.splits intro: next_day_valid)
qed (simp add: epoch_day [simplified])

text \<open>
  \<open>days_from_civil\<close> counts the days of the Gregorian calendar: the number of the day after any
  valid date, of any year, is the next one, and the day reached from 1970-01-01 by stepping through the
  calendar \<open>n\<close> times has number \<open>n\<close>. The unsigned intermediate results never wrap into the answer.
\<close>

lemma days_from_civil_calendar:
  assumes "valid_date y m d" and "next_day y m d = (y2, m2, d2)"
  shows "days_from_civil y2 (of_nat m2) (of_nat d2) = days_from_civil y (of_nat m) (of_nat d) + 1
     \<and> (case ((\<lambda>(y, m, d). next_day y m d) ^^ n) (1970, 1, 1) of
          (y, m, d) \<Rightarrow> valid_date y m d \<and> days_from_civil y (of_nat m) (of_nat d) = int n)"
proof -
  from nth_day [of n] have "case ((\<lambda>(y, m, d). next_day y m d) ^^ n) (1970, 1, 1) of
      (y, m, d) \<Rightarrow> valid_date y m d \<and> days_from_civil y (of_nat m) (of_nat d) = int n"
    by (auto simp: days_from_civil_valid split: prod.splits)
  with assms show ?thesis
    by (simp add: days_from_civil_valid next_day_valid [OF assms] closed_days_next [OF assms])
qed

lemma leaps_mono:
  assumes "x \<le> y" shows "leaps x \<le> leaps y"
  using assms
proof (induction y rule: int_ge_induct)
  case (step i)
  then show ?case using leaps_pred [of "i + 1"] by simp
qed simp

lemma closed_days_range:
  assumes "valid_date y m d" "1970 \<le> y" "y \<le> 2553"
  shows "0 \<le> closed_days y m d" "closed_days y m d \<le> 213400"
proof -
  define y' where "y' = (if m \<le> 2 then y - 1 else y)"
  have r: "1969 \<le> y'" "y' \<le> 2553" and m: "1 \<le> m" "m \<le> 12" "1 \<le> d" "d \<le> 31"
    using assms valid_date_bounds [OF assms(1)] by (auto simp: y'_def)
  have e: "closed_days y m d = 365 * y' + leaps y' + march_days m + int d - 719469"
    by (simp add: closed_days_def y'_def Let_def)
  have l: "477 \<le> leaps y'" "leaps y' \<le> 619"
    using leaps_mono [OF r(1)] leaps_mono [OF r(2)] by (simp_all add: leaps_def)
  have "march_days m \<ge> (if m \<le> 2 then 306 else 0)" using month_cases [OF m(1,2)] by (auto simp: march_days_def)
  then show "0 \<le> closed_days y m d" unfolding e using l(1) m(3) r(1) assms(2) by (auto simp: y'_def split: if_splits)
  show "closed_days y m d \<le> 213400" unfolding e using l(2) m(4) r(2) march_days_bounds [OF m(1,2)] by linarith
qed

lemma rfc3339_fields:
  assumes "y < 10 ^ 4" "m < 10 ^ 2" "d < 10 ^ 2" "h < 10 ^ 2" "mi < 10 ^ 2" "s < 10 ^ 2"
  shows "num (rfc3339 y m d h mi s k f) 0 4 = Some (int y)" "num (rfc3339 y m d h mi s k f) 5 2 = Some (int m)"
    "num (rfc3339 y m d h mi s k f) 8 2 = Some (int d)" "num (rfc3339 y m d h mi s k f) 11 2 = Some (int h)"
    "num (rfc3339 y m d h mi s k f) 14 2 = Some (int mi)" "num (rfc3339 y m d h mi s k f) 17 2 = Some (int s)"
  by (rule num_dec [where pre = "[]"], simp add: rfc3339_def, fact, simp)
     (rule num_dec [where pre = "dec 4 y @ ''-''"], simp add: rfc3339_def, fact, simp,
      rule num_dec [where pre = "dec 4 y @ ''-'' @ dec 2 m @ ''-''"], simp add: rfc3339_def, fact, simp,
      rule num_dec [where pre = "dec 4 y @ ''-'' @ dec 2 m @ ''-'' @ dec 2 d @ ''T''"], simp add: rfc3339_def, fact, simp,
      rule num_dec [where pre = "dec 4 y @ ''-'' @ dec 2 m @ ''-'' @ dec 2 d @ ''T'' @ dec 2 h @ '':''"], simp add: rfc3339_def, fact, simp,
      rule num_dec [where pre = "dec 4 y @ ''-'' @ dec 2 m @ ''-'' @ dec 2 d @ ''T'' @ dec 2 h @ '':'' @ dec 2 mi @ '':''"], simp add: rfc3339_def, fact, simp)

lemma rfc3339_tail:
  "length (rfc3339 y m d h mi s k f) = (if k = 0 then 20 else 21 + k)"
  "rfc3339 y m d h mi s k f ! 19 = (if k = 0 then CHR ''Z'' else CHR ''.'')"
  "k > 0 \<Longrightarrow> drop 20 (rfc3339 y m d h mi s k f) = dec k f @ ''Z''"
  by (simp_all add: rfc3339_def nth_append)

text \<open>
  C28. Timestamps round-trip: parsing the RFC 3339 text of a valid date and time with any number of
  fraction digits up to nine gives the nanoseconds since the epoch, modulo \<open>2 ^ 64\<close>; from 1970 to 2553
  the result is exact. The days of the epoch are those of the Gregorian calendar: the date reached from 1970-01-01 by stepping
  through the calendar \<open>n\<close> times counts as \<open>n\<close> days, and each date, of any year, as one more than the date before it.
\<close>

theorem parse_rfc3339_roundtrip:
  assumes "valid_date (int y) m d" and "y < 10000" and "h < 24" and "mi < 60" and "s < 60" and "k \<le> 9" and "f < 10 ^ k"
  defines "t \<equiv> (days_from_civil (int y) (of_nat m) (of_nat d) * 86400 + int h * 3600 + int mi * 60 + int s) * 1000000000 + int f * 10 ^ (9 - k)"
  shows "parse_rfc3339_ns (rfc3339 y m d h mi s k f) = Some (word_of_int t)
     \<and> (1970 \<le> y \<and> y \<le> 2553 \<longrightarrow> uint (word_of_int t :: u64) = t)
     \<and> (((\<lambda>(y, m, d). next_day y m d) ^^ n) (1970, 1, 1) = (int y, m, d) \<longrightarrow> days_from_civil (int y) (of_nat m) (of_nat d) = int n)
     \<and> (next_day (int y) m d = (y2, m2, d2) \<longrightarrow> days_from_civil y2 (of_nat m2) (of_nat d2) = days_from_civil (int y) (of_nat m) (of_nat d) + 1)"
proof -
  let ?r = "rfc3339 y m d h mi s k f"
  have frac: "(if length ?r > 20 \<and> ?r ! 19 = CHR ''.'' then case frac_loop (drop 20 ?r) 0 0 of (n, digits) \<Rightarrow> pad_loop digits n else 0)
      = int f * 10 ^ (9 - k)"
    using assms(6,7) frac_loop_digits [of "dec k f" 0 "CHR ''Z''" "[]" 0]
    by (cases "k = 0") (simp_all add: rfc3339_tail digits_val_dec pad_loop_pow is_digit_def)
  have md: "m < 10 ^ 2" "d < 10 ^ 2" using valid_date_bounds [OF assms(1)] by simp_all
  have "parse_rfc3339_ns ?r = Some (word_of_int t)"
    unfolding parse_rfc3339_ns_def Let_def frac t_def using assms(2-5)
    by (simp add: rfc3339_fields md [simplified] rfc3339_tail(1))
  moreover have "uint (word_of_int t :: u64) = t" if y: "1970 \<le> y" "y \<le> 2553"
  proof -
    have "0 \<le> closed_days (int y) m d" "closed_days (int y) m d \<le> 213400"
      using closed_days_range [OF assms(1)] y by simp_all
    moreover have "int f * 10 ^ (9 - k) < 1000000000"
    proof -
      have "int f * 10 ^ (9 - k) < 10 ^ k * 10 ^ (9 - k)" using assms(7) by simp
      also have "\<dots> = 1000000000" using assms(6) by (simp flip: power_add)
      finally show ?thesis .
    qed
    ultimately have "0 \<le> t" "t < 2 ^ 64"
      using assms(3-5) unfolding t_def days_from_civil_valid [OF assms(1)] by simp_all
    then show ?thesis by (simp add: uint_word_of_int_eq take_bit_int_eq_self)
  qed
  moreover have "days_from_civil (int y) (of_nat m) (of_nat d) = int n" if "((\<lambda>(y, m, d). next_day y m d) ^^ n) (1970, 1, 1) = (int y, m, d)"
    using nth_day [of n] that by (simp add: days_from_civil_valid)
  moreover have "days_from_civil y2 (of_nat m2) (of_nat d2) = days_from_civil (int y) (of_nat m) (of_nat d) + 1" if "next_day (int y) m d = (y2, m2, d2)"
    using days_from_civil_calendar [OF assms(1) that] by blast
  ultimately show ?thesis by blast
qed

theorem parse_rfc3339_roundtrip_witness:
  "\<exists>ns. parse_rfc3339_ns (rfc3339 2023 4 6 11 54 26 9 838232225) = Some ns \<and> uint ns = 1680782066838232225"
proof -
  have v: "valid_date (int 2023) 4 6" by (simp add: valid_date_def month_length_def)
  have "days_from_civil 2023 4 6 = 19453"
    using days_from_civil_valid [OF v] by (simp add: closed_days_def leaps_def march_days_def)
  with parse_rfc3339_roundtrip [OF v, of 11 54 26 9 838232225] show ?thesis by simp
qed

end
