(* ===== verification/C_Text.thy ===== *)
theory C_Text
  imports Civil_Time
begin

section \<open>Numbers on the command line\<close>

text \<open>
  \<open>strtoull\<close> and \<open>atoi\<close> of the C library, which both programs call on their arguments and environment variables: decimal, with white
  space and sign in front, up to the first character that is not a digit. \<open>strtoull\<close> saturates; \<open>atoi\<close> is undefined when the number is out of range.
\<close>

definition is_space :: "char \<Rightarrow> bool" where
  "is_space c \<longleftrightarrow> c \<in> {CHR 0x20, CHR 0x09, CHR 0x0A, CHR 0x0B, CHR 0x0C, CHR 0x0D}"

definition decimal :: "string \<Rightarrow> bool \<times> nat" where
  "decimal s =
     (let s1 = dropWhile is_space s;
          neg = (s1 \<noteq> [] \<and> hd s1 = CHR ''-'');
          s2 = (if s1 \<noteq> [] \<and> hd s1 \<in> {CHR ''-'', CHR ''+''} then tl s1 else s1)
      in (neg, foldl (\<lambda>n c. 10 * n + nat (digit_val c)) 0 (takeWhile is_digit s2)))"

definition strtoull :: "string \<Rightarrow> u64" where
  "strtoull s = (case decimal s of (neg, n) \<Rightarrow> if n \<ge> 2 ^ 64 then - 1 else if neg then - of_nat n else of_nat n)"

definition atoi :: "string \<Rightarrow> int option" where
  "atoi s = (case decimal s of (neg, n) \<Rightarrow> let v = (if neg then - int n else int n) in if - (2 ^ 31) \<le> v \<and> v < 2 ^ 31 then Some v else None)"

lemma foldl_digits: "list_all is_digit ds \<Longrightarrow> int (foldl (\<lambda>n c. 10 * n + nat (digit_val c)) k ds) = digits_val (int k) ds"
proof (induction ds arbitrary: k)
  case (Cons c ds)
  then have "0 \<le> digit_val c" by (simp add: is_digit_def digit_val_def)
  with Cons show ?case by (simp add: digits_val_def mult.commute)
qed (simp add: digits_val_def)

text \<open>A number printed in decimal is read back, whatever follows it.\<close>

lemma decimal_dec:
  assumes "w > 0" "n < 10 ^ w" "s = [] \<or> \<not> is_digit (hd s)"
  shows "decimal (dec w n @ s) = (False, n)"
proof -
  let ?d = "dec w n"
  obtain c cs where d: "?d = c # cs" using assms(1) length_dec [of w n] by (cases ?d) auto
  have "is_digit c" using digits_dec [of w n] by (simp add: d)
  then have "\<not> is_space c" "c \<notin> {CHR ''-'', CHR ''+''}" by (auto simp: is_digit_def is_space_def)
  then have "decimal (?d @ s) = (False, foldl (\<lambda>n c. 10 * n + nat (digit_val c)) 0 (takeWhile is_digit (?d @ s)))" by (simp add: decimal_def d)
  moreover have "takeWhile is_digit (?d @ s) = ?d" using digits_dec [of w n] assms(3) by (cases s) (auto simp: list_all_iff)
  moreover have "int (foldl (\<lambda>n c. 10 * n + nat (digit_val c)) 0 ?d) = int n" using assms(2) by (simp add: foldl_digits digits_val_dec)
  ultimately show ?thesis by simp
qed

lemma atoi_dec:
  assumes "w > 0" "n < 10 ^ w" "n < 2 ^ 31" "s = [] \<or> \<not> is_digit (hd s)"
  shows "atoi (dec w n @ s) = Some (int n)"
  using assms(3) decimal_dec [OF assms(1,2,4)] by (simp add: atoi_def)

end
