(* ===== verification/Exchange_Main.thy ===== *)
theory Exchange_Main
  imports Engine_Replies Book_Counts C_Text
begin

section \<open>The exchange program\<close>

text \<open>
  Models \<open>main\<close> of \<^verbatim>\<open>src/src/main.cpp\<close> around the two threads of \<open>Exchange\<close>: the port and the core numbers from the command line and the
  environment, pinning, the start of the threads, the loop that prints a status line, and joining the threads after the signal.

  The status line calls the observers of the book while the engine changes it. Each call is a step of its own that sees the book as
  it is then (\<open>M_status\<close>; a value that is torn because the engine is inside a request is not modelled, it is a data race). The
  counter \<open>tick\<close> is an \<open>int\<close>; the model has no step where its increment would overflow.
\<close>

subsection \<open>Arguments, environment, pinning\<close>

text \<open>What the process is started with, and the results of the calls that set it up.\<close>

record main_env =
  me_args :: "string list"
  me_getenv :: "string \<Rightarrow> string option"
  me_ncpu :: int
  me_affinity :: "string \<Rightarrow> int \<Rightarrow> int"
  me_fifo :: "string \<Rightarrow> int"
  me_socket :: int
  me_bind :: "16 word \<Rightarrow> int"
  me_listen :: int
  me_epoll :: int
  me_ctl :: int

datatype line = Banner int nat nat Price Price | Not_ready int
  | Core_too_big string int int | Pin_failed string int | Fifo_unavailable string
  | Status nat u64 Price Price Price | Shutting_down | Total_matches u64

definition core_from_env :: "main_env \<Rightarrow> string \<Rightarrow> int \<Rightarrow> int option" where
  "core_from_env E name fallback = (case me_getenv E name of None \<Rightarrow> Some fallback | Some v \<Rightarrow> atoi v)"

definition pin_thread :: "main_env \<Rightarrow> string \<Rightarrow> int \<Rightarrow> line list" where
  "pin_thread E name cpu =
     (if cpu \<ge> me_ncpu E then [Core_too_big name cpu (me_ncpu E)]
      else (if me_affinity E name cpu \<noteq> 0 then [Pin_failed name cpu] else [])
        @ (if me_fifo E name \<noteq> 0 then [Fifo_unavailable name] else []))"

definition port_arg :: "main_env \<Rightarrow> int option" where
  "port_arg E = (case me_args E of [] \<Rightarrow> Some 9000 | a # _ \<Rightarrow> atoi a)"

subsection \<open>The process\<close>

datatype thread_pc = T_pin int | T_loop | T_end

datatype main_pc = M_test int | M_status int "OrderBook list" | M_join_engine | M_join_gateway | is_exit: M_exit int

record 'k program =
  p_x :: "'k exchange"
  p_engine :: thread_pc
  p_gateway :: thread_pc
  p_main :: main_pc
  p_lines :: "line list"

text \<open>
  The start: \<open>None\<close> where \<open>atoi\<close> is undefined; \<open>Inl\<close> is the early exit, with its status, its output and the events of the gateway, which is
  destroyed on the way out.
\<close>

definition main_start ::
  "main_env \<Rightarrow> (nat \<Rightarrow> InboundMessage) \<Rightarrow> (nat \<Rightarrow> OutboundMessage) \<Rightarrow> 'k \<Rightarrow> ((int \<times> line list \<times> io_event list) + 'k program) option" where
  "main_start E junk_in junk_out k = do {
     port \<leftarrow> port_arg E;
     let banner = Banner port RING_SIZE MAX_ORDERS MIN_PRICE MAX_PRICE;
     let rc = me_bind E (of_int port);
     case exchange_start junk_in junk_out (me_socket E) rc (me_listen E) (me_epoll E) (me_ctl E) k of
       None \<Rightarrow> Some (Inl (1, [banner, Not_ready port],
                 io (gateway_destroy (gateway_new (ring_new junk_in) (ring_new junk_out) (me_socket E) rc (me_listen E) (me_epoll E) (me_ctl E)))))
     | Some x \<Rightarrow> do {
         ec \<leftarrow> core_from_env E ''ENGINE_CORE'' 1;
         gc \<leftarrow> core_from_env E ''GATEWAY_CORE'' 2;
         Some (Inr \<lparr>p_x = x, p_engine = T_pin ec, p_gateway = T_pin gc, p_main = M_test 0, p_lines = [banner]\<rparr>)
       }
   }"

definition TICKS_PER_PRINT :: int where
  "TICKS_PER_PRINT = 50"

text \<open>The eight calls of the statement, each on the book as it was at that call.\<close>

definition STATUS_READS :: nat where
  "STATUS_READS = 8"

definition status_line :: "OrderBook list \<Rightarrow> line" where
  "status_line bs = Status (active_orders (bs ! 0)) (match_count (bs ! 1)) (best_bid (bs ! 2)) (best_ask (bs ! 3))
     (if best_ask (bs ! 4) > best_bid (bs ! 5) then best_ask (bs ! 6) - best_bid (bs ! 7) else 0)"

inductive process_step :: "main_env \<Rightarrow> 'k os \<Rightarrow> 'k program \<Rightarrow> 'k program \<Rightarrow> bool" for E os where
  environment: "\<not> is_exit (p_main p) \<Longrightarrow> exchange_step os Environment (p_x p) x \<Longrightarrow> process_step E os p (p\<lparr>p_x := x\<rparr>)"
| engine_pin: "p_engine p = T_pin c \<Longrightarrow> process_step E os p (p\<lparr>p_engine := T_loop, p_lines := p_lines p @ pin_thread E ''engine'' c\<rparr>)"
| engine_work: "p_engine p = T_loop \<Longrightarrow> exchange_step os Engine_thread (p_x p) x \<Longrightarrow> process_step E os p (p\<lparr>p_x := x\<rparr>)"
| engine_end: "p_engine p = T_loop \<Longrightarrow> \<not> x_running (p_x p) \<Longrightarrow> process_step E os p (p\<lparr>p_engine := T_end\<rparr>)"
| gateway_pin: "p_gateway p = T_pin c \<Longrightarrow> process_step E os p (p\<lparr>p_gateway := T_loop, p_lines := p_lines p @ pin_thread E ''gateway'' c\<rparr>)"
| gateway_work: "p_gateway p = T_loop \<Longrightarrow> exchange_step os Gateway_thread (p_x p) x \<Longrightarrow> process_step E os p (p\<lparr>p_x := x\<rparr>)"
| gateway_end: "p_gateway p = T_loop \<Longrightarrow> x_pc (p_x p) = G_wait \<Longrightarrow> \<not> x_running (p_x p) \<Longrightarrow> process_step E os p (p\<lparr>p_gateway := T_end\<rparr>)"
| tick: "p_main p = M_test tk \<Longrightarrow> x_running (p_x p) \<Longrightarrow> tk mod TICKS_PER_PRINT \<noteq> 0 \<Longrightarrow> tk + 1 < 2 ^ 31 \<Longrightarrow>
    process_step E os p (p\<lparr>p_main := M_test (tk + 1)\<rparr>)"
| status: "p_main p = M_test tk \<Longrightarrow> x_running (p_x p) \<Longrightarrow> tk mod TICKS_PER_PRINT = 0 \<Longrightarrow> process_step E os p (p\<lparr>p_main := M_status tk []\<rparr>)"
| observe: "p_main p = M_status tk bs \<Longrightarrow> length bs < STATUS_READS \<Longrightarrow>
    process_step E os p (p\<lparr>p_main := M_status tk (bs @ [book (x_engine (p_x p))])\<rparr>)"
| print: "p_main p = M_status tk bs \<Longrightarrow> length bs = STATUS_READS \<Longrightarrow> tk + 1 < 2 ^ 31 \<Longrightarrow>
    process_step E os p (p\<lparr>p_main := M_test (tk + 1), p_lines := p_lines p @ [status_line bs]\<rparr>)"
| shutdown: "p_main p = M_test tk \<Longrightarrow> \<not> x_running (p_x p) \<Longrightarrow> process_step E os p (p\<lparr>p_main := M_join_engine, p_lines := p_lines p @ [Shutting_down]\<rparr>)"
| join_engine: "p_main p = M_join_engine \<Longrightarrow> p_engine p = T_end \<Longrightarrow> process_step E os p (p\<lparr>p_main := M_join_gateway\<rparr>)"
| join_gateway: "p_main p = M_join_gateway \<Longrightarrow> p_gateway p = T_end \<Longrightarrow>
    process_step E os p (p\<lparr>p_main := M_exit 0, p_lines := p_lines p @ [Total_matches (match_count (book (x_engine (p_x p))))],
      p_x := (p_x p)\<lparr>x_gateway := gateway_destroy (x_gateway (p_x p))\<rparr>\<rparr>)"

inductive process_reach :: "main_env \<Rightarrow> 'k os \<Rightarrow> 'k program \<Rightarrow> 'k program \<Rightarrow> bool" for E os p0 where
  start: "process_reach E os p0 p0"
| step: "process_reach E os p0 p \<Longrightarrow> process_step E os p q \<Longrightarrow> process_reach E os p0 q"

subsection \<open>Counting matches\<close>

definition counted :: "MatchingEngine \<Rightarrow> bool" where
  "counted e \<longleftrightarrow> book_ok (book e) \<and> capacity (pool (book e)) = MAX_ORDERS \<and> match_number e = match_count (book e) + 1"

lemma counted_emit:
  assumes "counted e" "counts (clear_fills (book e)) ok (book e2)" "match_number e2 = match_number e"
  shows "counted (if ok then emit_fills tsc (emit_accept c i tsc e2) else emit_reject c i r tsc e2)"
  using assms by (auto simp: counted_def counts_def emit_single emit_fills_emitted)

lemma process_counted:
  assumes "counted e" "process tsc msg e = Some e'"
  shows "counted e'"
proof -
  let ?b = "clear_fills (book e)"
  have b: "book_ok (book e)" "book_ok ?b" using assms(1) by (simp_all add: counted_def)
  show ?thesis
  proof (cases "in_type msg")
    case NewOrder
    with assms(2) obtain ok b' where a: "add_order (next_id e) (in_client_id msg) (in_side msg) (in_order_type msg) (in_price msg) (in_quantity msg)
        (in_recv_tsc msg) ?b = Some (ok, b')" by (auto simp: process_def Let_def split: Option.bind_splits)
    with assms(2) NewOrder counted_emit [OF assms(1), of ok "e\<lparr>next_id := next_id e + 1, book := b'\<rparr>"] add_order_counts [OF b(2) a]
    show ?thesis by (auto simp: process_def Let_def)
  next
    case CancelOrder
    with assms(2) obtain ok b' where a: "cancel_order (in_order_id msg) (book e) = Some (ok, b')" by (auto simp: process_def split: Option.bind_splits)
    with assms CancelOrder cancel_order_counts [OF b(1) a] show ?thesis by (auto simp: process_def Let_def counted_def emit_single same_log_def split: if_splits)
  next
    case ModifyOrder
    with assms(2) obtain ok b' where a: "modify_order (in_order_id msg) (in_price msg) (in_quantity msg) (in_recv_tsc msg) ?b = Some (ok, b')"
      by (auto simp: process_def Let_def split: Option.bind_splits)
    with assms(2) ModifyOrder counted_emit [OF assms(1), of ok "e\<lparr>book := b'\<rparr>"] modify_order_counts [OF b(2) a]
    show ?thesis by (auto simp: process_def Let_def)
  qed (use assms in \<open>simp_all add: process_def\<close>)
qed

lemma run_once_counted:
  assumes "counted e" "run_once tsc e = Some e'" shows "counted e'"
proof -
  obtain mo r where p: "ring_pop RING_SIZE (inbound e) = (mo, r)" by fastforce
  have "counted (e\<lparr>inbound := r\<rparr>)" using assms(1) by (simp add: counted_def)
  with assms(2) p process_counted show ?thesis by (cases mo) (auto simp: run_once_def)
qed

subsection \<open>What a step of the exchange keeps\<close>

lemma exchange_step_kept:
  assumes "exchange_step os w x y"
  shows "\<exists>d. h_done y = h_done x @ d" "x_running y \<longrightarrow> x_running x" "w \<noteq> Gateway_thread \<longrightarrow> x_pc y = x_pc x"
  using assms by (cases rule: exchange_step.cases; simp add: share_engine_def share_gateway_def)+

lemma counted_rings: "counted (e\<lparr>inbound := a, outbound := b\<rparr>) = counted e"
  by (simp add: counted_def)

lemma exchange_step_counted:
  assumes "exchange_step os w x y" "counted (x_engine x)" shows "counted (x_engine y)"
  using assms(1)
proof (cases rule: exchange_step.cases)
  case (engine tsc e)
  with run_once_counted [OF assms(2) engine(4)] show ?thesis by (simp add: share_engine_def)
qed (use assms(2) in \<open>simp_all add: share_gateway_def counted_rings\<close>)

lemma exchange_reach_counted:
  "exchange_reach os x0 x \<Longrightarrow> counted (x_engine x0) \<Longrightarrow> counted (x_engine x)"
  by (induction rule: exchange_reach.induct) (auto intro: exchange_step_counted)

lemma exchange_start_counted: "exchange_start ji jo sock bind_rc listen_rc ep ctl_rc k = Some x \<Longrightarrow> counted (x_engine x)"
  using book_new_book_ok [of MAX_ORDERS]
  by (auto simp: exchange_start_def Let_def engine_new_def counted_def book_new_def pool_new_def capacity_def MAX_ORDERS_def split: if_splits)

text \<open>The book \<open>b\<close> is that of the abstract engine after a prefix of the requests \<open>dn\<close>, with the count of its matches.\<close>

definition seen :: "(Timestamp \<times> InboundMessage) list \<Rightarrow> OrderBook \<Rightarrow> bool" where
  "seen dn b \<longleftrightarrow> book_ok b \<and> capacity (pool b) = MAX_ORDERS
     \<and> (\<exists>d. prefix d dn \<and> abs_book b = se_book (fst (spec_run MAX_ORDERS d spec_start)) \<and> match_count b = of_nat (matches d))"

lemma seen_mono: "seen dn b \<Longrightarrow> seen (dn @ d) b"
  unfolding seen_def using prefix_prefix by blast

lemma book_matches:
  assumes "exchange_inv x" "counted (x_engine x)" "within_limits x"
  shows "match_count (book (x_engine x)) = of_nat (matches (h_done x))"
proof -
  obtain S ms where r: "spec_run MAX_ORDERS (h_done x) spec_start = (S, ms)" by fastforce
  have "out_inv (x_engine x) (h_done x) (map fst (h_sent x))" using assms(1) by (simp add: exchange_inv_def)
  then have "engine_abs (x_engine x) = S" by (simp add: out_inv_def r)
  moreover have "Suc (length (h_done x)) < 2 ^ 64" using assms(3) by (simp add: within_limits_def MAX_ORDERS_def)
  from replies_typed(3) [OF this r] have "se_match S = 1 + of_nat (matches (h_done x))" .
  ultimately have "match_number (x_engine x) = 1 + of_nat (matches (h_done x))" by (auto simp: engine_abs_def)
  then show ?thesis using assms(2) by (simp add: counted_def)
qed

lemma book_seen:
  assumes "exchange_inv x" "counted (x_engine x)" "within_limits x"
  shows "seen (h_done x) (book (x_engine x))"
proof -
  have "out_inv (x_engine x) (h_done x) (map fst (h_sent x))" using assms(1) by (simp add: exchange_inv_def)
  then have "fst (spec_run MAX_ORDERS (h_done x) spec_start) = engine_abs (x_engine x)" by (simp add: out_inv_def)
  then show ?thesis using book_matches [OF assms] assms(2) by (auto simp: seen_def counted_def engine_abs_def intro!: exI [of _ "h_done x"])
qed

subsection \<open>Invariant of the process\<close>

fun is_status :: "line \<Rightarrow> bool" where
  "is_status (Status _ _ _ _ _) = True"
| "is_status _ = False"

text \<open>The order of events: nobody joins a running thread, nobody leaves its loop before the signal.\<close>

definition control_inv :: "'k program \<Rightarrow> bool" where
  "control_inv p \<longleftrightarrow> (p_engine p = T_end \<longrightarrow> \<not> x_running (p_x p))
     \<and> (p_gateway p = T_end \<longrightarrow> \<not> x_running (p_x p) \<and> x_pc (p_x p) = G_wait)
     \<and> (case p_main p of
          M_test tk \<Rightarrow> 0 \<le> tk \<and> tk < 2 ^ 31
        | M_status tk bs \<Rightarrow> 0 \<le> tk \<and> tk < 2 ^ 31 \<and> length bs \<le> STATUS_READS
        | M_join_engine \<Rightarrow> \<not> x_running (p_x p)
        | M_join_gateway \<Rightarrow> p_engine p = T_end
        | M_exit c \<Rightarrow> c = 0 \<and> p_engine p = T_end \<and> p_gateway p = T_end)"

text \<open>What has been printed and observed is true of the requests processed so far.\<close>

definition lines_inv :: "'k program \<Rightarrow> bool" where
  "lines_inv p \<longleftrightarrow> (\<forall>tk bs. p_main p = M_status tk bs \<longrightarrow> (\<forall>b\<in>set bs. seen (h_done (p_x p)) b))
     \<and> (\<forall>l\<in>set (p_lines p). is_status l \<longrightarrow> (\<exists>bs. length bs = STATUS_READS \<and> (\<forall>b\<in>set bs. seen (h_done (p_x p)) b) \<and> l = status_line bs))
     \<and> (is_exit (p_main p) \<longrightarrow> last (p_lines p) = Total_matches (of_nat (matches (h_done (p_x p)))))"

text \<open>The exchange inside the process.\<close>

definition inner :: "'k os \<Rightarrow> 'k exchange \<Rightarrow> 'k program \<Rightarrow> bool" where
  "inner os x0 p \<longleftrightarrow> (\<exists>x. exchange_reach os x0 x
     \<and> p_x p = (if is_exit (p_main p) then x\<lparr>x_gateway := gateway_destroy (x_gateway x)\<rparr> else x))"

lemma control_inv_step:
  assumes "process_step E os p q" "control_inv p" shows "control_inv q"
  using assms(1)
proof (cases rule: process_step.cases)
  case (environment x)
  with assms(2) exchange_step_kept(2,3) [OF environment(3)] show ?thesis by (auto simp: control_inv_def split: main_pc.splits)
next
  case (engine_work x)
  with assms(2) exchange_step_kept(2,3) [OF engine_work(3)] show ?thesis by (auto simp: control_inv_def split: main_pc.splits)
next
  case (gateway_work x)
  with assms(2) exchange_step_kept(2) [OF gateway_work(3)] show ?thesis by (auto simp: control_inv_def split: main_pc.splits)
next
  case (observe tk bs)
  with assms(2) show ?thesis by (simp add: control_inv_def)
qed (use assms(2) in \<open>auto simp: control_inv_def STATUS_READS_def split: main_pc.splits\<close>)

lemma inner_step:
  assumes "process_step E os p q" "control_inv p" "inner os x0 p" shows "inner os x0 q"
proof -
  obtain x where x: "exchange_reach os x0 x" "p_x p = (if is_exit (p_main p) then x\<lparr>x_gateway := gateway_destroy (x_gateway x)\<rparr> else x)"
    using assms(3) by (auto simp: inner_def)
  have ends: "is_exit (p_main p) \<longrightarrow> p_engine p = T_end \<and> p_gateway p = T_end" using assms(2) by (auto simp: control_inv_def is_exit_def split: main_pc.splits)
  have go: "inner os x0 (p\<lparr>p_x := y\<rparr>)" if "\<not> is_exit (p_main p)" "exchange_step os w (p_x p) y" for w y
    using that x exchange_reach.step [OF x(1)] by (auto simp: inner_def)
  from assms(1) show ?thesis
  proof (cases rule: process_step.cases)
    case (environment y)
    with go show ?thesis by simp
  next
    case (engine_work y)
    with go ends show ?thesis by auto
  next
    case (gateway_work y)
    with go ends show ?thesis by auto
  qed (use x ends in \<open>auto simp: inner_def\<close>)
qed

lemma lines_inv_more:
  assumes "lines_inv p" "h_done x = h_done (p_x p) @ d" "\<not> is_exit (p_main p)"
  shows "lines_inv (p\<lparr>p_x := x\<rparr>)"
  using assms seen_mono unfolding lines_inv_def by simp meson

lemma lines_inv_step:
  assumes "process_step E os p q" "lines_inv p" "control_inv p"
    and "\<not> is_exit (p_main p) \<longrightarrow> exchange_inv (p_x p) \<and> counted (x_engine (p_x p)) \<and> within_limits (p_x p)"
  shows "lines_inv q"
proof -
  have ends: "is_exit (p_main p) \<longrightarrow> p_engine p = T_end \<and> p_gateway p = T_end" using assms(3) by (auto simp: control_inv_def is_exit_def split: main_pc.splits)
  have pins: "\<not> is_status l" if "l \<in> set (pin_thread E n c)" for n c l using that by (auto simp: pin_thread_def split: if_splits)
  have go: "lines_inv (p\<lparr>p_x := y\<rparr>)" if "\<not> is_exit (p_main p)" "exchange_step os w (p_x p) y" for w y
    using lines_inv_more [OF assms(2) _ that(1)] exchange_step_kept(1) [OF that(2)] by blast
  from assms(1) show ?thesis
  proof (cases rule: process_step.cases)
    case (environment y)
    with go show ?thesis by simp
  next
    case (engine_work y)
    with go ends show ?thesis by auto
  next
    case (gateway_work y)
    with go ends show ?thesis by auto
  next
    case (observe tk bs)
    then have "seen (h_done (p_x p)) (book (x_engine (p_x p)))" using assms(4) book_seen by auto
    with observe assms(2) show ?thesis by (simp add: lines_inv_def)
  next
    case (print tk bs)
    with assms(2) show ?thesis by (auto simp: lines_inv_def)
  next
    case join_gateway
    then have "match_count (book (x_engine (p_x p))) = of_nat (matches (h_done (p_x p)))" using assms(4) book_matches by auto
    with join_gateway assms(2) show ?thesis by (auto simp: lines_inv_def)
  next
    case (engine_pin c)
    with assms(2) ends pins show ?thesis by (auto simp: lines_inv_def)
  next
    case (gateway_pin c)
    with assms(2) ends pins show ?thesis by (auto simp: lines_inv_def)
  qed (use assms(2) in \<open>auto simp: lines_inv_def\<close>)
qed

lemma process_limits:
  assumes "process_step E os p q" "within_limits (p_x q)" shows "within_limits (p_x p)"
  using assms by (cases rule: process_step.cases) (auto dest: within_limits_mono simp: within_limits_def)

lemma main_start_running:
  assumes "main_start E ji jo k = Some (Inr p)"
  obtains port where "port_arg E = Some port" "p_lines p = [Banner port RING_SIZE MAX_ORDERS MIN_PRICE MAX_PRICE]" "p_main p = M_test 0"
    "exchange_start ji jo (me_socket E) (me_bind E (of_int port)) (me_listen E) (me_epoll E) (me_ctl E) k = Some (p_x p)"
    "\<exists>c. p_engine p = T_pin c" "\<exists>c. p_gateway p = T_pin c"
  using assms by (auto simp: main_start_def Let_def split: Option.bind_splits option.splits)

lemma process_reach_inv:
  assumes "recv_fits os" "main_start E ji jo k = Some (Inr p0)"
  shows "process_reach E os p0 p \<Longrightarrow> within_limits (p_x p) \<Longrightarrow> control_inv p \<and> lines_inv p \<and> inner os (p_x p0) p"
proof (induction rule: process_reach.induct)
  case start
  show ?case
    by (rule main_start_running [OF assms(2)])
       (auto simp: control_inv_def lines_inv_def inner_def intro: exchange_reach.start)
next
  case (step p q)
  note i = process_limits [OF step(2,4)]
  with step.IH have p: "control_inv p" "lines_inv p" "inner os (p_x p0) p" by simp_all
  obtain port where st: "exchange_start ji jo (me_socket E) (me_bind E (of_int port)) (me_listen E) (me_epoll E) (me_ctl E) k = Some (p_x p0)"
    by (rule main_start_running [OF assms(2)])
  have "exchange_inv (p_x p) \<and> counted (x_engine (p_x p)) \<and> within_limits (p_x p)" if "\<not> is_exit (p_main p)"
  proof -
    have r: "exchange_reach os (p_x p0) (p_x p)" using p(3) that by (auto simp: inner_def)
    with exchange_reach_inv [OF assms(1) exchange_start_inv [OF st] r i] exchange_reach_counted [OF r exchange_start_counted [OF st]] i show ?thesis by blast
  qed
  with control_inv_step [OF step(2) p(1)] inner_step [OF step(2) p(1,3)] lines_inv_step [OF step(2) p(2,1)] show ?case by blast
qed

subsection \<open>Shutting down\<close>

lemma process_reach_trans: "process_reach E os q r \<Longrightarrow> process_reach E os p q \<Longrightarrow> process_reach E os p r"
  by (induction rule: process_reach.induct) (auto intro: process_reach.step)

lemma process_reach_step: "process_step E os p q \<Longrightarrow> process_reach E os p q"
  by (auto intro: process_reach.intros)

text \<open>The two threads leave their loops, whatever the main thread is doing.\<close>

lemma engine_stops:
  assumes "\<not> x_running (p_x p)"
  obtains q where "process_reach E os p q" "p_x q = p_x p" "p_main q = p_main p" "p_gateway q = p_gateway p" "p_engine q = T_end"
proof (cases "p_engine p")
  case (T_pin c)
  let ?q = "p\<lparr>p_engine := T_loop, p_lines := p_lines p @ pin_thread E ''engine'' c\<rparr>"
  have "process_step E os p ?q" by (rule process_step.engine_pin [OF T_pin])
  moreover have "process_step E os ?q (?q\<lparr>p_engine := T_end\<rparr>)" using assms by (intro process_step.engine_end) simp_all
  ultimately have "process_reach E os p (?q\<lparr>p_engine := T_end\<rparr>)" by (blast intro: process_reach.intros)
  then show thesis by (rule that) simp_all
next
  case T_loop
  then show thesis using assms by (intro that [OF process_reach_step [OF process_step.engine_end]]) simp_all
qed (use that process_reach.start in blast)

lemma gateway_stops:
  assumes "\<not> x_running (p_x p)" "x_pc (p_x p) = G_wait"
  obtains q where "process_reach E os p q" "p_x q = p_x p" "p_main q = p_main p" "p_engine q = p_engine p" "p_gateway q = T_end"
proof (cases "p_gateway p")
  case (T_pin c)
  let ?q = "p\<lparr>p_gateway := T_loop, p_lines := p_lines p @ pin_thread E ''gateway'' c\<rparr>"
  have "process_step E os p ?q" by (rule process_step.gateway_pin [OF T_pin])
  moreover have "process_step E os ?q (?q\<lparr>p_gateway := T_end\<rparr>)" using assms by (intro process_step.gateway_end) simp_all
  ultimately have "process_reach E os p (?q\<lparr>p_gateway := T_end\<rparr>)" by (blast intro: process_reach.intros)
  then show thesis by (rule that) simp_all
next
  case T_loop
  then show thesis using assms by (intro that [OF process_reach_step [OF process_step.gateway_end]]) simp_all
qed (use that process_reach.start in blast)

lemma status_finishes:
  assumes "p_main p = M_status tk bs" "length bs \<le> STATUS_READS" "tk + 1 < 2 ^ 31"
  shows "\<exists>q. process_reach E os p q \<and> p_x q = p_x p \<and> p_engine q = p_engine p \<and> p_gateway q = p_gateway p \<and> p_main q = M_test (tk + 1)"
  using assms
proof (induction "STATUS_READS - length bs" arbitrary: p bs)
  case 0
  then have "length bs = STATUS_READS" by simp
  from process_reach_step [OF process_step.print [OF 0(2) this 0(4)]] show ?case by fastforce
next
  case (Suc n)
  then have l: "length bs < STATUS_READS" by simp
  let ?q = "p\<lparr>p_main := M_status tk (bs @ [book (x_engine (p_x p))])\<rparr>"
  have "process_reach E os p ?q" by (rule process_reach_step [OF process_step.observe [OF Suc(3) l]])
  moreover have "\<exists>q. process_reach E os ?q q \<and> p_x q = p_x ?q \<and> p_engine q = p_engine ?q \<and> p_gateway q = p_gateway ?q \<and> p_main q = M_test (tk + 1)"
    using Suc(2) l Suc(5) by (intro Suc(1) [of "bs @ [book (x_engine (p_x p))]"]) auto
  ultimately show ?case using process_reach_trans by fastforce
qed

lemma joins:
  assumes "p_main p = M_join_engine \<or> p_main p = M_join_gateway" "p_engine p = T_end" "p_gateway p = T_end"
  shows "\<exists>q. process_reach E os p q \<and> p_main q = M_exit 0"
proof -
  have two: "\<exists>q. process_reach E os p q \<and> p_main q = M_exit 0" if "p_main p = M_join_gateway" "p_gateway p = T_end" for p :: "'a program"
    using process_reach_step [OF process_step.join_gateway [OF that]] by fastforce
  show ?thesis
  proof (cases "p_main p = M_join_gateway")
    case False
    with assms have st: "process_step E os p (p\<lparr>p_main := M_join_gateway\<rparr>)" by (intro process_step.join_engine) simp_all
    with two [of "p\<lparr>p_main := M_join_gateway\<rparr>"] assms(3) process_reach_trans process_reach_step show ?thesis by fastforce
  qed (use two assms in blast)
qed

text \<open>After the signal, with the gateway between two rounds, the process can run to its end.\<close>

lemma can_exit:
  assumes "control_inv p" "\<not> x_running (p_x p)" "x_pc (p_x p) = G_wait" "\<And>tk bs. p_main p = M_status tk bs \<Longrightarrow> tk + 1 < 2 ^ 31"
  shows "\<exists>q. process_reach E os p q \<and> p_main q = M_exit 0"
proof -
  obtain p1 where p1: "process_reach E os p p1" "p_x p1 = p_x p" "p_main p1 = p_main p" "p_gateway p1 = p_gateway p" "p_engine p1 = T_end"
    by (rule engine_stops [OF assms(2)])
  have "\<not> x_running (p_x p1)" "x_pc (p_x p1) = G_wait" using assms(2,3) p1(2) by simp_all
  then obtain p2 where p2: "process_reach E os p1 p2" "p_x p2 = p_x p1" "p_main p2 = p_main p1" "p_engine p2 = p_engine p1" "p_gateway p2 = T_end"
    by (rule gateway_stops)
  have r2: "process_reach E os p p2" by (rule process_reach_trans [OF p2(1) p1(1)])
  have ends: "p_engine p2 = T_end" "p_gateway p2 = T_end" "\<not> x_running (p_x p2)" using p1 p2 assms(2) by simp_all
  have test: "\<exists>q. process_reach E os p q \<and> p_main q = M_exit 0"
    if "process_reach E os p p3" "p_main p3 = M_test tk" "p_engine p3 = T_end" "p_gateway p3 = T_end" "\<not> x_running (p_x p3)" for p3 tk
    using joins [of "p3\<lparr>p_main := M_join_engine, p_lines := p_lines p3 @ [Shutting_down]\<rparr>" E os] that(3,4)
      process_reach_trans process_reach.step [OF that(1) process_step.shutdown [OF that(2,5)]] by fastforce
  show ?thesis
  proof (cases "p_main p2")
    case (M_test tk)
    with test [OF r2 _ ends] show ?thesis by blast
  next
    case (M_status tk bs)
    then have "length bs \<le> STATUS_READS" "tk + 1 < 2 ^ 31" using assms(1,4) p1(3) p2(3) by (auto simp: control_inv_def)
    from status_finishes [OF M_status this] obtain p3 where
      p3: "process_reach E os p2 p3" "p_x p3 = p_x p2" "p_engine p3 = p_engine p2" "p_gateway p3 = p_gateway p2" "p_main p3 = M_test (tk + 1)" by blast
    with test [OF process_reach_trans [OF p3(1) r2] p3(5)] ends show ?thesis by simp
  next
    case (M_exit c)
    then have "c = 0" using assms(1) p1(3) p2(3) by (auto simp: control_inv_def)
    with M_exit r2 show ?thesis by blast
  qed (use joins [of p2 E os] ends r2 process_reach_trans in blast)+
qed

subsection \<open>The status line\<close>

text \<open>
  When the engine is idle the eight calls see one book, and the guard of the spread is always true, since a book is never crossed: with an empty side the line shows a spread
  that counts from the sentinel (\<open>MAX_PRICE + 1\<close> for an empty book, where \<open>spread\<close> of \<open>Book_Analytics\<close> has 0).
\<close>

lemma status_line_idle:
  assumes "book_ok b"
  shows "status_line (replicate STATUS_READS b) = Status (active_orders b) (match_count b) (best_bid b) (best_ask b) (best_ask b - best_bid b)"
  using uncrossed_best [OF book_ok_rep [OF assms]] by (simp add: status_line_def STATUS_READS_def eval_nat_numeral)

lemma status_line_empty_book: "status_line (replicate STATUS_READS (book_new MAX_ORDERS)) = Status 0 0 0 1000001 1000001"
proof -
  have ok: "book_ok (book_new MAX_ORDERS)" by (rule book_new_book_ok) (simp add: MAX_ORDERS_def)
  have "active_orders (book_new MAX_ORDERS) = 0" by (simp add: active_orders_def book_new_def pool_new_def capacity_def available_def push_slots_eq)
  then show ?thesis unfolding status_line_idle [OF ok] by (simp add: book_new_def const_defs)
qed

text \<open>
  What a printed status line says, in terms of the abstract engine: each figure is read after some prefix of the processed requests (the calls are separate, so the prefixes may differ).
\<close>

definition book_after :: "(Timestamp \<times> InboundMessage) list \<Rightarrow> spec_book" where
  "book_after d = se_book (fst (spec_run MAX_ORDERS d spec_start))"

definition bid_after :: "(Timestamp \<times> InboundMessage) list \<Rightarrow> Price" where
  "bid_after d = (case book_after d Bids of [] \<Rightarrow> INVALID_PRICE | x # _ \<Rightarrow> o_price x)"

definition ask_after :: "(Timestamp \<times> InboundMessage) list \<Rightarrow> Price" where
  "ask_after d = (case book_after d Asks of [] \<Rightarrow> MAX_PRICE + 1 | x # _ \<Rightarrow> o_price x)"

definition status_true :: "(Timestamp \<times> InboundMessage) list \<Rightarrow> line \<Rightarrow> bool" where
  "status_true dn l \<longleftrightarrow> (\<exists>d0 d1 d2 d3 d4 d5 d6 d7. list_all (\<lambda>d. prefix d dn) [d0, d1, d2, d3, d4, d5, d6, d7]
     \<and> l = Status (length (book_after d0 Bids) + length (book_after d0 Asks)) (of_nat (matches d1)) (bid_after d2) (ask_after d3)
         (if ask_after d4 > bid_after d5 then ask_after d6 - bid_after d7 else 0))"

lemma seen_reads:
  assumes "seen dn b"
  shows "\<exists>d. prefix d dn \<and> active_orders b = length (book_after d Bids) + length (book_after d Asks) \<and> match_count b = of_nat (matches d)
     \<and> best_bid b = bid_after d \<and> best_ask b = ask_after d"
proof -
  from assms obtain d where d: "book_ok b" "prefix d dn" "abs_book b = book_after d" "match_count b = of_nat (matches d)" by (auto simp: seen_def book_after_def)
  have "best_bid b = bid_after d" "best_ask b = ask_after d"
    using best_first [OF d(1), of Bids] best_first [OF d(1), of Asks] d(3)
    by (simp_all add: best_of_def bid_after_def ask_after_def split: list.splits)
  with d active_orders_size [OF d(1)] show ?thesis by (auto simp: book_size_def)
qed

lemma status_line_true:
  assumes "length bs = STATUS_READS" "\<forall>b\<in>set bs. seen dn b"
  shows "status_true dn (status_line bs)"
proof -
  have all: "seen dn (bs ! i)" if "i < 8" for i using assms that by (simp add: STATUS_READS_def)
  have "\<exists>d. prefix d dn \<and> active_orders (bs ! i) = length (book_after d Bids) + length (book_after d Asks) \<and> match_count (bs ! i) = of_nat (matches d)
      \<and> best_bid (bs ! i) = bid_after d \<and> best_ask (bs ! i) = ask_after d" if "i < 8" for i
    by (rule seen_reads [OF all [OF that]])
  then obtain D where D: "\<And>i. i < 8 \<Longrightarrow> prefix (D i) dn \<and> active_orders (bs ! i) = length (book_after (D i) Bids) + length (book_after (D i) Asks)
      \<and> match_count (bs ! i) = of_nat (matches (D i)) \<and> best_bid (bs ! i) = bid_after (D i) \<and> best_ask (bs ! i) = ask_after (D i)" by metis
  show ?thesis unfolding status_true_def
    by (rule exI [of _ "D 0"], rule exI [of _ "D 1"], rule exI [of _ "D 2"], rule exI [of _ "D 3"], rule exI [of _ "D 4"], rule exI [of _ "D 5"],
        rule exI [of _ "D 6"], rule exI [of _ "D 7"]) (simp add: D status_line_def)
qed

text \<open>A gateway that is not ready: the exit status is 1, no thread was started, and every descriptor that was opened is closed.\<close>

lemma main_not_ready:
  assumes "main_start E ji jo k = Some (Inl (c, ls, tr))"
  shows "\<exists>port. port_arg E = Some port \<and> c = 1 \<and> ls = [Banner port RING_SIZE MAX_ORDERS MIN_PRICE MAX_PRICE, Not_ready port]
     \<and> (me_socket E < 0 \<or> me_bind E (of_int port) < 0 \<or> me_listen E < 0 \<or> me_epoll E < 0 \<or> me_ctl E < 0)
     \<and> {fd. Io_close fd \<in> set tr} = {fd. fd \<ge> 0 \<and> (fd = me_socket E \<or> fd = me_epoll E \<and> me_socket E \<ge> 0 \<and> me_bind E (of_int port) \<ge> 0 \<and> me_listen E \<ge> 0)}"
proof -
  from assms obtain port where p: "port_arg E = Some port" "c = 1" "ls = [Banner port RING_SIZE MAX_ORDERS MIN_PRICE MAX_PRICE, Not_ready port]"
    "exchange_start ji jo (me_socket E) (me_bind E (of_int port)) (me_listen E) (me_epoll E) (me_ctl E) k = None"
    "tr = io (gateway_destroy (gateway_new (ring_new ji) (ring_new jo) (me_socket E) (me_bind E (of_int port)) (me_listen E) (me_epoll E) (me_ctl E)))"
    by (auto simp: main_start_def Let_def split: Option.bind_splits option.splits)
  note g = gateway_setup [of "ring_new ji" "ring_new jo" "me_socket E" "me_bind E (of_int port)" "me_listen E" "me_epoll E" "me_ctl E"]
  then have "me_socket E < 0 \<or> me_bind E (of_int port) < 0 \<or> me_listen E < 0 \<or> me_epoll E < 0 \<or> me_ctl E < 0"
    using p(4) by (auto simp: exchange_start_def Let_def not_le split: if_splits)
  moreover have "{fd. Io_close fd \<in> set tr} = {fd. fd \<ge> 0 \<and> (fd = me_socket E \<or> fd = me_epoll E \<and> me_socket E \<ge> 0 \<and> me_bind E (of_int port) \<ge> 0 \<and> me_listen E \<ge> 0)}"
    unfolding p(5) using g by blast
  ultimately show ?thesis using p(1-3) by blast
qed

text \<open>What holds of a running process, from its start to its exit.\<close>

definition process_sound :: "main_env \<Rightarrow> 'k os \<Rightarrow> 'k program \<Rightarrow> 'k program \<Rightarrow> bool" where
  "process_sound E os p0 p \<longleftrightarrow>
     (\<exists>x. exchange_reach os (p_x p0) x \<and> p_x p = (if is_exit (p_main p) then x\<lparr>x_gateway := gateway_destroy (x_gateway x)\<rparr> else x))
     \<and> (\<forall>l\<in>set (p_lines p). is_status l \<longrightarrow> status_true (h_done (p_x p)) l)
     \<and> (\<forall>c. p_main p = M_exit c \<longrightarrow> c = 0 \<and> p_engine p = T_end \<and> p_gateway p = T_end \<and> \<not> x_running (p_x p)
          \<and> last (p_lines p) = Total_matches (of_nat (matches (h_done (p_x p)))))
     \<and> (\<not> x_running (p_x p) \<and> x_pc (p_x p) = G_wait \<and> (\<forall>tk bs. p_main p = M_status tk bs \<longrightarrow> tk + 1 < 2 ^ 31)
          \<longrightarrow> (\<exists>q. process_reach E os p q \<and> p_main q = M_exit 0))"

lemma process_reach_sound:
  assumes "recv_fits os" "main_start E ji jo k = Some (Inr p0)" "process_reach E os p0 p" "within_limits (p_x p)"
  shows "process_sound E os p0 p"
proof -
  note v = process_reach_inv [OF assms]
  then have c: "control_inv p" "lines_inv p" "inner os (p_x p0) p" by simp_all
  have "c = 0 \<and> p_engine p = T_end \<and> p_gateway p = T_end \<and> \<not> x_running (p_x p) \<and> last (p_lines p) = Total_matches (of_nat (matches (h_done (p_x p))))"
    if "p_main p = M_exit c" for c using that c(1,2) by (simp add: control_inv_def lines_inv_def)
  moreover have "\<forall>l\<in>set (p_lines p). is_status l \<longrightarrow> status_true (h_done (p_x p)) l" using c(2) status_line_true unfolding lines_inv_def by blast
  ultimately show ?thesis using c(3) can_exit [OF c(1)] unfolding process_sound_def inner_def by blast
qed

subsection \<open>Property\<close>

text \<open>
  C29. The program from start to exit. If the gateway cannot be set up on the port (the first argument, 9000 by default), the program exits with status 1, having started no thread, and has closed every
  descriptor it obtained. Otherwise it runs, in every interleaving of the main thread, the two worker threads, the kernel and the signal (within the limits of C38): what runs inside is the
  exchange of C38; each figure of each status line is the abstract engine's after some prefix of the requests processed by then: the number of resting orders, the number of matches, the
  prices of the first bid and of the first ask (0 and 1000001 for an empty side), and the difference of ask and bid when the ask is greater, 0 otherwise; the program exits only with status 0, after the signal and after both threads have left their loops, and its last
  line is the exact number of matches of all requests processed. And it can exit: once signalled, with the gateway between two rounds, a run to the exit exists.
\<close>

theorem main_runs_exchange:
  assumes "recv_fits os"
  shows "case main_start E ji jo k of
       None \<Rightarrow> port_arg E = None \<or> core_from_env E ''ENGINE_CORE'' 1 = None \<or> core_from_env E ''GATEWAY_CORE'' 2 = None
     | Some (Inl (c, ls, tr)) \<Rightarrow> c = 1 \<and> (\<exists>port. port_arg E = Some port \<and> ls = [Banner port RING_SIZE MAX_ORDERS MIN_PRICE MAX_PRICE, Not_ready port]
         \<and> (me_socket E < 0 \<or> me_bind E (of_int port) < 0 \<or> me_listen E < 0 \<or> me_epoll E < 0 \<or> me_ctl E < 0)
         \<and> {fd. Io_close fd \<in> set tr} = {fd. fd \<ge> 0 \<and> (fd = me_socket E \<or> fd = me_epoll E \<and> me_socket E \<ge> 0 \<and> me_bind E (of_int port) \<ge> 0 \<and> me_listen E \<ge> 0)})
     | Some (Inr p0) \<Rightarrow> \<forall>p. process_reach E os p0 p \<and> within_limits (p_x p) \<longrightarrow> process_sound E os p0 p"
proof (cases "main_start E ji jo k")
  case None
  then show ?thesis by (auto simp: main_start_def Let_def split: Option.bind_splits option.splits)
next
  case (Some r)
  show ?thesis
  proof (cases r)
    case (Inl t)
    obtain c ls tr where "t = (c, ls, tr)" by (rule prod_cases3)
    with main_not_ready [of E ji jo k c ls tr] Some Inl show ?thesis by auto
  next
    case (Inr p0)
    with process_reach_sound [OF assms, of E ji jo k p0] Some show ?thesis by auto
  qed
qed

definition plain_env :: main_env where
  "plain_env = \<lparr>me_args = [''9000''], me_getenv = (\<lambda>_. None), me_ncpu = 2, me_affinity = (\<lambda>_ _. 0), me_fifo = (\<lambda>_. -1), me_socket = 3,
     me_bind = (\<lambda>port. if port = 9000 then 0 else -1), me_listen = 0, me_epoll = 4, me_ctl = 0\<rparr>"

lemma plain_env_start:
  "main_start plain_env (\<lambda>_. undefined) (\<lambda>_. undefined) (wire_bytes sample_wire) =
     Some (Inr \<lparr>p_x = talk_start sample_wire, p_engine = T_pin 1, p_gateway = T_pin 2, p_main = M_test 0,
       p_lines = [Banner 9000 RING_SIZE MAX_ORDERS MIN_PRICE MAX_PRICE]\<rparr>)"
proof -
  have "atoi ''9000'' = Some 9000" by (simp add: atoi_def decimal_def is_space_def is_digit_def digit_val_def)
  then show ?thesis using talk_start_start by (simp add: main_start_def port_arg_def core_from_env_def plain_env_def Let_def)
qed

theorem main_runs_exchange_witness:
  "\<exists>p0 p q. main_start plain_env (\<lambda>_. undefined) (\<lambda>_. undefined) (wire_bytes sample_wire) = Some (Inr p0) \<and> process_reach plain_env talk_os p0 p
     \<and> \<not> x_running (p_x p) \<and> exchange_reach talk_os (p_x p0) (p_x p) \<and> process_reach plain_env talk_os p q \<and> p_main q = M_exit 0"
proof -
  let ?start = "\<lparr>p_x = talk_start sample_wire, p_engine = T_pin 1, p_gateway = T_pin 2, p_main = M_test 0, p_lines = [Banner 9000 RING_SIZE MAX_ORDERS MIN_PRICE MAX_PRICE]\<rparr>"
  let ?stop = "?start\<lparr>p_x := (p_x ?start)\<lparr>x_running := False\<rparr>\<rparr>"
  have r: "process_reach plain_env talk_os ?start ?stop"
    by (rule process_reach_step [OF process_step.environment [OF _ exchange_step.signal]]) simp
  have "within_limits (p_x ?stop)" "x_pc (p_x ?stop) = G_wait" by (simp_all add: within_limits_def talk_start_def replies_def MAX_ORDERS_def)
  moreover from this r main_runs_exchange [OF talk_os_fits, of plain_env "\<lambda>_. undefined" "\<lambda>_. undefined" "wire_bytes sample_wire"]
  have "process_sound plain_env talk_os ?start ?stop" by (simp add: plain_env_start)
  ultimately obtain q where
    "process_reach plain_env talk_os ?stop q" "p_main q = M_exit 0" "exchange_reach talk_os (p_x ?start) (p_x ?stop)" by (auto simp: process_sound_def)
  with plain_env_start r show ?thesis by (intro exI [of _ ?start] exI [of _ ?stop] exI [of _ q]) simp_all
qed

end
