(* ===== verification/Feed_Json.thy ===== *)
theory Feed_Json
  imports Feed_Normalizer
begin

section \<open>JSON text and the scanning functions of the feed\<close>

text \<open>
  The reference for \<^verbatim>\<open>src/src/feed/feed_normalizer.h\<close>: JSON values with the printer that produces their
  text, and the lemmas that the two scanners of the normalizer (\<open>for_each_object\<close> and \<open>field\<close>) agree with
  the structure of the printed value. Strings are printed with quotes and backslashes escaped; an atom is a
  number, \<open>true\<close>, \<open>false\<close> or \<open>null\<close>, printed as it is.
\<close>

subsection \<open>Values and printer\<close>

datatype json = JAtom string | JStr string | JArr "json list" | JObj "(string \<times> json) list"

definition escape :: "char \<Rightarrow> string" where
  "escape c = (if c = dquote \<or> c = backslash then [backslash, c] else [c])"

definition jstr :: "string \<Rightarrow> string" where
  "jstr s = dquote # concat (map escape s) @ [dquote]"

fun commas :: "string list \<Rightarrow> string" where
  "commas [] = []"
| "commas [x] = x"
| "commas (x # y # ys) = x @ CHR '','' # commas (y # ys)"

definition entry :: "string \<times> string \<Rightarrow> string" where
  "entry kv = jstr (fst kv) @ CHR '':'' # snd kv"

primrec jprint :: "json \<Rightarrow> string" where
  "jprint (JAtom s) = s"
| "jprint (JStr s) = jstr s"
| "jprint (JArr xs) = CHR ''['' # commas (map jprint xs) @ [CHR '']'']"
| "jprint (JObj kvs) = CHR ''{'' # commas (map entry (map (map_prod id jprint) kvs)) @ [CHR ''}'']"

definition atom_ok :: "string \<Rightarrow> bool" where
  "atom_ok s \<longleftrightarrow> set s \<inter> {dquote, backslash, CHR ''{'', CHR ''}''} = {}"

primrec json_ok :: "json \<Rightarrow> bool" where
  "json_ok (JAtom s) \<longleftrightarrow> atom_ok s"
| "json_ok (JStr s) \<longleftrightarrow> True"
| "json_ok (JArr xs) \<longleftrightarrow> list_all (\<lambda>b. b) (map json_ok xs)"
| "json_ok (JObj kvs) \<longleftrightarrow> list_all snd (map (map_prod id json_ok) kvs)"

subsection \<open>Splitting\<close>

text \<open>A text is \<open>quiet\<close> when the splitter, inside an object, reads over it and is where it was.\<close>

definition quiet :: "string \<Rightarrow> bool" where
  "quiet p \<longleftrightarrow> (\<forall>frame i rest d st. d \<ge> 1 \<longrightarrow>
     split_loop frame i (p @ rest) \<lparr>depth = d, in_str = False, esc = False, start = st\<rparr>
       = split_loop frame (i + length p) rest \<lparr>depth = d, in_str = False, esc = False, start = st\<rparr>)"

lemma quiet_Nil [simp]: "quiet []"
  by (simp add: quiet_def)

lemma quiet_append: "quiet p \<Longrightarrow> quiet q \<Longrightarrow> quiet (p @ q)"
  by (simp add: quiet_def add.assoc)

lemma quiet_char:
  assumes "c \<notin> {dquote, backslash, CHR ''{'', CHR ''}''}"
  shows "quiet [c]"
  using assms by (simp add: quiet_def)

lemma quiet_Cons: "c \<notin> {dquote, backslash, CHR ''{'', CHR ''}''} \<Longrightarrow> quiet p \<Longrightarrow> quiet (c # p)"
  using quiet_append [OF quiet_char, of c p] by simp

lemma quiet_atom: "atom_ok s \<Longrightarrow> quiet s"
  unfolding atom_ok_def by (induction s) (auto intro!: quiet_Cons)

lemma split_loop_escaped:
  "split_loop frame i (concat (map escape s) @ rest) \<lparr>depth = d, in_str = True, esc = False, start = st\<rparr>
     = split_loop frame (i + length (concat (map escape s))) rest \<lparr>depth = d, in_str = True, esc = False, start = st\<rparr>"
  by (induction s arbitrary: i) (auto simp: escape_def)

lemma quiet_jstr: "quiet (jstr s)"
  unfolding quiet_def jstr_def by (simp add: split_loop_escaped)

lemma quiet_braces: "quiet p \<Longrightarrow> quiet (CHR ''{'' # p @ [CHR ''}''])"
  unfolding quiet_def by simp

lemma quiet_commas: "list_all quiet ps \<Longrightarrow> quiet (commas ps)"
  by (induction ps rule: commas.induct) (auto intro!: quiet_append quiet_Cons)

lemma quiet_entry: "quiet v \<Longrightarrow> quiet (entry (k, v))"
  by (auto simp: entry_def intro!: quiet_append quiet_jstr quiet_Cons)

lemma quiet_jprint: "json_ok j \<Longrightarrow> quiet (jprint j)"
proof (induction j)
  case (JArr xs)
  then have "list_all quiet (map jprint xs)" by (auto simp: list_all_iff)
  then show ?case by (auto intro!: quiet_Cons quiet_append quiet_commas)
next
  case (JObj kvs)
  then have "list_all quiet (map entry (map (map_prod id jprint) kvs))"
    by (fastforce simp: list_all_iff intro!: quiet_entry)
  then show ?case by (auto intro!: quiet_braces quiet_commas)
qed (auto intro: quiet_atom quiet_jstr)

definition jobj :: "(string \<times> json) list \<Rightarrow> string" where
  "jobj kvs = jprint (JObj kvs)"

text \<open>At the top level an object is passed to the callback, everything between objects is skipped.\<close>

lemma split_object:
  assumes "json_ok (JObj kvs)" and "frame = pre @ jobj kvs @ rest" and "i = length pre"
  shows "\<exists>st'. split_loop frame i (jobj kvs @ rest) \<lparr>depth = 0, in_str = False, esc = False, start = st\<rparr>
     = (jobj kvs, rest) # split_loop frame (i + length (jobj kvs)) rest \<lparr>depth = 0, in_str = False, esc = False, start = st'\<rparr>"
proof -
  let ?b = "commas (map entry (map (map_prod id jprint) kvs))"
  have "list_all quiet (map entry (map (map_prod id jprint) kvs))"
    using assms(1) by (fastforce simp: list_all_iff intro!: quiet_entry quiet_jprint)
  then have "quiet ?b" by (rule quiet_commas)
  then have "split_loop frame (Suc i) (?b @ CHR ''}'' # rest) \<lparr>depth = 1, in_str = False, esc = False, start = i\<rparr>
     = split_loop frame (Suc i + length ?b) (CHR ''}'' # rest) \<lparr>depth = 1, in_str = False, esc = False, start = i\<rparr>"
    unfolding quiet_def by blast
  moreover have "take (Suc i + length ?b - i + 1) (drop i frame) = jobj kvs"
    using assms(2,3) by (simp add: jobj_def)
  moreover have "drop (Suc (Suc i + length ?b)) frame = rest"
    using assms(2,3) by (simp add: jobj_def)
  ultimately show ?thesis by (intro exI [of _ i]) (simp add: jobj_def)
qed

lemma split_plain:
  "set rest \<inter> {dquote, backslash, CHR ''{'', CHR ''}''} = {} \<Longrightarrow>
     split_loop frame i rest \<lparr>depth = 0, in_str = False, esc = False, start = st\<rparr> = []"
  by (induction rest arbitrary: i) auto

lemma split_objects:
  assumes "list_all (\<lambda>kvs. json_ok (JObj kvs)) objs" and "frame = pre @ commas (map jobj objs) @ rest"
    and "i = length pre" and "set rest \<inter> {dquote, backslash, CHR ''{'', CHR ''}''} = {}"
  shows "map fst (split_loop frame i (commas (map jobj objs) @ rest) \<lparr>depth = 0, in_str = False, esc = False, start = st\<rparr>)
     = map jobj objs"
  using assms(1-3)
proof (induction objs arbitrary: pre i st)
  case Nil
  then show ?case using split_plain [OF assms(4)] by simp
next
  case (Cons x xs)
  show ?case
  proof (cases xs)
    case Nil
    from split_object [of x frame pre rest i st] Cons.prems Nil show ?thesis by (auto simp: split_plain [OF assms(4)])
  next
    case (Cons y ys)
    let ?more = "commas (map jobj xs) @ rest"
    have whole: "commas (map jobj (x # xs)) @ rest = jobj x @ CHR '','' # ?more"
      using Cons by simp
    have ok: "json_ok (JObj x)" using Cons.prems(1) by simp
    have fr: "frame = pre @ jobj x @ CHR '','' # ?more"
      unfolding Cons.prems(2) whole ..
    obtain st' where
      "split_loop frame i (jobj x @ CHR '','' # ?more) \<lparr>depth = 0, in_str = False, esc = False, start = st\<rparr>
        = (jobj x, CHR '','' # ?more) # split_loop frame (i + length (jobj x)) (CHR '','' # ?more) \<lparr>depth = 0, in_str = False, esc = False, start = st'\<rparr>"
      using split_object [OF ok fr Cons.prems(3)] by blast
    moreover have "map fst (split_loop frame (Suc (i + length (jobj x))) ?more \<lparr>depth = 0, in_str = False, esc = False, start = st'\<rparr>)
        = map jobj xs"
      by (rule Cons.IH [of "pre @ jobj x @ [CHR '','']"]) (use Cons.prems fr in \<open>simp_all\<close>)
    ultimately show ?thesis unfolding whole by simp
  qed
qed

lemma print_objects: "jprint (JArr (map JObj objs)) = CHR ''['' # commas (map jobj objs) @ [CHR '']'']"
  by (simp add: jobj_def [abs_def] comp_def)

lemma for_each_object_print:
  assumes "list_all (\<lambda>kvs. json_ok (JObj kvs)) objs"
  shows "map fst (for_each_object (jprint (JArr (map JObj objs)))) = map jobj objs"
  using split_objects [OF assms, of "jprint (JArr (map JObj objs))" "[CHR ''['']" "[CHR '']'']" 1 0]
  unfolding print_objects by (simp add: for_each_object_def)

text \<open>On any text, a view that is passed on starts with an opening and ends with a closing brace, and
  what follows it follows it in the frame.\<close>

lemma split_loop_views:
  assumes "frame = pre @ cs" "length pre = i" "depth st \<ge> 1 \<longrightarrow> start st < i \<and> frame ! start st = CHR ''{''"
    and "(v, a) \<in> set (split_loop frame i cs st)"
  shows "\<exists>p o'. frame = p @ v @ a \<and> v = CHR ''{'' # o' @ [CHR ''}'']"
  using assms
proof (induction cs arbitrary: pre i st)
  case (Cons c cs)
  have nx: "frame = (pre @ [c]) @ cs" "length (pre @ [c]) = Suc i" using Cons.prems(1,2) by simp_all
  have c: "frame ! i = c" using Cons.prems(1,2) by (simp add: nth_append)
  note IH = Cons.IH [OF nx]
  show ?case
  proof (cases "\<not> esc st \<and> c = CHR ''}'' \<and> \<not> in_str st \<and> depth st = 1")
    case True
    then have s: "start st < i" "frame ! start st = CHR ''{''" using Cons.prems(3) by auto
    define p q where "p = take (start st) pre" and "q = drop (Suc (start st)) pre"
    have "pre = p @ CHR ''{'' # q"
      using s Cons.prems(1,2) id_take_nth_drop [of "start st" pre] by (simp add: p_def q_def nth_append)
    then have frame: "frame = p @ CHR ''{'' # q @ CHR ''}'' # cs" and i: "i = length p + 1 + length q"
      using Cons.prems(1,2) True by simp_all
    have "start st = length p" using s Cons.prems(2) by (simp add: p_def)
    then have "take (i - start st + 1) (drop (start st) frame) = CHR ''{'' # q @ [CHR ''}'']" "drop (Suc i) frame = cs"
      by (simp_all add: frame i)
    then have "(v, a) = (CHR ''{'' # q @ [CHR ''}''], cs) \<or> (v, a) \<in> set (split_loop frame (Suc i) cs (st\<lparr>depth := 0\<rparr>))"
      using Cons.prems(4) True by (simp add: Let_def)
    then show ?thesis using IH [of "st\<lparr>depth := 0\<rparr>"] frame by auto
  next
    case False
    then show ?thesis using Cons.prems(3,4) c
      by (auto split: if_splits dest!: IH [rotated] simp: Let_def)
  qed
qed simp

lemma for_each_object_views:
  "(v, a) \<in> set (for_each_object frame) \<Longrightarrow> \<exists>p o'. frame = p @ v @ a \<and> v = CHR ''{'' # o' @ [CHR ''}'']"
  unfolding for_each_object_def by (rule split_loop_views [where pre = "[]"]) simp_all

subsection \<open>Finding a key\<close>

text \<open>
  The messages of the feed: objects whose keys and strings need no escapes and whose values are no
  objects themselves.
\<close>

definition plain :: "string \<Rightarrow> bool" where
  "plain s \<longleftrightarrow> dquote \<notin> set s \<and> backslash \<notin> set s"

primrec flat :: "json \<Rightarrow> bool" where
  "flat (JAtom s) \<longleftrightarrow> atom_ok s"
| "flat (JStr s) \<longleftrightarrow> plain s"
| "flat (JArr xs) \<longleftrightarrow> list_all (\<lambda>b. b) (map flat xs)"
| "flat (JObj kvs) \<longleftrightarrow> False"

definition flat_object :: "(string \<times> json) list \<Rightarrow> bool" where
  "flat_object kvs \<longleftrightarrow> list_all (\<lambda>(k, v). plain k \<and> flat v) kvs"

definition key_ok :: "string \<Rightarrow> bool" where
  "key_ok k \<longleftrightarrow> k \<noteq> [] \<and> dquote \<notin> set k \<and> hd k \<notin> {CHR '','', CHR '':'', CHR ''}'', CHR '']''} \<and> length k + 3 < 24"

lemma jstr_plain: "plain s \<Longrightarrow> jstr s = dquote # s @ [dquote]"
  unfolding jstr_def plain_def by (induction s) (auto simp: escape_def)

text \<open>A position found in the rest of a text, counted from its beginning.\<close>

definition shift :: "nat \<Rightarrow> nat option \<Rightarrow> nat option" where
  "shift n = map_option (\<lambda>i. n + i)"

lemma shift_simps [simp]: "shift 0 x = x" "shift m (shift n x) = shift (m + n) x" "shift n None = None" "shift n (Some i) = Some (n + i)"
  by (cases x; simp add: shift_def)+

lemma find_sub_step: "\<not> prefix pat (c # cs) \<Longrightarrow> find_sub pat (c # cs) = shift 1 (find_sub pat cs)"
  by (simp add: shift_def)

lemma find_sub_char: "c \<noteq> dquote \<Longrightarrow> find_sub (needle k) (c # cs) = shift 1 (find_sub (needle k) cs)"
  by (rule find_sub_step) (simp add: needle_def)

declare find_sub.simps(2) [simp del]

lemma needle_ne [simp]: "needle k \<noteq> []"
  by (simp add: needle_def)

lemma find_skip: "dquote \<notin> set p \<Longrightarrow> find_sub (needle k) (p @ s) = shift (length p) (find_sub (needle k) s)"
  by (induction p) (auto simp: find_sub_char)

lemma prefix_quoted:
  "dquote \<notin> set k \<Longrightarrow> dquote \<notin> set s \<Longrightarrow> prefix (k @ dquote # u) (s @ dquote # r) \<longleftrightarrow> k = s \<and> prefix u r"
proof (induction k arbitrary: s)
  case Nil
  then show ?case by (cases s) auto
next
  case (Cons a k)
  then show ?case by (cases s) auto
qed

lemma find_skip_quoted:
  assumes "key_ok k" "plain s" "c \<in> {CHR '','', CHR '':'', CHR ''}'', CHR '']''}" "s = k \<longrightarrow> c \<noteq> CHR '':''"
  shows "find_sub (needle k) (dquote # s @ dquote # c # r) = shift (length s + 2) (find_sub (needle k) (c # r))"
proof -
  have "\<not> prefix (needle k) (dquote # s @ dquote # c # r)"
    using assms prefix_quoted [of k s "[CHR '':'']" "c # r"] by (auto simp: needle_def key_ok_def plain_def)
  moreover have "\<not> prefix (needle k) (dquote # c # r)"
    using assms(1,3) by (cases k) (auto simp: needle_def key_ok_def)
  moreover have "find_sub (needle k) (s @ dquote # c # r) = shift (length s) (find_sub (needle k) (dquote # c # r))"
    using assms(2) by (intro find_skip) (simp add: plain_def)
  ultimately show ?thesis by (simp add: find_sub_step)
qed

lemma find_skip_commas:
  assumes "\<And>x c r. x \<in> set xs \<Longrightarrow> c \<in> {CHR '','', CHR ''}'', CHR '']''} \<Longrightarrow>
      find_sub (needle k) (x @ c # r) = shift (length x) (find_sub (needle k) (c # r))"
    and "c \<in> {CHR '','', CHR ''}'', CHR '']''}"
  shows "find_sub (needle k) (commas xs @ c # r) = shift (length (commas xs)) (find_sub (needle k) (c # r))"
  using assms(1)
proof (induction xs rule: commas.induct)
  case (3 x y ys)
  have "find_sub (needle k) (commas (y # ys) @ c # r) = shift (length (commas (y # ys))) (find_sub (needle k) (c # r))"
    using "3.IH" "3.prems" by simp
  with "3.prems" [of x "CHR '',''"] show ?case by (simp add: find_sub_char)
qed (use assms(2) in simp_all)

lemma find_skip_value:
  assumes "key_ok k"
  shows "flat v \<Longrightarrow> c \<in> {CHR '','', CHR ''}'', CHR '']''} \<Longrightarrow>
     find_sub (needle k) (jprint v @ c # r) = shift (length (jprint v)) (find_sub (needle k) (c # r))"
proof (induction v arbitrary: c r)
  case (JAtom s)
  then show ?case using find_skip [of s k "c # r"] by (auto simp: atom_ok_def)
next
  case (JStr s)
  then show ?case using find_skip_quoted [OF assms, of s c r] by (auto simp: jstr_plain)
next
  case (JArr xs)
  have "find_sub (needle k) (commas (map jprint xs) @ CHR '']'' # c # r)
      = shift (length (commas (map jprint xs))) (find_sub (needle k) (CHR '']'' # c # r))"
    by (rule find_skip_commas) (use JArr in \<open>auto simp: list_all_iff\<close>)
  then show ?case by (simp add: find_sub_char)
qed simp

text \<open>The text of the entries of an object, up to its closing brace.\<close>

definition entries :: "(string \<times> json) list \<Rightarrow> string" where
  "entries kvs = commas (map entry (map (map_prod id jprint) kvs)) @ [CHR ''}'']"

lemma jobj_entries: "jobj kvs = CHR ''{'' # entries kvs"
  by (simp add: jobj_def entries_def)

lemma entries_Cons:
  "plain k \<Longrightarrow> entries ((k, v) # kvs) =
     dquote # k @ dquote # CHR '':'' # jprint v @ (if kvs = [] then [CHR ''}''] else CHR '','' # entries kvs)"
  by (cases kvs) (auto simp: entries_def entry_def jstr_plain)

lemma drop_beyond: "length p = n \<Longrightarrow> drop (n + i) (p @ xs) = drop i xs"
  by simp

lemma find_entry:
  assumes "key_ok k" "flat_object kvs" "kvs \<noteq> []"
  shows "case map_of kvs k of
       None \<Rightarrow> find_sub (needle k) (entries kvs) = None
     | Some v \<Rightarrow> (\<exists>pos c r. find_sub (needle k) (entries kvs) = Some pos \<and> c \<in> {CHR '','', CHR ''}''}
          \<and> drop (pos + length (needle k)) (entries kvs) = jprint v @ c # r)"
  using assms(2,3)
proof (induction kvs)
  case (Cons kv kvs)
  obtain k' v where kv: "kv = (k', v)" by force
  have ok: "plain k'" "flat v" "flat_object kvs" using Cons.prems by (auto simp: flat_object_def kv)
  obtain c r where more: "(if kvs = [] then [CHR ''}''] else CHR '','' # entries kvs) = c # r" "c \<in> {CHR '','', CHR ''}''}"
    by (cases "kvs = []") auto
  have e: "entries (kv # kvs) = dquote # k' @ dquote # CHR '':'' # jprint v @ c # r"
    unfolding kv entries_Cons [OF ok(1)] more(1) ..
  show ?case
  proof (cases "k' = k")
    case True
    have "find_sub (needle k) (entries (kv # kvs)) = Some 0"
      unfolding e True by (simp add: find_sub.simps(2) needle_def)
    moreover have "drop (0 + length (needle k)) (entries (kv # kvs)) = jprint v @ c # r"
      unfolding e True by (simp add: needle_def)
    ultimately show ?thesis using more(2) True kv by fastforce
  next
    case False
    have f: "find_sub (needle k) (entries (kv # kvs)) = shift (length k' + 3 + length (jprint v)) (find_sub (needle k) (c # r))"
      unfolding e using find_skip_quoted [OF assms(1) ok(1), of "CHR '':''" "jprint v @ c # r"] False
        find_skip_value [OF assms(1) ok(2), of c r] more(2) by (auto simp: find_sub_char numeral_eq_Suc)
    show ?thesis
    proof (cases "kvs = []")
      case True
      with more have "c # r = [CHR ''}'']" by simp
      with f True False kv show ?thesis by (simp add: find_sub_char)
    next
      case ne: False
      with more have cr: "c = CHR '',''" "r = entries kvs" by auto
      let ?n = "length k' + 4 + length (jprint v)"
      have f': "find_sub (needle k) (entries (kv # kvs)) = shift ?n (find_sub (needle k) (entries kvs))"
        unfolding f cr by (simp add: find_sub_char algebra_simps)
      let ?p = "dquote # k' @ dquote # CHR '':'' # jprint v @ [CHR '','']"
      have "entries (kv # kvs) = ?p @ entries kvs" unfolding e cr by simp
      then have d: "drop (?n + i) (entries (kv # kvs)) = drop i (entries kvs)" for i
        using drop_beyond [of ?p ?n i "entries kvs"] by simp
      have mo: "map_of (kv # kvs) k = map_of kvs k" using False kv by simp
      note IH = Cons.IH [OF ok(3) ne]
      show ?thesis
      proof (cases "map_of kvs k")
        case None
        then show ?thesis using IH unfolding mo f' by simp
      next
        case (Some w)
        with IH obtain pos c' r' where "find_sub (needle k) (entries kvs) = Some pos" "c' \<in> {CHR '','', CHR ''}''}"
          "drop (pos + length (needle k)) (entries kvs) = jprint w @ c' # r'" by auto
        then have "find_sub (needle k) (entries (kv # kvs)) = Some (?n + pos)" "c' \<in> {CHR '','', CHR ''}''}"
          "drop (?n + pos + length (needle k)) (entries (kv # kvs)) = jprint w @ c' # r'"
          unfolding f' using d [of "pos + length (needle k)"] by (simp_all add: add.assoc)
        then show ?thesis unfolding mo Some option.case by blast
      qed
    qed
  qed
qed simp

lemma field_print:
  assumes "key_ok k" "flat_object kvs"
  shows "case map_of kvs k of
       None \<Rightarrow> field (jobj kvs) k = None
     | Some v \<Rightarrow> \<exists>c r. field (jobj kvs) k = Some (jprint v @ c # r) \<and> c \<in> {CHR '','', CHR ''}''}"
proof (cases "kvs = []")
  case True
  then show ?thesis by (simp add: field_def jobj_entries entries_def find_sub_char)
next
  case False
  from find_entry [OF assms False] assms(1) show ?thesis
    by (auto simp: field_def jobj_entries find_sub_char key_ok_def split: option.splits)
qed

end
