(* ===== verification/Feed_Properties.thy ===== *)
theory Feed_Properties
  imports Feed_Json
begin

section \<open>Properties of the feed normalizer\<close>

text \<open>
  The properties of \<^verbatim>\<open>src/src/feed/feed_normalizer.h\<close>: a frame is split into exactly its objects, a
  message is translated according to its JSON fields, and what the normalizer passes on is in the
  range the exchange accepts. Also what the properties assume of \<open>double\<close>, with an instance over the
  rationals that satisfies it.
\<close>

subsection \<open>Assumptions on floating point\<close>

definition strtod_stops :: "'d fp \<Rightarrow> bool" where
  "strtod_stops F \<longleftrightarrow> (\<forall>a c b. c \<in> {CHR '','', CHR ''}''} \<longrightarrow> fp_strtod F (a @ c # b) = fp_strtod F a)"

definition cast_bounded :: "'d fp \<Rightarrow> bool" where
  "cast_bounded F \<longleftrightarrow> (\<forall>d w. fp_to_u32 F d = Some w \<and> \<not> fp_less F (fp_lit F (of_int (uint MAX_PRICE))) d \<longrightarrow> w \<le> MAX_PRICE)"

text \<open>Exact arithmetic, with decimal numbers read as the rationals they denote.\<close>

definition dec_val :: "string \<Rightarrow> rat" where
  "dec_val ds = of_int (digits_val 0 ds)"

definition dec_strtod :: "string \<Rightarrow> rat" where
  "dec_strtod s =
     (let i = takeWhile is_digit s
      in case dropWhile is_digit s of
           [] \<Rightarrow> dec_val i
         | c # cs \<Rightarrow> if c = CHR ''.'' then let f = takeWhile is_digit cs in dec_val (i @ f) / 10 ^ length f else dec_val i)"

definition rat_fp :: "rat fp" where
  "rat_fp = \<lparr>fp_lit = (\<lambda>r. r), fp_times = (*), fp_plus = (+), fp_le = (\<le>), fp_less = (<),
     fp_to_u32 = (\<lambda>r. if 0 \<le> r \<and> r < 2 ^ 32 then Some (word_of_int \<lfloor>r\<rfloor>) else None), fp_strtod = dec_strtod\<rparr>"

lemma takeWhile_stop: "\<not> P c \<Longrightarrow> takeWhile P (a @ c # b) = takeWhile P a"
  by (induction a) auto

lemma dropWhile_stop: "\<not> P c \<Longrightarrow> dropWhile P (a @ c # b) = dropWhile P a @ c # b"
  by (induction a) auto

lemma rat_strtod_stops: "strtod_stops rat_fp"
proof -
  have "dec_strtod (a @ c # b) = dec_strtod a" if "c \<in> {CHR '','', CHR ''}''}" for a b c
  proof -
    from that have c: "\<not> is_digit c" "c \<noteq> CHR ''.''" by (auto simp: is_digit_def)
    show ?thesis
      unfolding dec_strtod_def takeWhile_stop [where P = is_digit, OF c(1)] dropWhile_stop [where P = is_digit, OF c(1)]
      using c by (cases "dropWhile is_digit a"; simp only: append.simps list.case Let_def) (simp_all add: takeWhile_stop)
  qed
  then show ?thesis by (simp add: strtod_stops_def rat_fp_def)
qed

lemma rat_cast_bounded: "cast_bounded rat_fp"
proof -
  have "(word_of_int \<lfloor>r\<rfloor> :: u32) \<le> MAX_PRICE" if "0 \<le> r" "r \<le> 1000000" for r :: rat
  proof -
    have "0 \<le> \<lfloor>r\<rfloor>" "\<lfloor>r\<rfloor> \<le> 1000000" using that by (simp_all add: floor_le_iff)
    then show ?thesis by (simp add: word_le_def MAX_PRICE_def uint_word_of_int_eq take_bit_int_eq_self)
  qed
  then show ?thesis by (auto simp: cast_bounded_def rat_fp_def MAX_PRICE_def)
qed

subsection \<open>Look-up by scanning\<close>

definition json_str :: "(string \<times> json) list \<Rightarrow> string \<Rightarrow> string option" where
  "json_str kvs k = (case map_of kvs k of Some (JStr s) \<Rightarrow> Some s | _ \<Rightarrow> None)"

definition json_num :: "'d fp \<Rightarrow> (string \<times> json) list \<Rightarrow> string \<Rightarrow> 'd option" where
  "json_num F kvs k = map_option (\<lambda>v. fp_strtod F (jprint v)) (map_of kvs k)"

lemma find_dquote: "dquote \<notin> set s \<Longrightarrow> find_sub [dquote] (s @ dquote # r) = Some (length s)"
  by (induction s) (auto simp: find_sub.simps(2))

lemma flat_object_value: "flat_object kvs \<Longrightarrow> map_of kvs k = Some v \<Longrightarrow> flat v"
  by (auto simp: flat_object_def list_all_iff dest: map_of_SomeD)

lemma field_str_print:
  assumes "key_ok k" "flat_object kvs"
  shows "field_str (jobj kvs) k = json_str kvs k"
proof (cases "map_of kvs k")
  case None
  with field_print [OF assms] show ?thesis by (simp add: field_str_def json_str_def)
next
  case (Some v)
  with field_print [OF assms] obtain c r where f: "field (jobj kvs) k = Some (jprint v @ c # r)" "c \<in> {CHR '','', CHR ''}''}" by auto
  have flat: "flat v" by (rule flat_object_value [OF assms(2) Some])
  show ?thesis
  proof (cases v)
    case (JAtom s)
    with f flat Some show ?thesis by (cases s) (auto simp: field_str_def json_str_def atom_ok_def)
  next
    case (JStr s)
    with f flat Some show ?thesis using find_dquote [of s "c # r"] by (auto simp: field_str_def json_str_def jstr_plain plain_def)
  qed (use f flat Some in \<open>auto simp: field_str_def json_str_def\<close>)
qed

lemma field_num_print:
  assumes "key_ok k" "flat_object kvs" "strtod_stops F"
  shows "field_num F (jobj kvs) after k = json_num F kvs k"
proof (cases "map_of kvs k")
  case None
  with field_print [OF assms(1,2)] show ?thesis by (simp add: field_num_def json_num_def)
next
  case (Some v)
  with field_print [OF assms(1,2)] obtain c r where "field (jobj kvs) k = Some (jprint v @ c # r)" "c \<in> {CHR '','', CHR ''}''}" by auto
  with Some assms(3) show ?thesis by (auto simp: field_num_def json_num_def strtod_stops_def)
qed

lemma feed_keys:
  "key_ok ''T''" "key_ok ''S''" "key_ok ''t''" "key_ok ''bp''" "key_ok ''bs''" "key_ok ''ap''" "key_ok ''as''" "key_ok ''p''" "key_ok ''s''"
  by (simp_all add: key_ok_def)

lemma num_loop_total: "off + len \<le> length s \<Longrightarrow> \<exists>w. num_loop s off len v = Some w"
  by (induction len arbitrary: off v) auto

lemma parse_total: "\<exists>ns. parse_rfc3339_ns s = Some ns"
proof (cases "length s < 20")
  case False
  then have n: "\<exists>w. num s off len = Some w" if "off + len \<le> 20" for off len
    using that by (auto simp: num_def intro: num_loop_total)
  from n [of 0 4] n [of 5 2] n [of 8 2] n [of 11 2] n [of 14 2] n [of 17 2]
  show ?thesis by (auto simp: parse_rfc3339_ns_def Let_def)
qed (simp add: parse_rfc3339_ns_def)

definition message_time :: "(string \<times> json) list \<Rightarrow> u64 option" where
  "message_time kvs = (case json_str kvs ''t'' of None \<Rightarrow> Some 0 | Some ts \<Rightarrow> parse_rfc3339_ns ts)"

lemma normalize_reject:
  assumes "strtod_stops F" and "flat_object kvs"
  shows "json_str kvs ''T'' \<in> {None, Some []} \<or> json_str kvs ''S'' = None \<longrightarrow> normalize F (jobj kvs) after out = Some (False, out)"
    and "json_str kvs ''T'' = Some (k # ks) \<and> k \<notin> {CHR ''q'', CHR ''t''} \<longrightarrow> normalize F (jobj kvs) after out = Some (False, out)"
  using assms by (auto simp: normalize_def field_str_print feed_keys split: option.splits list.splits)

lemma normalize_quote:
  assumes "strtod_stops F" and "flat_object kvs"
  shows "json_str kvs ''T'' = Some (CHR ''q'' # ks) \<and> json_str kvs ''S'' = Some symb
       \<and> json_num F kvs ''bp'' = Some bp \<and> json_num F kvs ''ap'' = Some ap \<and> to_cents F bp = Some p1 \<and> to_cents F ap = Some p2
       \<and> cast_size F (json_num F kvs ''bs'') = Some s1 \<and> cast_size F (json_num F kvs ''as'') = Some s2 \<and> message_time kvs = Some ns
       \<longrightarrow> normalize F (jobj kvs) after out = Some (p1 \<noteq> 0 \<and> p2 \<noteq> 0, \<lparr>cr_type = of_char CHR ''q'', cr_symbol = symbol_field symb,
              cr_p1 = p1, cr_s1 = s1, cr_p2 = p2, cr_s2 = s2, cr_venue_ns = ns\<rparr>)"
  using assms by (auto simp: normalize_def field_str_print field_num_print feed_keys capture_zero_def message_time_def split: option.splits)

lemma normalize_trade:
  assumes "strtod_stops F" and "flat_object kvs"
  shows "json_str kvs ''T'' = Some (CHR ''t'' # ks) \<and> json_str kvs ''S'' = Some symb
       \<and> json_num F kvs ''p'' = Some p \<and> to_cents F p = Some p1 \<and> cast_size F (json_num F kvs ''s'') = Some s1 \<and> message_time kvs = Some ns
       \<longrightarrow> normalize F (jobj kvs) after out = Some (p1 \<noteq> 0, \<lparr>cr_type = of_char CHR ''t'', cr_symbol = symbol_field symb,
              cr_p1 = p1, cr_s1 = s1, cr_p2 = 0, cr_s2 = 0, cr_venue_ns = ns\<rparr>)"
  using assms by (auto simp: normalize_def field_str_print field_num_print feed_keys capture_zero_def message_time_def split: option.splits)

lemma normalize_no_price:
  assumes "strtod_stops F" and "flat_object kvs"
  shows "json_str kvs ''T'' = Some (CHR ''q'' # ks) \<and> json_str kvs ''S'' = Some symb \<and> message_time kvs = Some ns
       \<and> (json_num F kvs ''bp'' = None \<or> json_num F kvs ''ap'' = None)
       \<longrightarrow> normalize F (jobj kvs) after out = Some (False, capture_zero\<lparr>cr_type := of_char CHR ''q'', cr_symbol := symbol_field symb, cr_venue_ns := ns\<rparr>)"
    and "json_str kvs ''T'' = Some (CHR ''t'' # ks) \<and> json_str kvs ''S'' = Some symb \<and> message_time kvs = Some ns \<and> json_num F kvs ''p'' = None
       \<longrightarrow> normalize F (jobj kvs) after out = Some (False, capture_zero\<lparr>cr_type := of_char CHR ''t'', cr_symbol := symbol_field symb, cr_venue_ns := ns\<rparr>)"
  using assms by (auto simp: normalize_def field_str_print field_num_print feed_keys capture_zero_def message_time_def Let_def split: option.splits)

subsection \<open>Any text\<close>

definition capture_ok :: "CaptureRecord \<Rightarrow> bool" where
  "capture_ok r \<longleftrightarrow> cr_type r \<in> {of_char TickType_Quote, of_char TickType_Trade} \<and> length (cr_symbol r) = SYMBOL_SIZE
     \<and> MIN_PRICE \<le> cr_p1 r \<and> cr_p1 r \<le> MAX_PRICE
     \<and> (cr_type r = of_char TickType_Quote \<longrightarrow> MIN_PRICE \<le> cr_p2 r \<and> cr_p2 r \<le> MAX_PRICE)
     \<and> (cr_type r = of_char TickType_Trade \<longrightarrow> cr_p2 r = 0 \<and> cr_s2 r = 0)"

definition casts_defined :: "'d fp \<Rightarrow> string \<Rightarrow> string \<Rightarrow> bool" where
  "casts_defined F obj after \<longleftrightarrow>
     list_all (\<lambda>k. pred_option (\<lambda>d. to_cents F d \<noteq> None) (field_num F obj after k)) [''bp'', ''ap'', ''p'']
     \<and> list_all (\<lambda>k. cast_size F (field_num F obj after k) \<noteq> None) [''bs'', ''as'', ''s'']"

lemma to_cents_bounded: "cast_bounded F \<Longrightarrow> to_cents F d = Some p \<Longrightarrow> p \<le> MAX_PRICE"
  by (auto simp: to_cents_def cast_bounded_def const_defs Let_def split: if_splits)

lemma nonzero_price: "p \<noteq> 0 \<Longrightarrow> MIN_PRICE \<le> (p :: Price)"
  by (simp add: MIN_PRICE_def word_le_nat_alt unat_gt_0 Suc_le_eq)

lemma length_symbol_field: "length (symbol_field s) = SYMBOL_SIZE"
  by (simp add: symbol_field_def Let_def)

lemma normalize_capture_ok:
  assumes "cast_bounded F" and "normalize F obj after out = Some (True, r)"
  shows "capture_ok r"
  using assms(2) to_cents_bounded [OF assms(1)]
  by (auto simp: normalize_def capture_ok_def capture_zero_def Let_def bind_eq_Some_conv nonzero_price length_symbol_field
      TickType_Quote_def TickType_Trade_def split: option.splits list.splits if_splits)

lemma find_sub_Some: "find_sub pat s = Some pos \<Longrightarrow> \<exists>pre r. s = pre @ pat @ r \<and> length pre = pos"
proof (induction s arbitrary: pos)
  case (Cons c s)
  show ?case
  proof (cases "prefix pat (c # s)")
    case True
    with Cons.prems show ?thesis by (auto simp: find_sub.simps(2) prefix_def)
  next
    case False
    with Cons.prems obtain pos' where p: "pos = Suc pos'" "find_sub pat s = Some pos'" by (auto simp: find_sub.simps(2))
    with Cons.IH obtain pre r where "s = pre @ pat @ r" "length pre = pos'" by blast
    with p show ?thesis by (intro exI [of _ "c # pre"] exI [of _ r]) simp
  qed
qed (simp split: if_splits)

lemma field_closing:
  assumes "field (obj @ [CHR ''}'']) k = Some v"
  obtains a where "v = a @ [CHR ''}'']"
proof -
  from assms obtain pos where pos: "find_sub (needle k) (obj @ [CHR ''}'']) = Some pos"
    and v: "v = drop (pos + length (needle k)) (obj @ [CHR ''}''])"
    by (auto simp: field_def split: if_splits option.splits)
  from find_sub_Some [OF pos] obtain pre r where r: "obj @ [CHR ''}''] = pre @ needle k @ r" "length pre = pos" by blast
  then have "v = r" using v by simp
  moreover have "r \<noteq> []" using arg_cong [OF r(1), of last] by (auto simp: needle_def)
  moreover have "last r = CHR ''}''" using arg_cong [OF r(1), of last] \<open>r \<noteq> []\<close> by simp
  ultimately show thesis using that [of "butlast r"] by (metis append_butlast_last_id)
qed

lemma field_num_local:
  assumes "strtod_stops F"
  shows "field_num F (obj @ [CHR ''}'']) after k = field_num F (obj @ [CHR ''}'']) after' k"
proof (cases "field (obj @ [CHR ''}'']) k")
  case (Some v)
  then obtain a where "v = a @ [CHR ''}'']" by (rule field_closing)
  with Some assms show ?thesis by (simp add: field_num_def strtod_stops_def)
qed (simp add: field_num_def)

lemma normalize_local:
  assumes "strtod_stops F"
  shows "normalize F (obj @ [CHR ''}'']) after' out = normalize F (obj @ [CHR ''}'']) after out"
proof -
  have "field_num F (obj @ [CHR ''}'']) after' = field_num F (obj @ [CHR ''}'']) after"
    using field_num_local [OF assms] by blast
  then show ?thesis by (simp only: normalize_def)
qed

lemma normalize_defined:
  assumes "casts_defined F obj after"
  shows "normalize F obj after out \<noteq> None"
proof -
  obtain pf where pf: "\<And>ts. parse_rfc3339_ns ts = Some (pf ts)" using parse_total by metis
  have t: "(case field_str obj ''t'' of None \<Rightarrow> Some out1 | Some ts \<Rightarrow> parse_rfc3339_ns ts \<bind> (\<lambda>ns. Some (out1\<lparr>cr_venue_ns := ns\<rparr>)))
      = Some (case field_str obj ''t'' of None \<Rightarrow> out1 | Some ts \<Rightarrow> out1\<lparr>cr_venue_ns := pf ts\<rparr>)" for out1
    by (simp add: pf split: option.splits)
  from assms show ?thesis
    unfolding normalize_def Let_def t by (auto simp: casts_defined_def split: option.split list.split)
qed

subsection \<open>Properties\<close>

text \<open>
  C30. Splitting a frame is exact: on the text of a JSON array of objects, however they are nested and
  whatever their strings contain (quotes and backslashes are printed escaped, braces are not),
  \<open>for_each_object\<close> calls its function once for every object, in order, with exactly the text of that object.
  On any text at all, every view it passes on lies inside the frame, starts with an opening brace and ends
  with a closing one.
\<close>

theorem for_each_object_splits:
  assumes "list_all (\<lambda>kvs. json_ok (JObj kvs)) objs"
  shows "map fst (for_each_object (jprint (JArr (map JObj objs)))) = map (\<lambda>kvs. jprint (JObj kvs)) objs
     \<and> ((v, a) \<in> set (for_each_object any) \<longrightarrow> (\<exists>p o'. any = p @ v @ a \<and> v = CHR ''{'' # o' @ [CHR ''}'']))"
  using for_each_object_print [OF assms] for_each_object_views by (simp add: jobj_def [abs_def])

theorem for_each_object_splits_witness:
  "map fst (for_each_object (jprint (JArr (map JObj [[(''S'', JStr ''A}B'')], [(''c'', JArr [JStr [dquote], JObj []]), (''p'', JAtom ''1.5'')]]))))
     = map (\<lambda>kvs. jprint (JObj kvs)) [[(''S'', JStr ''A}B'')], [(''c'', JArr [JStr [dquote], JObj []]), (''p'', JAtom ''1.5'')]]"
  by (rule for_each_object_splits [THEN conjunct1]) (simp add: atom_ok_def)

text \<open>
  C31. Scanning for keys is look-up: on the text of a message (an object whose keys and strings need no
  escapes and whose values are no objects), \<open>normalize\<close> rejects, leaving the record alone, what is no quote or
  trade or has no symbol; it also rejects a quote without bid or ask price and a trade without price; it turns any other quote and trade into the record of their fields, absent sizes and times
  being zero, and accepts it exactly when the prices, in cents, are not zero. What follows the message in memory has no
  influence.
\<close>

theorem normalize_message:
  assumes "strtod_stops F" and "flat_object kvs"
  shows "(json_str kvs ''T'' \<in> {None, Some []} \<or> json_str kvs ''S'' = None \<longrightarrow> normalize F (jobj kvs) after out = Some (False, out))
    \<and> (json_str kvs ''T'' = Some (k # ks) \<and> k \<notin> {CHR ''q'', CHR ''t''} \<longrightarrow> normalize F (jobj kvs) after out = Some (False, out))
    \<and> (json_str kvs ''T'' = Some (CHR ''q'' # ks) \<and> json_str kvs ''S'' = Some symb \<and> message_time kvs = Some ns
       \<and> (json_num F kvs ''bp'' = None \<or> json_num F kvs ''ap'' = None)
       \<longrightarrow> normalize F (jobj kvs) after out = Some (False, capture_zero\<lparr>cr_type := of_char CHR ''q'', cr_symbol := symbol_field symb, cr_venue_ns := ns\<rparr>))
    \<and> (json_str kvs ''T'' = Some (CHR ''t'' # ks) \<and> json_str kvs ''S'' = Some symb \<and> message_time kvs = Some ns \<and> json_num F kvs ''p'' = None
       \<longrightarrow> normalize F (jobj kvs) after out = Some (False, capture_zero\<lparr>cr_type := of_char CHR ''t'', cr_symbol := symbol_field symb, cr_venue_ns := ns\<rparr>))
    \<and> (json_str kvs ''T'' = Some (CHR ''q'' # ks) \<and> json_str kvs ''S'' = Some symb
       \<and> json_num F kvs ''bp'' = Some bp \<and> json_num F kvs ''ap'' = Some ap \<and> to_cents F bp = Some p1 \<and> to_cents F ap = Some p2
       \<and> cast_size F (json_num F kvs ''bs'') = Some s1 \<and> cast_size F (json_num F kvs ''as'') = Some s2 \<and> message_time kvs = Some ns
       \<longrightarrow> normalize F (jobj kvs) after out = Some (p1 \<noteq> 0 \<and> p2 \<noteq> 0, \<lparr>cr_type = of_char CHR ''q'', cr_symbol = symbol_field symb,
              cr_p1 = p1, cr_s1 = s1, cr_p2 = p2, cr_s2 = s2, cr_venue_ns = ns\<rparr>))
    \<and> (json_str kvs ''T'' = Some (CHR ''t'' # ks) \<and> json_str kvs ''S'' = Some symb
       \<and> json_num F kvs ''p'' = Some p \<and> to_cents F p = Some p1 \<and> cast_size F (json_num F kvs ''s'') = Some s1 \<and> message_time kvs = Some ns
       \<longrightarrow> normalize F (jobj kvs) after out = Some (p1 \<noteq> 0, \<lparr>cr_type = of_char CHR ''t'', cr_symbol = symbol_field symb,
              cr_p1 = p1, cr_s1 = s1, cr_p2 = 0, cr_s2 = 0, cr_venue_ns = ns\<rparr>))"
  by (intro conjI normalize_reject [OF assms] normalize_no_price [OF assms] normalize_quote [OF assms] normalize_trade [OF assms])

text \<open>The example quote of the feed's documentation.\<close>

definition quote_msg :: "(string \<times> json) list" where
  "quote_msg = [(''T'', JStr ''q''), (''S'', JStr ''AMD''), (''bx'', JStr ''K''), (''bp'', JAtom ''91.95''), (''bs'', JAtom ''2''),
     (''ax'', JStr ''Q''), (''ap'', JAtom ''91.98''), (''as'', JAtom ''1''), (''c'', JArr [JStr ''R'']), (''z'', JStr ''C'')]"

lemma quote_msg_flat: "flat_object quote_msg"
  by (simp add: quote_msg_def flat_object_def plain_def atom_ok_def)

lemma quote_msg_floors: "\<lfloor>18391 / 2 :: rat\<rfloor> = 9195" "\<lfloor>18397 / 2 :: rat\<rfloor> = 9198"
  by (rule floor_unique; simp)+

lemma quote_msg_prices:
  "to_cents rat_fp (fp_strtod rat_fp ''91.95'') = Some 9195" "to_cents rat_fp (fp_strtod rat_fp ''91.98'') = Some 9198"
  "fp_to_u32 rat_fp (fp_strtod rat_fp ''2'') = Some 2" "fp_to_u32 rat_fp (fp_strtod rat_fp ''1'') = Some 1"
  by (simp_all add: to_cents_def rat_fp_def dec_strtod_def dec_val_def digits_val_def is_digit_def digit_val_def const_defs quote_msg_floors)

lemma quote_msg_fields:
  "json_str quote_msg ''T'' = Some ''q''" "json_str quote_msg ''S'' = Some ''AMD''" "message_time quote_msg = Some 0"
  "json_num F quote_msg ''bp'' = Some (fp_strtod F ''91.95'')" "json_num F quote_msg ''ap'' = Some (fp_strtod F ''91.98'')"
  "json_num F quote_msg ''bs'' = Some (fp_strtod F ''2'')" "json_num F quote_msg ''as'' = Some (fp_strtod F ''1'')"
  by (simp_all add: quote_msg_def json_str_def json_num_def message_time_def)

theorem normalize_message_witness:
  "normalize rat_fp (jobj quote_msg) '',{...}'' capture_zero = Some (True, \<lparr>cr_type = of_char CHR ''q'', cr_symbol = symbol_field ''AMD'',
     cr_p1 = 9195, cr_s1 = 2, cr_p2 = 9198, cr_s2 = 1, cr_venue_ns = 0\<rparr>)
   \<and> (\<exists>r. normalize rat_fp (jobj [(''T'', JStr ''q''), (''S'', JStr ''X'')]) [] capture_zero = Some (False, r))"
proof
  show "\<exists>r. normalize rat_fp (jobj [(''T'', JStr ''q''), (''S'', JStr ''X'')]) [] capture_zero = Some (False, r)"
    using normalize_message [OF rat_strtod_stops, where kvs = "[(''T'', JStr ''q''), (''S'', JStr ''X'')]" and ks = "[]" and symb = "''X''" and ns = 0
        and after = "[]" and out = capture_zero and k = "CHR ''x''"]
    by (auto simp: flat_object_def plain_def json_str_def json_num_def message_time_def)
qed (use normalize_message [OF rat_strtod_stops quote_msg_flat, where ks = "[]" and symb = "''AMD''" and bp = "fp_strtod rat_fp ''91.95''"
      and ap = "fp_strtod rat_fp ''91.98''" and ?p1.0 = 9195 and ?p2.0 = 9198 and ?s1.0 = 2 and ?s2.0 = 1 and ns = 0
      and after = "'',{...}''" and out = capture_zero and k = "CHR ''x''"]
    in \<open>simp add: quote_msg_prices quote_msg_fields cast_size_def\<close>)

text \<open>
  C32. Bounds of what the feed passes on: whatever the text between the braces, an accepted record is a quote
  or a trade with a symbol of exactly seven characters and prices from \<open>MIN_PRICE\<close> to \<open>MAX_PRICE\<close>, the unused
  fields of a trade being zero; the result does not depend on the characters after the object; and \<open>normalize\<close>
  is defined unless one of its conversions from \<open>double\<close> is not.
\<close>

theorem normalize_bounds:
  assumes "strtod_stops F" and "cast_bounded F"
  shows "(normalize F (obj @ [CHR ''}'']) after out = Some (True, r) \<longrightarrow> capture_ok r)
     \<and> normalize F (obj @ [CHR ''}'']) after' out = normalize F (obj @ [CHR ''}'']) after out
     \<and> (casts_defined F (obj @ [CHR ''}'']) after \<longrightarrow> normalize F (obj @ [CHR ''}'']) after out \<noteq> None)"
  using normalize_capture_ok [OF assms(2)] normalize_local [OF assms(1)] normalize_defined by blast

theorem normalize_bounds_witness:
  "normalize rat_fp (''not a message'' @ [CHR ''}'']) ''1'' capture_zero = normalize rat_fp (''not a message'' @ [CHR ''}'']) ''2'' capture_zero
     \<and> (\<exists>r. normalize rat_fp (jobj quote_msg) [] capture_zero = Some (True, r) \<and> capture_ok r)"
proof -
  obtain obj where o: "jobj quote_msg = obj @ [CHR ''}'']" by (simp add: jobj_entries entries_def)
  have "normalize rat_fp (jobj quote_msg) [] capture_zero = Some (True, \<lparr>cr_type = of_char CHR ''q'', cr_symbol = symbol_field ''AMD'',
     cr_p1 = 9195, cr_s1 = 2, cr_p2 = 9198, cr_s2 = 1, cr_venue_ns = 0\<rparr>)"
    using normalize_quote [OF rat_strtod_stops quote_msg_flat, where ks = "[]" and symb = "''AMD''" and bp = "fp_strtod rat_fp ''91.95''"
      and ap = "fp_strtod rat_fp ''91.98''" and ?p1.0 = 9195 and ?p2.0 = 9198 and ?s1.0 = 2 and ?s2.0 = 1 and ns = 0
      and after = "[]" and out = capture_zero] by (simp add: quote_msg_prices quote_msg_fields cast_size_def)
  then show ?thesis using normalize_bounds [OF rat_strtod_stops rat_cast_bounded] unfolding o by metis
qed

end
