(* ===== verification/Byte_Writer.thy ===== *)
theory Byte_Writer
  imports Tf_Prelude
begin

section \<open>Writing all bytes of a buffer\<close>

text \<open>
  The interface shared by \<open>send_wire\<close> (\<^verbatim>\<open>src/src/feed/feed_main.cpp\<close>, over \<open>send\<close>) and \<open>write_all\<close>
  (\<^verbatim>\<open>src/src/feed/alpaca_ws.cpp\<close>, over \<open>SSL_write\<close>): a loop that calls a primitive, which may take fewer bytes
  than offered, until everything is written or the primitive fails. The locale states the loop by its recursion equation;
  what the primitive promises is \<open>writer_ok\<close>, relative to an observation \<open>out\<close> of the bytes written so far.
\<close>

definition writer_ok :: "(u8 list \<Rightarrow> 'k \<Rightarrow> int \<times> 'k) \<Rightarrow> ('k \<Rightarrow> u8 list) \<Rightarrow> bool" where
  "writer_ok put out \<longleftrightarrow> (\<forall>bs k. bs \<noteq> [] \<longrightarrow>
     (case put bs k of (n, k') \<Rightarrow> n \<le> int (length bs) \<and> out k' = out k @ take (nat n) bs))"

definition never_fails :: "(u8 list \<Rightarrow> 'k \<Rightarrow> int \<times> 'k) \<Rightarrow> bool" where
  "never_fails put \<longleftrightarrow> (\<forall>bs k. bs \<noteq> [] \<longrightarrow> fst (put bs k) > 0)"

text \<open>Progress on one buffer: no rest of it is refused. A primitive may refuse buffers that are too long.\<close>

definition takes_all :: "(u8 list \<Rightarrow> 'k \<Rightarrow> int \<times> 'k) \<Rightarrow> u8 list \<Rightarrow> bool" where
  "takes_all put bs \<longleftrightarrow> (\<forall>n<length bs. \<forall>k. fst (put (drop n bs) k) > 0)"

lemma never_fails_takes_all: "never_fails put \<Longrightarrow> takes_all put bs"
  by (simp add: never_fails_def takes_all_def)

locale write_loop =
  fixes put :: "u8 list \<Rightarrow> 'k \<Rightarrow> int \<times> 'k"
    and failed :: "'k \<Rightarrow> 'k"
    and loop :: "u8 list \<Rightarrow> nat \<Rightarrow> 'k \<Rightarrow> (bool \<times> 'k) option"
  assumes loop_eq: "loop bs sent k =
    (if sent < length bs
     then case put (drop sent bs) k of (n, k') \<Rightarrow> if n \<le> 0 then Some (False, failed k') else loop bs (sent + nat n) k'
     else Some (True, k))"
begin

lemma loop_from:
  assumes "writer_ok put out" and "\<And>k. out (failed k) = out k" and "sent \<le> length bs"
  shows "\<exists>ok k' m. loop bs sent k = Some (ok, k') \<and> sent \<le> m \<and> m \<le> length bs
     \<and> out k' = out k @ take (m - sent) (drop sent bs) \<and> (ok \<longleftrightarrow> m = length bs) \<and> (takes_all put bs \<longrightarrow> ok)"
  using assms(3)
proof (induction "length bs - sent" arbitrary: sent k rule: less_induct)
  case less
  show ?case
  proof (cases "sent < length bs")
    case False
    with less.prems show ?thesis by (subst loop_eq) auto
  next
    case True
    obtain n k1 where p: "put (drop sent bs) k = (n, k1)" by force
    have n: "n \<le> int (length bs - sent)" "out k1 = out k @ take (nat n) (drop sent bs)"
      using assms(1) True p unfolding writer_ok_def by (auto dest!: spec [of _ "drop sent bs"] spec [of _ k])
    show ?thesis
    proof (cases "n \<le> 0")
      case True
      with n \<open>sent < length bs\<close> p have "loop bs sent k = Some (False, failed k1)" by (subst loop_eq) simp
      moreover have "\<not> takes_all put bs" using p True \<open>sent < length bs\<close> unfolding takes_all_def by (metis fst_conv linorder_not_le)
      ultimately show ?thesis using n True \<open>sent < length bs\<close> assms(2) by (intro exI [of _ False] exI [of _ "failed k1"] exI [of _ sent]) simp
    next
      case False
      let ?s = "sent + nat n"
      have s: "?s \<le> length bs" "length bs - ?s < length bs - sent" using n(1) False True by linarith+
      from less.hyps [OF s(2) s(1), of k1] obtain ok k' m where
        IH: "loop bs ?s k1 = Some (ok, k')" "?s \<le> m" "m \<le> length bs"
          "out k' = out k1 @ take (m - ?s) (drop ?s bs)" "ok \<longleftrightarrow> m = length bs" "takes_all put bs \<longrightarrow> ok" by blast
      have "take (nat n) (drop sent bs) @ take (m - ?s) (drop ?s bs) = take (nat n + (m - ?s)) (drop sent bs)"
        by (simp add: take_add add.commute)
      moreover have "nat n + (m - ?s) = m - sent" using IH(2) by simp
      ultimately have "out k' = out k @ take (m - sent) (drop sent bs)" using IH(4) n(2) by simp
      moreover have "loop bs sent k = Some (ok, k')" using p False True IH(1) by (subst loop_eq) simp
      ultimately show ?thesis using IH(2,3,5,6) by (intro exI [of _ ok] exI [of _ k'] exI [of _ m]) simp
    qed
  qed
qed

text \<open>What the primitive does not change, the loop changes at most by the reaction to a failure.\<close>

lemma loop_result:
  assumes "\<And>bs k. f (snd (put bs k)) = f k" and "loop bs sent k = Some (ok, k')"
  shows "\<exists>k0. f k0 = f k \<and> k' = (if ok then k0 else failed k0)"
  using assms(2)
proof (induction "length bs - sent" arbitrary: sent k rule: less_induct)
  case less
  show ?case
  proof (cases "sent < length bs")
    case True
    obtain n k1 where p: "put (drop sent bs) k = (n, k1)" by force
    have k1: "f k1 = f k" using assms(1) [of "drop sent bs" k] p by simp
    show ?thesis
    proof (cases "n \<le> 0")
      case True
      with less.prems \<open>sent < length bs\<close> p have "ok = False" "k' = failed k1" by (subst (asm) loop_eq, simp)+
      with k1 show ?thesis by auto
    next
      case False
      with less.prems True p have l: "loop bs (sent + nat n) k1 = Some (ok, k')" by (subst (asm) loop_eq) simp
      have "length bs - (sent + nat n) < length bs - sent" using False True by linarith
      from less.hyps [OF this l] k1 show ?thesis by simp
    qed
  next
    case False
    with less.prems show ?thesis by (subst (asm) loop_eq) auto
  qed
qed

lemma loop_preserves:
  assumes "\<And>bs k. f (snd (put bs k)) = f k" and "loop bs sent k = Some (True, k')"
  shows "f k' = f k"
  using loop_result [OF assms] by auto

text \<open>From the start: the loop ends; on success all bytes were written, on failure a proper prefix.\<close>

lemma loop_all:
  assumes "writer_ok put out" and "\<And>k. out (failed k) = out k"
  obtains ok k' m where "loop bs 0 k = Some (ok, k')" "m \<le> length bs" "out k' = out k @ take m bs" "ok \<longleftrightarrow> m = length bs"
    "takes_all put bs \<longrightarrow> ok" "never_fails put \<longrightarrow> ok"
  using loop_from [OF assms, of 0 bs k] never_fails_takes_all [of put bs] by auto

end

end
