(* ===== verification/Feed_Client.thy ===== *)
theory Feed_Client
  imports Feed_Properties Byte_Writer Sbe_Messages
begin

section \<open>The feed client: orders, capture and replay\<close>

text \<open>
  Models the program logic of \<^verbatim>\<open>src/src/feed/feed_main.cpp\<close>: \<open>send_wire\<close>, \<open>emit_orders\<close>, \<open>run_replay\<close>, and the
  frame loop of \<open>main\<close> with its callback; and the 32-byte layout of \<open>CaptureRecord\<close>, which is what
  \<open>fwrite\<close> and \<open>fread\<close> move.

  The operating system is the record \<open>feed_os\<close> over an abstract state \<open>'k\<close>: \<open>send\<close>, \<open>usleep\<close> and the load of
  \<open>g_running\<close>. The function-local \<open>static bool buy\<close> of \<open>emit_orders\<close> is threaded explicitly. A capture file is the
  list of its bytes. The replay speed is \<open>None\<close> when it is not positive and otherwise the function
  that maps a difference of timestamps to the gap in nanoseconds: a division of \<open>double\<close> and its conversion to \<open>uint64_t\<close>, which is undefined (\<open>None\<close>)
  when the quotient does not fit.
  Progress messages on \<open>stderr\<close> are not modelled.
\<close>

subsection \<open>Capture records in files\<close>

definition CAPTURE_SIZE :: nat where [const_defs]: "CAPTURE_SIZE = 32"

definition capture_bytes :: "CaptureRecord \<Rightarrow> u8 list" where
  "capture_bytes r = cr_type r # map of_char (cr_symbol r) @ le_bytes 4 (cr_p1 r) @ le_bytes 4 (cr_s1 r)
     @ le_bytes 4 (cr_p2 r) @ le_bytes 4 (cr_s2 r) @ le_bytes 8 (cr_venue_ns r)"

definition capture_of_bytes :: "u8 list \<Rightarrow> CaptureRecord" where
  "capture_of_bytes bs = \<lparr>cr_type = bs ! 0, cr_symbol = map (\<lambda>b. char_of (unat b)) (take 7 (drop 1 bs)),
     cr_p1 = le_word (take 4 (drop 8 bs)), cr_s1 = le_word (take 4 (drop 12 bs)),
     cr_p2 = le_word (take 4 (drop 16 bs)), cr_s2 = le_word (take 4 (drop 20 bs)), cr_venue_ns = le_word (take 8 (drop 24 bs))\<rparr>"

subsection \<open>Sending orders\<close>

record 'k feed_os =
  fs_send :: "int \<Rightarrow> u8 list \<Rightarrow> 'k \<Rightarrow> int \<times> 'k"
  fs_usleep :: "u32 \<Rightarrow> 'k \<Rightarrow> 'k"
  fs_running :: "'k \<Rightarrow> bool \<times> 'k"

partial_function (option) send_loop :: "'k feed_os \<Rightarrow> int \<Rightarrow> u8 list \<Rightarrow> nat \<Rightarrow> 'k \<Rightarrow> (bool \<times> 'k) option" where
  "send_loop os fd bs sent k =
     (if sent < length bs
      then case fs_send os fd (drop sent bs) k of (n, k') \<Rightarrow>
             if n \<le> 0 then Some (False, k') else send_loop os fd bs (sent + nat n) k'
      else Some (True, k))"

definition send_wire :: "'k feed_os \<Rightarrow> int \<Rightarrow> WireMessage \<Rightarrow> 'k \<Rightarrow> (bool \<times> 'k) option" where
  "send_wire os fd w k = send_loop os fd (wire_bytes w) 0 k"

definition wire_zero :: WireMessage where
  "wire_zero = \<lparr>w_type = 0, w_side = 0, w_order_type = 0, w_pad = 0, w_client_id = 0, w_order_id = 0, w_price = 0, w_quantity = 0, w_timestamp = 0\<rparr>"

definition emit_orders :: "'k feed_os \<Rightarrow> int \<Rightarrow> CaptureRecord \<Rightarrow> ClientId \<Rightarrow> bool \<times> 'k \<Rightarrow> (nat \<times> bool \<times> 'k) option" where
  "emit_orders os fd r client bk =
     (case bk of (buy, k) \<Rightarrow>
        let w = wire_zero\<lparr>w_type := u8_of_msg_type NewOrder, w_order_type := u8_of_order_type Limit,
                  w_client_id := client, w_timestamp := cr_venue_ns r\<rparr>
        in if cr_type r = of_char TickType_Quote then do {
             let w1 = w\<lparr>w_side := u8_of_side Buy, w_price := cr_p1 r, w_quantity := (if cr_s1 r \<noteq> 0 then cr_s1 r * 100 else 100)\<rparr>;
             (ok, k1) \<leftarrow> send_wire os fd w1 k;
             if \<not> ok then Some (0, buy, k1) else do {
               let w2 = w1\<lparr>w_side := u8_of_side Sell, w_price := cr_p2 r, w_quantity := (if cr_s2 r \<noteq> 0 then cr_s2 r * 100 else 100)\<rparr>;
               (ok, k2) \<leftarrow> send_wire os fd w2 k1;
               if \<not> ok then Some (1, buy, k2) else Some (2, buy, k2)
             }
           } else do {
             let buy' = (\<not> buy);
             let w1 = w\<lparr>w_side := u8_of_side (if buy' then Buy else Sell), w_price := cr_p1 r, w_quantity := (if cr_s1 r \<noteq> 0 then cr_s1 r else 1)\<rparr>;
             (ok, k1) \<leftarrow> send_wire os fd w1 k;
             if \<not> ok then Some (0, buy', k1) else Some (1, buy', k1)
           })"

subsection \<open>Replay\<close>

definition replay_pause :: "'k feed_os \<Rightarrow> (u64 \<Rightarrow> u64 option) option \<Rightarrow> u64 \<Rightarrow> u64 \<Rightarrow> 'k \<Rightarrow> 'k option" where
  "replay_pause os speed prev_ns ns k =
     (case speed of
        None \<Rightarrow> Some k
      | Some gap_of \<Rightarrow>
          if prev_ns \<noteq> 0 \<and> ns > prev_ns
          then do { gap \<leftarrow> gap_of (ns - prev_ns); Some (if gap > 1000 then fs_usleep os (ucast (gap div 1000)) k else k) }
          else Some k)"

partial_function (option) replay_loop ::
  "'k feed_os \<Rightarrow> (u64 \<Rightarrow> u64 option) option \<Rightarrow> u64 \<Rightarrow> int \<Rightarrow> u8 list \<Rightarrow> u64 \<Rightarrow> u64 \<Rightarrow> u64 \<Rightarrow> bool \<times> 'k \<Rightarrow> (u64 \<times> u64 \<times> bool \<times> 'k) option" where
  "replay_loop os speed limit fd file n orders prev_ns bk =
     (case fs_running os (snd bk) of (running, k1) \<Rightarrow>
        if \<not> running \<or> length file < CAPTURE_SIZE then Some (n, orders, fst bk, k1)
        else do {
          let r = capture_of_bytes (take CAPTURE_SIZE file);
          k2 \<leftarrow> replay_pause os speed prev_ns (cr_venue_ns r) k1;
          (sent, buy, k3) \<leftarrow> (if fd \<ge> 0 then emit_orders os fd r 1 (fst bk, k2) else Some (0, fst bk, k2));
          if limit \<noteq> 0 \<and> n + 1 \<ge> limit then Some (n + 1, orders + of_nat sent, buy, k3)
          else replay_loop os speed limit fd (drop CAPTURE_SIZE file) (n + 1) (orders + of_nat sent) (cr_venue_ns r) (buy, k3)
        })"

text \<open>The file is \<open>None\<close> when \<open>fopen\<close> fails; the first component of the result is the exit status.\<close>

definition run_replay ::
  "'k feed_os \<Rightarrow> (u64 \<Rightarrow> u64 option) option \<Rightarrow> u64 \<Rightarrow> int \<Rightarrow> u8 list option \<Rightarrow> bool \<times> 'k \<Rightarrow> (int \<times> u64 \<times> u64 \<times> bool \<times> 'k) option" where
  "run_replay os speed limit fd file bk =
     (case file of
        None \<Rightarrow> Some (1, 0, 0, bk)
      | Some bs \<Rightarrow> do { (n, orders, bk') \<leftarrow> replay_loop os speed limit fd bs 0 0 0 bk; Some (0, n, orders, bk') })"

subsection \<open>The live feed\<close>

record 'k feed =
  f_ticks :: u64
  f_orders :: u64
  f_skipped :: u64
  f_out :: "u8 list option"
  f_buy :: bool
  f_k :: 'k

definition on_object :: "'d fp \<Rightarrow> 'k feed_os \<Rightarrow> int \<Rightarrow> string \<times> string \<Rightarrow> 'k feed \<Rightarrow> 'k feed option" where
  "on_object F os fd view st = do {
     (ok, r) \<leftarrow> normalize F (fst view) (snd view) capture_zero;
     if \<not> ok then Some (st\<lparr>f_skipped := f_skipped st + 1\<rparr>) else do {
       let st1 = st\<lparr>f_ticks := f_ticks st + 1, f_out := map_option (\<lambda>bs. bs @ capture_bytes r) (f_out st)\<rparr>;
       if fd \<ge> 0 then do {
         (sent, buy, k) \<leftarrow> emit_orders os fd r 1 (f_buy st1, f_k st1);
         Some (st1\<lparr>f_orders := f_orders st1 + of_nat sent, f_buy := buy, f_k := k\<rparr>)
       } else Some st1
     }
   }"

primrec on_objects :: "'d fp \<Rightarrow> 'k feed_os \<Rightarrow> int \<Rightarrow> (string \<times> string) list \<Rightarrow> 'k feed \<Rightarrow> 'k feed option" where
  "on_objects F os fd [] st = Some st"
| "on_objects F os fd (v # vs) st = do { st' \<leftarrow> on_object F os fd v st; on_objects F os fd vs st' }"

text \<open>The loop of \<open>main\<close> over the frames that \<open>read_frame\<close> delivers while the program is running.\<close>

primrec feed_loop :: "'d fp \<Rightarrow> 'k feed_os \<Rightarrow> int \<Rightarrow> u64 \<Rightarrow> string list \<Rightarrow> 'k feed \<Rightarrow> 'k feed option" where
  "feed_loop F os fd limit [] st = Some st"
| "feed_loop F os fd limit (frame # frames) st = do {
     st' \<leftarrow> on_objects F os fd (for_each_object frame) st;
     if limit \<noteq> 0 \<and> f_ticks st' \<ge> limit then Some st' else feed_loop F os fd limit frames st'
   }"

subsection \<open>What is sent\<close>

text \<open>The orders of a record, and the next value of the alternating side.\<close>

definition order_msg :: "CaptureRecord \<Rightarrow> ClientId \<Rightarrow> Side \<Rightarrow> Price \<Rightarrow> Quantity \<Rightarrow> WireMessage" where
  "order_msg r client sd p q = \<lparr>w_type = u8_of_msg_type NewOrder, w_side = u8_of_side sd, w_order_type = u8_of_order_type Limit, w_pad = 0,
     w_client_id = client, w_order_id = 0, w_price = p, w_quantity = q, w_timestamp = cr_venue_ns r\<rparr>"

definition is_quote :: "CaptureRecord \<Rightarrow> bool" where
  "is_quote r \<longleftrightarrow> cr_type r = of_char TickType_Quote"

definition next_buy :: "CaptureRecord \<Rightarrow> bool \<Rightarrow> bool" where
  "next_buy r buy = (if is_quote r then buy else \<not> buy)"

definition tick_orders :: "CaptureRecord \<Rightarrow> ClientId \<Rightarrow> bool \<Rightarrow> WireMessage list" where
  "tick_orders r client buy =
     (if is_quote r
      then [order_msg r client Buy (cr_p1 r) (if cr_s1 r \<noteq> 0 then cr_s1 r * 100 else 100),
            order_msg r client Sell (cr_p2 r) (if cr_s2 r \<noteq> 0 then cr_s2 r * 100 else 100)]
      else [order_msg r client (if buy then Sell else Buy) (cr_p1 r) (if cr_s1 r \<noteq> 0 then cr_s1 r else 1)])"

primrec session_orders :: "CaptureRecord list \<Rightarrow> bool \<Rightarrow> WireMessage list" where
  "session_orders [] buy = []"
| "session_orders (r # rs) buy = tick_orders r 1 buy @ session_orders rs (next_buy r buy)"

definition wire_stream :: "WireMessage list \<Rightarrow> u8 list" where
  "wire_stream ws = concat (map wire_bytes ws)"

lemma wire_stream_simps [simp]: "wire_stream [] = []" "wire_stream (w # ws) = wire_bytes w @ wire_stream ws" "wire_stream (xs @ ys) = wire_stream xs @ wire_stream ys"
  by (simp_all add: wire_stream_def)

subsection \<open>Sending is writing all bytes\<close>

interpretation sw: write_loop "fs_send os fd" "\<lambda>k. k" "send_loop os fd" for os :: "'k feed_os" and fd :: int
  by unfold_locales (subst send_loop.simps, simp)

lemma send_wire_correct:
  assumes "writer_ok (fs_send os fd) out"
  obtains ok k' m where "send_wire os fd w k = Some (ok, k')" "m \<le> WIRE_MSG_SIZE" "out k' = out k @ take m (wire_bytes w)"
    "ok \<longleftrightarrow> m = WIRE_MSG_SIZE" "never_fails (fs_send os fd) \<longrightarrow> ok"
proof -
  obtain ok k' m where "send_loop os fd (wire_bytes w) 0 k = Some (ok, k')" "m \<le> length (wire_bytes w)" "out k' = out k @ take m (wire_bytes w)"
    "ok \<longleftrightarrow> m = length (wire_bytes w)" "never_fails (fs_send os fd) \<longrightarrow> ok" by (rule sw.loop_all [OF assms refl])
  then show thesis by (intro that) (simp_all add: send_wire_def)
qed

lemma strict_prefix_take: "m < length xs \<Longrightarrow> strict_prefix (take m xs) xs"
  by (metis append_take_drop_id drop_eq_Nil linorder_not_le strict_prefixI' strict_prefix_def take_is_prefix self_append_conv)

definition sent_upto :: "WireMessage list \<Rightarrow> nat \<Rightarrow> u8 list \<Rightarrow> bool" where
  "sent_upto ws n bytes \<longleftrightarrow> n \<le> length ws \<and>
     (\<exists>p. bytes = wire_stream (take n ws) @ p \<and> (if n = length ws then p = [] else strict_prefix p (wire_bytes (ws ! n))))"

lemma sent_upto_all: "sent_upto ws (length ws) bytes \<longleftrightarrow> bytes = wire_stream ws"
  by (simp add: sent_upto_def)

lemma sent_uptoI:
  assumes "n < length ws" "m \<le> WIRE_MSG_SIZE" "bytes = wire_stream (take n ws) @ take m (wire_bytes (ws ! n))"
  shows "m \<noteq> WIRE_MSG_SIZE \<Longrightarrow> sent_upto ws n bytes" and "m = WIRE_MSG_SIZE \<Longrightarrow> Suc n = length ws \<Longrightarrow> sent_upto ws (Suc n) bytes"
proof -
  show "sent_upto ws n bytes" if "m \<noteq> WIRE_MSG_SIZE"
    using assms that by (auto simp: sent_upto_def strict_prefix_take)
  assume m: "m = WIRE_MSG_SIZE" and n: "Suc n = length ws"
  have "ws = take n ws @ [ws ! n]" using take_Suc_conv_app_nth [OF assms(1)] n by simp
  then have "wire_stream ws = wire_stream (take n ws) @ wire_bytes (ws ! n)" by (metis wire_stream_simps append_Nil2)
  with assms(3) m n show "sent_upto ws (Suc n) bytes" unfolding n sent_upto_all by simp
qed

lemma order_msg_first:
  "wire_zero\<lparr>w_type := u8_of_msg_type NewOrder, w_order_type := u8_of_order_type Limit, w_client_id := client, w_timestamp := cr_venue_ns r,
     w_side := u8_of_side sd, w_price := p, w_quantity := q\<rparr> = order_msg r client sd p q"
  by (simp add: wire_zero_def order_msg_def)

lemma order_msg_next: "(order_msg r client sd p q)\<lparr>w_side := u8_of_side sd', w_price := p', w_quantity := q'\<rparr> = order_msg r client sd' p' q'"
  by (simp add: order_msg_def)

lemma if_not_buy: "(if \<not> buy then Buy else Sell) = (if buy then Sell else Buy)"
  by simp

lemma emit_trade:
  assumes "writer_ok (fs_send os fd) out" "\<not> is_quote r"
  shows "\<exists>n k' bytes. emit_orders os fd r client (buy, k) = Some (n, next_buy r buy, k') \<and> out k' = out k @ bytes
     \<and> sent_upto (tick_orders r client buy) n bytes \<and> (never_fails (fs_send os fd) \<longrightarrow> n = length (tick_orders r client buy))"
proof -
  define w where "w = order_msg r client (if buy then Sell else Buy) (cr_p1 r) (if cr_s1 r \<noteq> 0 then cr_s1 r else 1)"
  have t: "tick_orders r client buy = [w]" using assms(2) by (simp add: tick_orders_def w_def)
  obtain ok k' m where s: "send_wire os fd w k = Some (ok, k')" "m \<le> WIRE_MSG_SIZE" "out k' = out k @ take m (wire_bytes w)"
    "ok \<longleftrightarrow> m = WIRE_MSG_SIZE" "never_fails (fs_send os fd) \<longrightarrow> ok" by (rule send_wire_correct [OF assms(1)])
  have "emit_orders os fd r client (buy, k) = Some (if ok then 1 else 0, next_buy r buy, k')"
    unfolding emit_orders_def Let_def prod.case order_msg_first if_not_buy w_def [symmetric] s(1)
    using assms(2) by (simp add: is_quote_def next_buy_def)
  moreover have "sent_upto [w] (if ok then 1 else 0) (take m (wire_bytes w))"
  proof (cases ok)
    case True
    with s(4) have "take m (wire_bytes w) = wire_bytes w" by simp
    with True sent_upto_all [of "[w]" "wire_bytes w"] show ?thesis by simp
  next
    case False
    with s(2,4) sent_uptoI(1) [of 0 "[w]" m "take m (wire_bytes w)"] show ?thesis by simp
  qed
  ultimately show ?thesis using s(3,5) t by (intro exI [of _ "if ok then 1 else 0"] exI [of _ k'] exI) auto
qed

lemma emit_quote:
  assumes "writer_ok (fs_send os fd) out" "is_quote r"
  shows "\<exists>n k' bytes. emit_orders os fd r client (buy, k) = Some (n, next_buy r buy, k') \<and> out k' = out k @ bytes
     \<and> sent_upto (tick_orders r client buy) n bytes \<and> (never_fails (fs_send os fd) \<longrightarrow> n = length (tick_orders r client buy))"
proof -
  let ?b = "order_msg r client Buy (cr_p1 r) (if cr_s1 r \<noteq> 0 then cr_s1 r * 100 else 100)"
  let ?a = "order_msg r client Sell (cr_p2 r) (if cr_s2 r \<noteq> 0 then cr_s2 r * 100 else 100)"
  have t: "tick_orders r client buy = [?b, ?a]" and nb: "next_buy r buy = buy" using assms(2) by (simp_all add: tick_orders_def next_buy_def)
  obtain ok k1 m where s: "send_wire os fd ?b k = Some (ok, k1)" "m \<le> WIRE_MSG_SIZE" "out k1 = out k @ take m (wire_bytes ?b)"
    "ok \<longleftrightarrow> m = WIRE_MSG_SIZE" "never_fails (fs_send os fd) \<longrightarrow> ok" by (rule send_wire_correct [OF assms(1)])
  obtain ok2 k2 m2 where s2: "send_wire os fd ?a k1 = Some (ok2, k2)" "m2 \<le> WIRE_MSG_SIZE" "out k2 = out k1 @ take m2 (wire_bytes ?a)"
    "ok2 \<longleftrightarrow> m2 = WIRE_MSG_SIZE" "never_fails (fs_send os fd) \<longrightarrow> ok2" by (rule send_wire_correct [OF assms(1)])
  have e: "emit_orders os fd r client (buy, k) = (if \<not> ok then Some (0, buy, k1) else Some (if ok2 then 2 else 1, buy, k2))"
    unfolding emit_orders_def Let_def prod.case order_msg_first order_msg_next s(1)
    using assms(2) s2(1) by (simp add: is_quote_def)
  show ?thesis
  proof (cases ok)
    case False
    have "sent_upto [?b, ?a] 0 (take m (wire_bytes ?b))" using sent_uptoI(1) [of 0 "[?b, ?a]" m] s(2,4) False by simp
    with False e s(3,5) show ?thesis unfolding t nb by (intro exI [of _ 0] exI [of _ k1] exI) auto
  next
    case True
    have "sent_upto [?b, ?a] (if ok2 then 2 else 1) (wire_bytes ?b @ take m2 (wire_bytes ?a))"
      using sent_uptoI [of 1 "[?b, ?a]" m2 "wire_bytes ?b @ take m2 (wire_bytes ?a)"] s2(2,4) by (auto simp: numeral_2_eq_2)
    moreover have "out k2 = out k @ wire_bytes ?b @ take m2 (wire_bytes ?a)" using s(3,4) s2(3) True by simp
    ultimately show ?thesis using True e s2(5) unfolding t nb by (intro exI [of _ "if ok2 then 2 else 1"] exI [of _ k2] exI) auto
  qed
qed

lemma emit_orders_correct:
  assumes "writer_ok (fs_send os fd) out"
  shows "\<exists>n k' bytes. emit_orders os fd r client (buy, k) = Some (n, next_buy r buy, k') \<and> out k' = out k @ bytes
     \<and> sent_upto (tick_orders r client buy) n bytes \<and> (never_fails (fs_send os fd) \<longrightarrow> n = length (tick_orders r client buy))"
  using emit_quote [OF assms] emit_trade [OF assms] by blast

lemma emit_orders_live:
  assumes "writer_ok (fs_send os fd) out" "never_fails (fs_send os fd)"
  obtains k' where "emit_orders os fd r client (buy, k) = Some (length (tick_orders r client buy), next_buy r buy, k')"
    "out k' = out k @ wire_stream (tick_orders r client buy)"
  using emit_orders_correct [OF assms(1), of r client buy k] assms(2) by (auto simp: sent_upto_all)

end
