(* ===== verification/Feed_Replay.thy ===== *)
theory Feed_Replay
  imports Feed_Client
begin

section \<open>Capture and replay\<close>

text \<open>
  Properties of \<^verbatim>\<open>src/src/feed/feed_main.cpp\<close>: what \<open>emit_orders\<close> puts on the wire, and that replaying a
  capture file sends exactly what the live session sent. The assumptions on the operating system are
  \<open>writer_ok\<close> (\<open>send\<close> takes a prefix of what it is offered), \<open>never_fails\<close> where success is
  assumed, and \<open>replay_ok\<close> (the running flag stays set, and neither loading it nor sleeping sends anything).
\<close>

definition replay_ok :: "'k feed_os \<Rightarrow> ('k \<Rightarrow> u8 list) \<Rightarrow> bool" where
  "replay_ok os out \<longleftrightarrow> (\<forall>k. fst (fs_running os k) \<and> out (snd (fs_running os k)) = out k) \<and> (\<forall>us k. out (fs_usleep os us k) = out k)"

text \<open>The conversions of the gaps between consecutive records, of which only those that are positive and follow a record with a timestamp are computed.\<close>

definition gap_castable :: "(u64 \<Rightarrow> u64 option) option \<Rightarrow> u64 \<Rightarrow> u64 \<Rightarrow> bool" where
  "gap_castable speed prev ns \<longleftrightarrow> (case speed of None \<Rightarrow> True | Some gap_of \<Rightarrow> prev = 0 \<or> ns \<le> prev \<or> gap_of (ns - prev) \<noteq> None)"

primrec gaps_castable :: "(u64 \<Rightarrow> u64 option) option \<Rightarrow> u64 \<Rightarrow> CaptureRecord list \<Rightarrow> bool" where
  "gaps_castable speed prev [] \<longleftrightarrow> True"
| "gaps_castable speed prev (r # rs) \<longleftrightarrow> gap_castable speed prev (cr_venue_ns r) \<and> gaps_castable speed (cr_venue_ns r) rs"

lemma gaps_castable_None [simp]: "gaps_castable None prev rs"
  by (induction rs arbitrary: prev) (simp_all add: gap_castable_def)

lemma replay_pause_out:
  assumes "replay_ok os out"
  shows "gap_castable speed prev ns \<Longrightarrow> \<exists>k'. replay_pause os speed prev ns k = Some k' \<and> out k' = out k"
    and "\<not> gap_castable speed prev ns \<Longrightarrow> replay_pause os speed prev ns k = None"
  using assms by (auto simp: gap_castable_def replay_ok_def replay_pause_def split: option.splits)

subsection \<open>The record layout\<close>

lemma unat_of_char: "unat (of_char c :: u8) = of_char c"
proof -
  have "(of_char c :: u8) = of_nat (of_char c)" by (cases c) (simp add: of_char_def)
  moreover have "of_char c < (256::nat)" by (metis of_char_mod_256 mod_less_divisor zero_less_numeral)
  ultimately show ?thesis by (simp add: unat_of_nat)
qed

lemma length_capture_bytes [simp]: "length (cr_symbol r) = SYMBOL_SIZE \<Longrightarrow> length (capture_bytes r) = CAPTURE_SIZE"
  by (simp add: capture_bytes_def const_defs)

lemma capture_roundtrip:
  assumes "length (cr_symbol r) = SYMBOL_SIZE"
  shows "capture_of_bytes (capture_bytes r) = r"
proof -
  have "map (\<lambda>b. char_of (unat b)) (map (of_char :: char \<Rightarrow> u8) s) = s" for s
    by (induction s) (simp_all add: unat_of_char)
  moreover have "length (map (of_char :: char \<Rightarrow> u8) (cr_symbol r)) = 7" using assms by (simp add: const_defs)
  ultimately show ?thesis
    by (simp add: capture_of_bytes_def capture_bytes_def le_word_bytes del: map_map length_map)
qed

definition capture_file :: "CaptureRecord list \<Rightarrow> u8 list" where
  "capture_file rs = concat (map capture_bytes rs)"

lemma capture_file_simps [simp]: "capture_file [] = []" "capture_file (r # rs) = capture_bytes r @ capture_file rs" "capture_file (xs @ ys) = capture_file xs @ capture_file ys"
  by (simp_all add: capture_file_def)

subsection \<open>Sessions\<close>

lemma session_orders_append: "session_orders (xs @ ys) buy = session_orders xs buy @ session_orders ys (fold next_buy xs buy)"
  by (induction xs arbitrary: buy) simp_all

lemma replay_loop_session:
  assumes "writer_ok (fs_send os fd) out" "never_fails (fs_send os fd)" "replay_ok os out" "fd \<ge> 0"
  shows "list_all (\<lambda>r. length (cr_symbol r) = SYMBOL_SIZE) rs \<Longrightarrow> gaps_castable speed prev rs \<Longrightarrow>
     \<exists>k'. replay_loop os speed 0 fd (capture_file rs) n orders prev (buy, k)
         = Some (n + of_nat (length rs), orders + of_nat (length (session_orders rs buy)), fold next_buy rs buy, k')
       \<and> out k' = out k @ wire_stream (session_orders rs buy)"
proof (induction rs arbitrary: n orders prev buy k)
  case Nil
  obtain k1 where "fs_running os k = (True, k1)" "out k1 = out k" using assms(3) unfolding replay_ok_def by (metis prod.collapse)
  then show ?case by (subst replay_loop.simps) (simp add: CAPTURE_SIZE_def)
next
  case (Cons r rs)
  obtain k1 where k1: "fs_running os k = (True, k1)" "out k1 = out k" using assms(3) unfolding replay_ok_def by (metis prod.collapse)
  obtain k2 where p: "replay_pause os speed prev (cr_venue_ns r) k1 = Some k2" and k2: "out k2 = out k"
    using k1(2) replay_pause_out(1) [OF assms(3), of speed prev "cr_venue_ns r" k1] Cons.prems(2) by auto
  obtain k3 where k3: "emit_orders os fd r 1 (buy, k2) = Some (length (tick_orders r 1 buy), next_buy r buy, k3)"
    "out k3 = out k2 @ wire_stream (tick_orders r 1 buy)" by (rule emit_orders_live [OF assms(1,2)])
  have len: "length (cr_symbol r) = SYMBOL_SIZE" "list_all (\<lambda>r. length (cr_symbol r) = SYMBOL_SIZE) rs" "gaps_castable speed (cr_venue_ns r) rs"
    using Cons.prems by simp_all
  from Cons.IH [OF len(2,3), of "n + 1" "orders + of_nat (length (tick_orders r 1 buy))" "next_buy r buy" k3]
  obtain k' where k': "replay_loop os speed 0 fd (capture_file rs) (n + 1) (orders + of_nat (length (tick_orders r 1 buy))) (cr_venue_ns r) (next_buy r buy, k3)
      = Some (n + 1 + of_nat (length rs), orders + of_nat (length (tick_orders r 1 buy)) + of_nat (length (session_orders rs (next_buy r buy))), fold next_buy rs (next_buy r buy), k')"
    "out k' = out k3 @ wire_stream (session_orders rs (next_buy r buy))" by blast
  have "replay_loop os speed 0 fd (capture_file (r # rs)) n orders prev (buy, k)
      = replay_loop os speed 0 fd (capture_file rs) (n + 1) (orders + of_nat (length (tick_orders r 1 buy))) (cr_venue_ns r) (next_buy r buy, k3)"
    using k1(1) k3(1) assms(4) len(1) by (subst replay_loop.simps) (simp add: capture_roundtrip p Let_def)
  with k' k3(2) k2 show ?case by (intro exI [of _ k']) (simp add: add.assoc)
qed

text \<open>A gap whose conversion is undefined makes the whole replay undefined.\<close>

lemma replay_loop_undefined:
  assumes "writer_ok (fs_send os fd) out" "never_fails (fs_send os fd)" "replay_ok os out" "fd \<ge> 0"
  shows "list_all (\<lambda>r. length (cr_symbol r) = SYMBOL_SIZE) rs \<Longrightarrow> \<not> gaps_castable speed prev rs \<Longrightarrow>
     replay_loop os speed 0 fd (capture_file rs) n orders prev (buy, k) = None"
proof (induction rs arbitrary: n orders prev buy k)
  case (Cons r rs)
  obtain k1 where k1: "fs_running os k = (True, k1)" "out k1 = out k" using assms(3) unfolding replay_ok_def by (metis prod.collapse)
  have len: "length (cr_symbol r) = SYMBOL_SIZE" "list_all (\<lambda>r. length (cr_symbol r) = SYMBOL_SIZE) rs" using Cons.prems by simp_all
  show ?case
  proof (cases "gap_castable speed prev (cr_venue_ns r)")
    case True
    obtain k2 where p: "replay_pause os speed prev (cr_venue_ns r) k1 = Some k2" using replay_pause_out(1) [OF assms(3) True] by blast
    obtain k3 where k3: "emit_orders os fd r 1 (buy, k2) = Some (length (tick_orders r 1 buy), next_buy r buy, k3)" by (rule emit_orders_live [OF assms(1,2)])
    have "\<not> gaps_castable speed (cr_venue_ns r) rs" using Cons.prems(2) True by simp
    with k1(1) k3(1) assms(4) len p show ?thesis by (subst replay_loop.simps) (simp add: capture_roundtrip Let_def Cons.IH)
  next
    case False
    with k1(1) len(1) replay_pause_out(2) [OF assms(3) False] show ?thesis by (subst replay_loop.simps) (simp add: capture_roundtrip Let_def)
  qed
qed simp

subsection \<open>The live session\<close>

text \<open>What a step of the live feed does: it appends the records \<open>rs\<close> to the capture file and sends their orders.\<close>

definition session_step :: "('k \<Rightarrow> u8 list) \<Rightarrow> CaptureRecord list \<Rightarrow> 'k feed \<Rightarrow> 'k feed \<Rightarrow> bool" where
  "session_step out rs st st' \<longleftrightarrow> list_all capture_ok rs \<and> f_out st' = map_option (\<lambda>bs. bs @ capture_file rs) (f_out st)
     \<and> out (f_k st') = out (f_k st) @ wire_stream (session_orders rs (f_buy st)) \<and> f_buy st' = fold next_buy rs (f_buy st)
     \<and> f_ticks st' = f_ticks st + of_nat (length rs) \<and> f_orders st' = f_orders st + of_nat (length (session_orders rs (f_buy st)))"

lemma session_step_refl: "f_ticks st' = f_ticks st \<Longrightarrow> f_orders st' = f_orders st \<Longrightarrow> f_out st' = f_out st \<Longrightarrow> f_buy st' = f_buy st \<Longrightarrow> f_k st' = f_k st \<Longrightarrow> session_step out [] st st'"
  by (cases "f_out st") (simp_all add: session_step_def)

lemma session_step_trans: "session_step out rs st st1 \<Longrightarrow> session_step out rs' st1 st2 \<Longrightarrow> session_step out (rs @ rs') st st2"
  by (cases "f_out st") (auto simp: session_step_def session_orders_append)

text \<open>The records of an object and of a frame: what \<open>normalize\<close> accepts.\<close>

definition object_records :: "'d fp \<Rightarrow> string \<times> string \<Rightarrow> CaptureRecord list" where
  "object_records F v = (case normalize F (fst v) (snd v) capture_zero of Some (True, r) \<Rightarrow> [r] | _ \<Rightarrow> [])"

definition frame_records :: "'d fp \<Rightarrow> string \<Rightarrow> CaptureRecord list" where
  "frame_records F frame = concat (map (object_records F) (for_each_object frame))"

lemma on_object_session:
  assumes "writer_ok (fs_send os fd) out" "never_fails (fs_send os fd)" "fd \<ge> 0" "cast_bounded F" "casts_defined F (fst v) (snd v)"
  shows "\<exists>st'. on_object F os fd v st = Some st' \<and> session_step out (object_records F v) st st'"
proof -
  from normalize_defined [OF assms(5), of capture_zero] obtain ok r where n: "normalize F (fst v) (snd v) capture_zero = Some (ok, r)" by force
  show ?thesis
  proof (cases ok)
    case False
    with n show ?thesis by (auto simp: on_object_def object_records_def intro: session_step_refl)
  next
    case True
    obtain k' where k': "emit_orders os fd r 1 (f_buy st, f_k st) = Some (length (tick_orders r 1 (f_buy st)), next_buy r (f_buy st), k')"
      "out k' = out (f_k st) @ wire_stream (tick_orders r 1 (f_buy st))" by (rule emit_orders_live [OF assms(1,2)])
    have "capture_ok r" using normalize_capture_ok [OF assms(4)] n True by simp
    with n True k' assms(3) show ?thesis
      by (cases "f_out st") (simp_all add: on_object_def object_records_def session_step_def)
  qed
qed

lemma on_objects_session:
  assumes "writer_ok (fs_send os fd) out" "never_fails (fs_send os fd)" "fd \<ge> 0" "cast_bounded F"
  shows "list_all (\<lambda>v. casts_defined F (fst v) (snd v)) vs \<Longrightarrow>
     \<exists>st'. on_objects F os fd vs st = Some st' \<and> session_step out (concat (map (object_records F) vs)) st st'"
proof (induction vs arbitrary: st)
  case Nil
  show ?case by (auto intro: session_step_refl)
next
  case (Cons v vs)
  with on_object_session [OF assms, of v st] obtain st1 where s: "on_object F os fd v st = Some st1" "session_step out (object_records F v) st st1" by auto
  with Cons obtain st2 where "on_objects F os fd vs st1 = Some st2" "session_step out (concat (map (object_records F) vs)) st1 st2" by fastforce
  with s show ?case by (auto intro: session_step_trans)
qed

definition frame_castable :: "'d fp \<Rightarrow> string \<Rightarrow> bool" where
  "frame_castable F frame \<longleftrightarrow> list_all (\<lambda>v. casts_defined F (fst v) (snd v)) (for_each_object frame)"

lemma on_frame_session:
  assumes "writer_ok (fs_send os fd) out" "never_fails (fs_send os fd)" "fd \<ge> 0" "cast_bounded F" "frame_castable F frame"
  shows "\<exists>st'. on_objects F os fd (for_each_object frame) st = Some st' \<and> session_step out (frame_records F frame) st st'"
  using on_objects_session [OF assms(1-4)] assms(5) unfolding frame_castable_def frame_records_def by blast

lemma feed_loop_session:
  assumes "writer_ok (fs_send os fd) out" "never_fails (fs_send os fd)" "fd \<ge> 0" "cast_bounded F"
  shows "list_all (frame_castable F) frames \<Longrightarrow> \<exists>rs st'. feed_loop F os fd limit frames st = Some st' \<and> session_step out rs st st'"
proof (induction frames arbitrary: st)
  case Nil
  show ?case by (intro exI [of _ "[]"]) (auto intro: session_step_refl)
next
  case (Cons frame frames)
  with on_frame_session [OF assms, of frame st] obtain st1 where
    s: "on_objects F os fd (for_each_object frame) st = Some st1" "session_step out (frame_records F frame) st st1" by auto
  from Cons obtain rs' st2 where "feed_loop F os fd limit frames st1 = Some st2" "session_step out rs' st1 st2" by fastforce
  with s show ?case by (cases "limit \<noteq> 0 \<and> f_ticks st1 \<ge> limit") (auto intro: session_step_trans)
qed

subsection \<open>Properties\<close>

text \<open>
  C33. What a tick puts on the wire: however \<open>send\<close> cuts the data, \<open>emit_orders\<close> returns; it reports the number
  of orders that were sent completely, the bytes sent are the 32-byte images of those orders, in order,
  followed by a proper part of the next one when \<open>send\<close> failed in it, and nothing when all were sent. A quote
  gives a bid and an ask in round lots, a trade one order whose side alternates.
\<close>

theorem emit_orders_wire:
  assumes "writer_ok (fs_send os fd) out"
  shows "\<exists>n k' bytes. emit_orders os fd r client (buy, k) = Some (n, next_buy r buy, k') \<and> out k' = out k @ bytes
     \<and> sent_upto (tick_orders r client buy) n bytes \<and> (never_fails (fs_send os fd) \<longrightarrow> n = length (tick_orders r client buy))"
  by (rule emit_orders_correct [OF assms])

text \<open>A system whose \<open>send\<close> takes at most five bytes at a time; its state is what was sent.\<close>

definition five_os :: "u8 list feed_os" where
  "five_os = \<lparr>fs_send = (\<lambda>fd bs k. (int (min 5 (length bs)), k @ take 5 bs)), fs_usleep = (\<lambda>us k. k), fs_running = (\<lambda>k. (True, k))\<rparr>"

lemma five_os_ok: "writer_ok (fs_send five_os fd) (\<lambda>k. k)" "never_fails (fs_send five_os fd)" "replay_ok five_os (\<lambda>k. k)"
  by (simp_all add: five_os_def writer_ok_def never_fails_def replay_ok_def min_def)

definition sample_quote :: CaptureRecord where
  "sample_quote = \<lparr>cr_type = 113, cr_symbol = symbol_field ''AMD'', cr_p1 = 9195, cr_s1 = 2, cr_p2 = 9198, cr_s2 = 1, cr_venue_ns = 0\<rparr>"

theorem emit_orders_wire_witness:
  "\<exists>k'. emit_orders five_os 3 sample_quote 1 (True, []) = Some (2, True, k') \<and>
     k' = wire_stream [order_msg sample_quote 1 Buy 9195 200, order_msg sample_quote 1 Sell 9198 100]"
proof -
  have q: "is_quote sample_quote" by (simp add: sample_quote_def is_quote_def TickType_Quote_def)
  then have t: "tick_orders sample_quote 1 True = [order_msg sample_quote 1 Buy 9195 200, order_msg sample_quote 1 Sell 9198 100]"
    by (simp add: tick_orders_def sample_quote_def)
  obtain n k' bytes where "emit_orders five_os 3 sample_quote 1 (True, []) = Some (n, next_buy sample_quote True, k')" "k' = [] @ bytes"
    "sent_upto (tick_orders sample_quote 1 True) n bytes" "n = length (tick_orders sample_quote 1 True)"
    using emit_orders_wire [OF five_os_ok(1), of 3 sample_quote 1 True "[]"] five_os_ok(2) by blast
  moreover have "sent_upto (tick_orders sample_quote 1 True) (length (tick_orders sample_quote 1 True)) b \<longleftrightarrow> b = wire_stream (tick_orders sample_quote 1 True)" for b
    by (rule sent_upto_all)
  ultimately show ?thesis using q by (simp add: t next_buy_def numeral_2_eq_2)
qed

text \<open>
  Replay reproduces the session: when sends succeed and the conversions of the messages are defined, the
  live loop over any frames returns; and replaying its capture file, at any speed at which the gaps between its records fit the conversion to 64 bits (and no other), from the same side
  flag, returns 0, replays as many records as the live session had ticks, sends as many orders, and sends exactly the same bytes.
\<close>

theorem replay_reproduces_feed:
  assumes "writer_ok (fs_send os fd) out" and "never_fails (fs_send os fd)" and "replay_ok os out" and "fd \<ge> 0"
    and "cast_bounded F" and "list_all (frame_castable F) frames"
    and "f_out st = Some []" and "f_ticks st = 0" and "f_orders st = 0"
  shows "\<exists>st' rs bytes k'. feed_loop F os fd limit frames st = Some st' \<and> f_out st' = Some (capture_file rs) \<and> out (f_k st') = out (f_k st) @ bytes
     \<and> (if gaps_castable speed 0 rs
         then run_replay os speed 0 fd (Some (capture_file rs)) (f_buy st, k) = Some (0, f_ticks st', f_orders st', f_buy st', k') \<and> out k' = out k @ bytes
         else run_replay os speed 0 fd (Some (capture_file rs)) (f_buy st, k) = None)"
proof -
  from feed_loop_session [OF assms(1,2,4,5,6), of limit st] obtain rs st' where
    s: "feed_loop F os fd limit frames st = Some st'" "session_step out rs st st'" by blast
  have "list_all (\<lambda>r. length (cr_symbol r) = SYMBOL_SIZE) rs"
    using s(2) by (auto simp: session_step_def list_all_iff capture_ok_def)
  from replay_loop_session [OF assms(1-4) this, of speed 0 0 0 "f_buy st" k] replay_loop_undefined [OF assms(1-4) this, of speed 0 0 0 "f_buy st" k] s assms(7-9) show ?thesis
    by (cases "gaps_castable speed 0 rs") (auto simp: session_step_def run_replay_def)
qed

text \<open>A session with the quote of the documentation, over the exact arithmetic.\<close>

definition feed_start :: "u8 list feed" where
  "feed_start = \<lparr>f_ticks = 0, f_orders = 0, f_skipped = 0, f_out = Some [], f_buy = True, f_k = []\<rparr>"

lemma quote_frame_castable: "frame_castable rat_fp (jprint (JArr (map JObj [quote_msg])))"
proof -
  have v: "map fst (for_each_object (jprint (JArr (map JObj [quote_msg])))) = [jobj quote_msg]"
    using for_each_object_print [of "[quote_msg]"] by (simp add: quote_msg_def atom_ok_def)
  have "casts_defined rat_fp (jobj quote_msg) after" for after
    by (simp add: casts_defined_def field_num_print feed_keys quote_msg_flat rat_strtod_stops quote_msg_fields quote_msg_prices cast_size_def)
      (simp add: json_num_def quote_msg_def)
  then show ?thesis using v unfolding frame_castable_def by (auto simp: list_all_iff)
qed

theorem replay_reproduces_feed_witness:
  "\<exists>st' rs bytes k'. feed_loop rat_fp five_os 3 0 [jprint (JArr (map JObj [quote_msg]))] feed_start = Some st' \<and> f_out st' = Some (capture_file rs)
     \<and> f_k st' = [] @ bytes \<and> run_replay five_os None 0 3 (Some (capture_file rs)) (True, []) = Some (0, f_ticks st', f_orders st', f_buy st', k') \<and> k' = [] @ bytes"
proof -
  have "list_all (frame_castable rat_fp) [jprint (JArr (map JObj [quote_msg]))]" using quote_frame_castable by simp
  from replay_reproduces_feed [OF five_os_ok _ rat_cast_bounded this, of 3 feed_start 0 None "[]"] show ?thesis
    by (simp add: feed_start_def del: list.map jprint.simps)
qed

end
