(* ===== verification/Alpaca_Ws.thy ===== *)
theory Alpaca_Ws
  imports Feed_Normalizer Byte_Writer
begin

section \<open>The WebSocket client\<close>

text \<open>
  Models \<^verbatim>\<open>src/src/feed/alpaca_ws.cpp\<close> and \<^verbatim>\<open>src/src/feed/alpaca_ws.h\<close>: base64, the messages of the client, the
  life cycle of the connection, the HTTP upgrade, the frames of RFC 6455 in both directions, and the bounded wait for a reply.

  OpenSSL and the name resolution are parameters, the record \<open>tls\<close> over an abstract state \<open>'k\<close>: \<open>SSL_read\<close> (\<open>None\<close>
  when it returns no positive count), \<open>SSL_write\<close>, \<open>RAND_bytes\<close>, the text of \<open>ERR_get_error\<close>, and the outcome of
  each step of dialling. Freed and closed handles are recorded in \<open>ws_events\<close>. The contents of \<open>rx_\<close> and of
  payloads are bytes; \<open>size_t\<close> is 64 bits wide, so that the sum of a frame's header and payload length wraps as in the
  code. \<open>SSL_write\<close> is passed a buffer and the number of bytes to write as an \<open>int\<close>: the remaining length cut to 32 bits (\<open>c_int\<close>), which is negative from \<open>2 ^ 31\<close> bytes on.
\<close>

subsection \<open>Encodings\<close>

definition OP_TEXT :: u8 where [const_defs]: "OP_TEXT = 1"
definition OP_BINARY :: u8 where [const_defs]: "OP_BINARY = 2"
definition OP_CLOSE :: u8 where [const_defs]: "OP_CLOSE = 8"
definition OP_PING :: u8 where [const_defs]: "OP_PING = 9"
definition OP_PONG :: u8 where [const_defs]: "OP_PONG = 10"

definition base64_tbl :: string where
  "base64_tbl = ''ABCDEFGHIJKLMNOPQRSTUVWXYZabcdefghijklmnopqrstuvwxyz0123456789+/''"

definition tbl_at :: "u32 \<Rightarrow> char" where
  "tbl_at i = base64_tbl ! unat (i AND 63)"

definition pack24 :: "u8 \<Rightarrow> u8 \<Rightarrow> u8 \<Rightarrow> u32" where
  "pack24 a b c = (push_bit 16 (ucast a) OR push_bit 8 (ucast b)) OR ucast c"

fun base64 :: "u8 list \<Rightarrow> string" where
  "base64 [] = []"
| "base64 [a] = (let v = pack24 a 0 0 in [tbl_at (drop_bit 18 v), tbl_at (drop_bit 12 v), CHR ''='', CHR ''=''])"
| "base64 [a, b] = (let v = pack24 a b 0 in [tbl_at (drop_bit 18 v), tbl_at (drop_bit 12 v), tbl_at (drop_bit 6 v), CHR ''=''])"
| "base64 (a # b # c # r) =
     (let v = pack24 a b c in [tbl_at (drop_bit 18 v), tbl_at (drop_bit 12 v), tbl_at (drop_bit 6 v), tbl_at v] @ base64 r)"

definition quoted :: "string \<Rightarrow> string" where
  "quoted s = dquote # s @ [dquote]"

fun json_array_items :: "bool \<Rightarrow> string list \<Rightarrow> string" where
  "json_array_items first [] = []"
| "json_array_items first (x # xs) = (if first then [] else [CHR '','']) @ quoted x @ json_array_items False xs"

definition json_array :: "string list \<Rightarrow> string" where
  "json_array v = ''['' @ json_array_items True v @ '']''"

definition bytes_of :: "string \<Rightarrow> u8 list" where
  "bytes_of s = map of_char s"

definition text_of :: "u8 list \<Rightarrow> string" where
  "text_of bs = map (\<lambda>b. char_of (unat b)) bs"

subsection \<open>State and environment\<close>

datatype ws_event = Ev_addr_free | Ev_ssl_shutdown | Ev_ssl_free | Ev_ctx_free | Ev_fd_close int

record dial_result =
  d_resolved :: bool
  d_socket :: int
  d_connected :: bool
  d_ctx :: bool
  d_paths :: bool
  d_ssl :: bool
  d_host :: bool
  d_handshake :: bool

record 'k tls =
  tls_dial :: "string \<Rightarrow> int \<Rightarrow> dial_result"
  tls_read :: "nat \<Rightarrow> 'k \<Rightarrow> u8 list option \<times> 'k"
  tls_write :: "int \<Rightarrow> u8 list \<Rightarrow> 'k \<Rightarrow> int \<times> 'k"
  tls_rand :: "nat \<Rightarrow> 'k \<Rightarrow> u8 list option \<times> 'k"
  tls_err :: "'k \<Rightarrow> string option \<times> 'k"

record 'k ws =
  ws_ssl :: bool
  ws_ctx :: bool
  ws_fd :: int
  ws_error :: string
  ws_rx :: "u8 list"
  ws_events :: "ws_event list"
  ws_k :: 'k

definition ws_new :: "'k \<Rightarrow> 'k ws" where
  "ws_new k = \<lparr>ws_ssl = False, ws_ctx = False, ws_fd = -1, ws_error = [], ws_rx = [], ws_events = [], ws_k = k\<rparr>"

definition ws_fail :: "'k tls \<Rightarrow> string \<Rightarrow> 'k ws \<Rightarrow> 'k ws" where
  "ws_fail T what ws =
     (case tls_err T (ws_k ws) of (e, k) \<Rightarrow>
        ws\<lparr>ws_error := what @ (case e of None \<Rightarrow> [] | Some buf \<Rightarrow> '': '' @ buf), ws_k := k\<rparr>)"

subsection \<open>Bytes in and out\<close>

definition c_int :: "nat \<Rightarrow> int" where
  "c_int n = sint (of_nat n :: 32 word)"

definition ws_put :: "'k tls \<Rightarrow> u8 list \<Rightarrow> 'k ws \<Rightarrow> int \<times> 'k ws" where
  "ws_put T bs ws = (case tls_write T (c_int (length bs)) bs (ws_k ws) of (n, k) \<Rightarrow> (n, ws\<lparr>ws_k := k\<rparr>))"

partial_function (option) write_loop_from :: "'k tls \<Rightarrow> u8 list \<Rightarrow> nat \<Rightarrow> 'k ws \<Rightarrow> (bool \<times> 'k ws) option" where
  "write_loop_from T bs sent ws =
     (if sent < length bs
      then case ws_put T (drop sent bs) ws of (n, ws') \<Rightarrow>
             if n \<le> 0 then Some (False, ws_fail T ''SSL_write'' ws') else write_loop_from T bs (sent + nat n) ws'
      else Some (True, ws))"

definition write_all :: "'k tls \<Rightarrow> u8 list \<Rightarrow> 'k ws \<Rightarrow> (bool \<times> 'k ws) option" where
  "write_all T bs ws = write_loop_from T bs 0 ws"

partial_function (option) read_exact :: "'k tls \<Rightarrow> nat \<Rightarrow> 'k ws \<Rightarrow> (bool \<times> 'k ws) option" where
  "read_exact T n ws =
     (if length (ws_rx ws) < n
      then case tls_read T 16384 (ws_k ws) of
             (None, k) \<Rightarrow> Some (False, ws_fail T ''SSL_read'' (ws\<lparr>ws_k := k\<rparr>))
           | (Some bs, k) \<Rightarrow> read_exact T n (ws\<lparr>ws_rx := ws_rx ws @ bs, ws_k := k\<rparr>)
      else Some (True, ws))"

subsection \<open>Frames\<close>

definition frame_header :: "u8 \<Rightarrow> nat \<Rightarrow> u8 list" where
  "frame_header opcode n =
     (let len = (of_nat n :: u64)
      in (0x80 OR opcode) #
         (if len < 126 then [0x80 OR ucast len]
          else if len \<le> 0xFFFF then [0x80 OR 126, ucast (drop_bit 8 len AND 0xFF), ucast (len AND 0xFF)]
          else (0x80 OR 127) # map (\<lambda>i. ucast (drop_bit (i * 8) len AND 0xFF)) [7, 6, 5, 4, 3, 2, 1, 0]))"

definition mask_bytes :: "u8 list \<Rightarrow> u8 list \<Rightarrow> u8 list" where
  "mask_bytes mk payload = map (\<lambda>i. payload ! i XOR mk ! (i AND 3)) [0..<length payload]"

definition send_frame :: "'k tls \<Rightarrow> u8 \<Rightarrow> u8 list \<Rightarrow> 'k ws \<Rightarrow> (bool \<times> 'k ws) option" where
  "send_frame T opcode payload ws =
     (case tls_rand T 4 (ws_k ws) of
        (None, k) \<Rightarrow> Some (False, ws_fail T ''RAND_bytes'' (ws\<lparr>ws_k := k\<rparr>))
      | (Some mk, k) \<Rightarrow>
          write_all T (frame_header opcode (length payload) @ mk @ mask_bytes mk payload) (ws\<lparr>ws_k := k\<rparr>))"

definition send_text :: "'k tls \<Rightarrow> u8 list \<Rightarrow> 'k ws \<Rightarrow> (bool \<times> 'k ws) option" where
  "send_text T payload ws = send_frame T OP_TEXT payload ws"

text \<open>The header of an incoming frame: the extended length, if any, and the number of header bytes before a mask.\<close>

definition be_len :: "u8 list \<Rightarrow> u64" where
  "be_len bs = foldl (\<lambda>len b. push_bit 8 len OR ucast b) 0 bs"

definition read_length :: "'k tls \<Rightarrow> u8 \<Rightarrow> 'k ws \<Rightarrow> ((u64 \<times> u64) option \<times> 'k ws) option" where
  "read_length T b1 ws =
     (let len = (ucast (b1 AND 0x7F) :: u64)
      in if len = 126 then do {
           (ok, ws) \<leftarrow> read_exact T 4 ws;
           Some (if \<not> ok then (None, ws)
                 else (Some (push_bit 8 (ucast (ws_rx ws ! 2)) OR ucast (ws_rx ws ! 3), 4), ws))
         } else if len = 127 then do {
           (ok, ws) \<leftarrow> read_exact T 10 ws;
           Some (if \<not> ok then (None, ws) else (Some (be_len (take 8 (drop 2 (ws_rx ws))), 10), ws))
         } else Some (Some (len, 2), ws))"

text \<open>One frame: its opcode and payload, or \<open>None\<close> after a failed read. \<open>rx_.substr\<close> throws beyond the end.\<close>

definition read_one :: "'k tls \<Rightarrow> 'k ws \<Rightarrow> ((u8 \<times> u8 list) option \<times> 'k ws) option" where
  "read_one T ws = do {
     (ok, ws) \<leftarrow> read_exact T 2 ws;
     if \<not> ok then Some (None, ws) else do {
       let b0 = ws_rx ws ! 0;
       let b1 = ws_rx ws ! 1;
       let opcode = b0 AND 0x0F;
       let masked = (b1 AND 0x80 \<noteq> 0);
       (lh, ws) \<leftarrow> read_length T b1 ws;
       case lh of
         None \<Rightarrow> Some (None, ws)
       | Some (len, hdr0) \<Rightarrow> do {
           let hdr = (if masked then hdr0 + 4 else hdr0);
           (ok, ws) \<leftarrow> read_exact T (unat (hdr + len)) ws;
           if \<not> ok then Some (None, ws)
           else if unat hdr > length (ws_rx ws) then None
           else Some (Some (opcode, take (unat len) (drop (unat hdr) (ws_rx ws))),
                      ws\<lparr>ws_rx := drop (unat (hdr + len)) (ws_rx ws)\<rparr>)
         }
     }
   }"

partial_function (option) read_frame :: "'k tls \<Rightarrow> 'k ws \<Rightarrow> (u8 list option \<times> 'k ws) option" where
  "read_frame T ws = do {
     (fr, ws) \<leftarrow> read_one T ws;
     case fr of
       None \<Rightarrow> Some (None, ws)
     | Some (opcode, payload) \<Rightarrow>
         if opcode = OP_TEXT \<or> opcode = OP_BINARY then Some (Some payload, ws)
         else if opcode = OP_PING then do {
           (ok, ws) \<leftarrow> send_frame T OP_PONG payload ws;
           if \<not> ok then Some (None, ws) else read_frame T ws
         }
         else if opcode = OP_CLOSE then Some (None, ws\<lparr>ws_error := ''server closed connection''\<rparr>)
         else read_frame T ws
   }"

subsection \<open>The session\<close>

definition error_marker :: string where
  "error_marker = quoted ''T'' @ '':'' @ quoted ''error''"

primrec await_loop :: "'k tls \<Rightarrow> string \<Rightarrow> string \<Rightarrow> nat \<Rightarrow> 'k ws \<Rightarrow> (bool \<times> 'k ws) option" where
  "await_loop T marker what 0 ws = Some (False, ws\<lparr>ws_error := what @ '': no response after 10 frames''\<rparr>)"
| "await_loop T marker what (Suc i) ws = do {
     (reply, ws) \<leftarrow> read_frame T ws;
     case reply of
       None \<Rightarrow> Some (False, ws)
     | Some bs \<Rightarrow>
         if find_sub (bytes_of marker) bs \<noteq> None then Some (True, ws)
         else if find_sub (bytes_of error_marker) bs \<noteq> None
              then Some (False, ws\<lparr>ws_error := what @ '' rejected: '' @ text_of bs\<rparr>)
         else await_loop T marker what i ws
   }"

definition await :: "'k tls \<Rightarrow> string \<Rightarrow> string \<Rightarrow> 'k ws \<Rightarrow> (bool \<times> 'k ws) option" where
  "await T marker what ws = await_loop T marker what 10 ws"

definition auth_msg :: "string \<Rightarrow> string \<Rightarrow> string" where
  "auth_msg key secret = ''{'' @ quoted ''action'' @ '':'' @ quoted ''auth'' @ '','' @ quoted ''key'' @ '':'' @ quoted key
     @ '','' @ quoted ''secret'' @ '':'' @ quoted secret @ ''}''"

definition authenticate :: "'k tls \<Rightarrow> string \<Rightarrow> string \<Rightarrow> 'k ws \<Rightarrow> (bool \<times> 'k ws) option" where
  "authenticate T key secret ws = do {
     (ok, ws) \<leftarrow> send_text T (bytes_of (auth_msg key secret)) ws;
     if \<not> ok then Some (False, ws)
     else await T (quoted ''msg'' @ '':'' @ quoted ''authenticated'') ''auth'' ws
   }"

definition subscribe_msg :: "string list \<Rightarrow> bool \<Rightarrow> bool \<Rightarrow> string" where
  "subscribe_msg symbols trades quotes = ''{'' @ quoted ''action'' @ '':'' @ quoted ''subscribe''
     @ (if trades then '','' @ quoted ''trades'' @ '':'' @ json_array symbols else [])
     @ (if quotes then '','' @ quoted ''quotes'' @ '':'' @ json_array symbols else []) @ ''}''"

definition subscribe :: "'k tls \<Rightarrow> string list \<Rightarrow> bool \<Rightarrow> bool \<Rightarrow> 'k ws \<Rightarrow> (bool \<times> 'k ws) option" where
  "subscribe T symbols trades quotes ws = do {
     (ok, ws) \<leftarrow> send_text T (bytes_of (subscribe_msg symbols trades quotes)) ws;
     if \<not> ok then Some (False, ws)
     else await T (quoted ''T'' @ '':'' @ quoted ''subscription'') ''subscribe'' ws
   }"

subsection \<open>Connecting and closing\<close>

abbreviation crlf :: string where "crlf \<equiv> [CHR 0x0D, CHR 0x0A]"

definition tls_connect :: "'k tls \<Rightarrow> string \<Rightarrow> int \<Rightarrow> 'k ws \<Rightarrow> bool \<times> 'k ws" where
  "tls_connect T host port ws =
     (let d = tls_dial T host port;
          freed = (\<lambda>ws. ws\<lparr>ws_events := ws_events ws @ [Ev_addr_free]\<rparr>)
      in if \<not> d_resolved d then (False, ws_fail T (''getaddrinfo failed for '' @ host) ws)
         else let ws1 = ws\<lparr>ws_fd := d_socket d\<rparr>
              in if d_socket d < 0 then (False, ws_fail T ''socket'' (freed ws1))
                 else if \<not> d_connected d then (False, ws_fail T (''connect to '' @ host) (freed ws1))
                 else let ws2 = freed ws1
                      in if \<not> d_ctx d then (False, ws_fail T ''SSL_CTX_new'' ws2)
                         else let ws3 = ws2\<lparr>ws_ctx := True\<rparr>
                              in if \<not> d_paths d then (False, ws_fail T ''SSL_CTX_set_default_verify_paths'' ws3)
                                 else if \<not> d_ssl d then (False, ws_fail T ''SSL_new'' ws3)
                                 else let ws4 = ws3\<lparr>ws_ssl := True\<rparr>
                                      in if \<not> d_host d then (False, ws_fail T ''SSL_set1_host'' ws4)
                                         else if \<not> d_handshake d then (False, ws_fail T ''TLS handshake'' ws4)
                                         else (True, ws4))"

definition upgrade_request :: "string \<Rightarrow> string \<Rightarrow> string \<Rightarrow> string" where
  "upgrade_request host path key =
     ''GET '' @ path @ '' HTTP/1.1'' @ crlf @ ''Host: '' @ host @ crlf @ ''Upgrade: websocket'' @ crlf
       @ ''Connection: Upgrade'' @ crlf @ ''Sec-WebSocket-Key: '' @ key @ crlf @ ''Sec-WebSocket-Version: 13'' @ crlf @ crlf"

partial_function (option) header_loop :: "'k tls \<Rightarrow> 'k ws \<Rightarrow> (bool \<times> 'k ws) option" where
  "header_loop T ws =
     (if find_sub (bytes_of (crlf @ crlf)) (ws_rx ws) = None
      then case tls_read T 1024 (ws_k ws) of
             (None, k) \<Rightarrow> Some (False, ws_fail T ''handshake read'' (ws\<lparr>ws_k := k\<rparr>))
           | (Some bs, k) \<Rightarrow> header_loop T (ws\<lparr>ws_rx := ws_rx ws @ bs, ws_k := k\<rparr>)
      else Some (True, ws))"

definition http_upgrade :: "'k tls \<Rightarrow> string \<Rightarrow> string \<Rightarrow> 'k ws \<Rightarrow> (bool \<times> 'k ws) option" where
  "http_upgrade T host path ws =
     (case tls_rand T 16 (ws_k ws) of
        (None, k) \<Rightarrow> Some (False, ws_fail T ''RAND_bytes'' (ws\<lparr>ws_k := k\<rparr>))
      | (Some nonce, k) \<Rightarrow> do {
          let key = base64 nonce;
          (ok, ws) \<leftarrow> write_all T (bytes_of (upgrade_request host path key)) (ws\<lparr>ws_k := k\<rparr>);
          if \<not> ok then Some (False, ws) else do {
            (ok, ws) \<leftarrow> header_loop T ws;
            if \<not> ok then Some (False, ws)
            else if take 12 (ws_rx ws) \<noteq> bytes_of ''HTTP/1.1 101''
            then Some (False, ws_fail T (''upgrade rejected: '' @ text_of (case find_sub (bytes_of crlf) (ws_rx ws) of
                                             None \<Rightarrow> ws_rx ws | Some p \<Rightarrow> take p (ws_rx ws))) ws)
            else case find_sub (bytes_of (crlf @ crlf)) (ws_rx ws) of
                   None \<Rightarrow> None
                 | Some p \<Rightarrow> Some (True, ws\<lparr>ws_rx := drop (p + 4) (ws_rx ws)\<rparr>)
          }
        })"

definition ws_connect :: "'k tls \<Rightarrow> string \<Rightarrow> string \<Rightarrow> int \<Rightarrow> 'k ws \<Rightarrow> (bool \<times> 'k ws) option" where
  "ws_connect T host path port ws =
     (case tls_connect T host port ws of (ok, ws1) \<Rightarrow> if \<not> ok then Some (False, ws1) else http_upgrade T host path ws1)"

definition ws_close :: "'k tls \<Rightarrow> 'k ws \<Rightarrow> 'k ws option" where
  "ws_close T ws = do {
     ws1 \<leftarrow> (if ws_ssl ws then do {
               (_, ws1) \<leftarrow> send_frame T OP_CLOSE [] ws;
               Some (ws1\<lparr>ws_events := ws_events ws1 @ [Ev_ssl_shutdown, Ev_ssl_free], ws_ssl := False\<rparr>)
             } else Some ws);
     let ws2 = (if ws_ctx ws1 then ws1\<lparr>ws_events := ws_events ws1 @ [Ev_ctx_free], ws_ctx := False\<rparr> else ws1);
     let ws3 = (if ws_fd ws2 \<ge> 0 then ws2\<lparr>ws_events := ws_events ws2 @ [Ev_fd_close (ws_fd ws2)], ws_fd := -1\<rparr> else ws2);
     Some ws3
   }"

end
