(* ===== verification/Ws_Encoding.thy ===== *)
theory Ws_Encoding
  imports Alpaca_Ws
begin

section \<open>The encodings of the WebSocket client\<close>

text \<open>
  Base64 and the client's frames of \<^verbatim>\<open>src/src/feed/alpaca_ws.cpp\<close> against reference decoders: \<open>unbase64\<close> (RFC 4648) and
  \<open>parse_frame\<close>, which reads one frame from a byte stream as RFC 6455 describes it.
\<close>

subsection \<open>Base64\<close>

definition b64_val :: "char \<Rightarrow> u32" where
  "b64_val c = of_nat (length (takeWhile (\<lambda>x. x \<noteq> c) base64_tbl))"

definition join24 :: "char \<Rightarrow> char \<Rightarrow> char \<Rightarrow> char \<Rightarrow> u32" where
  "join24 w x y z = push_bit 18 (b64_val w) OR push_bit 12 (b64_val x) OR push_bit 6 (b64_val y) OR b64_val z"

fun unbase64 :: "string \<Rightarrow> u8 list" where
  "unbase64 (w # x # y # z # r) =
     (if y = CHR ''='' then [ucast (drop_bit 16 (join24 w x (CHR ''A'') (CHR ''A'')))]
      else if z = CHR ''='' then let v = join24 w x y (CHR ''A'') in [ucast (drop_bit 16 v), ucast (drop_bit 8 v)]
      else let v = join24 w x y z in [ucast (drop_bit 16 v), ucast (drop_bit 8 v), ucast v] @ unbase64 r)"
| "unbase64 _ = []"

lemma takeWhile_index: "distinct xs \<Longrightarrow> i < length xs \<Longrightarrow> length (takeWhile (\<lambda>x. x \<noteq> xs ! i) xs) = i"
proof (induction xs arbitrary: i)
  case (Cons a xs)
  then show ?case by (cases i) (auto simp: nth_Cons')
qed simp

lemma base64_tbl_props: "length base64_tbl = 64" "distinct base64_tbl" "CHR ''='' \<notin> set base64_tbl"
  by (simp_all add: base64_tbl_def)

lemma b64_val_tbl: "b64_val (tbl_at v) = take_bit 6 v"
proof -
  have m: "v AND 63 = take_bit 6 v" by (simp add: take_bit_eq_mask mask_eq_exp_minus_1)
  have "unat (take_bit 6 v) < 64" using take_bit_nat_less_exp [of 6 "unat v"] by (simp add: unsigned_take_bit_eq)
  then show ?thesis
    using takeWhile_index [OF base64_tbl_props(2), of "unat (v AND 63)"]
    by (simp add: b64_val_def tbl_at_def m base64_tbl_props(1))
qed

lemma tbl_at_pad [simp]: "tbl_at v \<noteq> CHR ''=''" "CHR ''='' \<noteq> tbl_at v"
proof -
  have "v AND 63 = take_bit 6 v" by (simp add: take_bit_eq_mask mask_eq_exp_minus_1)
  then have "unat (v AND 63) < length base64_tbl"
    using take_bit_nat_less_exp [of 6 "unat v"] by (simp add: unsigned_take_bit_eq base64_tbl_props)
  then show "tbl_at v \<noteq> CHR ''=''" "CHR ''='' \<noteq> tbl_at v"
    using base64_tbl_props(3) unfolding tbl_at_def by (metis nth_mem)+
qed

lemma b64_val_A: "b64_val (CHR ''A'') = 0"
  by (simp add: b64_val_def base64_tbl_def)

lemma join_sextets:
  "push_bit 18 (take_bit 6 (drop_bit 18 v)) OR push_bit 12 (take_bit 6 (drop_bit 12 v)) OR push_bit 6 (take_bit 6 (drop_bit 6 v)) OR take_bit 6 v
     = take_bit 24 (v :: u32)"
proof (rule bit_word_eqI)
  fix n assume "n < LENGTH(32)"
  consider "n < 6" | "6 \<le> n \<and> n < 12" | "12 \<le> n \<and> n < 18" | "18 \<le> n \<and> n < 24" | "24 \<le> n" by linarith
  then show "bit (push_bit 18 (take_bit 6 (drop_bit 18 v)) OR push_bit 12 (take_bit 6 (drop_bit 12 v)) OR push_bit 6 (take_bit 6 (drop_bit 6 v)) OR take_bit 6 v) n
      = bit (take_bit 24 v) n"
    by cases (auto simp: bit_simps)
qed

lemma pack24_parts:
  "ucast (drop_bit 16 (pack24 a b c)) = a" "ucast (drop_bit 8 (pack24 a b c)) = b" "ucast (pack24 a b c) = c" "take_bit 24 (pack24 a b c) = pack24 a b c"
  by (rule bit_word_eqI; auto simp: pack24_def bit_simps dest: bit_imp_le_length)+

lemma pack24_low: "take_bit 6 (pack24 a b 0) = 0" "take_bit 6 (drop_bit 6 (pack24 a 0 0)) = 0"
  by (rule bit_word_eqI; auto simp: pack24_def bit_simps)+

lemma join24_tbl:
  "join24 (tbl_at (drop_bit 18 v)) (tbl_at (drop_bit 12 v)) (tbl_at (drop_bit 6 v)) (tbl_at v) = take_bit 24 v"
  "take_bit 6 v = 0 \<Longrightarrow> join24 (tbl_at (drop_bit 18 v)) (tbl_at (drop_bit 12 v)) (tbl_at (drop_bit 6 v)) (CHR ''A'') = take_bit 24 v"
  "take_bit 6 v = 0 \<Longrightarrow> take_bit 6 (drop_bit 6 v) = 0 \<Longrightarrow> join24 (tbl_at (drop_bit 18 v)) (tbl_at (drop_bit 12 v)) (CHR ''A'') (CHR ''A'') = take_bit 24 v"
  using join_sextets [of v] by (simp_all add: join24_def b64_val_tbl b64_val_A)

lemma unbase64_base64: "unbase64 (base64 bs) = bs"
  by (induction bs rule: base64.induct) (simp_all add: Let_def join24_tbl pack24_low pack24_parts)

lemma length_base64: "length (base64 bs) = (length bs + 2) div 3 * 4"
  by (induction bs rule: base64.induct) (simp_all add: Let_def, presburger)

subsection \<open>Lengths in network byte order\<close>

lemma ucast_low_byte: "ucast (x AND 0xFF) = (ucast (x :: u64) :: u8)"
proof -
  have "x AND 0xFF = take_bit 8 x" by (simp add: take_bit_eq_mask mask_eq_exp_minus_1)
  then show ?thesis by (simp add: bit_eq_iff bit_simps)
qed

lemma be_len_step: "push_bit 8 (drop_bit (8 + n) x) OR ucast (ucast (drop_bit n x) :: u8) = drop_bit n (x :: u64)"
proof (rule bit_word_eqI)
  fix k assume "k < LENGTH(64)"
  then show "bit (push_bit 8 (drop_bit (8 + n) x) OR ucast (ucast (drop_bit n x) :: u8)) k = bit (drop_bit n x) k"
    by (cases "k < 8") (auto simp: bit_simps ac_simps)
qed

lemma be_len_snoc: "be_len (bs @ [b]) = push_bit 8 (be_len bs) OR ucast b"
  by (simp add: be_len_def)

lemma be_len_8: "be_len (map (\<lambda>i. ucast (drop_bit (i * 8) len AND 0xFF)) [7, 6, 5, 4, 3, 2, 1, 0]) = len"
proof -
  have top: "ucast (ucast (drop_bit 56 len) :: u8) = (drop_bit 56 len :: u64)"
    by (rule bit_word_eqI) (auto simp: bit_simps dest: bit_imp_le_length)
  show ?thesis
    using be_len_step [of 48 len] be_len_step [of 40 len] be_len_step [of 32 len] be_len_step [of 24 len]
      be_len_step [of 16 len] be_len_step [of 8 len] be_len_step [of 0 len]
    by (simp add: be_len_def ucast_low_byte top)
qed

lemma be_len_2:
  assumes "len \<le> 0xFFFF"
  shows "push_bit 8 (ucast (ucast (drop_bit 8 len AND 0xFF) :: u8)) OR ucast (ucast (len AND 0xFF) :: u8) = (len :: u64)"
proof -
  have "take_bit 16 len = len" using assms by (simp add: word_unat_eq_iff unsigned_take_bit_eq take_bit_nat_eq_self word_le_nat_alt)
  then have "ucast (ucast (drop_bit 8 len) :: u8) = (drop_bit 8 len :: u64)"
    by (subst (2) \<open>take_bit 16 len = len\<close> [symmetric]) (auto simp: bit_eq_iff bit_simps)
  then show ?thesis using be_len_step [of 0 len] by (simp add: ucast_low_byte)
qed

subsection \<open>A reference reader of frames\<close>

text \<open>The payload length and what follows it, if it is all there.\<close>

definition frame_len :: "u8 \<Rightarrow> u8 list \<Rightarrow> (nat \<times> u8 list) option" where
  "frame_len b1 r = (let l = b1 AND 0x7F
     in if l = 126 then (if length r < 2 then None else Some (unat (be_len (take 2 r)), drop 2 r))
        else if l = 127 then (if length r < 8 then None else Some (unat (be_len (take 8 r)), drop 8 r))
        else Some (unat l, r))"

text \<open>
  RFC 6455, 5.3: octet \<open>i\<close> of the payload is masked, and unmasked, with octet \<open>i mod 4\<close> of the key.
\<close>

definition unmask :: "u8 list \<Rightarrow> u8 list \<Rightarrow> u8 list" where
  "unmask key octets = map (\<lambda>i. octets ! i XOR key ! (i mod 4)) [0..<length octets]"

definition parse_frame :: "u8 list \<Rightarrow> (bool \<times> u8 \<times> u8 list \<times> u8 list) option" where
  "parse_frame bs = (case bs of
       b0 # b1 # r \<Rightarrow>
         (case frame_len b1 r of None \<Rightarrow> None | Some (n, r1) \<Rightarrow>
            let masked = (b1 AND 0x80 \<noteq> 0);
                r2 = (if masked then drop 4 r1 else r1)
            in if (masked \<longrightarrow> 4 \<le> length r1) \<and> n \<le> length r2
               then Some (b0 AND 0x80 \<noteq> 0, b0 AND 0x0F, if masked then unmask (take 4 r1) (take n r2) else take n r2, drop n r2) else None)
     | _ \<Rightarrow> None)"

lemma length_mask_bytes [simp]: "length (mask_bytes mk p) = length p"
  by (simp add: mask_bytes_def)

lemma nat_and_3: "(i :: nat) AND 3 = i mod 4"
proof -
  have "i AND 3 = take_bit 2 i" by (simp add: take_bit_eq_mask mask_eq_exp_minus_1)
  then show ?thesis by (simp add: take_bit_eq_mod)
qed

lemma unmask_mask: "unmask mk (mask_bytes mk p) = p"
  by (rule nth_equalityI) (simp_all add: mask_bytes_def unmask_def nat_and_3 xor.assoc)

lemma length_unmask [simp]: "length (unmask mk p) = length p"
  by (simp add: unmask_def)

lemma flag_byte:
  fixes w :: u8
  shows "(0x80 OR w) AND 0x80 \<noteq> 0" and "unat w < 128 \<Longrightarrow> (0x80 OR w) AND 0x7F = w" and "unat w < 16 \<Longrightarrow> (0x80 OR w) AND 0x0F = w"
proof -
  show "(0x80 OR w) AND 0x80 \<noteq> 0" by (simp add: bit.conj_disj_distrib2 or_eq_0_iff)
  have "w AND 0x7F = take_bit 7 w" "w AND 0x0F = take_bit 4 w" by (simp_all add: take_bit_eq_mask mask_eq_exp_minus_1)
  then show "unat w < 128 \<Longrightarrow> (0x80 OR w) AND 0x7F = w" "unat w < 16 \<Longrightarrow> (0x80 OR w) AND 0x0F = w"
    by (simp_all add: bit.conj_disj_distrib2 word_unat_eq_iff unsigned_take_bit_eq take_bit_nat_eq_self)
qed

lemma small_len:
  assumes "(of_nat n :: u64) < 126" "n < 2 ^ 64"
  shows "n < 126" "unat (ucast (of_nat n :: u64) :: u8) = n"
  using assms by (simp_all add: word_less_nat_alt unat_of_nat unsigned_ucast_eq take_bit_nat_eq_self)

lemma frame_len_header:
  assumes "n < 2 ^ 64"
  obtains b1 ext where "frame_header opcode n = (0x80 OR opcode) # b1 # ext" "frame_len b1 (ext @ r) = Some (n, r)" "b1 AND 0x80 \<noteq> 0"
proof -
  let ?len = "of_nat n :: u64"
  have n: "unat ?len = n" using assms by (simp add: unat_of_nat)
  consider "?len < 126" | "\<not> ?len < 126" "?len \<le> 0xFFFF" | "\<not> ?len < 126" "\<not> ?len \<le> 0xFFFF" by blast
  then show thesis
  proof cases
    case 1
    note s = small_len [OF 1 assms]
    have f: "(0x80 OR ucast ?len) AND 0x7F = (ucast ?len :: u8)" using flag_byte(2) s by simp
    have "frame_header opcode n = (0x80 OR opcode) # (0x80 OR ucast ?len) # []" using 1 by (simp add: frame_header_def Let_def)
    moreover have "ucast ?len \<noteq> (126 :: u8)" "ucast ?len \<noteq> (127 :: u8)" using s by (auto simp: word_unat_eq_iff)
    ultimately show thesis using that [of "0x80 OR ucast ?len" "[]"] flag_byte(1) f s by (simp add: frame_len_def)
  next
    case 2
    let ?e = "[ucast (drop_bit 8 ?len AND 0xFF), ucast (?len AND 0xFF)] :: u8 list"
    have "frame_header opcode n = (0x80 OR opcode) # (0x80 OR 126) # ?e" using 2 by (simp add: frame_header_def Let_def)
    moreover have "be_len ?e = ?len" using be_len_2 [OF 2(2)] by (simp add: be_len_def)
    ultimately show thesis using that [of "0x80 OR 126" ?e] n by (simp add: frame_len_def)
  next
    case 3
    let ?e = "map (\<lambda>i. ucast (drop_bit (i * 8) ?len AND 0xFF)) [7, 6, 5, 4, 3, 2, 1, 0] :: u8 list"
    have "frame_header opcode n = (0x80 OR opcode) # (0x80 OR 127) # ?e" using 3 by (simp add: frame_header_def Let_def)
    moreover have "be_len ?e = ?len" by (rule be_len_8)
    moreover have "frame_len (0x80 OR 127) (?e @ r) = Some (unat (be_len ?e), r)" by (simp add: frame_len_def)
    ultimately show thesis using that [of "0x80 OR 127" ?e] n by simp
  qed
qed

lemma parse_client_frame:
  assumes "length payload < 2 ^ 64" "length mk = 4" "unat opcode < 16"
  shows "parse_frame (frame_header opcode (length payload) @ mk @ mask_bytes mk payload @ rest) = Some (True, opcode, payload, rest)"
proof -
  obtain b1 ext where h: "frame_header opcode (length payload) = (0x80 OR opcode) # b1 # ext"
    "frame_len b1 (ext @ mk @ mask_bytes mk payload @ rest) = Some (length payload, mk @ mask_bytes mk payload @ rest)" "b1 AND 0x80 \<noteq> 0"
    by (rule frame_len_header [OF assms(1)])
  then show ?thesis using assms(2) flag_byte(1) flag_byte(3) [OF assms(3)] by (simp add: parse_frame_def unmask_mask)
qed

end
