(* ===== verification/Ws_Reading.thy ===== *)
theory Ws_Reading
  imports Ws_Encoding
begin

section \<open>Reading and writing frames\<close>

text \<open>
  The behaviour of the WebSocket client of \<^verbatim>\<open>src/src/feed/alpaca_ws.cpp\<close> over a TLS connection. What is assumed of
  OpenSSL is \<open>tls_ok\<close>, relative to two observations of its state: \<open>queue\<close>, the bytes the server sent that have not been
  read yet, and \<open>out\<close>, the bytes the client has written. \<open>SSL_read\<close> delivers the queue in order in pieces of any size and
  fails only when nothing is left; \<open>SSL_write\<close> takes a prefix of the \<open>req\<close> bytes it is offered, and returns an error without writing when \<open>req\<close> is not positive; \<open>RAND_bytes\<close> fills the
  buffer or fails. \<open>tls_live\<close> adds that writing a positive number of bytes and \<open>RAND_bytes\<close> do not fail.
\<close>

definition tls_ok :: "'k tls \<Rightarrow> ('k \<Rightarrow> u8 list) \<Rightarrow> ('k \<Rightarrow> u8 list) \<Rightarrow> bool" where
  "tls_ok T queue out \<longleftrightarrow>
     (\<forall>n k. n > 0 \<longrightarrow> (case tls_read T n k of
          (Some bs, k') \<Rightarrow> bs \<noteq> [] \<and> length bs \<le> n \<and> queue k = bs @ queue k' \<and> out k' = out k
        | (None, k') \<Rightarrow> queue k = [] \<and> queue k' = [] \<and> out k' = out k))
     \<and> (\<forall>req bs k. req \<le> int (length bs) \<longrightarrow> (case tls_write T req bs k of (n, k') \<Rightarrow>
          n \<le> max 0 req \<and> out k' = out k @ take (nat n) bs \<and> queue k' = queue k))
     \<and> (\<forall>n k. (case tls_rand T n k of (r, k') \<Rightarrow> pred_option (\<lambda>bs. length bs = n) r \<and> queue k' = queue k \<and> out k' = out k))
     \<and> (\<forall>k. queue (snd (tls_err T k)) = queue k \<and> out (snd (tls_err T k)) = out k)"

definition tls_live :: "'k tls \<Rightarrow> bool" where
  "tls_live T \<longleftrightarrow> (\<forall>req bs k. 0 < req \<and> req \<le> int (length bs) \<longrightarrow> fst (tls_write T req bs k) > 0) \<and> (\<forall>n k. fst (tls_rand T n k) \<noteq> None)"

text \<open>The bytes of the server that the client has not consumed.\<close>

definition stream :: "('k \<Rightarrow> u8 list) \<Rightarrow> 'k ws \<Rightarrow> u8 list" where
  "stream queue ws = ws_rx ws @ queue (ws_k ws)"

text \<open>The length passed to \<open>SSL_write\<close>.\<close>

lemma c_int_bounds: "c_int n \<le> int n" "n < 2 ^ 31 \<Longrightarrow> c_int n = int n" "2 ^ 31 \<le> n \<Longrightarrow> n < 2 ^ 32 \<Longrightarrow> c_int n = int n - 2 ^ 32"
proof -
  have c: "c_int n = signed_take_bit 31 (int n)" by (simp add: c_int_def signed_of_nat)
  have "signed_take_bit 31 (int n) \<le> take_bit 32 (int n)" by (simp add: signed_take_bit_eq_take_bit_minus)
  also have "\<dots> \<le> int n" by (simp add: take_bit_int_less_eq_self_iff)
  finally show "c_int n \<le> int n" by (simp add: c)
  show "c_int n = int n" if "n < 2 ^ 31" using that by (simp add: c signed_take_bit_int_eq_self)
  show "c_int n = int n - 2 ^ 32" if "2 ^ 31 \<le> n" "n < 2 ^ 32"
  proof -
    have "signed_take_bit 31 (int n) = signed_take_bit 31 (int n - 2 ^ 32)"
      by (rule signed_take_bit_eq_iff_take_bit_eq [THEN iffD2]) (simp add: take_bit_eq_mod mod_diff_right_eq [symmetric])
    also have "\<dots> = int n - 2 ^ 32" using that by (intro signed_take_bit_int_eq_self) simp_all
    finally show ?thesis by (simp add: c)
  qed
qed

lemma tls_ok_write:
  assumes "tls_ok T queue out" "tls_write T req bs k = (n, k')" "req \<le> int (length bs)"
  shows "n \<le> max 0 req \<and> out k' = out k @ take (nat n) bs \<and> queue k' = queue k"
proof -
  have "req \<le> int (length bs) \<longrightarrow> (case tls_write T req bs k of (n, k') \<Rightarrow> n \<le> max 0 req \<and> out k' = out k @ take (nat n) bs \<and> queue k' = queue k)"
    using assms(1) unfolding tls_ok_def by (elim conjE) (drule spec [of _ req], drule spec [of _ bs], erule spec)
  with assms(2,3) show ?thesis by simp
qed

lemma ws_put_ok:
  assumes "tls_ok T queue out"
  shows "writer_ok (ws_put T) (\<lambda>ws. out (ws_k ws))" "queue (ws_k (snd (ws_put T bs ws))) = queue (ws_k ws)"
    "tls_live T \<Longrightarrow> length bs < 2 ^ 31 \<Longrightarrow> takes_all (ws_put T) bs"
proof -
  note w = tls_ok_write [OF assms]
  show "writer_ok (ws_put T) (\<lambda>ws. out (ws_k ws))"
    unfolding writer_ok_def
  proof (intro allI impI)
    fix bs :: "u8 list" and ws :: "'a ws"
    obtain n k' where p: "tls_write T (c_int (length bs)) bs (ws_k ws) = (n, k')" by force
    have "n \<le> int (length bs)" using w [OF p c_int_bounds(1)] c_int_bounds(1) [of "length bs"] by linarith
    with w [OF p c_int_bounds(1)] p show "case ws_put T bs ws of (n, ws') \<Rightarrow> n \<le> int (length bs) \<and> out (ws_k ws') = out (ws_k ws) @ take (nat n) bs"
      by (simp add: ws_put_def)
  qed
  show "queue (ws_k (snd (ws_put T bs ws))) = queue (ws_k ws)"
    using w [OF _ c_int_bounds(1)] by (auto simp: ws_put_def split: prod.splits)
  show "takes_all (ws_put T) bs" if "tls_live T" "length bs < 2 ^ 31"
    using that c_int_bounds(2) by (auto simp: takes_all_def tls_live_def ws_put_def split_beta)
qed

lemma tls_okD:
  assumes "tls_ok T queue out"
  shows "queue (snd (tls_err T k)) = queue k" "out (snd (tls_err T k)) = out k"
  using assms by (simp_all add: tls_ok_def)

lemma tls_ok_read:
  assumes "tls_ok T queue out" "n > 0"
  obtains (more) bs k' where "tls_read T n k = (Some bs, k')" "bs \<noteq> []" "queue k = bs @ queue k'" "out k' = out k"
  | (over) k' where "tls_read T n k = (None, k')" "queue k = []" "queue k' = []" "out k' = out k"
proof -
  obtain r k' where r: "tls_read T n k = (r, k')" by force
  have "case tls_read T n k of
          (Some bs, k') \<Rightarrow> bs \<noteq> [] \<and> length bs \<le> n \<and> queue k = bs @ queue k' \<and> out k' = out k
        | (None, k') \<Rightarrow> queue k = [] \<and> queue k' = [] \<and> out k' = out k"
    using assms unfolding tls_ok_def by (elim conjE) (drule spec [of _ n], drule spec [of _ k], erule mp)
  with r more over show thesis by (cases r) simp_all
qed

lemma tls_ok_rand:
  assumes "tls_ok T queue out"
  obtains r k' where "tls_rand T n k = (r, k')" "pred_option (\<lambda>bs. length bs = n) r" "queue k' = queue k" "out k' = out k"
proof -
  obtain r k' where r: "tls_rand T n k = (r, k')" by force
  have "case tls_rand T n k of (r, k') \<Rightarrow> pred_option (\<lambda>bs. length bs = n) r \<and> queue k' = queue k \<and> out k' = out k"
    using assms unfolding tls_ok_def by (elim conjE) (drule spec [of _ n], erule spec)
  with r that [of r k'] show thesis by simp
qed

lemma ws_fail_obs:
  assumes "tls_ok T queue out"
  shows "stream queue (ws_fail T what ws) = stream queue ws" "out (ws_k (ws_fail T what ws)) = out (ws_k ws)"
  using tls_okD [OF assms] by (simp_all add: ws_fail_def stream_def split_beta)

subsection \<open>Reading\<close>

lemma read_exact_correct:
  assumes "tls_ok T queue out"
  shows "\<exists>ok ws'. read_exact T n ws = Some (ok, ws') \<and> stream queue ws' = stream queue ws \<and> out (ws_k ws') = out (ws_k ws)
     \<and> (ok \<longleftrightarrow> n \<le> length (stream queue ws)) \<and> (ok \<longrightarrow> n \<le> length (ws_rx ws') \<and> ws_error ws' = ws_error ws)"
proof (induction "length (queue (ws_k ws))" arbitrary: ws rule: less_induct)
  case less
  show ?case
  proof (cases "length (ws_rx ws) < n")
    case False
    then show ?thesis by (subst read_exact.simps) (auto simp: stream_def)
  next
    case True
    show ?thesis
    proof (cases rule: tls_ok_read [OF assms, of 16384 "ws_k ws"])
      case 1
      then show ?case by simp
    next
      case (2 bs k')
      let ?ws = "ws\<lparr>ws_rx := ws_rx ws @ bs, ws_k := k'\<rparr>"
      have "length (queue (ws_k ?ws)) < length (queue (ws_k ws))" using 2 by simp
      from less.hyps [OF this] 2 True show ?thesis by (subst read_exact.simps) (simp add: stream_def)
    next
      case (3 k')
      with True show ?thesis using ws_fail_obs [OF assms, of "''SSL_read''" "ws\<lparr>ws_k := k'\<rparr>"]
        by (subst read_exact.simps) (auto simp: stream_def)
    qed
  qed
qed

lemma unat_less_exp: "unat (w :: 'a::len word) < 2 ^ LENGTH('a)"
  by (rule unsigned_less)

lemma buffered_part:
  assumes "rx @ q = s" "h + n \<le> length rx"
  shows "take n (drop h rx) = take n (drop h s)" "drop (h + n) rx @ q = drop n (drop h s)"
  using assms by (auto simp: add.commute)

lemma unat_ucast_byte: "unat (ucast (w :: u8) :: u64) = unat w"
proof -
  have "unat w < 2 ^ 64" using unat_less_exp [of w] by simp
  then show ?thesis by (simp add: unsigned_ucast_eq take_bit_nat_eq_self)
qed

lemma take_two: "k + 2 \<le> length s \<Longrightarrow> take 2 (drop k s) = [s ! k, s ! Suc k]"
  by (rule nth_equalityI) (auto simp: less_2_cases_iff)

text \<open>A server frame is not masked, and what is received fits into memory.\<close>

definition server_stream :: "u8 list \<Rightarrow> bool" where
  "server_stream s \<longleftrightarrow> length s < 2 ^ 63 \<and> (length s \<ge> 2 \<longrightarrow> s ! 1 AND 0x80 = 0)"

lemma read_length_correct:
  assumes "tls_ok T queue out" and "2 \<le> length (ws_rx ws)" and "stream queue ws = s" and "frame_len (s ! 1) (drop 2 s) = Some (n, r1)"
  shows "\<exists>hdr ws'. read_length T (s ! 1) ws = Some (Some (of_nat n, of_nat hdr), ws') \<and> stream queue ws' = s \<and> out (ws_k ws') = out (ws_k ws)
     \<and> r1 = drop hdr s \<and> hdr \<le> 10 \<and> n < 2 ^ 64 \<and> hdr \<le> length s \<and> ws_error ws' = ws_error ws"
proof -
  let ?l = "s ! 1 AND 0x7F"
  have u: "(ucast ?l :: u64) = 126 \<longleftrightarrow> ?l = 126" "(ucast ?l :: u64) = 127 \<longleftrightarrow> ?l = 127"
    by (simp_all add: word_unat_eq_iff unat_ucast_byte)
  have len: "2 \<le> length s" using assms(2,3) by (auto simp: stream_def)
  consider (a) "?l = 126" | (b) "?l = 127" | (c) "?l \<noteq> 126" "?l \<noteq> 127" by blast
  then show ?thesis
  proof cases
    case a
    with assms(4) have r: "4 \<le> length s" "n = unat (be_len (take 2 (drop 2 s)))" "r1 = drop 4 s"
      by (auto simp: frame_len_def split: if_splits)
    from read_exact_correct [OF assms(1), of 4 ws] r(1) assms(3) obtain ws' where
      ws': "read_exact T 4 ws = Some (True, ws')" "stream queue ws' = s" "out (ws_k ws') = out (ws_k ws)" "4 \<le> length (ws_rx ws')" "ws_error ws' = ws_error ws" by auto
    have "ws_rx ws' ! 2 = s ! 2" "ws_rx ws' ! 3 = s ! 3" using ws'(2,4) by (auto simp: stream_def nth_append)
    moreover have "be_len (take 2 (drop 2 s)) = push_bit 8 (ucast (s ! 2)) OR ucast (s ! 3)"
      using take_two [of 2 s] r(1) by (simp add: be_len_def numeral_3_eq_3)
    ultimately show ?thesis using a u ws' r unat_less_exp [of "be_len (take 2 (drop 2 s))"]
      by (intro exI [of _ 4] exI [of _ ws']) (simp add: read_length_def)
  next
    case b
    with assms(4) have r: "10 \<le> length s" "n = unat (be_len (take 8 (drop 2 s)))" "r1 = drop 10 s"
      by (auto simp: frame_len_def split: if_splits)
    from read_exact_correct [OF assms(1), of 10 ws] r(1) assms(3) obtain ws' where
      ws': "read_exact T 10 ws = Some (True, ws')" "stream queue ws' = s" "out (ws_k ws') = out (ws_k ws)" "10 \<le> length (ws_rx ws')" "ws_error ws' = ws_error ws" by auto
    have "take 8 (drop 2 (ws_rx ws')) = take 8 (drop 2 s)" using ws'(2,4) by (auto simp: stream_def)
    then show ?thesis using b u ws' r unat_less_exp [of "be_len (take 8 (drop 2 s))"]
      by (intro exI [of _ 10] exI [of _ ws']) (simp add: read_length_def)
  next
    case c
    with assms(4) have "n = unat ?l" "r1 = drop 2 s" by (auto simp: frame_len_def split: if_splits)
    moreover have "unat ?l < 2 ^ 64" using unat_less_exp [of ?l] by simp
    ultimately show ?thesis using c u len assms(3)
      by (intro exI [of _ 2] exI [of _ ws]) (simp add: read_length_def word_unat_eq_iff unat_ucast_byte unat_of_nat)
  qed
qed

lemma read_one_correct:
  assumes "tls_ok T queue out" and "server_stream (stream queue ws)" and "parse_frame (stream queue ws) = Some (fin, opcode, payload, rest)"
  shows "\<exists>ws'. read_one T ws = Some (Some (opcode, payload), ws') \<and> stream queue ws' = rest \<and> out (ws_k ws') = out (ws_k ws) \<and> ws_error ws' = ws_error ws"
proof -
  let ?s = "stream queue ws"
  from assms(3) obtain b0 b1 r where s: "?s = b0 # b1 # r" by (auto simp: parse_frame_def split: list.splits)
  then have m: "b1 AND 0x80 = 0" and big: "length ?s < 2 ^ 63" using assms(2) by (auto simp: server_stream_def)
  from assms(3) s m obtain n r1 where n: "frame_len b1 r = Some (n, r1)" "n \<le> length r1" "rest = drop n r1" and p: "payload = take n r1" and op: "opcode = b0 AND 0x0F"
    by (auto simp: parse_frame_def split: option.splits if_splits)
  from read_exact_correct [OF assms(1), of 2 ws] s obtain ws1 where
    ws1: "read_exact T 2 ws = Some (True, ws1)" "stream queue ws1 = ?s" "out (ws_k ws1) = out (ws_k ws)" "2 \<le> length (ws_rx ws1)" "ws_error ws1 = ws_error ws" by auto
  have b: "ws_rx ws1 ! 0 = b0" "ws_rx ws1 ! 1 = b1" using ws1(2,4) s by (cases "ws_rx ws1"; cases "tl (ws_rx ws1)"; auto simp: stream_def)+
  have "frame_len (?s ! 1) (drop 2 ?s) = Some (n, r1)" using n(1) s by simp
  from read_length_correct [OF assms(1) ws1(4,2) this] s obtain hdr ws2 where
    ws2: "read_length T b1 ws1 = Some (Some (of_nat n, of_nat hdr), ws2)" "stream queue ws2 = ?s" "out (ws_k ws2) = out (ws_k ws1)"
      "r1 = drop hdr ?s" "hdr \<le> 10" "n < 2 ^ 64" "hdr \<le> length ?s" "ws_error ws2 = ws_error ws1" by auto
  have fit: "hdr + n \<le> length ?s" using n(2) ws2(4,7) by simp
  then have u: "unat (of_nat hdr + of_nat n :: u64) = hdr + n" "unat (of_nat hdr :: u64) = hdr" "unat (of_nat n :: u64) = n"
    using big by (simp_all add: unat_of_nat flip: of_nat_add)
  from read_exact_correct [OF assms(1), of "hdr + n" ws2] fit ws2(2) obtain ws3 where
    ws3: "read_exact T (hdr + n) ws2 = Some (True, ws3)" "stream queue ws3 = ?s" "out (ws_k ws3) = out (ws_k ws2)" "hdr + n \<le> length (ws_rx ws3)" "ws_error ws3 = ws_error ws2" by auto
  have "read_one T ws = Some (Some (opcode, take n (drop hdr (ws_rx ws3))), ws3\<lparr>ws_rx := drop (hdr + n) (ws_rx ws3)\<rparr>)"
    using ws1(1) ws2(1) ws3(1,4) b m op u by (simp add: read_one_def Let_def)
  moreover have "take n (drop hdr (ws_rx ws3)) = payload" "drop (hdr + n) (ws_rx ws3) @ queue (ws_k ws3) = rest"
    using buffered_part [OF ws3(2) [unfolded stream_def [of queue ws3]] ws3(4)] p n(3) ws2(4) by simp_all
  ultimately show ?thesis using ws1(3,5) ws2(3,8) ws3(3,5) by (intro exI) (auto simp: stream_def)
qed

subsection \<open>Writing\<close>

interpretation wa: write_loop "ws_put T" "ws_fail T ''SSL_write''" "write_loop_from T" for T :: "'k tls"
  by unfold_locales (subst write_loop_from.simps, simp)

lemma write_all_live:
  assumes "tls_ok T queue out" "tls_live T" "length bs < 2 ^ 31"
  obtains ws' where "write_all T bs ws = Some (True, ws')" "out (ws_k ws') = out (ws_k ws) @ bs"
    "stream queue ws' = stream queue ws" "ws_error ws' = ws_error ws"
proof -
  note w = ws_put_ok(1) [OF assms(1)] ws_put_ok(3) [OF assms]
  obtain ok ws' m where l: "write_loop_from T bs 0 ws = Some (ok, ws')" "m \<le> length bs" "out (ws_k ws') = out (ws_k ws) @ take m bs"
    "ok \<longleftrightarrow> m = length bs" "takes_all (ws_put T) bs \<longrightarrow> ok"
    using wa.loop_all [OF w(1) ws_fail_obs(2) [OF assms(1)], of bs ws] by blast
  moreover have "stream queue ws' = stream queue ws" "ws_error ws' = ws_error ws"
    using wa.loop_preserves [where f = "stream queue" and T = T, of bs 0 ws ws'] wa.loop_preserves [where f = ws_error and T = T, of bs 0 ws ws']
      l w(2) ws_put_ok(2) [OF assms(1)] by (auto simp: ws_put_def stream_def split_beta)
  ultimately show thesis using that w(2) by (auto simp: write_all_def)
qed

text \<open>From \<open>2 ^ 31\<close> bytes on the length is negative and nothing is written.\<close>

lemma write_all_too_long:
  assumes "tls_ok T queue out" "2 ^ 31 \<le> length bs" "length bs < 2 ^ 32"
  shows "\<exists>ws'. write_all T bs ws = Some (False, ws') \<and> out (ws_k ws') = out (ws_k ws)"
proof -
  obtain n k where p: "tls_write T (c_int (length bs)) bs (ws_k ws) = (n, k)" by force
  have neg: "c_int (length bs) < 0" using c_int_bounds(3) [OF assms(2,3)] assms(3) by simp
  have n: "n \<le> 0" "out k = out (ws_k ws)" using tls_ok_write [OF assms(1) p c_int_bounds(1)] neg by auto
  have "0 < length bs" using assms(2) by auto
  with p n(1) have "write_all T bs ws = Some (False, ws_fail T ''SSL_write'' (ws\<lparr>ws_k := k\<rparr>))"
    unfolding write_all_def by (subst write_loop_from.simps) (simp add: ws_put_def)
  with ws_fail_obs(2) [OF assms(1), of "''SSL_write''" "ws\<lparr>ws_k := k\<rparr>"] n(2) show ?thesis by simp
qed

text \<open>A frame has at most 14 bytes of header and mask before its payload.\<close>

definition SEND_LIMIT :: nat where
  "SEND_LIMIT = 2 ^ 31 - 14"

lemma length_frame_header: "length (frame_header opcode n) \<le> 10" "65536 \<le> n \<Longrightarrow> n < 2 ^ 64 \<Longrightarrow> length (frame_header opcode n) = 10"
proof -
  show "length (frame_header opcode n) \<le> 10" by (simp add: frame_header_def Let_def)
  assume "65536 \<le> n" "n < 2 ^ 64"
  then have "unat (of_nat n :: u64) = n" by (simp add: unat_of_nat)
  with \<open>65536 \<le> n\<close> show "length (frame_header opcode n) = 10" by (simp add: frame_header_def Let_def word_less_nat_alt word_le_nat_alt)
qed

lemma send_frame_live:
  assumes "tls_ok T queue out" "tls_live T" "length payload < SEND_LIMIT"
  obtains ws' mk where "send_frame T opcode payload ws = Some (True, ws')" "length mk = 4" "fst (tls_rand T 4 (ws_k ws)) = Some mk"
    "out (ws_k ws') = out (ws_k ws) @ frame_header opcode (length payload) @ mk @ mask_bytes mk payload"
    "stream queue ws' = stream queue ws" "ws_error ws' = ws_error ws"
proof -
  obtain r k' where r: "tls_rand T 4 (ws_k ws) = (r, k')" "pred_option (\<lambda>bs. length bs = 4) r" "queue k' = queue (ws_k ws)" "out k' = out (ws_k ws)"
    by (rule tls_ok_rand [OF assms(1), of 4 "ws_k ws"])
  moreover have "fst (tls_rand T 4 (ws_k ws)) \<noteq> None" using assms(2) by (simp add: tls_live_def)
  ultimately obtain mk where mk: "r = Some mk" "length mk = 4" by auto
  have "length (frame_header opcode (length payload) @ mk @ mask_bytes mk payload) < 2 ^ 31"
    using assms(3) mk(2) length_frame_header(1) [of opcode "length payload"] by (simp add: SEND_LIMIT_def)
  then obtain ws' where "write_all T (frame_header opcode (length payload) @ mk @ mask_bytes mk payload) (ws\<lparr>ws_k := k'\<rparr>) = Some (True, ws')"
    "out (ws_k ws') = out (ws_k (ws\<lparr>ws_k := k'\<rparr>)) @ frame_header opcode (length payload) @ mk @ mask_bytes mk payload"
    "stream queue ws' = stream queue (ws\<lparr>ws_k := k'\<rparr>)" "ws_error ws' = ws_error (ws\<lparr>ws_k := k'\<rparr>)"
    by (rule write_all_live [OF assms(1,2)])
  with r mk show thesis by (intro that [of ws' mk]) (simp_all add: send_frame_def stream_def)
qed

lemma send_frame_too_long:
  assumes "tls_ok T queue out" "SEND_LIMIT \<le> length payload" "length payload < 2 ^ 32 - 14"
  shows "\<exists>ws'. send_frame T opcode payload ws = Some (False, ws') \<and> out (ws_k ws') = out (ws_k ws)"
proof -
  obtain r k' where r: "tls_rand T 4 (ws_k ws) = (r, k')" "pred_option (\<lambda>bs. length bs = 4) r" "queue k' = queue (ws_k ws)" "out k' = out (ws_k ws)"
    by (rule tls_ok_rand [OF assms(1), of 4 "ws_k ws"])
  show ?thesis
  proof (cases r)
    case None
    with r ws_fail_obs(2) [OF assms(1), of "''RAND_bytes''" "ws\<lparr>ws_k := k'\<rparr>"] show ?thesis by (simp add: send_frame_def)
  next
    case (Some mk)
    then have mk: "length mk = 4" using r(2) by simp
    have l: "length (frame_header opcode (length payload) @ mk @ mask_bytes mk payload) = 14 + length payload"
      using length_frame_header(2) [of "length payload" opcode] assms(2,3) mk by (simp add: SEND_LIMIT_def)
    from write_all_too_long [OF assms(1), of "frame_header opcode (length payload) @ mk @ mask_bytes mk payload" "ws\<lparr>ws_k := k'\<rparr>", unfolded l] assms(2,3) r Some
    show ?thesis by (simp add: send_frame_def SEND_LIMIT_def)
  qed
qed

text \<open>The bytes of a masked frame that any reader takes for the given opcode and payload.\<close>

definition reads_back :: "u8 \<Rightarrow> u8 list \<Rightarrow> u8 list \<Rightarrow> bool" where
  "reads_back opcode payload bytes \<longleftrightarrow> bytes ! 1 AND 0x80 \<noteq> 0 \<and> (\<forall>rest. parse_frame (bytes @ rest) = Some (True, opcode, payload, rest))"

lemma send_frame_parts:
  assumes "tls_ok T queue out" "tls_live T" "unat opcode < 16" "length payload < SEND_LIMIT"
  shows "\<exists>ws' h mk body. send_frame T opcode payload ws = Some (True, ws') \<and> fst (tls_rand T 4 (ws_k ws)) = Some mk \<and> length body = length payload
     \<and> out (ws_k ws') = out (ws_k ws) @ h @ mk @ body \<and> h ! 1 AND 0x80 \<noteq> 0
     \<and> (\<forall>rest. parse_frame (h @ mk @ body @ rest) = Some (True, opcode, payload, rest))"
proof -
  obtain ws' mk where s: "send_frame T opcode payload ws = Some (True, ws')" "length mk = 4" "fst (tls_rand T 4 (ws_k ws)) = Some mk"
    "out (ws_k ws') = out (ws_k ws) @ frame_header opcode (length payload) @ mk @ mask_bytes mk payload"
    by (rule send_frame_live [OF assms(1,2,4)])
  have l: "length payload < 2 ^ 64" using assms(4) by (simp add: SEND_LIMIT_def)
  obtain b1 ext where h: "frame_header opcode (length payload) = (0x80 OR opcode) # b1 # ext" "b1 AND 0x80 \<noteq> 0" by (rule frame_len_header [OF l])
  have "\<forall>rest. parse_frame (frame_header opcode (length payload) @ mk @ mask_bytes mk payload @ rest) = Some (True, opcode, payload, rest)"
    using parse_client_frame [OF l s(2) assms(3)] by blast
  with s h show ?thesis
    by (intro exI [of _ ws'] exI [of _ "frame_header opcode (length payload)"] exI [of _ mk] exI [of _ "mask_bytes mk payload"]) simp
qed

lemma send_frame_reads_back:
  assumes "tls_ok T queue out" "tls_live T" "unat opcode < 16" "length payload < SEND_LIMIT"
  obtains ws' bytes where "send_frame T opcode payload ws = Some (True, ws')" "out (ws_k ws') = out (ws_k ws) @ bytes" "reads_back opcode payload bytes"
    "stream queue ws' = stream queue ws" "ws_error ws' = ws_error ws"
proof -
  obtain ws' mk where s: "send_frame T opcode payload ws = Some (True, ws')" "length mk = 4"
    "out (ws_k ws') = out (ws_k ws) @ frame_header opcode (length payload) @ mk @ mask_bytes mk payload"
    "stream queue ws' = stream queue ws" "ws_error ws' = ws_error ws" by (rule send_frame_live [OF assms(1,2,4)])
  have l: "length payload < 2 ^ 64" using assms(4) by (simp add: SEND_LIMIT_def)
  obtain b1 ext where "frame_header opcode (length payload) = (0x80 OR opcode) # b1 # ext" "b1 AND 0x80 \<noteq> 0" by (rule frame_len_header [OF l])
  then have "reads_back opcode payload (frame_header opcode (length payload) @ mk @ mask_bytes mk payload)"
    using parse_client_frame [OF l s(2) assms(3)] by (simp add: reads_back_def)
  then show thesis by (rule that [OF s(1,3) _ s(4,5)])
qed

end
