(* ===== verification/Ws_Properties.thy ===== *)
theory Ws_Properties
  imports Ws_Reading Feed_Json
begin

section \<open>Properties of the WebSocket client\<close>

text \<open>
  The properties of \<^verbatim>\<open>src/src/feed/alpaca_ws.cpp\<close>: its encodings decode back, \<open>read_frame\<close> delivers the data frames of the
  server and answers its pings, the session messages are the JSON they are meant to be and the wait for a reply is bounded,
  and no handle leaks however far connecting got. A concrete connection serves the witnesses.
\<close>

subsection \<open>Streams of frames\<close>

text \<open>
  \<open>reads_as\<close>: the complete frames at the start of a stream. A ping can be answered only when its pong is not too long for one \<open>SSL_write\<close>
  (a server that keeps to RFC 6455 sends at most 125 bytes in it). \<open>whole_frames\<close>: the same for a stream of unfragmented messages, where control frames are as RFC 6455 has them.
\<close>

inductive reads_as :: "u8 list \<Rightarrow> (u8 \<times> u8 list) list \<Rightarrow> u8 list \<Rightarrow> bool" where
  over: "reads_as s [] s"
| frame: "server_stream s \<Longrightarrow> parse_frame s = Some (fin, opcode, p, s') \<Longrightarrow> (opcode = OP_PING \<longrightarrow> length p < SEND_LIMIT) \<Longrightarrow> reads_as s' fs rest \<Longrightarrow>
    reads_as s ((opcode, p) # fs) rest"

inductive whole_frames :: "u8 list \<Rightarrow> (u8 \<times> u8 list) list \<Rightarrow> u8 list \<Rightarrow> bool" where
  over: "whole_frames s [] s"
| frame: "server_stream s \<Longrightarrow> parse_frame s = Some (True, opcode, p, s') \<Longrightarrow> opcode \<noteq> 0 \<Longrightarrow> (opcode AND 8 \<noteq> 0 \<longrightarrow> length p \<le> 125) \<Longrightarrow>
    whole_frames s' fs rest \<Longrightarrow> whole_frames s ((opcode, p) # fs) rest"

lemma whole_frames_reads_as: "whole_frames s fs rest \<Longrightarrow> reads_as s fs rest"
  by (induction rule: whole_frames.induct) (auto intro: reads_as.intros simp: OP_PING_def SEND_LIMIT_def)

inductive_cases reads_as_Nil: "reads_as s [] rest"
inductive_cases reads_as_Cons: "reads_as s ((opcode, p) # fs) rest"

lemma reads_as_append: "reads_as s (xs @ ys) rest \<longleftrightarrow> (\<exists>m. reads_as s xs m \<and> reads_as m ys rest)"
proof (induction xs arbitrary: s)
  case Nil
  then show ?case by (auto intro: reads_as.intros elim: reads_as_Nil)
next
  case (Cons f fs)
  obtain opcode p where f: "f = (opcode, p)" by force
  show ?case unfolding f append_Cons using Cons.IH by (fastforce intro: reads_as.frame elim!: reads_as_Cons)
qed

definition no_data :: "u8 \<Rightarrow> bool" where
  "no_data opcode \<longleftrightarrow> opcode \<notin> {OP_TEXT, OP_BINARY, OP_CLOSE}"

definition pings :: "(u8 \<times> u8 list) list \<Rightarrow> u8 list list" where
  "pings fs = map snd (filter (\<lambda>f. fst f = OP_PING) fs)"

definition answers :: "u8 list list \<Rightarrow> u8 list \<Rightarrow> bool" where
  "answers ps bytes \<longleftrightarrow> (\<exists>bss. bytes = concat bss \<and> list_all2 (reads_back OP_PONG) ps bss)"

lemma answers_Nil [simp]: "answers [] bytes \<longleftrightarrow> bytes = []"
  by (simp add: answers_def)

lemma answers_Cons: "reads_back OP_PONG p b \<Longrightarrow> answers ps bytes \<Longrightarrow> answers (p # ps) (b @ bytes)"
  unfolding answers_def by (metis concat.simps(2) list_all2_Cons)

lemma answers_append: "answers ps bs \<Longrightarrow> answers qs cs \<Longrightarrow> answers (ps @ qs) (bs @ cs)"
  unfolding answers_def by (metis concat_append list_all2_appendI)

lemma read_frame_passive:
  assumes "tls_ok T queue out" "tls_live T"
  shows "reads_as (stream queue ws) pre mid \<Longrightarrow> list_all (\<lambda>f. no_data (fst f)) pre \<Longrightarrow>
     \<exists>ws' bytes. read_frame T ws = read_frame T ws' \<and> stream queue ws' = mid \<and> out (ws_k ws') = out (ws_k ws) @ bytes \<and> answers (pings pre) bytes"
proof (induction pre arbitrary: ws)
  case Nil
  then show ?case by (intro exI [of _ ws] exI [of _ "[]"]) (auto simp: pings_def elim: reads_as_Nil)
next
  case (Cons f fs)
  obtain opcode p where f: "f = (opcode, p)" by force
  from Cons.prems(1) obtain fin s' where
    p: "server_stream (stream queue ws)" "parse_frame (stream queue ws) = Some (fin, opcode, p, s')" "reads_as s' fs mid" "opcode = OP_PING \<longrightarrow> length p < SEND_LIMIT"
    unfolding f by (auto elim: reads_as_Cons)
  obtain ws1 where r: "read_one T ws = Some (Some (opcode, p), ws1)" "stream queue ws1 = s'" "out (ws_k ws1) = out (ws_k ws)"
    using read_one_correct [OF assms(1) p(1,2)] by blast
  have pas: "no_data opcode" "list_all (\<lambda>f. no_data (fst f)) fs" using Cons.prems(2) by (simp_all add: f)
  show ?case
  proof (cases "opcode = OP_PING")
    case True
    have "length p < SEND_LIMIT" using p(4) True by simp
    then obtain ws2 b where s: "send_frame T OP_PONG p ws1 = Some (True, ws2)" "out (ws_k ws2) = out (ws_k ws1) @ b" "reads_back OP_PONG p b"
      "stream queue ws2 = stream queue ws1"
      by (rule send_frame_reads_back [OF assms, of OP_PONG, rotated]) (simp_all add: OP_PONG_def)
    with Cons.IH [of ws2] p(3) r(2) pas(2) obtain ws' bytes where
      IH: "read_frame T ws2 = read_frame T ws'" "stream queue ws' = mid" "out (ws_k ws') = out (ws_k ws2) @ bytes" "answers (pings fs) bytes" by auto
    have "read_frame T ws = read_frame T ws2"
      using r(1) True pas(1) s(1) by (subst read_frame.simps) (simp add: no_data_def)
    moreover have "answers (pings (f # fs)) (b @ bytes)" using answers_Cons [OF s(3) IH(4)] f True by (simp add: pings_def)
    ultimately show ?thesis using IH s(2) r(3) by (intro exI [of _ ws'] exI [of _ "b @ bytes"]) simp
  next
    case False
    have "read_frame T ws = read_frame T ws1"
      using r(1) False pas(1) by (subst read_frame.simps) (simp add: no_data_def)
    moreover have "pings (f # fs) = pings fs" using f False by (simp add: pings_def)
    ultimately show ?thesis using Cons.IH [of ws1] p(3) r pas(2) by simp
  qed
qed

lemma read_frame_data:
  assumes "tls_ok T queue out" "server_stream (stream queue ws)" "parse_frame (stream queue ws) = Some (fin, opcode, p, rest)" "opcode \<in> {OP_TEXT, OP_BINARY}"
  shows "\<exists>ws'. read_frame T ws = Some (Some p, ws') \<and> stream queue ws' = rest \<and> out (ws_k ws') = out (ws_k ws)"
  using read_one_correct [OF assms(1-3)] assms(4) by (subst read_frame.simps) fastforce

lemma read_frame_close:
  assumes "tls_ok T queue out" "server_stream (stream queue ws)" "parse_frame (stream queue ws) = Some (fin, OP_CLOSE, p, rest)"
  shows "\<exists>ws'. read_frame T ws = Some (None, ws') \<and> ws_error ws' = ''server closed connection''"
  using read_one_correct [OF assms] by (subst read_frame.simps) (auto simp: const_defs)

lemma read_frame_eof:
  assumes "tls_ok T queue out" "stream queue ws = []"
  shows "\<exists>ws'. read_frame T ws = Some (None, ws')"
  using read_exact_correct [OF assms(1), of 2 ws] assms(2) by (subst read_frame.simps) (auto simp: read_one_def)

subsection \<open>Waiting for a reply\<close>

definition contains :: "string \<Rightarrow> u8 list \<Rightarrow> bool" where
  "contains marker p \<longleftrightarrow> find_sub (bytes_of marker) p \<noteq> None"

text \<open>Text frames, each after frames that carry no data.\<close>

type_synonym reply = "(u8 \<times> u8 list) list \<times> u8 list"

definition reply_ok :: "reply \<Rightarrow> bool" where
  "reply_ok g \<longleftrightarrow> list_all (\<lambda>f. no_data (fst f)) (fst g)"

definition reply_frames :: "reply \<Rightarrow> (u8 \<times> u8 list) list" where
  "reply_frames g = fst g @ [(OP_TEXT, snd g)]"

lemma read_frame_reply:
  assumes "tls_ok T queue out" "tls_live T" "reply_ok g" "reads_as (stream queue ws) (reply_frames g) rest"
  obtains ws' bytes where "read_frame T ws = Some (Some (snd g), ws')" "stream queue ws' = rest" "out (ws_k ws') = out (ws_k ws) @ bytes" "answers (pings (fst g)) bytes"
proof -
  from assms(4) obtain mid where m: "reads_as (stream queue ws) (fst g) mid" "reads_as mid [(OP_TEXT, snd g)] rest"
    by (auto simp: reply_frames_def reads_as_append)
  from read_frame_passive [OF assms(1,2) m(1)] assms(3) obtain ws1 bytes where
    w: "read_frame T ws = read_frame T ws1" "stream queue ws1 = mid" "out (ws_k ws1) = out (ws_k ws) @ bytes" "answers (pings (fst g)) bytes"
    by (auto simp: reply_ok_def)
  from m(2) obtain fin where "server_stream mid" "parse_frame mid = Some (fin, OP_TEXT, snd g, rest)"
    by (auto elim!: reads_as_Cons reads_as_Nil)
  with read_frame_data [OF assms(1), of ws1 fin OP_TEXT "snd g" rest] w(2) obtain ws' where
    "read_frame T ws1 = Some (Some (snd g), ws')" "stream queue ws' = rest" "out (ws_k ws') = out (ws_k ws1)" by auto
  with w that show thesis by simp
qed

lemma stream_error [simp]: "stream queue (ws\<lparr>ws_error := e\<rparr>) = stream queue ws"
  by (simp add: stream_def)

lemma await_loop_answered:
  assumes "tls_ok T queue out" "tls_live T"
  shows "reads_as (stream queue ws) (concat (map reply_frames (gs @ [g]))) rest \<Longrightarrow> list_all reply_ok (gs @ [g]) \<Longrightarrow> length gs < n \<Longrightarrow>
     list_all (\<lambda>g. \<not> contains marker (snd g) \<and> \<not> contains error_marker (snd g)) gs \<Longrightarrow> contains marker (snd g) \<or> contains error_marker (snd g) \<Longrightarrow>
     \<exists>ws' bytes. await_loop T marker what n ws = Some (contains marker (snd g), ws') \<and> stream queue ws' = rest
       \<and> out (ws_k ws') = out (ws_k ws) @ bytes \<and> answers (pings (concat (map fst (gs @ [g])))) bytes"
proof (induction gs arbitrary: n ws)
  case Nil
  then obtain ws' bytes where w: "read_frame T ws = Some (Some (snd g), ws')" "stream queue ws' = rest" "out (ws_k ws') = out (ws_k ws) @ bytes" "answers (pings (fst g)) bytes"
    using read_frame_reply [OF assms, of g ws rest] by auto
  from Nil obtain i where "n = Suc i" by (cases n) auto
  with w Nil show ?case by (cases "contains marker (snd g)") (auto simp: contains_def)
next
  case (Cons h gs)
  then obtain mid where m: "reads_as (stream queue ws) (reply_frames h) mid" "reads_as mid (concat (map reply_frames (gs @ [g]))) rest"
    by (auto simp: reads_as_append)
  have "reply_ok h" using Cons.prems by simp
  then obtain ws1 b where w: "read_frame T ws = Some (Some (snd h), ws1)" "stream queue ws1 = mid" "out (ws_k ws1) = out (ws_k ws) @ b" "answers (pings (fst h)) b"
    by (rule read_frame_reply [OF assms _ m(1)])
  from Cons.prems obtain i where i: "n = Suc i" "length gs < i" by (cases n) auto
  from Cons.IH [of ws1 i] m(2) w(2) i(2) Cons.prems obtain ws' bytes where
    IH: "await_loop T marker what i ws1 = Some (contains marker (snd g), ws')" "stream queue ws' = rest" "out (ws_k ws') = out (ws_k ws1) @ bytes"
      "answers (pings (concat (map fst (gs @ [g])))) bytes" by auto
  have "await_loop T marker what n ws = await_loop T marker what i ws1" using w(1) i(1) Cons.prems(4) by (simp add: contains_def)
  moreover have "answers (pings (concat (map fst ((h # gs) @ [g])))) (b @ bytes)" using answers_append [OF w(4) IH(4)] by (simp add: pings_def)
  ultimately show ?case using IH w(3) by (intro exI [of _ ws'] exI [of _ "b @ bytes"]) simp
qed

lemma await_loop_exhausted:
  assumes "tls_ok T queue out" "tls_live T"
  shows "reads_as (stream queue ws) (concat (map reply_frames gs)) rest \<Longrightarrow> list_all reply_ok gs \<Longrightarrow>
     list_all (\<lambda>g. \<not> contains marker (snd g) \<and> \<not> contains error_marker (snd g)) gs \<Longrightarrow>
     \<exists>ws'. await_loop T marker what (length gs) ws = Some (False, ws') \<and> stream queue ws' = rest \<and> ws_error ws' = what @ '': no response after 10 frames''"
proof (induction gs arbitrary: ws)
  case Nil
  then show ?case by (auto simp: stream_def elim: reads_as_Nil)
next
  case (Cons h gs)
  then obtain mid where m: "reads_as (stream queue ws) (reply_frames h) mid" "reads_as mid (concat (map reply_frames gs)) rest"
    by (auto simp: reads_as_append)
  have "reply_ok h" using Cons.prems by simp
  then obtain ws1 b where "read_frame T ws = Some (Some (snd h), ws1)" "stream queue ws1 = mid"
    by (rule read_frame_reply [OF assms _ m(1)])
  with Cons.IH [of ws1] m(2) Cons.prems show ?case by (simp add: contains_def)
qed

subsection \<open>Messages of the session\<close>

definition subscribe_json :: "string list \<Rightarrow> bool \<Rightarrow> bool \<Rightarrow> json" where
  "subscribe_json symbols trades quotes = JObj ([(''action'', JStr ''subscribe'')]
     @ (if trades then [(''trades'', JArr (map JStr symbols))] else []) @ (if quotes then [(''quotes'', JArr (map JStr symbols))] else []))"

lemma quoted_jstr: "plain s \<Longrightarrow> quoted s = jstr s"
  by (simp add: quoted_def jstr_plain)

lemma commas_Cons: "commas (x # xs) = x @ (if xs = [] then [] else CHR '','' # commas xs)"
  by (cases xs) auto

lemma json_array_items_print:
  "list_all plain xs \<Longrightarrow> json_array_items first xs = (if xs = [] \<or> first then [] else [CHR '','']) @ commas (map (jprint \<circ> JStr) xs)"
  by (induction xs arbitrary: first) (auto simp: quoted_jstr commas_Cons)

lemma subscribe_msg_json: "list_all plain symbols \<Longrightarrow> subscribe_msg symbols trades quotes = jprint (subscribe_json symbols trades quotes)"
  by (simp add: subscribe_msg_def subscribe_json_def json_array_def json_array_items_print entry_def quoted_jstr plain_def)

subsection \<open>A concrete connection\<close>

text \<open>The state holds what the server will send and what the client has written.\<close>

definition loop_tls :: "(u8 list \<times> u8 list) tls" where
  "loop_tls = \<lparr>tls_dial = (\<lambda>_ _. \<lparr>d_resolved = True, d_socket = 5, d_connected = True, d_ctx = True, d_paths = True, d_ssl = True, d_host = True, d_handshake = True\<rparr>),
     tls_read = (\<lambda>n (q, w). if q = [] then (None, (q, w)) else (Some (take n q), (drop n q, w))),
     tls_write = (\<lambda>n bs (q, w). if n \<le> 0 then (-1, (q, w)) else (n, (q, w @ take (nat n) bs))),
     tls_rand = (\<lambda>n k. (Some (replicate n 7), k)), tls_err = (\<lambda>k. (None, k))\<rparr>"

lemma loop_tls_ok: "tls_ok loop_tls fst snd" "tls_live loop_tls"
  by (simp_all add: tls_ok_def tls_live_def loop_tls_def split_beta)

definition ws_at :: "u8 list \<Rightarrow> (u8 list \<times> u8 list) ws" where
  "ws_at bytes = (ws_new (bytes, []))\<lparr>ws_ssl := True, ws_ctx := True, ws_fd := 5\<rparr>"

lemma ws_at_simps [simp]: "stream fst (ws_at bytes) = bytes" "snd (ws_k (ws_at bytes)) = []"
  by (simp_all add: ws_at_def ws_new_def stream_def)

text \<open>Short frames of a server.\<close>

lemma short_length:
  assumes "n < 126"
  shows "unat (of_nat n :: u8) = n" "(of_nat n :: u8) AND 0x7F = of_nat n" "(of_nat n :: u8) AND 0x80 = 0"
proof -
  show n: "unat (of_nat n :: u8) = n" using assms by (simp add: unat_of_nat)
  have "(of_nat n :: u8) AND 0x7F = take_bit 7 (of_nat n)" by (simp add: take_bit_eq_mask mask_eq_exp_minus_1)
  then show m: "(of_nat n :: u8) AND 0x7F = of_nat n"
    using assms n by (simp add: word_unat_eq_iff unsigned_take_bit_eq take_bit_nat_eq_self)
  have "(of_nat n :: u8) AND 0x80 = (of_nat n AND 0x7F) AND 0x80" by (simp only: m)
  also have "\<dots> = of_nat n AND (0x7F AND 0x80)" by (simp only: and.assoc)
  finally show "(of_nat n :: u8) AND 0x80 = 0" by simp
qed

lemma parse_short:
  assumes "n < 126" "n \<le> length r" "unat opcode < 16"
  shows "parse_frame ((0x80 OR opcode) # of_nat n # r) = Some (True, opcode, take n r, drop n r)"
proof -
  note n = short_length(1) [OF assms(1)] and m = short_length(2) [OF assms(1)] and z = short_length(3) [OF assms(1)]
  have e: "(of_nat n :: u8) \<noteq> 126" "(of_nat n :: u8) \<noteq> 127" using assms(1) n by (auto simp: word_unat_eq_iff)
  show ?thesis using m z e n assms(2) flag_byte(1) flag_byte(3) [OF assms(3)]
    by (simp add: parse_frame_def frame_len_def)
qed

subsection \<open>Requests\<close>

definition undecided :: "string \<Rightarrow> reply list \<Rightarrow> bool" where
  "undecided marker gs \<longleftrightarrow> list_all (\<lambda>g. \<not> contains marker (snd g) \<and> \<not> contains error_marker (snd g)) gs"

text \<open>
  On a stream of frames (\<open>reads\<close> says which are considered) a request writes one text frame with the given payload and waits: the first reply among the first ten that contains the
  marker or reports an error decides; after ten others it gives up. Pings in between are answered, and exactly the frames up
  to the deciding one are consumed.
\<close>

definition request_ok ::
  "(u8 list \<Rightarrow> (u8 \<times> u8 list) list \<Rightarrow> u8 list \<Rightarrow> bool) \<Rightarrow> ('k \<Rightarrow> u8 list) \<Rightarrow> ('k \<Rightarrow> u8 list) \<Rightarrow> ('k ws \<Rightarrow> (bool \<times> 'k ws) option) \<Rightarrow> u8 list \<Rightarrow> string \<Rightarrow> string \<Rightarrow> bool" where
  "request_ok reads queue out call payload marker what \<longleftrightarrow>
     (\<forall>ws gs g rest. reads (stream queue ws) (concat (map reply_frames (gs @ [g]))) rest \<and> list_all reply_ok (gs @ [g])
        \<and> length gs < 10 \<and> undecided marker gs \<and> \<not> undecided marker [g] \<longrightarrow>
        (\<exists>ws' bytes pongs. call ws = Some (contains marker (snd g), ws') \<and> stream queue ws' = rest
           \<and> out (ws_k ws') = out (ws_k ws) @ bytes @ pongs \<and> reads_back OP_TEXT payload bytes
           \<and> answers (pings (concat (map fst (gs @ [g])))) pongs))
     \<and> (\<forall>ws gs rest. reads (stream queue ws) (concat (map reply_frames gs)) rest \<and> list_all reply_ok gs \<and> length gs = 10 \<and> undecided marker gs \<longrightarrow>
        (\<exists>ws'. call ws = Some (False, ws') \<and> stream queue ws' = rest \<and> ws_error ws' = what @ '': no response after 10 frames''))"

lemma request_correct:
  assumes "tls_ok T queue out" "tls_live T" "length payload < SEND_LIMIT" and reads: "\<And>s fs rest. reads s fs rest \<Longrightarrow> reads_as s fs rest"
    and call: "\<And>ws. call ws = do { (ok, ws) \<leftarrow> send_text T payload ws; if \<not> ok then Some (False, ws) else await T marker what ws }"
  shows "request_ok reads queue out call payload marker what"
proof -
  have send: "\<exists>ws1 bytes. call ws = await T marker what ws1 \<and> stream queue ws1 = stream queue ws \<and> out (ws_k ws1) = out (ws_k ws) @ bytes \<and> reads_back OP_TEXT payload bytes" for ws
  proof -
    obtain ws1 bytes where "send_frame T OP_TEXT payload ws = Some (True, ws1)" "out (ws_k ws1) = out (ws_k ws) @ bytes" "reads_back OP_TEXT payload bytes"
      "stream queue ws1 = stream queue ws"
      by (rule send_frame_reads_back [OF assms(1,2) _ assms(3), of OP_TEXT]) (simp add: OP_TEXT_def)
    then show ?thesis by (intro exI [of _ ws1] exI [of _ bytes]) (simp add: call send_text_def)
  qed
  show ?thesis unfolding request_ok_def
  proof (intro conjI allI impI; elim conjE)
    fix ws gs g rest
    assume "reads (stream queue ws) (concat (map reply_frames (gs @ [g]))) rest"
    note h1 = reads [OF this]
    assume h: "list_all reply_ok (gs @ [g])" "length gs < 10" "undecided marker gs" "\<not> undecided marker [g]"
    obtain ws1 bytes where s: "call ws = await T marker what ws1" "stream queue ws1 = stream queue ws" "out (ws_k ws1) = out (ws_k ws) @ bytes" "reads_back OP_TEXT payload bytes"
      using send by blast
    from await_loop_answered [OF assms(1,2), of ws1 gs g rest 10 marker what] h1 h s(2) obtain ws' pongs where
      "await_loop T marker what 10 ws1 = Some (contains marker (snd g), ws')" "stream queue ws' = rest" "out (ws_k ws') = out (ws_k ws1) @ pongs"
      "answers (pings (concat (map fst (gs @ [g])))) pongs" by (auto simp: undecided_def)
    with s show "\<exists>ws' bytes pongs. call ws = Some (contains marker (snd g), ws') \<and> stream queue ws' = rest
           \<and> out (ws_k ws') = out (ws_k ws) @ bytes @ pongs \<and> reads_back OP_TEXT payload bytes
           \<and> answers (pings (concat (map fst (gs @ [g])))) pongs"
      by (intro exI [of _ ws'] exI [of _ bytes] exI [of _ pongs]) (simp add: await_def)
  next
    fix ws gs rest
    assume "reads (stream queue ws) (concat (map reply_frames gs)) rest"
    note h1 = reads [OF this]
    assume h: "list_all reply_ok gs" "length gs = 10" "undecided marker gs"
    obtain ws1 where s: "call ws = await T marker what ws1" "stream queue ws1 = stream queue ws" using send by blast
    from await_loop_exhausted [OF assms(1,2), of ws1 gs rest marker what] h1 h s
    show "\<exists>ws'. call ws = Some (False, ws') \<and> stream queue ws' = rest \<and> ws_error ws' = what @ '': no response after 10 frames''"
      by (simp add: undecided_def await_def)
  qed
qed

definition auth_json :: "string \<Rightarrow> string \<Rightarrow> json" where
  "auth_json key secret = JObj [(''action'', JStr ''auth''), (''key'', JStr key), (''secret'', JStr secret)]"

lemma auth_msg_json: "plain key \<Longrightarrow> plain secret \<Longrightarrow> auth_msg key secret = jprint (auth_json key secret)"
  by (simp add: auth_msg_def auth_json_def entry_def quoted_jstr plain_def)

subsection \<open>Properties\<close>

text \<open>
  C35. What the client encodes decodes back: base64 is inverted by the decoder of RFC 4648 and has the length the
  specification gives; a frame that \<open>send_frame\<close> writes, for a payload of fewer than \<open>2 ^ 31 - 14\<close> bytes, carries the random mask, and is read
  by the reader of RFC 6455, which unmasks octet \<open>i\<close> with octet \<open>i mod 4\<close> of the key it finds in the frame, as one final, masked frame with that opcode and payload, followed by whatever is written next.
  From that length on (up to \<open>2 ^ 32 - 14\<close>), where the length passed to \<open>SSL_write\<close> is a negative \<open>int\<close>, it fails having written nothing.
\<close>

theorem ws_encodings:
  assumes "tls_ok T queue out" and "tls_live T" and "unat opcode < 16"
  shows "(length payload < 2 ^ 31 - 14 \<longrightarrow>
           (\<exists>ws' h mk body. send_frame T opcode payload ws = Some (True, ws') \<and> fst (tls_rand T 4 (ws_k ws)) = Some mk \<and> length body = length payload
              \<and> out (ws_k ws') = out (ws_k ws) @ h @ mk @ body \<and> h ! 1 AND 0x80 \<noteq> 0
              \<and> (\<forall>rest. parse_frame (h @ mk @ body @ rest) = Some (True, opcode, payload, rest))))
     \<and> (2 ^ 31 - 14 \<le> length payload \<and> length payload < 2 ^ 32 - 14 \<longrightarrow>
           (\<exists>ws'. send_frame T opcode payload ws = Some (False, ws') \<and> out (ws_k ws') = out (ws_k ws)))
     \<and> unbase64 (base64 data) = data \<and> length (base64 data) = (length data + 2) div 3 * 4"
proof (intro conjI impI)
  assume "length payload < 2 ^ 31 - 14"
  then show "\<exists>ws' h mk body. send_frame T opcode payload ws = Some (True, ws') \<and> fst (tls_rand T 4 (ws_k ws)) = Some mk \<and> length body = length payload
      \<and> out (ws_k ws') = out (ws_k ws) @ h @ mk @ body \<and> h ! 1 AND 0x80 \<noteq> 0 \<and> (\<forall>rest. parse_frame (h @ mk @ body @ rest) = Some (True, opcode, payload, rest))"
    using send_frame_parts [OF assms, of payload ws] by (simp add: SEND_LIMIT_def)
next
  assume "2 ^ 31 - 14 \<le> length payload \<and> length payload < 2 ^ 32 - 14"
  then show "\<exists>ws'. send_frame T opcode payload ws = Some (False, ws') \<and> out (ws_k ws') = out (ws_k ws)"
    using send_frame_too_long [OF assms(1), of payload opcode ws] by (simp add: SEND_LIMIT_def)
qed (rule unbase64_base64 length_base64)+

theorem ws_encodings_witness:
  "\<exists>ws' bytes. send_frame loop_tls OP_TEXT (replicate 200 65) (ws_at []) = Some (True, ws') \<and> snd (ws_k ws') = bytes
     \<and> parse_frame bytes = Some (True, OP_TEXT, replicate 200 65, []) \<and> unbase64 (base64 [1, 2, 3, 4]) = [1, 2, 3, 4]"
proof -
  have op: "unat OP_TEXT < 16" and len: "length (replicate 200 (65 :: u8)) < 2 ^ 31 - 14" by (simp_all add: OP_TEXT_def)
  note c = ws_encodings [OF loop_tls_ok op, of "replicate 200 65" "ws_at []" "[1, 2, 3, 4]"]
  from c len obtain ws' h mk body where w: "send_frame loop_tls OP_TEXT (replicate 200 65) (ws_at []) = Some (True, ws')"
    "snd (ws_k ws') = snd (ws_k (ws_at [])) @ h @ mk @ body" "\<forall>rest. parse_frame (h @ mk @ body @ rest) = Some (True, OP_TEXT, replicate 200 65, rest)" by blast
  have "parse_frame (h @ mk @ body) = Some (True, OP_TEXT, replicate 200 65, [])" using w(3) [rule_format, of "[]"] by (simp only: append_Nil2)
  moreover have "unbase64 (base64 [1, 2, 3, 4]) = [1, 2, 3, 4]" using c by blast
  ultimately show ?thesis using w(1,2) ws_at_simps(2) by (metis append_Nil)
qed

text \<open>
  C36. \<open>read_frame\<close> delivers messages: over a stream of unfragmented messages and control frames that a server sent, in whatever pieces of bytes it arrives, it
  returns the payload of the first text or binary message and leaves exactly the rest of the stream; every ping before it has been
  answered by a masked pong with the same payload, in order, and pongs and unknown frames are skipped. It fails on a close
  frame, recording that the server closed, and when the stream ends. (Messages in several frames are outside: they are not put together.)
\<close>

theorem read_frame_delivers:
  assumes "tls_ok T queue out" and "tls_live T" and "whole_frames (stream queue ws) pre mid" and "list_all (\<lambda>f. no_data (fst f)) pre"
  shows "(parse_frame mid = Some (True, opcode, p, rest) \<and> server_stream mid \<and> opcode \<in> {OP_TEXT, OP_BINARY} \<longrightarrow>
           (\<exists>ws' pongs. read_frame T ws = Some (Some p, ws') \<and> stream queue ws' = rest \<and> out (ws_k ws') = out (ws_k ws) @ pongs \<and> answers (pings pre) pongs))
     \<and> (parse_frame mid = Some (True, OP_CLOSE, p, rest) \<and> server_stream mid \<longrightarrow>
           (\<exists>ws'. read_frame T ws = Some (None, ws') \<and> ws_error ws' = ''server closed connection''))
     \<and> (mid = [] \<longrightarrow> (\<exists>ws'. read_frame T ws = Some (None, ws')))"
proof -
  obtain ws1 pongs where w: "read_frame T ws = read_frame T ws1" "stream queue ws1 = mid" "out (ws_k ws1) = out (ws_k ws) @ pongs" "answers (pings pre) pongs"
    using read_frame_passive [OF assms(1,2) whole_frames_reads_as [OF assms(3)] assms(4)] by blast
  show ?thesis
    using read_frame_data [OF assms(1), of ws1 True opcode p rest] read_frame_close [OF assms(1), of ws1 True p rest] read_frame_eof [OF assms(1), of ws1] w
    by metis
qed

text \<open>A ping with payload \<open>A\<close>, then the text \<open>hi\<close>.\<close>

definition sample_stream :: "u8 list" where
  "sample_stream = [0x89, 1, 65, 0x81, 2, 104, 105]"

lemma sample_stream_parts:
  "parse_frame sample_stream = Some (True, OP_PING, [65], [0x81, 2, 104, 105])" "parse_frame [0x81, 2, 104, 105] = Some (True, OP_TEXT, [104, 105], [])"
  using parse_short [of 1 "[65, 0x81, 2, 104, 105]" OP_PING] parse_short [of 2 "[104, 105]" OP_TEXT]
  by (simp_all add: sample_stream_def const_defs)

lemma sample_stream_reads: "whole_frames sample_stream [(OP_PING, [65])] [0x81, 2, 104, 105]" "server_stream [0x81, 2, 104, 105]"
proof -
  have "server_stream sample_stream" by (simp add: server_stream_def sample_stream_def)
  then show "whole_frames sample_stream [(OP_PING, [65])] [0x81, 2, 104, 105]"
    by (rule whole_frames.frame) (rule sample_stream_parts(1), simp_all add: OP_PING_def whole_frames.over)
  show "server_stream [0x81, 2, 104, 105]" by (simp add: server_stream_def)
qed

theorem read_frame_delivers_witness:
  "\<exists>ws' pongs. read_frame loop_tls (ws_at sample_stream) = Some (Some [104, 105], ws') \<and> snd (ws_k ws') = pongs \<and> answers [[65]] pongs"
proof -
  have r: "whole_frames (stream fst (ws_at sample_stream)) [(OP_PING, [65])] [0x81, 2, 104, 105]" using sample_stream_reads(1) by simp
  have l: "list_all (\<lambda>f. no_data (fst f)) [(OP_PING, [65 :: u8])]" by (simp add: no_data_def const_defs)
  from read_frame_delivers [OF loop_tls_ok r l, where opcode = OP_TEXT and p = "[104, 105]" and rest = "[]"] sample_stream_parts(2) sample_stream_reads(2) show ?thesis
    by (auto simp: pings_def)
qed

text \<open>
  C37. The session requests: \<open>authenticate\<close> and \<open>subscribe\<close> write one text frame whose payload is the text of the JSON object
  they mean to send (for credentials and symbols that need no escapes, and of fewer than \<open>2 ^ 31 - 14\<close> characters), then wait for the answer for at most ten replies: the
  first one that contains the expected marker or reports an error decides the result, earlier ones are skipped, and after ten
  undecided replies the request fails with the error saying so.
\<close>

theorem session_requests:
  assumes "tls_ok T queue out" and "tls_live T" and "plain key" and "plain secret" and "list_all plain symbols"
    and "length (jprint (auth_json key secret)) < 2 ^ 31 - 14" and "length (jprint (subscribe_json symbols trades quotes)) < 2 ^ 31 - 14"
  shows "request_ok whole_frames queue out (authenticate T key secret) (bytes_of (jprint (auth_json key secret)))
       (quoted ''msg'' @ '':'' @ quoted ''authenticated'') ''auth''
     \<and> request_ok whole_frames queue out (subscribe T symbols trades quotes) (bytes_of (jprint (subscribe_json symbols trades quotes)))
       (quoted ''T'' @ '':'' @ quoted ''subscription'') ''subscribe''"
  using assms
  by (intro conjI request_correct) (simp_all only: bytes_of_def length_map authenticate_def subscribe_def auth_msg_json subscribe_msg_json SEND_LIMIT_def whole_frames_reads_as)

theorem session_requests_witness:
  "request_ok whole_frames fst snd (subscribe loop_tls [''AAPL'', ''MSFT''] True False)
     (bytes_of (jprint (subscribe_json [''AAPL'', ''MSFT''] True False))) (quoted ''T'' @ '':'' @ quoted ''subscription'') ''subscribe''"
  by (rule session_requests [OF loop_tls_ok, of "''k''" "''s''" "[''AAPL'', ''MSFT'']" True False, THEN conjunct2])
    (simp_all add: plain_def auth_json_def subscribe_json_def jstr_def escape_def entry_def)

end
