(* ===== verification/Ws_Lifecycle.thy ===== *)
theory Ws_Lifecycle
  imports Ws_Properties
begin

section \<open>Connecting and closing\<close>

text \<open>
  The life cycle of the connection of \<^verbatim>\<open>src/src/feed/alpaca_ws.cpp\<close>: however far \<open>connect\<close> gets, \<open>close\<close> afterwards releases
  every handle that was obtained, once. And a defect of \<open>read_frame\<close>: the sum of header and payload length is
  computed in 64 bits, so that a server that announces a length close to \<open>2 ^ 64\<close> makes the client deliver bytes it does not
  consume.
\<close>

subsection \<open>Handles\<close>

definition handles :: "'k ws \<Rightarrow> bool \<times> bool \<times> int \<times> ws_event list" where
  "handles ws = (ws_ssl ws, ws_ctx ws, ws_fd ws, ws_events ws)"

lemma handles_simps [simp]:
  "handles (ws\<lparr>ws_k := k\<rparr>) = handles ws" "handles (ws\<lparr>ws_rx := rx\<rparr>) = handles ws" "handles (ws\<lparr>ws_error := e\<rparr>) = handles ws" "handles (ws_fail T what ws) = handles ws"
  by (simp_all add: handles_def ws_fail_def split_beta)

lemma write_all_handles:
  assumes "tls_ok T queue out"
  shows "\<exists>ok ws'. write_all T bs ws = Some (ok, ws') \<and> handles ws' = handles ws"
proof -
  obtain ok ws' m where l: "write_loop_from T bs 0 ws = Some (ok, ws')" "m \<le> length bs" "out (ws_k ws') = out (ws_k ws) @ take m bs"
    "ok \<longleftrightarrow> m = length bs"
    using wa.loop_all [OF ws_put_ok(1) [OF assms] ws_fail_obs(2) [OF assms], of bs ws] by blast
  have "handles (snd (ws_put T bs ws)) = handles ws" for bs ws by (simp add: ws_put_def split_beta)
  from wa.loop_result [where f = handles, OF this l(1)] l(1) show ?thesis by (auto simp: write_all_def)
qed

lemma send_frame_handles:
  assumes "tls_ok T queue out"
  shows "\<exists>ok ws'. send_frame T opcode payload ws = Some (ok, ws') \<and> handles ws' = handles ws"
proof (cases "tls_rand T 4 (ws_k ws)")
  case (Pair r k)
  then show ?thesis
    using write_all_handles [OF assms, of _ "ws\<lparr>ws_k := k\<rparr>"] by (cases r) (auto simp: send_frame_def)
qed

lemma header_loop_handles:
  assumes "tls_ok T queue out"
  shows "\<exists>ok ws'. header_loop T ws = Some (ok, ws') \<and> handles ws' = handles ws \<and> (ok \<longrightarrow> find_sub (bytes_of (crlf @ crlf)) (ws_rx ws') \<noteq> None)"
proof (induction "length (queue (ws_k ws))" arbitrary: ws rule: less_induct)
  case less
  show ?case
  proof (cases "find_sub (bytes_of (crlf @ crlf)) (ws_rx ws)")
    case (Some p)
    then show ?thesis by (subst header_loop.simps) auto
  next
    case None
    show ?thesis
    proof (cases rule: tls_ok_read [OF assms, of 1024 "ws_k ws"])
      case 1
      then show ?case by simp
    next
      case (2 bs k')
      let ?ws = "ws\<lparr>ws_rx := ws_rx ws @ bs, ws_k := k'\<rparr>"
      have "length (queue (ws_k ?ws)) < length (queue (ws_k ws))" using 2 by simp
      from less.hyps [OF this] have "\<exists>ok ws'. header_loop T ?ws = Some (ok, ws') \<and> handles ws' = handles ws \<and> (ok \<longrightarrow> find_sub (bytes_of (crlf @ crlf)) (ws_rx ws') \<noteq> None)"
        by simp
      with 2 None show ?thesis by (subst header_loop.simps) simp
    next
      case (3 k')
      with None show ?thesis by (subst header_loop.simps) auto
    qed
  qed
qed

lemma http_upgrade_handles:
  assumes "tls_ok T queue out"
  shows "\<exists>ok ws'. http_upgrade T host path ws = Some (ok, ws') \<and> handles ws' = handles ws"
proof (cases "tls_rand T 16 (ws_k ws)")
  case (Pair r k)
  show ?thesis
  proof (cases r)
    case None
    with Pair show ?thesis by (auto simp: http_upgrade_def)
  next
    case (Some nonce)
    obtain ok ws1 where w: "write_all T (bytes_of (upgrade_request host path (base64 nonce))) (ws\<lparr>ws_k := k\<rparr>) = Some (ok, ws1)" "handles ws1 = handles ws"
      using write_all_handles [OF assms, of "bytes_of (upgrade_request host path (base64 nonce))" "ws\<lparr>ws_k := k\<rparr>"] by auto
    obtain ok2 ws2 where h: "header_loop T ws1 = Some (ok2, ws2)" "handles ws2 = handles ws1" "ok2 \<longrightarrow> find_sub (bytes_of (crlf @ crlf)) (ws_rx ws2) \<noteq> None"
      using header_loop_handles [OF assms] by blast
    show ?thesis using Pair Some w h by (auto simp: http_upgrade_def)
  qed
qed

text \<open>How often each handle was obtained, by the outcome of dialling.\<close>

definition got_ctx :: "dial_result \<Rightarrow> nat" where
  "got_ctx d = (if d_resolved d \<and> d_socket d \<ge> 0 \<and> d_connected d \<and> d_ctx d then 1 else 0)"

definition got_ssl :: "dial_result \<Rightarrow> nat" where
  "got_ssl d = (if d_resolved d \<and> d_socket d \<ge> 0 \<and> d_connected d \<and> d_ctx d \<and> d_paths d \<and> d_ssl d then 1 else 0)"

definition got_fd :: "dial_result \<Rightarrow> nat" where
  "got_fd d = (if d_resolved d \<and> d_socket d \<ge> 0 then 1 else 0)"

definition got_addr :: "dial_result \<Rightarrow> nat" where
  "got_addr d = (if d_resolved d then 1 else 0)"

text \<open>What was released and what is still held make up what was obtained.\<close>

definition balanced :: "nat \<Rightarrow> nat \<Rightarrow> nat \<Rightarrow> nat \<Rightarrow> int \<Rightarrow> 'k ws \<Rightarrow> bool" where
  "balanced ssls ctxs fds addrs sock ws \<longleftrightarrow> count_list (ws_events ws) Ev_ssl_free + (if ws_ssl ws then 1 else 0) = ssls
     \<and> count_list (ws_events ws) Ev_ctx_free + (if ws_ctx ws then 1 else 0) = ctxs
     \<and> count_list (ws_events ws) (Ev_fd_close sock) + (if ws_fd ws \<ge> 0 then 1 else 0) = fds
     \<and> (ws_fd ws \<ge> 0 \<longrightarrow> ws_fd ws = sock) \<and> count_list (ws_events ws) Ev_addr_free = addrs"

definition dial_balanced :: "dial_result \<Rightarrow> 'k ws \<Rightarrow> bool" where
  "dial_balanced d = balanced (got_ssl d) (got_ctx d) (got_fd d) (got_addr d) (d_socket d)"

lemma balanced_handles: "handles ws' = handles ws \<Longrightarrow> balanced a b c d e ws' = balanced a b c d e ws"
  by (simp add: handles_def balanced_def)

lemma tls_connect_balanced: "dial_balanced (tls_dial T host port) (snd (tls_connect T host port (ws_new k)))"
proof -
  let ?d = "tls_dial T host port"
  have f: "balanced a b c e g (ws_fail T what ws) = balanced a b c e g ws" for a b c e g what and ws :: "'a ws" by (rule balanced_handles) simp
  note got = got_ssl_def got_ctx_def got_fd_def got_addr_def
  consider (a) "\<not> d_resolved ?d" | (b) "d_resolved ?d" "d_socket ?d < 0" | (c) "d_resolved ?d" "\<not> d_socket ?d < 0" "\<not> d_connected ?d"
    | (d) "d_resolved ?d" "\<not> d_socket ?d < 0" "d_connected ?d" "\<not> d_ctx ?d"
    | (e) "d_resolved ?d" "\<not> d_socket ?d < 0" "d_connected ?d" "d_ctx ?d" "\<not> d_paths ?d"
    | (e') "d_resolved ?d" "\<not> d_socket ?d < 0" "d_connected ?d" "d_ctx ?d" "d_paths ?d" "\<not> d_ssl ?d"
    | (g) "d_resolved ?d" "\<not> d_socket ?d < 0" "d_connected ?d" "d_ctx ?d" "d_paths ?d" "d_ssl ?d" by blast
  then show ?thesis
  proof cases
    case g
    then show ?thesis unfolding tls_connect_def Let_def dial_balanced_def
      by (cases "d_host ?d"; cases "d_handshake ?d"; simp only: if_True if_False simp_thms f snd_conv) (simp_all add: balanced_def ws_new_def got)
  qed (unfold tls_connect_def Let_def dial_balanced_def, simp_all only: if_True if_False simp_thms f snd_conv, simp_all add: balanced_def ws_new_def got)
qed

lemma ws_close_balanced:
  assumes "tls_ok T queue out" "balanced a b c d e ws"
  shows "\<exists>ws'. ws_close T ws = Some ws' \<and> balanced a b c d e ws' \<and> \<not> ws_ssl ws' \<and> \<not> ws_ctx ws' \<and> ws_fd ws' < 0"
proof -
  obtain ok ws1 where s: "send_frame T OP_CLOSE [] ws = Some (ok, ws1)" "handles ws1 = handles ws" using send_frame_handles [OF assms(1)] by blast
  then have h: "ws_ssl ws1 = ws_ssl ws" "ws_ctx ws1 = ws_ctx ws" "ws_fd ws1 = ws_fd ws" "ws_events ws1 = ws_events ws" by (simp_all add: handles_def)
  show ?thesis using assms(2) s(1)
    by (cases "ws_ssl ws"; cases "ws_ctx ws"; cases "ws_fd ws \<ge> 0") (simp_all add: ws_close_def balanced_def h)
qed

text \<open>
  However connecting ends, closing afterwards leaves no handle open, and each of the SSL object, the context, the socket and the
  address list was released exactly as often as it was obtained.
\<close>

theorem connect_close_releases:
  assumes "tls_ok T queue out"
  shows "\<exists>ok ws1 ws2. ws_connect T host path port (ws_new k) = Some (ok, ws1) \<and> ws_close T ws1 = Some ws2
     \<and> \<not> ws_ssl ws2 \<and> \<not> ws_ctx ws2 \<and> ws_fd ws2 < 0 \<and> dial_balanced (tls_dial T host port) ws2"
proof -
  obtain ok0 ws0 where c: "tls_connect T host port (ws_new k) = (ok0, ws0)" by force
  have b0: "dial_balanced (tls_dial T host port) ws0" using tls_connect_balanced [of T host port k] c by simp
  obtain ok ws1 where u: "ws_connect T host path port (ws_new k) = Some (ok, ws1)" "handles ws1 = handles ws0"
    using http_upgrade_handles [OF assms, of host path ws0] c by (cases ok0) (auto simp: ws_connect_def)
  have "dial_balanced (tls_dial T host port) ws1" using b0 balanced_handles [OF u(2)] by (simp add: dial_balanced_def)
  from ws_close_balanced [OF assms this [unfolded dial_balanced_def]] u show ?thesis unfolding dial_balanced_def by blast
qed

subsection \<open>A length that wraps\<close>

text \<open>
  A binary frame that announces a payload of \<open>2 ^ 64 - 10\<close> bytes: its header takes 10 bytes, the sum wraps to 0, so that \<open>read_frame\<close> waits
  for nothing, delivers whatever follows the header in the buffer and removes nothing from it. Calling it again delivers the same
  bytes again.
\<close>

definition wrap_header :: "u8 list" where
  "wrap_header = [0x82, 127, 0xFF, 0xFF, 0xFF, 0xFF, 0xFF, 0xFF, 0xFF, 0xF6]"

lemma wrap_header_length: "be_len (take 8 (drop 2 (wrap_header @ r))) = - 10"
  by (simp add: be_len_def wrap_header_def push_bit_eq_mult)

lemma read_exact_there: "n \<le> length (ws_rx ws) \<Longrightarrow> read_exact T n ws = Some (True, ws)"
  by (subst read_exact.simps) simp

theorem read_frame_length_wrap:
  assumes "ws_rx ws = wrap_header @ r" and "length r < 2 ^ 32"
  shows "read_frame T ws = Some (Some r, ws)"
proof -
  have rx: "ws_rx ws ! 0 = 0x82" "ws_rx ws ! 1 = 127" "length (ws_rx ws) = 10 + length r" "drop 10 (ws_rx ws) = r"
    using assms(1) by (simp_all add: wrap_header_def)
  have l: "read_length T 127 ws = Some (Some (- 10, 10), ws)"
    using wrap_header_length [of r] by (simp add: read_length_def read_exact_there rx(3) assms(1) [symmetric])
  have "unat (- 10 :: u64) \<ge> length r" using assms(2) by simp
  then have "read_one T ws = Some (Some (2, r), ws)"
    using l rx by (simp add: read_one_def read_exact_there Let_def)
  then show ?thesis by (subst read_frame.simps) (simp add: const_defs)
qed

end
