(* ===== verification/Feed_Main.thy ===== *)
theory Feed_Main
  imports Feed_Replay Ws_Lifecycle C_Text
begin

section \<open>The feed program\<close>

text \<open>
  Models \<open>main\<close> and \<open>dial\<close> of \<^verbatim>\<open>src/src/feed/feed_main.cpp\<close>: the command line, the connection to the exchange, and the two modes of the
  program, replaying a capture file or streaming from the market-data server (whose WebSocket client is \<open>Alpaca_Ws\<close>).

  The process environment is the record \<open>feed_env\<close>: the results of the calls that set up the connection to the exchange, the
  environment variables, and the files. \<open>strtoull\<close> and \<open>atoi\<close> are those of \<open>C_Text\<close>. The type of the replay speed is a parameter, with \<open>atof\<close> and the
  partial function that maps a difference of timestamps to the gap to wait. Usage and progress messages are not modelled. A program that starts has
  \<open>static bool buy\<close> set to true.
\<close>

subsection \<open>The command line\<close>

record 'd feed_options =
  o_capture :: string
  o_replay :: string
  o_connect :: string
  o_path :: string
  o_symbols :: "string list"
  o_trades :: bool
  o_quotes :: bool
  o_speed :: 'd
  o_limit :: u64

definition DEFAULT_HOST :: string where
  "DEFAULT_HOST = ''stream.data.alpaca.markets''"

definition DEFAULT_PATH :: string where
  "DEFAULT_PATH = ''/v2/iex''"

definition options_new :: "'d \<Rightarrow> 'd feed_options" where
  "options_new one = \<lparr>o_capture = [], o_replay = [], o_connect = [], o_path = DEFAULT_PATH, o_symbols = [], o_trades = True, o_quotes = True,
     o_speed = one, o_limit = 0\<rparr>"

text \<open>The lambda \<open>next\<close>: the following argument, or the empty string at the end.\<close>

definition next_arg :: "string list \<Rightarrow> string" where
  "next_arg args = (case args of [] \<Rightarrow> [] | v # _ \<Rightarrow> v)"

text \<open>The loop over the arguments; \<open>Inl\<close> is the exit status of an early return.\<close>

function parse_args :: "(string \<Rightarrow> 'd) \<Rightarrow> string list \<Rightarrow> 'd feed_options \<Rightarrow> int + 'd feed_options" where
  "parse_args atof [] opt = Inr opt"
| "parse_args atof (a # rest) opt =
     (if a = ''--capture'' then parse_args atof (tl rest) (opt\<lparr>o_capture := next_arg rest\<rparr>)
      else if a = ''--replay'' then parse_args atof (tl rest) (opt\<lparr>o_replay := next_arg rest\<rparr>)
      else if a = ''--connect'' then parse_args atof (tl rest) (opt\<lparr>o_connect := next_arg rest\<rparr>)
      else if a = ''--feed'' then parse_args atof (tl rest) (opt\<lparr>o_path := next_arg rest\<rparr>)
      else if a = ''--speed'' then parse_args atof (tl rest) (opt\<lparr>o_speed := atof (next_arg rest)\<rparr>)
      else if a = ''--limit'' then parse_args atof (tl rest) (opt\<lparr>o_limit := strtoull (next_arg rest)\<rparr>)
      else if a = ''--trades-only'' then parse_args atof rest (opt\<lparr>o_quotes := False\<rparr>)
      else if a = ''--quotes-only'' then parse_args atof rest (opt\<lparr>o_trades := False\<rparr>)
      else if a = ''-h'' \<or> a = ''--help'' then Inl 0
      else if a \<noteq> [] \<and> a ! 0 = CHR ''-'' then Inl 1
      else parse_args atof rest (opt\<lparr>o_symbols := o_symbols opt @ [a]\<rparr>))"
  by pat_completeness auto
termination by (relation "measure (\<lambda>(_, args, _). length args)") auto

subsection \<open>Dialling the exchange\<close>

record feed_env =
  fe_socket :: int
  fe_pton :: "string \<Rightarrow> bool"
  fe_connect :: "string \<Rightarrow> 16 word \<Rightarrow> bool"
  fe_getenv :: "string \<Rightarrow> string option"
  fe_writable :: "string \<Rightarrow> bool"
  fe_file :: "string \<Rightarrow> u8 list option"

text \<open>The descriptor, or -1, and the descriptors closed on the way.\<close>

definition dial :: "feed_env \<Rightarrow> string \<Rightarrow> (int \<times> int list) option" where
  "dial E hostport =
     (if CHR '':'' \<notin> set hostport then Some (- 1, [])
      else do {
        let host = rev (tl (dropWhile (\<lambda>c. c \<noteq> CHR '':'') (rev hostport)));
        port \<leftarrow> atoi (rev (takeWhile (\<lambda>c. c \<noteq> CHR '':'') (rev hostport)));
        let fd = fe_socket E;
        Some (if fd < 0 then (- 1, [])
              else if \<not> fe_pton E host then (- 1, [fd])
              else if \<not> fe_connect E host (of_int port) then (- 1, [fd])
              else (fd, []))
      })"

subsection \<open>The program\<close>

partial_function (option) stream_loop ::
  "'d fp \<Rightarrow> 'k feed_os \<Rightarrow> 'j tls \<Rightarrow> int \<Rightarrow> u64 \<Rightarrow> 'j ws \<Rightarrow> 'k feed \<Rightarrow> ('j ws \<times> 'k feed) option" where
  "stream_loop F os T fd limit ws st =
     (case fs_running os (f_k st) of (running, k) \<Rightarrow>
        if \<not> running then Some (ws, st\<lparr>f_k := k\<rparr>)
        else do {
          (frame, ws) \<leftarrow> read_frame T ws;
          case frame of
            None \<Rightarrow> Some (ws, st\<lparr>f_k := k\<rparr>)
          | Some payload \<Rightarrow> do {
              st \<leftarrow> on_objects F os fd (for_each_object (text_of payload)) (st\<lparr>f_k := k\<rparr>);
              if limit \<noteq> 0 \<and> f_ticks st \<ge> limit then Some (ws, st) else stream_loop F os T fd limit ws st
            }
        })"

record ('j, 'k) feed_result =
  res_status :: int
  res_closed :: "int list"
  res_file :: "u8 list option"
  res_ws :: "'j ws option"
  res_feed :: "'k feed"

definition feed_new :: "u8 list option \<Rightarrow> 'k \<Rightarrow> 'k feed" where
  "feed_new out k = \<lparr>f_ticks = 0, f_orders = 0, f_skipped = 0, f_out = out, f_buy = True, f_k = k\<rparr>"

text \<open>Streaming: from the construction of the WebSocket client to the end of \<open>main\<close>. On every path its destructor closes it.\<close>

definition feed_live ::
  "'d fp \<Rightarrow> 'k feed_os \<Rightarrow> 'j tls \<Rightarrow> 'e feed_options \<Rightarrow> int \<Rightarrow> int list \<Rightarrow> u8 list option \<Rightarrow> string \<Rightarrow> string \<Rightarrow> 'j \<Rightarrow> 'k
     \<Rightarrow> ('j, 'k) feed_result option" where
  "feed_live F os T opt fd cls out key secret j k =
     (let failed = (\<lambda>ws. do { ws \<leftarrow> ws_close T ws;
                              Some \<lparr>res_status = 1, res_closed = cls, res_file = out, res_ws = Some ws, res_feed = feed_new out k\<rparr> })
      in do {
        (ok, ws) \<leftarrow> ws_connect T DEFAULT_HOST (o_path opt) 443 (ws_new j);
        if \<not> ok then failed ws else do {
          (ok, ws) \<leftarrow> authenticate T key secret ws;
          if \<not> ok then failed ws else do {
            (ok, ws) \<leftarrow> subscribe T (o_symbols opt) (o_trades opt) (o_quotes opt) ws;
            if \<not> ok then failed ws else do {
              (ws, st) \<leftarrow> stream_loop F os T fd (o_limit opt) ws (feed_new out k);
              ws \<leftarrow> ws_close T ws;
              ws \<leftarrow> ws_close T ws;
              Some \<lparr>res_status = 0, res_closed = cls @ (if fd \<ge> 0 then [fd] else []), res_file = f_out st, res_ws = Some ws, res_feed = st\<rparr>
            }
          }
        }
      })"

definition feed_main ::
  "'d fp \<Rightarrow> (string \<Rightarrow> 'e) \<Rightarrow> 'e \<Rightarrow> ('e \<Rightarrow> (u64 \<Rightarrow> u64 option) option) \<Rightarrow> 'k feed_os \<Rightarrow> 'j tls \<Rightarrow> feed_env \<Rightarrow> string list \<Rightarrow> 'j \<Rightarrow> 'k
     \<Rightarrow> ('j, 'k) feed_result option" where
  "feed_main F atof one gap os T E args j k =
     (let exit_with = (\<lambda>rc cls bk. \<lparr>res_status = rc, res_closed = cls, res_file = None, res_ws = None, res_feed = (feed_new None (snd bk))\<lparr>f_buy := fst bk\<rparr>\<rparr>)
      in case parse_args atof args (options_new one) of
           Inl rc \<Rightarrow> Some (exit_with rc [] (True, k))
         | Inr opt \<Rightarrow> do {
             (fd, cls) \<leftarrow> (if o_connect opt \<noteq> [] then dial E (o_connect opt) else Some (- 1, []));
             if o_connect opt \<noteq> [] \<and> fd < 0 then Some (exit_with 1 cls (True, k))
             else if o_replay opt \<noteq> [] then do {
               (rc, n, orders, bk) \<leftarrow> run_replay os (gap (o_speed opt)) (o_limit opt) fd (fe_file E (o_replay opt)) (True, k);
               Some (exit_with rc (cls @ (if fd \<ge> 0 then [fd] else [])) bk)
             }
             else if o_symbols opt = [] then Some (exit_with 1 cls (True, k))
             else case (fe_getenv E ''APCA_API_KEY_ID'', fe_getenv E ''APCA_API_SECRET_KEY'') of
                    (Some key, Some secret) \<Rightarrow>
                      if o_capture opt \<noteq> [] \<and> \<not> fe_writable E (o_capture opt) then Some (exit_with 1 cls (True, k))
                      else feed_live F os T opt fd cls (if o_capture opt \<noteq> [] then Some [] else None) key secret j k
                  | _ \<Rightarrow> Some (exit_with 1 cls (True, k))
           })"

subsection \<open>Establishing the connection\<close>

definition dial_ok :: "dial_result \<Rightarrow> bool" where
  "dial_ok d \<longleftrightarrow> d_resolved d \<and> d_socket d \<ge> 0 \<and> d_connected d \<and> d_ctx d \<and> d_paths d \<and> d_ssl d \<and> d_host d \<and> d_handshake d"

text \<open>The stream \<open>s\<close> starts with an answer that accepts the upgrade; \<open>rest\<close> follows its header.\<close>

definition upgrade_reply :: "u8 list \<Rightarrow> u8 list \<Rightarrow> bool" where
  "upgrade_reply s rest \<longleftrightarrow> take 12 s = bytes_of ''HTTP/1.1 101'' \<and>
     (\<exists>p\<ge>8. find_sub (bytes_of (crlf @ crlf)) s = Some p \<and> rest = drop (p + 4) s)"

lemma find_sub_append: "find_sub pat s = Some p \<Longrightarrow> find_sub pat (s @ r) = Some p"
proof (induction s arbitrary: p)
  case Nil
  then show ?case by (cases r) (auto split: if_splits)
next
  case (Cons c cs)
  show ?case
  proof (cases "prefix pat (c # cs)")
    case True
    then have "prefix pat (c # cs @ r)" by (metis append_Cons prefix_order.trans prefix_prefix prefix_append)
    with True Cons show ?thesis by simp
  next
    case False
    with Cons.prems obtain q where q: "find_sub pat cs = Some q" "p = Suc q" by auto
    have "\<not> prefix pat (c # cs @ r)"
    proof
      assume a: "prefix pat (c # cs @ r)"
      from find_sub_Some [OF q(1)] obtain pre t where "cs = pre @ pat @ t" by blast
      then have "length pat \<le> length (c # cs)" by simp
      moreover have "prefix pat ((c # cs) @ r)" using a by simp
      ultimately show False using False by (metis prefix_def prefix_length_prefix)
    qed
    with Cons.IH [OF q(1)] q(2) show ?thesis by simp
  qed
qed

lemma header_loop_finds:
  assumes "tls_ok T queue out"
  shows "find_sub (bytes_of (crlf @ crlf)) (stream queue ws) = Some p \<Longrightarrow>
     \<exists>ws'. header_loop T ws = Some (True, ws') \<and> stream queue ws' = stream queue ws \<and> find_sub (bytes_of (crlf @ crlf)) (ws_rx ws') = Some p"
proof (induction "length (queue (ws_k ws))" arbitrary: ws rule: less_induct)
  case less
  show ?case
  proof (cases "find_sub (bytes_of (crlf @ crlf)) (ws_rx ws)")
    case (Some q)
    then have "q = p" using find_sub_append [OF Some, of "queue (ws_k ws)"] less.prems by (simp add: stream_def)
    with Some show ?thesis by (subst header_loop.simps) auto
  next
    case None
    show ?thesis
    proof (cases rule: tls_ok_read [OF assms, of 1024 "ws_k ws"])
      case 1
      then show ?case by simp
    next
      case (2 bs k')
      let ?ws = "ws\<lparr>ws_rx := ws_rx ws @ bs, ws_k := k'\<rparr>"
      have l: "length (queue (ws_k ?ws)) < length (queue (ws_k ws))" and s: "stream queue ?ws = stream queue ws" using 2 by (simp_all add: stream_def)
      from less.hyps [OF l] less.prems s 2 None show ?thesis by (subst header_loop.simps) simp
    next
      case (3 k')
      with None less.prems show ?thesis by (simp add: stream_def)
    qed
  qed
qed

lemma connect_established:
  assumes "tls_ok T queue out" "tls_live T" "dial_ok (tls_dial T host port)" "upgrade_reply (queue j) rest" "length host + length path < 2 ^ 30"
  shows "\<exists>ws'. ws_connect T host path port (ws_new j) = Some (True, ws') \<and> stream queue ws' = rest"
proof -
  obtain ws where c: "tls_connect T host port (ws_new j) = (True, ws)" "ws_k ws = j" "ws_rx ws = []"
    using assms(3) by (simp add: tls_connect_def dial_ok_def ws_new_def Let_def)
  obtain r k' where r: "tls_rand T 16 j = (r, k')" "pred_option (\<lambda>bs. length bs = 16) r" "queue k' = queue j"
    by (rule tls_ok_rand [OF assms(1), of 16 j])
  moreover have "fst (tls_rand T 16 j) \<noteq> None" using assms(2) by (simp add: tls_live_def)
  ultimately obtain nonce where n: "tls_rand T 16 j = (Some nonce, k')" "queue k' = queue j" "length nonce = 16" by auto
  have "length (bytes_of (upgrade_request host path (base64 nonce))) < 2 ^ 31"
    using assms(5) by (simp add: bytes_of_def upgrade_request_def length_base64 n(3))
  note sent = write_all_live [OF assms(1,2) this, of "ws\<lparr>ws_k := k'\<rparr>"]
  obtain ws1 where w: "write_all T (bytes_of (upgrade_request host path (base64 nonce))) (ws\<lparr>ws_k := k'\<rparr>) = Some (True, ws1)"
    "stream queue ws1 = queue j" using sent c n(2) by (auto simp: stream_def)
  from assms(4) obtain p where p: "take 12 (queue j) = bytes_of ''HTTP/1.1 101''" "p \<ge> 8" "find_sub (bytes_of (crlf @ crlf)) (queue j) = Some p"
    "rest = drop (p + 4) (queue j)" unfolding upgrade_reply_def by blast
  from header_loop_finds [OF assms(1), of ws1 p] w(2) p(3) obtain ws2 where
    h: "header_loop T ws1 = Some (True, ws2)" "stream queue ws2 = queue j" "find_sub (bytes_of (crlf @ crlf)) (ws_rx ws2) = Some p" by auto
  from find_sub_Some [OF h(3)] have l: "p + 4 \<le> length (ws_rx ws2)" by (auto simp: bytes_of_def)
  have "take 12 (ws_rx ws2) = take 12 (queue j)" "drop (p + 4) (ws_rx ws2) @ queue (ws_k ws2) = rest"
    using l p(2) unfolding p(4) h(2) [symmetric] stream_def by simp_all
  then show ?thesis using c n w(1) h p(1) by (simp add: ws_connect_def http_upgrade_def stream_def)
qed

lemma ws_close_cleared:
  assumes "tls_ok T queue out"
  shows "\<exists>ws'. ws_close T ws = Some ws' \<and> \<not> ws_ssl ws' \<and> \<not> ws_ctx ws' \<and> ws_fd ws' < 0"
proof -
  have "\<exists>a b c d. balanced a b c d (ws_fd ws) ws" by (simp add: balanced_def)
  then show ?thesis using ws_close_balanced [OF assms] by blast
qed

subsection \<open>A session of the server\<close>

text \<open>
  \<open>answered\<close>: the stream starts with replies of which one of the first ten has the marker, none before it decides.
  \<open>serves\<close>: the server accepts the upgrade, the credentials and the subscription, sends text frames with the payloads \<open>ps\<close>, with
  pings and other frames without data in between, and then ends the stream.
\<close>

definition answered :: "string \<Rightarrow> u8 list \<Rightarrow> u8 list \<Rightarrow> bool" where
  "answered marker s rest \<longleftrightarrow> (\<exists>gs g. reads_as s (concat (map reply_frames (gs @ [g]))) rest \<and> list_all reply_ok (gs @ [g]) \<and> length gs < 10
     \<and> undecided marker gs \<and> contains marker (snd g))"

definition serves :: "u8 list \<Rightarrow> u8 list list \<Rightarrow> bool" where
  "serves s ps \<longleftrightarrow> (\<exists>s1 s2 s3 gs. upgrade_reply s s1 \<and> answered (quoted ''msg'' @ '':'' @ quoted ''authenticated'') s1 s2
     \<and> answered (quoted ''T'' @ '':'' @ quoted ''subscription'') s2 s3
     \<and> reads_as s3 (concat (map reply_frames gs)) [] \<and> list_all reply_ok gs \<and> map snd gs = ps)"

lemma request_answered:
  assumes "request_ok reads_as queue out call payload marker what" "answered marker (stream queue ws) rest"
  shows "\<exists>ws'. call ws = Some (True, ws') \<and> stream queue ws' = rest"
proof -
  from assms(2) obtain gs g where g: "reads_as (stream queue ws) (concat (map reply_frames (gs @ [g]))) rest" "list_all reply_ok (gs @ [g])" "length gs < 10"
    "undecided marker gs" "contains marker (snd g)" unfolding answered_def by blast
  then have "\<not> undecided marker [g]" by (simp add: undecided_def)
  with g assms(1) show ?thesis unfolding request_ok_def by metis
qed

lemma stream_loop_session:
  assumes "tls_ok T queue tout" "tls_live T" "writer_ok (fs_send os fd) out" "never_fails (fs_send os fd)" "replay_ok os out" "fd \<ge> 0" "cast_bounded F"
  shows "reads_as (stream queue ws) (concat (map reply_frames gs)) [] \<Longrightarrow> list_all reply_ok gs \<Longrightarrow> list_all (\<lambda>g. frame_castable F (text_of (snd g))) gs \<Longrightarrow>
     \<exists>ws' st'. stream_loop F os T fd 0 ws st = Some (ws', st') \<and> session_step out (concat (map (\<lambda>g. frame_records F (text_of (snd g))) gs)) st st'"
proof (induction gs arbitrary: ws st)
  case Nil
  then have e: "stream queue ws = []" by (auto elim: reads_as_Nil)
  obtain k1 where k1: "fs_running os (f_k st) = (True, k1)" "out k1 = out (f_k st)" using assms(5) unfolding replay_ok_def by (metis prod.collapse)
  obtain ws' where "read_frame T ws = Some (None, ws')" using read_frame_eof [OF assms(1) e] by blast
  with k1 show ?case by (subst stream_loop.simps) (cases "f_out st"; simp add: session_step_def)
next
  case (Cons g gs)
  then obtain mid where m: "reads_as (stream queue ws) (reply_frames g) mid" "reads_as mid (concat (map reply_frames gs)) []"
    by (auto simp: reads_as_append)
  obtain k1 where k1: "fs_running os (f_k st) = (True, k1)" "out k1 = out (f_k st)" using assms(5) unfolding replay_ok_def by (metis prod.collapse)
  have g: "reply_ok g" "frame_castable F (text_of (snd g))" using Cons.prems by simp_all
  obtain ws1 b where r: "read_frame T ws = Some (Some (snd g), ws1)" "stream queue ws1 = mid"
    by (rule read_frame_reply [OF assms(1,2) g(1) m(1)])
  obtain st1 where o: "on_objects F os fd (for_each_object (text_of (snd g))) (st\<lparr>f_k := k1\<rparr>) = Some st1"
    "session_step out (frame_records F (text_of (snd g))) (st\<lparr>f_k := k1\<rparr>) st1"
    using on_frame_session [OF assms(3,4,6,7) g(2)] by blast
  then have s: "session_step out (frame_records F (text_of (snd g))) st st1" using k1(2) by (simp add: session_step_def)
  from Cons.IH [of ws1 st1] m(2) r(2) Cons.prems obtain ws' st' where
    "stream_loop F os T fd 0 ws1 st1 = Some (ws', st')" "session_step out (concat (map (\<lambda>g. frame_records F (text_of (snd g))) gs)) st1 st'" by auto
  with session_step_trans [OF s] k1(1) r(1) o(1) show ?case by (subst stream_loop.simps) simp
qed

lemma parse_symbols:
  "list_all (\<lambda>a. a \<noteq> [] \<and> hd a \<noteq> CHR ''-'') syms \<Longrightarrow> parse_args atof syms opt = Inr (opt\<lparr>o_symbols := o_symbols opt @ syms\<rparr>)"
proof (induction syms arbitrary: opt)
  case (Cons a syms)
  then have "a \<noteq> []" "hd a \<noteq> CHR ''-''" by simp_all
  then have "parse_args atof (a # syms) opt = parse_args atof syms (opt\<lparr>o_symbols := o_symbols opt @ [a]\<rparr>)" by (cases a) auto
  with Cons show ?case by simp
qed simp

lemma feed_live_session:
  assumes tls: "tls_ok T queue tout" "tls_live T" "dial_ok (tls_dial T DEFAULT_HOST 443)"
    and os: "writer_ok (fs_send os fd) out" "never_fails (fs_send os fd)" "replay_ok os out" "fd \<ge> 0" and F: "cast_bounded F"
    and req: "request_ok reads_as queue tout (authenticate T key secret) pa (quoted ''msg'' @ '':'' @ quoted ''authenticated'') ''auth''"
      "request_ok reads_as queue tout (subscribe T (o_symbols opt) (o_trades opt) (o_quotes opt)) pb (quoted ''T'' @ '':'' @ quoted ''subscription'') ''subscribe''"
    and srv: "serves (queue j) ps" "list_all (\<lambda>p. frame_castable F (text_of p)) ps" and lim: "o_limit opt = 0"
    and path: "length (o_path opt) < 2 ^ 29"
  shows "\<exists>ws st. feed_live F os T opt fd cls file key secret j k
         = Some \<lparr>res_status = 0, res_closed = cls @ [fd], res_file = f_out st, res_ws = Some ws, res_feed = st\<rparr>
     \<and> session_step out (concat (map (\<lambda>p. frame_records F (text_of p)) ps)) (feed_new file k) st \<and> \<not> ws_ssl ws \<and> \<not> ws_ctx ws \<and> ws_fd ws < 0"
proof -
  from srv(1) obtain s1 s2 s3 gs where s: "upgrade_reply (queue j) s1" "answered (quoted ''msg'' @ '':'' @ quoted ''authenticated'') s1 s2"
    "answered (quoted ''T'' @ '':'' @ quoted ''subscription'') s2 s3" "reads_as s3 (concat (map reply_frames gs)) []" "list_all reply_ok gs" "map snd gs = ps"
    unfolding serves_def by blast
  obtain ws1 where w1: "ws_connect T DEFAULT_HOST (o_path opt) 443 (ws_new j) = Some (True, ws1)" "stream queue ws1 = s1"
    using connect_established [OF tls s(1), of "o_path opt"] path by (auto simp: DEFAULT_HOST_def)
  obtain ws2 where w2: "authenticate T key secret ws1 = Some (True, ws2)" "stream queue ws2 = s2"
    using request_answered [OF req(1)] w1(2) s(2) by blast
  obtain ws3 where w3: "subscribe T (o_symbols opt) (o_trades opt) (o_quotes opt) ws2 = Some (True, ws3)" "stream queue ws3 = s3"
    using request_answered [OF req(2)] w2(2) s(3) by blast
  have "list_all (\<lambda>g. frame_castable F (text_of (snd g))) gs" "concat (map (\<lambda>g. frame_records F (text_of (snd g))) gs) = concat (map (\<lambda>p. frame_records F (text_of p)) ps)"
    using srv(2) unfolding s(6) [symmetric] by (simp_all add: list_all_iff comp_def)
  with stream_loop_session [OF tls(1,2) os F, of ws3 gs "feed_new file k"] w3(2) s(4,5) obtain ws4 st where
    w4: "stream_loop F os T fd 0 ws3 (feed_new file k) = Some (ws4, st)" "session_step out (concat (map (\<lambda>p. frame_records F (text_of p)) ps)) (feed_new file k) st" by auto
  obtain ws5 where w5: "ws_close T ws4 = Some ws5" "\<not> ws_ssl ws5" "\<not> ws_ctx ws5" "ws_fd ws5 < 0" using ws_close_cleared [OF tls(1)] by blast
  then have "ws_close T ws5 = Some ws5" by (simp add: ws_close_def)
  then show ?thesis using w1(1) w2(1) w3(1) w4 w5 lim os(4) by (simp add: feed_live_def)
qed

subsection \<open>What a session needs\<close>

text \<open>The connection to the exchange can be made and gives the descriptor \<open>fd\<close>; the credentials are set and need no escapes.\<close>

definition exchange_up :: "feed_env \<Rightarrow> string \<Rightarrow> int \<Rightarrow> bool" where
  "exchange_up E hostport fd \<longleftrightarrow> hostport \<noteq> [] \<and> dial E hostport = Some (fd, []) \<and> fd \<ge> 0"

definition credentials :: "feed_env \<Rightarrow> string \<Rightarrow> string \<Rightarrow> bool" where
  "credentials E key secret \<longleftrightarrow> fe_getenv E ''APCA_API_KEY_ID'' = Some key \<and> fe_getenv E ''APCA_API_SECRET_KEY'' = Some secret \<and> plain key \<and> plain secret
     \<and> length (jprint (auth_json key secret)) < SEND_LIMIT"

text \<open>Arguments that are symbols: not empty, not options, and without characters that JSON escapes.\<close>

definition symbol_args :: "string list \<Rightarrow> bool" where
  "symbol_args syms \<longleftrightarrow> syms \<noteq> [] \<and> list_all (\<lambda>a. a \<noteq> [] \<and> hd a \<noteq> CHR ''-'' \<and> plain a) syms \<and> length (jprint (subscribe_json syms True True)) < SEND_LIMIT"

subsection \<open>A concrete session\<close>

definition text_frame :: "u8 list \<Rightarrow> u8 list" where
  "text_frame p = 0x81 # of_nat (length p) # p"

lemma text_frame_reads:
  assumes "length p < 126" "length r < 2 ^ 32" "reads_as r fs rest"
  shows "reads_as (text_frame p @ r) ((OP_TEXT, p) # fs) rest"
proof (rule reads_as.frame)
  show "server_stream (text_frame p @ r)" using assms short_length(3) [OF assms(1)] by (simp add: server_stream_def text_frame_def)
  have "(0x80 OR OP_TEXT) = 0x81" by (simp add: OP_TEXT_def)
  with parse_short [of "length p" "p @ r" OP_TEXT] assms(1)
  show "parse_frame (text_frame p @ r) = Some (True, OP_TEXT, p, r)" by (simp add: text_frame_def OP_TEXT_def)
qed (use assms(3) in \<open>simp_all add: const_defs\<close>)

lemma text_of_bytes_of: "text_of (bytes_of s) = s"
  by (induction s) (simp_all add: text_of_def bytes_of_def unat_of_char)

definition quote_text :: string where
  "quote_text = jprint (JArr (map JObj [quote_msg]))"

definition sample_session :: "u8 list" where
  "sample_session = bytes_of (''HTTP/1.1 101 OK'' @ crlf @ crlf) @ text_frame (bytes_of (quoted ''msg'' @ '':'' @ quoted ''authenticated''))
     @ text_frame (bytes_of (quoted ''T'' @ '':'' @ quoted ''subscription'')) @ text_frame (bytes_of quote_text)"

lemma quote_text_length: "length (bytes_of quote_text) < 126"
  by (simp add: bytes_of_def quote_text_def quote_msg_def entry_def jstr_def escape_def)

lemma contains_self: "contains m (bytes_of m)"
  by (cases "bytes_of m") (simp_all add: contains_def)

lemma answered_first:
  assumes "length (bytes_of marker) < 126" "length r < 2 ^ 32"
  shows "answered marker (text_frame (bytes_of marker) @ r) r"
  unfolding answered_def
  using text_frame_reads [OF assms reads_as.over] contains_self [of marker]
  by (intro exI [of _ "[]"] exI [of _ "([], bytes_of marker)"]) (simp add: reply_frames_def reply_ok_def undecided_def)

lemma sample_session_serves: "serves sample_session [bytes_of quote_text]"
proof -
  let ?a = "quoted ''msg'' @ '':'' @ quoted ''authenticated''" and ?b = "quoted ''T'' @ '':'' @ quoted ''subscription''" and ?h = "bytes_of (''HTTP/1.1 101 OK'' @ crlf @ crlf)"
  let ?s3 = "text_frame (bytes_of quote_text)"
  let ?s2 = "text_frame (bytes_of ?b) @ ?s3"
  let ?s1 = "text_frame (bytes_of ?a) @ ?s2"
  have l: "length ?s3 < 2 ^ 32" "length ?s2 < 2 ^ 32" using quote_text_length by (simp_all add: text_frame_def bytes_of_def quoted_def)
  have "find_sub (bytes_of (crlf @ crlf)) ?h = Some 15" by (simp add: bytes_of_def of_char_def)
  then have f: "find_sub (bytes_of (crlf @ crlf)) (?h @ ?s1) = Some 15" by (rule find_sub_append)
  have "take 12 (?h @ ?s1) = bytes_of ''HTTP/1.1 101''" "drop (15 + 4) (?h @ ?s1) = ?s1" by (simp_all add: bytes_of_def)
  with f have u: "upgrade_reply (?h @ ?s1) ?s1" unfolding upgrade_reply_def by (intro conjI exI [of _ 15]) simp_all
  have a: "answered ?a ?s1 ?s2" using l(2) by (intro answered_first) (simp_all add: bytes_of_def quoted_def)
  have b: "answered ?b ?s2 ?s3" using l(1) by (intro answered_first) (simp_all add: bytes_of_def quoted_def)
  have "reads_as (?s3 @ []) [(OP_TEXT, bytes_of quote_text)] []" using quote_text_length by (intro text_frame_reads reads_as.over) simp_all
  with u a b show ?thesis unfolding serves_def sample_session_def
    by (intro exI [of _ ?s1] exI [of _ ?s2] exI [of _ ?s3] exI [of _ "[([], bytes_of quote_text)]"]) (simp add: reply_frames_def reply_ok_def)
qed

definition sample_env :: feed_env where
  "sample_env = \<lparr>fe_socket = 3, fe_pton = (\<lambda>_. True), fe_connect = (\<lambda>_ _. True), fe_getenv = (\<lambda>_. Some ''k''), fe_writable = (\<lambda>_. True),
     fe_file = (\<lambda>_. Some (capture_file (frame_records rat_fp quote_text)))\<rparr>"

lemma sample_env_facts: "exchange_up sample_env ''h:9'' 3" "credentials sample_env ''k'' ''k''" "symbol_args [''AMD'']"
proof -
  have "atoi ''9'' = Some 9" by (simp add: atoi_def decimal_def is_space_def is_digit_def digit_val_def)
  then show "exchange_up sample_env ''h:9'' 3" by (simp add: exchange_up_def dial_def sample_env_def)
  show "credentials sample_env ''k'' ''k''" by (simp add: credentials_def sample_env_def plain_def auth_json_def jstr_def escape_def entry_def SEND_LIMIT_def)
  show "symbol_args [''AMD'']" by (simp add: symbol_args_def plain_def subscribe_json_def jstr_def escape_def entry_def SEND_LIMIT_def)
qed

subsection \<open>Replaying\<close>

lemma replay_main:
  assumes "writer_ok (fs_send os fd) out" "never_fails (fs_send os fd)" "replay_ok os out" "exchange_up E hostport fd" "file \<noteq> []"
    and "fe_file E file = Some (capture_file rs)" "list_all (\<lambda>r. length (cr_symbol r) = SYMBOL_SIZE) rs"
  shows "gaps_castable (gap (atof speed)) 0 rs \<Longrightarrow>
       \<exists>res. feed_main F atof one gap os T E [''--replay'', file, ''--connect'', hostport, ''--speed'', speed] j k = Some res
         \<and> res_status res = 0 \<and> res_closed res = [fd] \<and> out (f_k (res_feed res)) = out k @ wire_stream (session_orders rs True)"
    and "\<not> gaps_castable (gap (atof speed)) 0 rs \<Longrightarrow>
       feed_main F atof one gap os T E [''--replay'', file, ''--connect'', hostport, ''--speed'', speed] j k = None"
proof -
  have fd: "fd \<ge> 0" "hostport \<noteq> []" "dial E hostport = Some (fd, [])" using assms(4) by (simp_all add: exchange_up_def)
  show "\<exists>res. feed_main F atof one gap os T E [''--replay'', file, ''--connect'', hostport, ''--speed'', speed] j k = Some res
      \<and> res_status res = 0 \<and> res_closed res = [fd] \<and> out (f_k (res_feed res)) = out k @ wire_stream (session_orders rs True)"
    if g: "gaps_castable (gap (atof speed)) 0 rs"
  proof -
    obtain k' where "replay_loop os (gap (atof speed)) 0 fd (capture_file rs) 0 0 0 (True, k)
        = Some (0 + of_nat (length rs), 0 + of_nat (length (session_orders rs True)), fold next_buy rs True, k')"
      "out k' = out k @ wire_stream (session_orders rs True)" using replay_loop_session [OF assms(1-3) fd(1) assms(7) g] by blast
    then show ?thesis using fd assms(5,6) by (simp add: feed_main_def next_arg_def options_new_def run_replay_def feed_new_def)
  qed
  show "feed_main F atof one gap os T E [''--replay'', file, ''--connect'', hostport, ''--speed'', speed] j k = None" if "\<not> gaps_castable (gap (atof speed)) 0 rs"
    using replay_loop_undefined [OF assms(1-3) fd(1) assms(7) that] fd assms(5,6) by (simp add: feed_main_def next_arg_def options_new_def run_replay_def feed_new_def)
qed

subsection \<open>Property\<close>

text \<open>
  C34. Capturing and replaying, as run from the command line. \<open>--capture FILE --connect HOST:PORT SYMBOL...\<close>, against a server that
  accepts the upgrade, the credentials and the subscription, sends text frames (in whatever pieces, with pings in between) and ends the stream, exits with status 0 with every
  handle released; the file holds exactly the records of the messages that \<open>normalize\<close> accepts, in order, and the bytes sent to the exchange are the images of their orders.
  Then \<open>--replay FILE --connect HOST:PORT --speed S\<close> exits with status 0, closes its connection and sends the exchange exactly the same bytes, for every speed at which the gaps
  between the records can be converted to 64-bit numbers of nanoseconds (in particular when the pauses are switched off, with a speed that is not positive); at any other speed it runs into
  undefined behaviour.
\<close>

theorem capture_then_replay:
  assumes "tls_ok T queue tout" and "tls_live T" and "dial_ok (tls_dial T DEFAULT_HOST 443)"
    and "writer_ok (fs_send os fd) out" and "never_fails (fs_send os fd)" and "replay_ok os out" and "cast_bounded F"
    and "exchange_up E hostport fd" and "credentials E key secret" and "symbol_args syms" and "file \<noteq> []" and "fe_writable E file"
    and "serves (queue j) ps" and "list_all (\<lambda>p. frame_castable F (text_of p)) ps"
    and "exchange_up E' hostport fd" and "fe_file E' file = Some (capture_file (concat (map (\<lambda>p. frame_records F (text_of p)) ps)))"
  shows "let rs = concat (map (\<lambda>p. frame_records F (text_of p)) ps);
             bytes = wire_stream (session_orders rs True)
         in (\<exists>res ws. feed_main F atof one gap os T E ([''--capture'', file, ''--connect'', hostport] @ syms) j k = Some res
               \<and> res_status res = 0 \<and> res_closed res = [fd] \<and> res_ws res = Some ws \<and> \<not> ws_ssl ws \<and> \<not> ws_ctx ws \<and> ws_fd ws < 0
               \<and> res_file res = Some (capture_file rs) \<and> out (f_k (res_feed res)) = out k @ bytes)
          \<and> (if gaps_castable (gap (atof speed)) 0 rs
             then \<exists>res. feed_main F atof one gap os T E' [''--replay'', file, ''--connect'', hostport, ''--speed'', speed] j' k' = Some res
               \<and> res_status res = 0 \<and> res_closed res = [fd] \<and> out (f_k (res_feed res)) = out k' @ bytes
             else feed_main F atof one gap os T E' [''--replay'', file, ''--connect'', hostport, ''--speed'', speed] j' k' = None)"
proof -
  let ?rs = "concat (map (\<lambda>p. frame_records F (text_of p)) ps)"
  define opt where "opt = (options_new one)\<lparr>o_capture := file, o_connect := hostport, o_symbols := syms\<rparr>"
  have fd: "fd \<ge> 0" "hostport \<noteq> []" "dial E hostport = Some (fd, [])" "dial E' hostport = Some (fd, [])" using assms(8,15) by (simp_all add: exchange_up_def)
  have sy: "syms \<noteq> []" "list_all (\<lambda>a. a \<noteq> [] \<and> hd a \<noteq> CHR ''-'') syms" "list_all plain syms" "length (jprint (subscribe_json syms True True)) < SEND_LIMIT"
    using assms(10) by (auto simp: symbol_args_def list_all_iff)
  have cr: "fe_getenv E ''APCA_API_KEY_ID'' = Some key" "fe_getenv E ''APCA_API_SECRET_KEY'' = Some secret" "plain key" "plain secret"
    "length (jprint (auth_json key secret)) < SEND_LIMIT" using assms(9) by (simp_all add: credentials_def)
  have args: "parse_args atof ([''--capture'', file, ''--connect'', hostport] @ syms) (options_new one) = Inr opt"
    using parse_symbols [OF sy(2), of atof "(options_new one)\<lparr>o_capture := file, o_connect := hostport\<rparr>"] by (simp add: opt_def next_arg_def options_new_def)
  have ra: "request_ok reads_as queue tout (authenticate T key secret) (bytes_of (auth_msg key secret)) (quoted ''msg'' @ '':'' @ quoted ''authenticated'') ''auth''"
    using cr(3-5) by (intro request_correct [OF assms(1,2)]) (simp_all add: authenticate_def bytes_of_def auth_msg_json)
  have rb: "request_ok reads_as queue tout (subscribe T (o_symbols opt) (o_trades opt) (o_quotes opt)) (bytes_of (subscribe_msg syms True True))
      (quoted ''T'' @ '':'' @ quoted ''subscription'') ''subscribe''"
    using sy(3,4) by (intro request_correct [OF assms(1,2)]) (simp_all add: subscribe_def bytes_of_def subscribe_msg_json opt_def options_new_def)
  have lim: "o_limit opt = 0" and path: "length (o_path opt) < 2 ^ 29" by (simp_all add: opt_def options_new_def DEFAULT_PATH_def)
  obtain ws st where live: "feed_live F os T opt fd [] (Some []) key secret j k = Some \<lparr>res_status = 0, res_closed = [] @ [fd], res_file = f_out st, res_ws = Some ws, res_feed = st\<rparr>"
    "session_step out ?rs (feed_new (Some []) k) st" "\<not> ws_ssl ws" "\<not> ws_ctx ws" "ws_fd ws < 0"
    using feed_live_session [OF assms(1-6) fd(1) assms(7) ra rb assms(13,14) lim path] by blast
  have "feed_main F atof one gap os T E ([''--capture'', file, ''--connect'', hostport] @ syms) j k = feed_live F os T opt fd [] (Some []) key secret j k"
    using args fd cr sy(1) assms(11,12) unfolding feed_main_def Let_def by (simp add: opt_def options_new_def)
  moreover have st: "f_out st = Some (capture_file ?rs)" "out (f_k st) = out k @ wire_stream (session_orders ?rs True)" "list_all capture_ok ?rs"
    using live(2) by (simp_all add: session_step_def feed_new_def)
  moreover have "list_all (\<lambda>r. length (cr_symbol r) = SYMBOL_SIZE) ?rs" using st(3) by (auto simp: list_all_iff capture_ok_def)
  note replay_main [OF assms(4-6,15,11,16) this, of gap atof speed F one T j' k']
  ultimately show ?thesis using live(1,3-5) unfolding Let_def by auto
qed

theorem capture_then_replay_witness:
  "\<exists>res res'. feed_main rat_fp (\<lambda>_. 0::nat) 1 (\<lambda>_. None) five_os loop_tls sample_env [''--capture'', ''f'', ''--connect'', ''h:9'', ''AMD''] (sample_session, []) [] = Some res
     \<and> res_status res = 0 \<and> res_file res = Some (capture_file (frame_records rat_fp quote_text))
     \<and> feed_main rat_fp (\<lambda>_. 0::nat) 1 (\<lambda>_. None) five_os loop_tls sample_env [''--replay'', ''f'', ''--connect'', ''h:9'', ''--speed'', ''0''] ([], []) [] = Some res'
     \<and> res_status res' = 0 \<and> f_k (res_feed res') = f_k (res_feed res)"
proof -
  have d: "dial_ok (tls_dial loop_tls DEFAULT_HOST 443)" by (simp add: dial_ok_def loop_tls_def)
  have s: "serves (fst (sample_session, [] :: u8 list)) [bytes_of quote_text]" using sample_session_serves by simp
  have c: "list_all (\<lambda>p. frame_castable rat_fp (text_of p)) [bytes_of quote_text]" using quote_frame_castable by (simp add: text_of_bytes_of quote_text_def)
  have w: "''f'' \<noteq> []" "fe_writable sample_env ''f''"
    "fe_file sample_env ''f'' = Some (capture_file (concat (map (\<lambda>p. frame_records rat_fp (text_of p)) [bytes_of quote_text])))"
    by (simp_all add: sample_env_def text_of_bytes_of)
  show ?thesis
    using capture_then_replay [OF loop_tls_ok d five_os_ok rat_cast_bounded sample_env_facts w(1,2) s c sample_env_facts(1) w(3), of "\<lambda>_. 0::nat" 1 "\<lambda>_. None" "[]" "''0''" "([], [])" "[]"]
    by (simp add: text_of_bytes_of) metis
qed

end
