(* ===== verification/System.thy ===== *)
theory System
  imports Engine_Replies Book_Counts Feed_Main
begin

section \<open>The feed and the exchange together\<close>

text \<open>
  Composes the two programs: the feed program (\<^verbatim>\<open>src/src/feed/feed_main.cpp\<close>) replays a capture file into a connection of the exchange
  (\<^verbatim>\<open>src/src/main.cpp\<close>). The connection between them is a TCP stream: what the gateway has received is a prefix of what the feed has sent. The
  capture file is one that the feed itself wrote (\<open>capture_ok\<close>, which \<open>normalize\<close> guarantees).
\<close>

subsection \<open>Frames of a stream of messages\<close>

lemma frames_wire_stream: "frames (wire_stream ws) = map wire_bytes ws"
  by (induction ws) (simp_all add: frames_cons frames_short WIRE_MSG_SIZE_def)

lemma length_frames: "length (frames s) = length s div WIRE_MSG_SIZE"
proof (induction s rule: frames.induct)
  case (1 s)
  then show ?case
    by (cases "WIRE_MSG_SIZE \<le> length s") (simp_all add: frames.simps [of s] WIRE_MSG_SIZE_def le_div_geq)
qed

lemma frames_prefix:
  assumes "prefix s (wire_stream ws)"
  shows "frames s = map wire_bytes (take (length s div WIRE_MSG_SIZE) ws)"
proof -
  from assms obtain bs where bs: "wire_stream ws = s @ bs" by (auto simp: prefix_def)
  have "map wire_bytes ws = frames s @ frames (leftover s @ bs)" using frames_append [of s bs] frames_wire_stream [of ws] bs by simp
  then have "take (length (frames s)) (map wire_bytes ws) = frames s" by simp
  then show ?thesis by (simp add: take_map length_frames)
qed

subsection \<open>Orders of the feed\<close>

definition feed_order :: "WireMessage \<Rightarrow> bool" where
  "feed_order w \<longleftrightarrow> msg_type_of_u8 (w_type w) = NewOrder \<and> order_type_of_u8 (w_order_type w) = Limit \<and> side_of_u8 (w_side w) \<in> {Buy, Sell}
     \<and> MIN_PRICE \<le> w_price w \<and> w_price w \<le> MAX_PRICE \<and> w_client_id w = 1"

lemma order_msg_feed: "sd \<in> {Buy, Sell} \<Longrightarrow> MIN_PRICE \<le> p \<Longrightarrow> p \<le> MAX_PRICE \<Longrightarrow> feed_order (order_msg r 1 sd p q)"
  by (auto simp: feed_order_def order_msg_def msg_type_of_u8_def order_type_of_u8_def side_of_u8_def)

lemma session_orders_feed: "list_all capture_ok rs \<Longrightarrow> w \<in> set (session_orders rs buy) \<Longrightarrow> feed_order w"
  by (induction rs arbitrary: buy) (auto simp: tick_orders_def capture_ok_def is_quote_def order_msg_feed split: if_splits)

subsection \<open>The book is never full within the limits\<close>

lemma spec_process_size: "spec_process cap tsc msg S = (S', ms) \<Longrightarrow> book_size (se_book S') \<le> Suc (book_size (se_book S))"
  using spec_cancel_size [of "in_order_id msg" "se_book S"]
  by (cases "in_type msg") (auto simp: spec_process_def dest: spec_add_size spec_modify_size split: prod.splits)

lemma spec_run_size: "spec_run cap xs S = (S', ms) \<Longrightarrow> book_size (se_book S') \<le> book_size (se_book S) + length xs"
proof (induction xs arbitrary: S ms)
  case (Cons x xs)
  then obtain S1 ms1 ms2 where r: "spec_process cap (fst x) (snd x) S = (S1, ms1)" "spec_run cap xs S1 = (S', ms2)" by (auto split: prod.splits)
  from Cons.IH [OF r(2)] spec_process_size [OF r(1)] show ?case by simp
qed simp

lemma feed_order_accepted:
  assumes "feed_order w" "m = to_inbound tsc0 w" "book_size (se_book S) < cap"
  shows "\<exists>B fs. spec_add cap (se_next S) 1 (in_side m) Limit (in_price m) (in_quantity m) (in_recv_tsc m) (se_book S) = (True, B, fs)
     \<and> spec_process cap tsc m S = (\<lparr>se_book = B, se_next = se_next S + 1, se_match = se_match S + of_nat (length fs)\<rparr>,
         accept_msg 1 (se_next S) tsc # exec_msgs tsc (se_match S) fs)"
proof -
  obtain ok B fs where a: "spec_add cap (se_next S) (in_client_id m) (in_side m) (in_order_type m) (in_price m) (in_quantity m) (in_recv_tsc m) (se_book S) = (ok, B, fs)"
    using prod_cases3 by blast
  have m: "in_type m = NewOrder" "in_order_type m = Limit" "MIN_PRICE \<le> in_price m" "in_price m \<le> MAX_PRICE" "in_client_id m = 1"
    using assms(1,2) by (simp_all add: feed_order_def to_inbound_def)
  then have "\<not> rejects cap (in_order_type m) (in_price m) (se_book S)" using assms(3) by (auto simp: rejects_def book_size_def)
  with a have "ok" by (auto simp: spec_add_def Let_def split: prod.splits)
  with a m show ?thesis by (simp add: spec_process_def)
qed

subsection \<open>What an iteration of the engine does\<close>

lemma engine_step_spec:
  assumes "exchange_inv x" "exchange_step os Engine_thread x y" "within_limits y" "in_ring x = m # ms"
  obtains t ns where "spec_process MAX_ORDERS t m (engine_abs (x_engine x)) = (engine_abs (x_engine y), ns)"
    "out_ring y = out_ring x @ take (RING_SIZE - length (out_ring x)) ns"
  using assms(2)
proof (cases rule: exchange_step.cases)
  case (engine tsc e)
  note v = assms(1) [unfolded exchange_inv_def]
  have ok: "ring_ok RING_SIZE (inbound (x_engine x))" using v by (auto simp: in_inv_def)
  have "fst (ring_pop RING_SIZE (inbound (x_engine x))) = Some m" using rq.pop_law [OF ok] v assms(4) by auto
  then have dn: "h_done y = h_done x @ [(tsc, m)]" "h_sent y = h_sent x" by (simp_all add: engine(1) popped_def share_engine_def)
  have y: "exchange_inv y" "keeps_what_fits x y" using exchange_inv_engine [OF assms(1) engine(3) assms(3)] engine(1) by simp_all
  obtain ns where sp: "spec_process MAX_ORDERS tsc m (engine_abs (x_engine x)) = (engine_abs (x_engine y), ns)" "replies (h_done y) = replies (h_done x) @ ns"
  proof -
    have "fst (spec_run MAX_ORDERS (h_done x) spec_start) = engine_abs (x_engine x)" "fst (spec_run MAX_ORDERS (h_done y) spec_start) = engine_abs (x_engine y)"
      using v y(1) by (auto simp: exchange_inv_def out_inv_def)
    then show thesis by (intro that [of "snd (spec_process MAX_ORDERS tsc m (engine_abs (x_engine x)))"])
      (auto simp: dn(1) spec_run_snoc replies_def split: prod.splits)
  qed
  from y(2) sp(2) dn(2) have "out_ring y = out_ring x @ take (RING_SIZE - length (out_ring x)) ns" by (auto simp: keeps_what_fits_def simp del: length_contents)
  with sp(1) show thesis by (rule that)
qed

lemma engine_step_accepts:
  assumes "recv_fits os" "exchange_inv x" "exchange_step os Engine_thread x y" "within_limits y" "in_ring x = m # ms"
    "feed_order w" "m = to_inbound t0 w" "book_size (abs_book (book (x_engine x))) < MAX_ORDERS"
  shows "\<exists>t fs. spec_add MAX_ORDERS (next_id (x_engine x)) 1 (in_side m) Limit (in_price m) (in_quantity m) (in_recv_tsc m) (abs_book (book (x_engine x)))
        = (True, abs_book (book (x_engine y)), fs) \<and> next_id (x_engine y) = next_id (x_engine x) + 1
      \<and> contents RING_SIZE (outbound (x_engine y)) = contents RING_SIZE (outbound (x_engine x))
          @ take (RING_SIZE - length (contents RING_SIZE (outbound (x_engine x)))) (accept_msg 1 (next_id (x_engine x)) t # exec_msgs t (match_number (x_engine x)) fs)"
proof -
  obtain t ns where e: "spec_process MAX_ORDERS t m (engine_abs (x_engine x)) = (engine_abs (x_engine y), ns)"
    "out_ring y = out_ring x @ take (RING_SIZE - length (out_ring x)) ns" by (rule engine_step_spec [OF assms(2-5)])
  have r: "outbound (x_engine x) = g_outbound (x_gateway x)" using assms(2) by (simp add: exchange_inv_def)
  have r': "outbound (x_engine y) = g_outbound (x_gateway y)" using exchange_step_inv [OF assms(1,3,2,4)] by (simp add: exchange_inv_def)
  from feed_order_accepted [OF assms(6,7), of "engine_abs (x_engine x)" MAX_ORDERS t] assms(8) e obtain fs where
    "spec_add MAX_ORDERS (next_id (x_engine x)) 1 (in_side m) Limit (in_price m) (in_quantity m) (in_recv_tsc m) (abs_book (book (x_engine x))) = (True, abs_book (book (x_engine y)), fs)"
    "next_id (x_engine y) = next_id (x_engine x) + 1" "ns = accept_msg 1 (next_id (x_engine x)) t # exec_msgs t (match_number (x_engine x)) fs"
    by (auto simp: engine_abs_def)
  with e(2) show ?thesis unfolding r r' by blast
qed

lemma list_all2_member: "list_all2 P xs ys \<Longrightarrow> x \<in> set xs \<Longrightarrow> \<exists>y\<in>set ys. P x y"
  by (induction rule: list_all2_induct) auto

text \<open>The acceptance of an order that was processed is among the replies.\<close>

lemma replies_split: "replies (d @ y # d') = replies d @ snd (spec_process MAX_ORDERS (fst y) (snd y) (fst (spec_run MAX_ORDERS d spec_start)))
     @ snd (spec_run MAX_ORDERS d' (fst (spec_run MAX_ORDERS (d @ [y]) spec_start)))"
proof -
  have "spec_run cap (xs @ ys) S = (case spec_run cap xs S of (S1, ms) \<Rightarrow> case spec_run cap ys S1 of (S2, ns) \<Rightarrow> (S2, ms @ ns))" for cap xs ys S
    by (induction xs arbitrary: S) (auto split: prod.splits)
  from this [of MAX_ORDERS d "y # d'" spec_start] this [of MAX_ORDERS d "[y]" spec_start] show ?thesis by (simp add: replies_def split: prod.split)
qed

lemma accepted_among_replies:
  assumes "(t, m) \<in> set dn" "feed_order w" "m = to_inbound t0 w"
    and "\<And>d d'. dn = d @ d' \<Longrightarrow> book_size (se_book (fst (spec_run MAX_ORDERS d spec_start))) < MAX_ORDERS"
  shows "\<exists>n. accept_msg 1 n t \<in> set (replies dn)"
proof -
  obtain d d' where d: "dn = d @ (t, m) # d'" using assms(1) by (auto simp: in_set_conv_decomp)
  from feed_order_accepted [OF assms(2,3) assms(4) [OF d], of t] show ?thesis unfolding d replies_split by auto
qed

subsection \<open>Property\<close>

text \<open>
  C10. The feed replayed into the exchange. The feed program, started with \<open>--replay FILE --connect HOST:PORT --speed S\<close> on a file of records that \<open>normalize\<close> accepts, exits with status 0. Let its connection
  be the one in slot \<open>i\<close> of the exchange, which has received so far any prefix of the bytes the feed has sent, in whatever pieces and with whatever other clients. Then the messages that the exchange
  has read from this connection are exactly the orders of the records in the file, in order, as far as they have arrived, and none is dropped by the inbound ring while no more than its capacity were offered.
  As long as the exchange has processed fewer than \<open>2 ^ 20 - 1\<close> requests altogether (so that the identifiers are unambiguous and the pool of the book cannot be full), each of them is accepted by the engine,
  never rejected: whenever such an order is at the front of the inbound ring, the engine's next iteration adds it to the book as an order of client 1 under the next identifier, and what it puts into the outbound ring, as far as that has
  free cells, is the acceptance followed by the executions; and for each one processed so far, the acceptance is among the replies that were broadcast or are waiting, while no more replies than the ring holds were produced.
  (The replay returns provided the gaps between the records can be converted at the speed asked for.)
\<close>

theorem replay_into_exchange:
  assumes "writer_ok (fs_send fos fd) out" and "never_fails (fs_send fos fd)" and "replay_ok fos out" and "exchange_up E hostport fd" and "file \<noteq> []"
    and "fe_file E file = Some (capture_file rs)" and "list_all capture_ok rs" and "out fk = []"
    and "recv_fits os" and "exchange_start ji jo sock bind_rc listen_rc ep ctl_rc k0 = Some x0" and "exchange_reach os x0 x" and "within_limits x"
    and "i < MAX_CLIENTS" and "c_active (clients (x_gateway x) ! i)" and "gaps_castable (gap (atof speed)) 0 rs"
  shows "\<exists>res. feed_main F atof one gap fos T E [''--replay'', file, ''--connect'', hostport, ''--speed'', speed] j fk = Some res \<and> res_status res = 0
     \<and> (prefix (h_stream x i) (out (f_k (res_feed res))) \<longrightarrow>
          list_all2 (\<lambda>m w. \<exists>t. m = to_inbound t w) (h_msgs x i) (take (length (h_stream x i) div WIRE_MSG_SIZE) (session_orders rs True))
        \<and> (length (h_offered x) \<le> RING_SIZE \<longrightarrow> subseq (h_msgs x i) (h_accepted x))
        \<and> (\<forall>m ms y. contents RING_SIZE (g_inbound (x_gateway x)) = m # ms \<and> m \<in> set (h_msgs x i) \<and> exchange_step os Engine_thread x y \<and> within_limits y \<longrightarrow>
              (\<exists>t fs. spec_add MAX_ORDERS (next_id (x_engine x)) 1 (in_side m) Limit (in_price m) (in_quantity m) (in_recv_tsc m) (abs_book (book (x_engine x)))
                    = (True, abs_book (book (x_engine y)), fs)
                 \<and> next_id (x_engine y) = next_id (x_engine x) + 1
                 \<and> contents RING_SIZE (outbound (x_engine y)) = contents RING_SIZE (outbound (x_engine x))
                     @ take (RING_SIZE - length (contents RING_SIZE (outbound (x_engine x))))
                         (accept_msg 1 (next_id (x_engine x)) t # exec_msgs t (match_number (x_engine x)) fs)))
        \<and> (\<forall>t m. (t, m) \<in> set (h_done x) \<and> m \<in> set (h_msgs x i) \<and> length (replies (h_done x)) \<le> RING_SIZE \<longrightarrow>
              (\<exists>n. accept_msg 1 n t \<in> set (map fst (h_sent x) @ contents RING_SIZE (outbound (x_engine x))))))"
proof -
  let ?ws = "session_orders rs True"
  have "list_all (\<lambda>r. length (cr_symbol r) = SYMBOL_SIZE) rs" using assms(7) by (auto simp: list_all_iff capture_ok_def)
  from replay_main(1) [where gap = gap and atof = atof and speed = speed, OF assms(1-6) this assms(15)] obtain res where
    res: "feed_main F atof one gap fos T E [''--replay'', file, ''--connect'', hostport, ''--speed'', speed] j fk = Some res" "res_status res = 0"
      "out (f_k (res_feed res)) = wire_stream ?ws" using assms(8) by fastforce
  have v: "exchange_inv x" by (rule exchange_reach_inv [OF assms(9) exchange_start_inv [OF assms(10)] assms(11,12)])
  then have ci: "conn_inv (x_gateway x) (h_stream x) (h_msgs x) (h_offered x)" and ii: "in_inv (g_inbound (x_gateway x)) (h_accepted x) (h_offered x) (h_done x)"
    and oi: "out_inv (x_engine x) (h_done x) (map fst (h_sent x))" and rings: "outbound (x_engine x) = g_outbound (x_gateway x)"
    by (simp_all add: exchange_inv_def)
  have sub: "subseq (h_msgs x i) (h_offered x)" using ci by (simp add: conn_inv_def)
  have acc: "length (h_offered x) \<le> RING_SIZE \<longrightarrow> h_accepted x = h_offered x" using ii unfolding in_inv_def by blast
  have "list_all2 decoded (h_msgs x i) (frames (h_stream x i))" using ci assms(13,14) by (simp add: conn_inv_def slot_ok_def)
  then have msgs: "list_all2 (\<lambda>m w. \<exists>t. m = to_inbound t w) (h_msgs x i) (take (length (h_stream x i) div WIRE_MSG_SIZE) ?ws)"
    if "prefix (h_stream x i) (wire_stream ?ws)"
    unfolding frames_prefix [OF that] by (simp add: list_all2_map2 decoded_def)
  have feed: "\<exists>w t0. feed_order w \<and> m = to_inbound t0 w" if "prefix (h_stream x i) (wire_stream ?ws)" "m \<in> set (h_msgs x i)" for m
    using list_all2_member [OF msgs [OF that(1)] that(2)] session_orders_feed [OF assms(7)] by (meson in_set_takeD)
  have room: "book_size (se_book (fst (spec_run MAX_ORDERS d spec_start))) < MAX_ORDERS" if "h_done x = d @ d'" for d d'
    using spec_run_size [of MAX_ORDERS d spec_start] assms(12) that
    by (cases "spec_run MAX_ORDERS d spec_start") (fastforce simp: spec_start_def book_size_def within_limits_def)
  have next_one: "\<exists>t fs. spec_add MAX_ORDERS (next_id (x_engine x)) 1 (in_side m) Limit (in_price m) (in_quantity m) (in_recv_tsc m) (abs_book (book (x_engine x)))
        = (True, abs_book (book (x_engine y)), fs) \<and> next_id (x_engine y) = next_id (x_engine x) + 1
      \<and> contents RING_SIZE (outbound (x_engine y)) = contents RING_SIZE (outbound (x_engine x))
          @ take (RING_SIZE - length (contents RING_SIZE (outbound (x_engine x)))) (accept_msg 1 (next_id (x_engine x)) t # exec_msgs t (match_number (x_engine x)) fs)"
    if p: "prefix (h_stream x i) (wire_stream ?ws)" and m: "in_ring x = m # ms" "m \<in> set (h_msgs x i)" and y: "exchange_step os Engine_thread x y" "within_limits y" for m ms y
  proof -
    obtain w t0 where w: "feed_order w" "m = to_inbound t0 w" using feed [OF p m(2)] by blast
    have "fst (spec_run MAX_ORDERS (h_done x) spec_start) = engine_abs (x_engine x)" using oi by (simp add: out_inv_def)
    with room [of "h_done x" "[]"] have "book_size (abs_book (book (x_engine x))) < MAX_ORDERS" by (simp add: engine_abs_def)
    from engine_step_accepts [OF assms(9) v y m(1) w this] show ?thesis .
  qed
  have past: "\<exists>n. accept_msg 1 n t \<in> set (map fst (h_sent x) @ contents RING_SIZE (outbound (x_engine x)))"
    if p: "prefix (h_stream x i) (wire_stream ?ws)" and d: "(t, m) \<in> set (h_done x)" "m \<in> set (h_msgs x i)" and few: "length (replies (h_done x)) \<le> RING_SIZE" for t m
  proof -
    obtain w t0 where w: "feed_order w" "m = to_inbound t0 w" using feed [OF p d(2)] by blast
    from oi few have "replies (h_done x) = map fst (h_sent x) @ contents RING_SIZE (outbound (x_engine x))" unfolding out_inv_def by metis
    with accepted_among_replies [OF d(1) w room] show ?thesis by simp
  qed
  have "length (h_offered x) \<le> RING_SIZE \<longrightarrow> subseq (h_msgs x i) (h_accepted x)" using sub acc by simp
  with res(1,2) msgs next_one past show ?thesis unfolding res(3) [symmetric]
    by (intro exI [of _ res] conjI impI allI) (assumption | (elim conjE)?, blast)+
qed

definition quote_env :: feed_env where
  "quote_env = sample_env\<lparr>fe_file := (\<lambda>_. Some (capture_file [sample_quote]))\<rparr>"

definition quote_buy :: WireMessage where
  "quote_buy = order_msg sample_quote 1 Buy 9195 200"

lemma quote_env_facts: "exchange_up quote_env ''h:9'' 3" "list_all capture_ok [sample_quote]"
  "session_orders [sample_quote] True = [quote_buy, order_msg sample_quote 1 Sell 9198 100]"
proof -
  show "exchange_up quote_env ''h:9'' 3" using sample_env_facts(1) by (simp add: quote_env_def exchange_up_def dial_def sample_env_def)
  show "list_all capture_ok [sample_quote]" by (simp add: capture_ok_def sample_quote_def TickType_Quote_def TickType_Trade_def symbol_field_def SYMBOL_SIZE_def const_defs)
  show "session_orders [sample_quote] True = [quote_buy, order_msg sample_quote 1 Sell 9198 100]"
    by (simp add: tick_orders_def is_quote_def sample_quote_def TickType_Quote_def quote_buy_def)
qed

theorem replay_into_exchange_witness:
  "\<exists>x res n. exchange_reach talk_os (talk_start quote_buy) x \<and> h_msgs x 0 = [to_inbound 0 quote_buy]
     \<and> feed_main rat_fp (\<lambda>_. 0::nat) 1 (\<lambda>_. None) five_os loop_tls quote_env [''--replay'', ''f'', ''--connect'', ''h:9'', ''--speed'', ''0''] ([], []) [] = Some res
     \<and> res_status res = 0 \<and> h_done x = [(3, to_inbound 0 quote_buy)]
     \<and> accept_msg 1 n 3 \<in> set (map fst (h_sent x) @ contents RING_SIZE (outbound (x_engine x)))"
proof -
  have rep: "replies [(3, to_inbound 0 quote_buy)] = [accept_msg 1 1 3]"
    using spec_add_empty [of 200 9195 MAX_ORDERS 1 1 Buy 0]
    by (simp add: replies_def spec_start_def spec_process_def quote_buy_def order_msg_def to_inbound_def msg_type_of_u8_def side_of_u8_def order_type_of_u8_def
        const_defs half_of_def)
  obtain x where x: "exchange_reach talk_os (talk_start quote_buy) x" "within_limits x" "h_done x = [(3, to_inbound 0 quote_buy)]"
    "h_stream x 0 = wire_bytes quote_buy" "h_msgs x 0 = [to_inbound 0 quote_buy]" "x_pc x = G_read 7 0 []"
    by (rule talk_processed [of quote_buy]) (simp_all add: rep)
  have "exchange_inv x" by (rule exchange_reach_inv [OF talk_os_fits exchange_start_inv [OF talk_start_start] x(1,2)])
  then have c: "c_active (clients (x_gateway x) ! 0)" "0 < MAX_CLIENTS" by (simp_all add: exchange_inv_def x(6))
  have f: "fe_file quote_env ''f'' = Some (capture_file [sample_quote])" "''f'' \<noteq> []" by (simp_all add: quote_env_def)
  from replay_into_exchange [OF five_os_ok quote_env_facts(1) f(2,1) quote_env_facts(2) refl talk_os_fits talk_start_start x(1,2) c(2,1),
      of "\<lambda>_. None" "\<lambda>_. 0::nat" "''0''" rat_fp 1 loop_tls "([], [])"] gaps_castable_None
  obtain res where res: "feed_main rat_fp (\<lambda>_. 0::nat) 1 (\<lambda>_. None) five_os loop_tls quote_env [''--replay'', ''f'', ''--connect'', ''h:9'', ''--speed'', ''0''] ([], []) [] = Some res"
    "res_status res = 0" and p: "prefix (h_stream x 0) (f_k (res_feed res)) \<Longrightarrow> \<forall>t m. (t, m) \<in> set (h_done x) \<and> m \<in> set (h_msgs x 0) \<and> length (replies (h_done x)) \<le> RING_SIZE \<longrightarrow>
       (\<exists>n. accept_msg 1 n t \<in> set (map fst (h_sent x) @ contents RING_SIZE (outbound (x_engine x))))"
    by blast
  have "list_all (\<lambda>r. length (cr_symbol r) = SYMBOL_SIZE) [sample_quote]" using quote_env_facts(2) by (simp add: capture_ok_def)
  from replay_main(1) [OF five_os_ok quote_env_facts(1) f(2,1) this, of "\<lambda>_. None" "\<lambda>_. 0::nat" "''0''" rat_fp 1 loop_tls "([], [])" "[]"] res(1) gaps_castable_None [of 0 "[sample_quote]"]
  have "f_k (res_feed res) = wire_bytes quote_buy @ wire_bytes (order_msg sample_quote 1 Sell 9198 100)" by (simp add: quote_env_facts(3) del: session_orders.simps gaps_castable.simps)
  then have "prefix (h_stream x 0) (f_k (res_feed res))" using x(4) by simp
  from p [OF this, rule_format, of 3 "to_inbound 0 quote_buy"] x(3,5) res x(1) rep show ?thesis by (auto simp: RING_SIZE_def)
qed

end
