(* ===== verification/Ring_Linear.thy ===== *)
theory Ring_Linear
  imports Spsc_Ring
begin

section \<open>The ring is an atomic queue\<close>

text \<open>
  The interleaved threads of \<open>Spsc_Ring\<close> refine a queue whose operations are atomic. A call of \<open>push\<close> or \<open>pop\<close> takes effect in the
  step in which it returns: the store of the own index when it succeeds, the load of the other index when it fails. The history of
  these effects, in the order in which they happen, is a history of the bounded queue, so that clients of the ring may be
  reasoned about as if \<open>ring_push\<close> and \<open>ring_pop\<close> were atomic. Conversely, the steps of one call without interference amount to these
  functions.
\<close>

subsection \<open>The atomic queue\<close>

datatype 'a ring_event = Pushed 'a bool | Popped "'a option"

inductive queue_step :: "nat \<Rightarrow> 'a list \<Rightarrow> 'a ring_event \<Rightarrow> 'a list \<Rightarrow> bool" for cap where
  push: "length q < cap \<Longrightarrow> queue_step cap q (Pushed x True) (q @ [x])"
| full: "length q = cap \<Longrightarrow> queue_step cap q (Pushed x False) q"
| pop: "queue_step cap (x # q) (Popped (Some x)) q"
| empty: "queue_step cap [] (Popped None) []"

inductive_simps queue_step_simps [simp]:
  "queue_step cap q (Pushed x True) q'" "queue_step cap q (Pushed x False) q'" "queue_step cap q (Popped (Some x)) q'" "queue_step cap q (Popped None) q'"

inductive queue_run :: "nat \<Rightarrow> 'a ring_event list \<Rightarrow> 'a list \<Rightarrow> bool" for cap where
  start: "queue_run cap [] []"
| event: "queue_run cap evs q \<Longrightarrow> queue_step cap q ev q' \<Longrightarrow> queue_run cap (evs @ [ev]) q'"

subsection \<open>Histories of the ring\<close>

definition producer_event :: "'a ring_state \<Rightarrow> 'a ring_state \<Rightarrow> 'a ring_event list" where
  "producer_event c c' = (case producer_pc c of
       PReload x h \<Rightarrow> if producer_pc c' = PIdle then [Pushed x False] else []
     | PPublish x h \<Rightarrow> if producer_pc c' = PIdle then [Pushed x True] else []
     | _ \<Rightarrow> [])"

definition consumer_event :: "'a ring_state \<Rightarrow> 'a ring_state \<Rightarrow> 'a ring_event list" where
  "consumer_event c c' = (case consumer_pc c of
       CReload t \<Rightarrow> if consumer_pc c' = CIdle then [Popped None] else []
     | CPublish t y \<Rightarrow> if consumer_pc c' = CIdle then [Popped (Some y)] else []
     | _ \<Rightarrow> [])"

inductive ring_history :: "nat \<Rightarrow> (nat \<Rightarrow> 'a) \<Rightarrow> 'a ring_event list \<Rightarrow> 'a ring_state \<Rightarrow> bool" for cap junk where
  init: "ring_history cap junk [] (ring_init junk)"
| step: "ring_history cap junk evs c \<Longrightarrow> ring_step cap c c' \<Longrightarrow> ring_history cap junk (evs @ producer_event c c' @ consumer_event c c') c'"

lemma ring_history_reach: "ring_history cap junk evs c \<Longrightarrow> ring_reach cap junk c"
  by (induction rule: ring_history.induct) (auto intro: ring_reach.intros)

subsection \<open>Refinement\<close>

text \<open>A step of a thread is an atomic operation on the contents, or does not change them.\<close>

lemma ring_step_atomic:
  assumes "ring_step cap c c'" "ring_inv cap c" "ring_inv cap c'"
  shows "(producer_event c c' @ consumer_event c c' = [] \<and> contents cap (shared c') = contents cap (shared c))
     \<or> (\<exists>ev. producer_event c c' @ consumer_event c c' = [ev] \<and> queue_step cap (contents cap (shared c)) ev (contents cap (shared c')))"
proof -
  note i = ring_invD [OF assms(2)] and d = ring_okD [OF ring_invD(1) [OF assms(2)]]
  note h = i(4) ring_invD(4) [OF assms(3)]
  have same: "contents cap (shared c') = contents cap (shared c)" if "snt' = sent c'" "rv' = rcvd c'" "snt' = sent c" "rv' = rcvd c" for snt' rv'
    using h that by simp
  note ev = producer_event_def consumer_event_def
  from assms(1) show ?thesis
  proof (cases rule: ring_step.cases)
    case (p_start h x)
    then show ?thesis using same by (auto simp: ev split: consumer.splits)
  next
    case (p_reload x h t)
    have "length (contents cap (shared c)) = cap" if "h - t \<ge> of_nat cap"
      using that i(5) p_reload full_iff [OF d(1,6)] d(7) by simp
    then show ?thesis using same p_reload by (auto simp: ev split: consumer.splits simp del: length_contents)
  next
    case (p_write x h)
    then show ?thesis using same by (auto simp: ev split: consumer.splits)
  next
    case (p_publish x h)
    then have "contents cap (shared c') = contents cap (shared c) @ [x]" using h by simp
    moreover have "length (contents cap (shared c')) \<le> cap" by (rule contents_bound [OF ring_invD(1) [OF assms(3)]])
    ultimately show ?thesis using p_publish by (auto simp: ev split: consumer.splits simp del: length_contents)
  next
    case (c_start t)
    then show ?thesis using same by (auto simp: ev split: producer.splits)
  next
    case (c_reload t h)
    have "contents cap (shared c) = []" if "h \<le> t" using that i(6) c_reload by (simp add: contents_def word_le_nat_alt)
    then show ?thesis using same c_reload by (auto simp: ev split: producer.splits)
  next
    case (c_read t)
    then show ?thesis using same by (auto simp: ev split: producer.splits)
  next
    case (c_publish t y)
    then have "contents cap (shared c) = y # contents cap (shared c')" using h by simp
    then show ?thesis using c_publish by (auto simp: ev split: producer.splits)
  qed
qed

lemma ring_history_queue:
  assumes "cap_ok cap"
  shows "ring_history cap junk evs c \<Longrightarrow> length (sent c) < 2 ^ 64 \<Longrightarrow> queue_run cap evs (contents cap (shared c))"
proof (induction rule: ring_history.induct)
  case init
  then show ?case using queue_run.start by (simp add: ring_init_def ring_new_ok)
next
  case (step evs c c')
  note r = ring_history_reach [OF step.hyps(1)]
  have l: "length (sent c) < 2 ^ 64" using step.prems ring_step_sent [OF step.hyps(2)] by simp
  from ring_step_atomic [OF step.hyps(2) ring_reach_inv [OF assms r l] ring_reach_inv [OF assms ring_reach.step [OF r step.hyps(2)] step.prems]]
  show ?case
  proof (elim disjE conjE exE)
    fix ev
    assume "producer_event c c' @ consumer_event c c' = [ev]" "queue_step cap (contents cap (shared c)) ev (contents cap (shared c'))"
    with queue_run.event [OF step.IH [OF l]] show ?thesis by auto
  qed (use step.IH [OF l] in simp)
qed

text \<open>Every item sent has its event.\<close>

lemma ring_history_sent: "ring_history cap junk evs c \<Longrightarrow> length (sent c) \<le> length evs"
proof (induction rule: ring_history.induct)
  case (step evs c c')
  have "length (sent c') \<le> length (sent c) + length (producer_event c c')"
    using step.hyps(2) by (cases rule: ring_step.cases) (auto simp: producer_event_def)
  with step.IH show ?case by simp
qed (simp add: ring_init_def)

subsection \<open>Calls without interference\<close>

lemma history_silent:
  assumes "ring_history cap junk evs c" "ring_step cap c c'" "producer_event c c' = []" "consumer_event c c' = []"
  shows "ring_history cap junk evs c'"
  using ring_history.step [OF assms(1,2)] assms(3,4) by simp

lemma history_event:
  assumes "ring_history cap junk evs c" "ring_step cap c c'" "producer_event c c' @ consumer_event c c' = [ev]"
  shows "ring_history cap junk (evs @ [ev]) c'"
  using ring_history.step [OF assms(1,2)] assms(3) by simp

lemma no_event:
  "consumer_pc c' = consumer_pc c \<Longrightarrow> consumer_event c c' = []" "producer_pc c' = producer_pc c \<Longrightarrow> producer_event c c' = []"
  "producer_pc c' \<noteq> PIdle \<Longrightarrow> producer_event c c' = []" "consumer_pc c' \<noteq> CIdle \<Longrightarrow> consumer_event c c' = []"
  by (auto simp: producer_event_def consumer_event_def split: producer.splits consumer.splits)

lemma history_store:
  assumes "ring_history cap junk evs c" "producer_pc c = PWrite x h"
  shows "\<exists>c'. ring_history cap junk (evs @ [Pushed x True]) c' \<and> shared c' = (shared c)\<lparr>buffer := (buffer (shared c))(cell cap h := x), r_head := h + 1\<rparr>
      \<and> producer_pc c' = PIdle \<and> consumer_pc c' = consumer_pc c"
proof -
  let ?c1 = "c\<lparr>shared := (shared c)\<lparr>buffer := (buffer (shared c))(cell cap h := x)\<rparr>, producer_pc := PPublish x h\<rparr>"
  let ?c2 = "?c1\<lparr>shared := (shared ?c1)\<lparr>r_head := h + 1\<rparr>, producer_pc := PIdle, sent := sent ?c1 @ [x]\<rparr>"
  have "ring_history cap junk evs ?c1" by (rule history_silent [OF assms(1) ring_step.p_write [OF assms(2)]]) (simp_all add: no_event)
  moreover have "ring_step cap ?c1 ?c2" by (rule ring_step.p_publish) simp
  moreover have "producer_event ?c1 ?c2 @ consumer_event ?c1 ?c2 = [Pushed x True]" by (simp add: no_event) (simp add: producer_event_def)
  ultimately have "ring_history cap junk (evs @ [Pushed x True]) ?c2" by (rule history_event)
  then show ?thesis by (intro exI [of _ ?c2]) simp
qed

lemma history_load:
  assumes "ring_history cap junk evs c" "consumer_pc c = CRead t"
  shows "\<exists>c'. ring_history cap junk (evs @ [Popped (Some (buffer (shared c) (cell cap t)))]) c' \<and> shared c' = (shared c)\<lparr>r_tail := t + 1\<rparr>
      \<and> consumer_pc c' = CIdle \<and> producer_pc c' = producer_pc c"
proof -
  let ?y = "buffer (shared c) (cell cap t)"
  let ?c1 = "c\<lparr>consumer_pc := CPublish t ?y\<rparr>"
  let ?c2 = "?c1\<lparr>shared := (shared ?c1)\<lparr>r_tail := t + 1\<rparr>, consumer_pc := CIdle, rcvd := rcvd ?c1 @ [?y]\<rparr>"
  have "ring_history cap junk evs ?c1" by (rule history_silent [OF assms(1) ring_step.c_read [OF assms(2)]]) (simp_all add: no_event)
  moreover have "ring_step cap ?c1 ?c2" by (rule ring_step.c_publish) simp
  moreover have "producer_event ?c1 ?c2 @ consumer_event ?c1 ?c2 = [Popped (Some ?y)]" by (simp add: no_event) (simp add: consumer_event_def)
  ultimately have "ring_history cap junk (evs @ [Popped (Some ?y)]) ?c2" by (rule history_event)
  then show ?thesis by (intro exI [of _ ?c2]) simp
qed

lemma push_alone:
  assumes "ring_history cap junk evs c" "producer_pc c = PIdle"
  shows "\<exists>c'. ring_history cap junk (evs @ [Pushed x (fst (ring_push cap x (shared c)))]) c' \<and> shared c' = snd (ring_push cap x (shared c))
     \<and> producer_pc c' = PIdle \<and> consumer_pc c' = consumer_pc c"
proof -
  let ?r = "shared c" and ?h = "r_head (shared c)" and ?t = "r_tail (shared c)"
  let ?start = "c\<lparr>producer_pc := if ?h - cached_tail ?r \<ge> of_nat cap then PReload x ?h else PWrite x ?h\<rparr>"
  have h: "ring_history cap junk evs ?start"
    by (rule history_silent [OF assms(1) ring_step.p_start [OF assms(2) refl]]) (simp_all add: no_event)
  consider (room) "\<not> ?h - cached_tail ?r \<ge> of_nat cap" | (full) "?h - cached_tail ?r \<ge> of_nat cap" "?h - ?t \<ge> of_nat cap"
    | (stale) "?h - cached_tail ?r \<ge> of_nat cap" "\<not> ?h - ?t \<ge> of_nat cap" by blast
  then show ?thesis
  proof cases
    case room
    with history_store [OF h, of x ?h] show ?thesis by (auto simp: ring_push_def Let_def)
  next
    case full
    let ?c2 = "?start\<lparr>shared := ?r\<lparr>cached_tail := ?t\<rparr>, producer_pc := PIdle\<rparr>"
    have "ring_step cap ?start ?c2" using ring_step.p_reload [of ?start x ?h ?t cap] full by simp
    moreover have "producer_event ?start ?c2 @ consumer_event ?start ?c2 = [Pushed x False]" using full by (simp add: no_event) (simp add: producer_event_def)
    ultimately have "ring_history cap junk (evs @ [Pushed x False]) ?c2" by (rule history_event [OF h])
    with full show ?thesis by (intro exI [of _ ?c2]) (simp add: ring_push_def Let_def)
  next
    case stale
    let ?c2 = "?start\<lparr>shared := ?r\<lparr>cached_tail := ?t\<rparr>, producer_pc := PWrite x ?h\<rparr>"
    have "ring_step cap ?start ?c2" using ring_step.p_reload [of ?start x ?h ?t cap] stale by simp
    then have "ring_history cap junk evs ?c2" by (rule history_silent [OF h]) (simp_all add: no_event)
    from history_store [OF this, of x ?h] stale show ?thesis by (auto simp: ring_push_def Let_def)
  qed
qed

lemma pop_alone:
  assumes "ring_history cap junk evs c" "consumer_pc c = CIdle"
  shows "\<exists>c'. ring_history cap junk (evs @ [Popped (fst (ring_pop cap (shared c)))]) c' \<and> shared c' = snd (ring_pop cap (shared c))
     \<and> consumer_pc c' = CIdle \<and> producer_pc c' = producer_pc c"
proof -
  let ?r = "shared c" and ?h = "r_head (shared c)" and ?t = "r_tail (shared c)"
  let ?start = "c\<lparr>consumer_pc := if cached_head ?r \<le> ?t then CReload ?t else CRead ?t\<rparr>"
  have h: "ring_history cap junk evs ?start"
    by (rule history_silent [OF assms(1) ring_step.c_start [OF assms(2) refl]]) (simp_all add: no_event)
  consider (item) "\<not> cached_head ?r \<le> ?t" | (none) "cached_head ?r \<le> ?t" "?h \<le> ?t" | (stale) "cached_head ?r \<le> ?t" "\<not> ?h \<le> ?t" by blast
  then show ?thesis
  proof cases
    case item
    with history_load [OF h, of ?t] show ?thesis by (auto simp: ring_pop_def Let_def)
  next
    case none
    let ?c2 = "?start\<lparr>shared := ?r\<lparr>cached_head := ?h\<rparr>, consumer_pc := CIdle\<rparr>"
    have "ring_step cap ?start ?c2" using ring_step.c_reload [of ?start ?t ?h cap] none by simp
    moreover have "producer_event ?start ?c2 @ consumer_event ?start ?c2 = [Popped None]" using none by (simp add: no_event) (simp add: consumer_event_def)
    ultimately have "ring_history cap junk (evs @ [Popped None]) ?c2" by (rule history_event [OF h])
    with none show ?thesis by (intro exI [of _ ?c2]) (simp add: ring_pop_def Let_def)
  next
    case stale
    let ?c2 = "?start\<lparr>shared := ?r\<lparr>cached_head := ?h\<rparr>, consumer_pc := CRead ?t\<rparr>"
    have "ring_step cap ?start ?c2" using ring_step.c_reload [of ?start ?t ?h cap] stale by simp
    then have "ring_history cap junk evs ?c2" by (rule history_silent [OF h]) (simp_all add: no_event)
    from history_load [OF this, of ?t] stale show ?thesis by (auto simp: ring_pop_def Let_def)
  qed
qed

subsection \<open>Property\<close>

text \<open>
  C2. The ring is linearizable. In every interleaving of the loads and stores of the two threads, the history of the returns of \<open>push\<close> and
  \<open>pop\<close>, with their results, is a history of the atomic bounded queue, which ends with the contents of the ring: a push
  returns true exactly when there is room and false exactly when the queue is full at that moment, and a pop returns the oldest item or
  finds the queue empty at that moment. And a thread that is not in a call can complete one by its own steps alone, whatever the other is in the middle of,
  with exactly the effect and the result of \<open>ring_push\<close> or \<open>ring_pop\<close>: no call waits for the other thread.
\<close>

theorem ring_linearizable:
  assumes "cap_ok cap" and "ring_history cap junk evs c" and "length (sent c) < 2 ^ 64"
  shows "queue_run cap evs (contents cap (shared c))
     \<and> (producer_pc c = PIdle \<longrightarrow> (\<exists>c'. ring_history cap junk (evs @ [Pushed x (fst (ring_push cap x (shared c)))]) c'
          \<and> shared c' = snd (ring_push cap x (shared c)) \<and> producer_pc c' = PIdle \<and> consumer_pc c' = consumer_pc c))
     \<and> (consumer_pc c = CIdle \<longrightarrow> (\<exists>c'. ring_history cap junk (evs @ [Popped (fst (ring_pop cap (shared c)))]) c'
          \<and> shared c' = snd (ring_pop cap (shared c)) \<and> consumer_pc c' = CIdle \<and> producer_pc c' = producer_pc c))"
  using ring_history_queue [OF assms] push_alone [OF assms(2)] pop_alone [OF assms(2)] by blast

theorem ring_linearizable_witness:
  "\<exists>c. ring_history 4 (\<lambda>_. 0::nat) [Pushed 7 True, Popped (Some 7), Popped None] c \<and> queue_run 4 [Pushed 7 True, Popped (Some 7), Popped None] (contents 4 (shared c))"
proof -
  have cap: "cap_ok 4" unfolding cap_ok_def by (rule exI [of _ 2]) simp
  let ?j = "\<lambda>_. 0::nat"
  have "length (sent (ring_init ?j)) < 2 ^ 64" "producer_pc (ring_init ?j) = PIdle" by (simp_all add: ring_init_def)
  with ring_linearizable [OF cap ring_history.init, of ?j 7] obtain c1 where
    c1: "ring_history 4 ?j [Pushed 7 True] c1" "shared c1 = snd (ring_push 4 7 (ring_new ?j))" "consumer_pc c1 = CIdle"
    by (auto simp: ring_init_def ring_push_def ring_new_def)
  obtain c2 where c2: "ring_history 4 ?j [Pushed 7 True, Popped (Some 7)] c2" "shared c2 = snd (ring_pop 4 (shared c1))" "consumer_pc c2 = CIdle"
    using pop_alone [OF c1(1,3)] c1(2) by (auto simp: ring_push_def ring_pop_def ring_new_def cell_def MASK_def)
  obtain c3 where c3: "ring_history 4 ?j [Pushed 7 True, Popped (Some 7), Popped None] c3"
    using pop_alone [OF c2(1,3)] c1(2) c2(2) by (auto simp: ring_push_def ring_pop_def ring_new_def)
  then have "length (sent c3) < 2 ^ 64" using ring_history_sent [OF c3] by simp
  then show ?thesis using ring_linearizable [OF cap c3] c3 by blast
qed

end
