(* ===== verification/Book_Analytics.thy ===== *)
theory Book_Analytics
  imports Book_Properties
begin

section \<open>Book analytics\<close>

text \<open>
  Models \<^verbatim>\<open>src/src/analytics/book_analytics.h\<close>. Floating point is a parameter: the record \<open>fpu\<close>
  holds the operations of \<open>double\<close> the code uses (conversion from an integer, addition,
  subtraction, multiplication, division, absolute value) over an abstract type \<open>'d\<close>, so that the
  model follows the code operation by operation without assuming anything about rounding. The
  integer state (volumes, bucket counters, history index) is modelled exactly, with the wrap-around
  of the unsigned types; \<open>size_t\<close> counters of completed buckets are naturals.
\<close>

record 'd fpu =
  fp_of_int :: "int \<Rightarrow> 'd"
  fp_add :: "'d \<Rightarrow> 'd \<Rightarrow> 'd"
  fp_sub :: "'d \<Rightarrow> 'd \<Rightarrow> 'd"
  fp_mul :: "'d \<Rightarrow> 'd \<Rightarrow> 'd"
  fp_div :: "'d \<Rightarrow> 'd \<Rightarrow> 'd"
  fp_abs :: "'d \<Rightarrow> 'd"

definition fp_u32 :: "'d fpu \<Rightarrow> u32 \<Rightarrow> 'd" where
  "fp_u32 F w = fp_of_int F (uint w)"

definition VPIN_BUCKETS :: nat where [const_defs]: "VPIN_BUCKETS = 50"
definition BUCKET_VOLUME :: Quantity where [const_defs]: "BUCKET_VOLUME = 10000"

subsection \<open>The class\<close>

record 'd BookAnalytics =
  total_volume :: u64
  vwap_numer :: 'd
  current_buy_vol :: Quantity
  current_sell_vol :: Quantity
  current_bucket_vol :: Quantity
  vpin_history :: "nat \<Rightarrow> 'd"
  vpin_idx :: nat
  vpin_count :: nat

definition analytics_new :: "'d fpu \<Rightarrow> 'd BookAnalytics" where
  "analytics_new F = \<lparr>total_volume = 0, vwap_numer = fp_of_int F 0, current_buy_vol = 0, current_sell_vol = 0,
     current_bucket_vol = 0, vpin_history = (\<lambda>_. fp_of_int F 0), vpin_idx = 0, vpin_count = 0\<rparr>"

definition on_fill :: "'d fpu \<Rightarrow> Price \<Rightarrow> Quantity \<Rightarrow> Side \<Rightarrow> 'd BookAnalytics \<Rightarrow> 'd BookAnalytics option" where
  "on_fill F price qty aggressor_side s =
     (let s1 = s\<lparr>total_volume := total_volume s + ucast qty,
                 vwap_numer := fp_add F (vwap_numer s) (fp_mul F (fp_u32 F price) (fp_u32 F qty))\<rparr>;
          s2 = (if aggressor_side = Buy then s1\<lparr>current_buy_vol := current_buy_vol s1 + qty\<rparr>
                else s1\<lparr>current_sell_vol := current_sell_vol s1 + qty\<rparr>);
          s3 = s2\<lparr>current_bucket_vol := current_bucket_vol s2 + qty\<rparr>
      in if current_bucket_vol s3 \<ge> BUCKET_VOLUME then do {
           let tot = current_buy_vol s3 + current_sell_vol s3;
           let imbalance = (if tot > 0
                 then fp_div F (fp_abs F (fp_sub F (fp_u32 F (current_buy_vol s3)) (fp_u32 F (current_sell_vol s3)))) (fp_u32 F tot)
                 else fp_of_int F 0);
           hist \<leftarrow> array_put VPIN_BUCKETS (vpin_history s3) (vpin_idx s3 mod VPIN_BUCKETS) imbalance;
           let s4 = s3\<lparr>vpin_history := hist, vpin_idx := vpin_idx s3 + 1,
                       vpin_count := (if vpin_count s3 < VPIN_BUCKETS then vpin_count s3 + 1 else vpin_count s3)\<rparr>;
           Some (s4\<lparr>current_buy_vol := 0, current_sell_vol := 0, current_bucket_vol := 0\<rparr>)
         } else Some s3)"

definition vwap :: "'d fpu \<Rightarrow> 'd BookAnalytics \<Rightarrow> 'd" where
  "vwap F s = (if total_volume s > 0 then fp_div F (vwap_numer s) (fp_of_int F (uint (total_volume s))) else fp_of_int F 0)"

definition vpin :: "'d fpu \<Rightarrow> 'd BookAnalytics \<Rightarrow> 'd" where
  "vpin F s = (if vpin_count s = 0 then fp_of_int F 0
     else fp_div F (fold (\<lambda>i sum. fp_add F sum (vpin_history s i)) [0..<vpin_count s] (fp_of_int F 0)) (fp_of_int F (int (vpin_count s))))"

definition spread :: "OrderBook \<Rightarrow> Price" where
  "spread b = (if best_bid b = INVALID_PRICE \<or> best_ask b > MAX_PRICE then 0 else best_ask b - best_bid b)"

definition mid :: "'d fpu \<Rightarrow> OrderBook \<Rightarrow> 'd" where
  "mid F b = (if best_bid b = INVALID_PRICE \<or> best_ask b > MAX_PRICE then fp_of_int F 0
     else fp_div F (fp_u32 F (best_bid b + best_ask b)) (fp_of_int F 2))"

definition imbalance :: "'d fpu \<Rightarrow> OrderBook \<Rightarrow> 'd option" where
  "imbalance F b = (if best_bid b = INVALID_PRICE \<or> best_ask b > MAX_PRICE then Some (fp_of_int F 0)
     else do {
       bq \<leftarrow> bid_qty_at b (best_bid b);
       aq \<leftarrow> ask_qty_at b (best_ask b);
       let tot = bq + aq;
       Some (if tot > 0 then fp_div F (fp_of_int F (uint bq - uint aq)) (fp_u32 F tot) else fp_of_int F 0)
     })"

text \<open>The depth loops; \<open>n\<close> is the number of iterations left, \<open>levels - i\<close>.\<close>

fun bid_depth_loop :: "OrderBook \<Rightarrow> nat \<Rightarrow> Price \<Rightarrow> Quantity \<Rightarrow> Quantity option" where
  "bid_depth_loop b 0 p tot = Some tot"
| "bid_depth_loop b (Suc n) p tot =
     (if p \<ge> MIN_PRICE then do {
        q \<leftarrow> bid_qty_at b p;
        if p = MIN_PRICE then Some (tot + q) else bid_depth_loop b n (p - 1) (tot + q)
      } else Some tot)"

definition bid_depth :: "OrderBook \<Rightarrow> int \<Rightarrow> Quantity option" where
  "bid_depth b n_levels = bid_depth_loop b (nat n_levels) (best_bid b) 0"

fun ask_depth_loop :: "OrderBook \<Rightarrow> nat \<Rightarrow> Price \<Rightarrow> Quantity \<Rightarrow> Quantity option" where
  "ask_depth_loop b 0 p tot = Some tot"
| "ask_depth_loop b (Suc n) p tot =
     (if p \<le> MAX_PRICE then do {
        q \<leftarrow> ask_qty_at b p;
        ask_depth_loop b n (p + 1) (tot + q)
      } else Some tot)"

definition ask_depth :: "OrderBook \<Rightarrow> int \<Rightarrow> Quantity option" where
  "ask_depth b n_levels = ask_depth_loop b (nat n_levels) (best_ask b) 0"

subsection \<open>Volume buckets\<close>

definition analytics_ok :: "'d BookAnalytics \<Rightarrow> bool" where
  "analytics_ok s \<longleftrightarrow> vpin_count s = min (vpin_idx s) VPIN_BUCKETS
     \<and> current_buy_vol s + current_sell_vol s = current_bucket_vol s \<and> current_bucket_vol s < BUCKET_VOLUME"

lemma analytics_new_ok: "analytics_ok (analytics_new F)"
  by (simp add: analytics_ok_def analytics_new_def const_defs)

lemma on_fill_ok:
  assumes "analytics_ok s"
  shows "\<exists>s'. on_fill F p q sd s = Some s' \<and> analytics_ok s' \<and> total_volume s' = total_volume s + ucast q
     \<and> (vpin_idx s' = vpin_idx s \<or> vpin_idx s' = vpin_idx s + 1)"
proof -
  have idx: "vpin_idx s mod VPIN_BUCKETS < VPIN_BUCKETS" by (simp add: VPIN_BUCKETS_def)
  have sum: "current_buy_vol s + q + current_sell_vol s = current_bucket_vol s + q"
    "current_buy_vol s + (current_sell_vol s + q) = current_bucket_vol s + q"
    using assms by (simp_all add: analytics_ok_def algebra_simps)
  show ?thesis
    using assms idx sum by (auto simp: on_fill_def analytics_ok_def Let_def const_defs not_le min_def)
qed

subsection \<open>Depth\<close>

text \<open>The quantity resting on a side at prices that satisfy \<open>P\<close>.\<close>

definition qty_where :: "(nat \<Rightarrow> bool) \<Rightarrow> Order list \<Rightarrow> Quantity" where
  "qty_where P xs = (\<Sum>x\<leftarrow>filter (\<lambda>x. P (unat (o_price x))) xs. remaining x)"

lemma qty_where_split:
  assumes "\<And>n. P n \<longleftrightarrow> P1 n \<or> P2 n" "\<And>n. \<not> (P1 n \<and> P2 n)"
  shows "qty_where P xs = qty_where P1 xs + qty_where P2 xs"
  using assms by (induction xs) (auto simp: qty_where_def)

lemma qty_where_cong: "(\<And>x. x \<in> set xs \<Longrightarrow> P (unat (o_price x)) = P' (unat (o_price x))) \<Longrightarrow> qty_where P xs = qty_where P' xs"
  unfolding qty_where_def by (metis (mono_tags, lifting) filter_cong)

lemma qty_where_none: "(\<And>x. x \<in> set xs \<Longrightarrow> \<not> P (unat (o_price x))) \<Longrightarrow> qty_where P xs = 0"
  unfolding qty_where_def by (simp add: filter_empty_conv)

lemma qty_at_where:
  assumes "book_ok b" "MIN_PRICE \<le> p" "p \<le> MAX_PRICE"
  shows "bid_qty_at b p = Some (qty_where (\<lambda>n. n = unat p) (abs_book b Bids))"
    and "ask_qty_at b p = Some (qty_where (\<lambda>n. n = unat p) (abs_book b Asks))"
proof -
  have eq: "(\<lambda>x. o_price x = p) = (\<lambda>x. unat (o_price x) = unat p)" for p :: Price by (auto simp: word_unat_eq_iff)
  note r = book_ok_rep [OF assms(1)]
  show "bid_qty_at b p = Some (qty_where (\<lambda>n. n = unat p) (abs_book b Bids))"
    "ask_qty_at b p = Some (qty_where (\<lambda>n. n = unat p) (abs_book b Asks))"
    using qty_at_rep [OF r assms(2,3)] idx_price(1) [OF assms(2,3)]
    by (simp_all add: bid_qty_at_def ask_qty_at_def qty_where_def abs_book_rep [OF r] eq)
qed

lemma book_price_range:
  assumes "book_ok b" "x \<in> set (abs_book b s)" shows "1 \<le> unat (o_price x)" "unat (o_price x) \<le> 1000000"
proof -
  note r = book_ok_rep [OF assms(1)] and c = book_repD(1) [OF book_ok_rep [OF assms(1)]]
  from assms(2) obtain a where a: "x = strip (heap_of b a)" "a \<in> set (addrs (queue b) s)"
    by (auto simp: abs_book_rep [OF r] prio_addrs)
  then obtain i where i: "a \<in> set (queue b s i)" by (auto simp: set_addrs [OF c])
  show "1 \<le> unat (o_price x)" "unat (o_price x) \<le> 1000000"
    using core_at [OF c i] core_index [OF c i] a(1) by (simp_all add: at_level_def PRICE_LEVELS_def)
qed

lemma bid_depth_loop_correct:
  assumes ok: "book_ok b" and "p \<le> MAX_PRICE"
  shows "bid_depth_loop b n p t = Some (t + qty_where (\<lambda>m. m \<le> unat p \<and> unat p < m + n) (abs_book b Bids))"
  using assms(2)
proof (induction n arbitrary: p t)
  case 0
  then show ?case by (simp add: qty_where_none)
next
  case (Suc n)
  show ?case
  proof (cases "p \<ge> MIN_PRICE")
    case False
    then have "p = 0" by (simp add: MIN_PRICE_def not_le)
    then have "qty_where (\<lambda>m. m \<le> unat p \<and> unat p < m + Suc n) (abs_book b Bids) = 0"
      using book_price_range(1) [OF ok, of _ Bids] by (intro qty_where_none) fastforce
    with False show ?thesis by simp
  next
    case True
    have up: "unat p \<ge> 1" using True by (simp add: MIN_PRICE_def word_le_nat_alt)
    note q = qty_at_where(1) [OF ok True Suc.prems]
    show ?thesis
    proof (cases "p = MIN_PRICE")
      case True
      then have "qty_where (\<lambda>m. m \<le> unat p \<and> unat p < m + Suc n) (abs_book b Bids) = qty_where (\<lambda>m. m = unat p) (abs_book b Bids)"
        using book_price_range(1) [OF ok] by (intro qty_where_cong) (fastforce simp: MIN_PRICE_def)
      then show ?thesis using q True by simp
    next
      case ne: False
      have u: "unat (p - 1) = unat p - 1" using up by (simp add: unat_sub word_le_nat_alt)
      have le: "p - 1 \<le> MAX_PRICE" using Suc.prems u by (simp add: word_le_nat_alt)
      have "qty_where (\<lambda>m. m \<le> unat p \<and> unat p < m + Suc n) (abs_book b Bids) =
          qty_where (\<lambda>m. m = unat p) (abs_book b Bids) + qty_where (\<lambda>m. m \<le> unat (p - 1) \<and> unat (p - 1) < m + n) (abs_book b Bids)"
        using up u by (intro qty_where_split) auto
      then show ?thesis using q True ne Suc.IH [OF le] by (simp add: add.assoc)
    qed
  qed
qed

lemma ask_depth_loop_correct:
  assumes ok: "book_ok b" and "MIN_PRICE \<le> p"
  shows "ask_depth_loop b n p t = Some (t + qty_where (\<lambda>m. unat p \<le> m \<and> m < unat p + n) (abs_book b Asks))"
  using assms(2)
proof (induction n arbitrary: p t)
  case 0
  then show ?case by (simp add: qty_where_none)
next
  case (Suc n)
  show ?case
  proof (cases "p \<le> MAX_PRICE")
    case False
    then have "1000000 < unat p" by (simp add: MAX_PRICE_def word_le_nat_alt)
    then have "qty_where (\<lambda>m. unat p \<le> m \<and> m < unat p + Suc n) (abs_book b Asks) = 0"
      using book_price_range(2) [OF ok, of _ Asks] by (intro qty_where_none) fastforce
    with False show ?thesis by simp
  next
    case True
    then have u: "unat (p + 1) = Suc (unat p)" by (intro unat_succ_u32) (simp add: MAX_PRICE_def word_le_nat_alt)
    have le: "MIN_PRICE \<le> p + 1" using u by (simp add: MIN_PRICE_def word_le_nat_alt)
    note q = qty_at_where(2) [OF ok Suc.prems True]
    have "qty_where (\<lambda>m. unat p \<le> m \<and> m < unat p + Suc n) (abs_book b Asks) =
        qty_where (\<lambda>m. m = unat p) (abs_book b Asks) + qty_where (\<lambda>m. unat (p + 1) \<le> m \<and> m < unat (p + 1) + n) (abs_book b Asks)"
      using u by (intro qty_where_split) auto
    then show ?thesis using q True Suc.IH [OF le] by (simp add: add.assoc)
  qed
qed

lemma best_range:
  assumes "book_ok b" shows "best_bid b \<le> MAX_PRICE" "MIN_PRICE \<le> best_ask b"
proof -
  note r = book_ok_rep [OF assms]
  have "best (half b s) = no_best s \<or> (\<exists>i<PRICE_LEVELS. best (half b s) = of_nat (Suc i))" for s
  proof -
    have "best (half b s) = no_best s \<or> (\<exists>i. queue b s i \<noteq> [] \<and> best (half b s) = of_nat (Suc i))"
      using book_repD(2) [OF r, of s] by (cases s) (auto simp: index_ok_def best_ok_def is_greatest_def is_least_def)
    then show ?thesis using core_out [OF book_repD(1) [OF r], of _ s] by (meson not_le)
  qed
  from this [of Bids] this [of Asks] show "best_bid b \<le> MAX_PRICE" "MIN_PRICE \<le> best_ask b"
    using unat_of_index by (auto simp: const_defs word_le_nat_alt simp del: of_nat_Suc)
qed

subsection \<open>Levels and ticks\<close>

text \<open>
  The loops walk over ticks, occupied or not, from the best price. The occupied prices of a side, best first, are \<open>price_levels\<close>; the distance of a price from the best one is \<open>ticks\<close>.
\<close>

definition price_levels :: "Order list \<Rightarrow> Price list" where
  "price_levels xs = remdups (map o_price xs)"

fun ticks :: "book_half \<Rightarrow> Price \<Rightarrow> Price \<Rightarrow> int" where
  "ticks Bids m p = uint m - uint p"
| "ticks Asks m p = uint p - uint m"

lemma unat_ticks:
  "unat p \<le> unat m \<and> unat m < unat p + n \<longleftrightarrow> 0 \<le> ticks Bids m p \<and> ticks Bids m p < int n"
  "unat m \<le> unat p \<and> unat p < unat m + n \<longleftrightarrow> 0 \<le> ticks Asks m p \<and> ticks Asks m p < int n"
proof -
  have "int (unat p) = uint p" "int (unat m) = uint m" by simp_all
  then show "unat p \<le> unat m \<and> unat m < unat p + n \<longleftrightarrow> 0 \<le> ticks Bids m p \<and> ticks Bids m p < int n"
    "unat m \<le> unat p \<and> unat p < unat m + n \<longleftrightarrow> 0 \<le> ticks Asks m p \<and> ticks Asks m p < int n" unfolding ticks.simps by linarith+
qed

lemma sorted_wrt_remdups: "sorted_wrt R xs \<Longrightarrow> sorted_wrt R (remdups xs)"
  by (induction xs) auto

lemma price_levels_sorted:
  assumes "price_sorted s xs" "i < j" "j < length (price_levels xs)"
  shows "ticks s m (price_levels xs ! i) < ticks s m (price_levels xs ! j)"
proof -
  have "sorted_wrt (\<lambda>p q. \<not> improves s q p) (map o_price xs)" using assms(1) by (simp add: price_sorted_def sorted_wrt_map)
  then have "sorted_wrt (\<lambda>p q. \<not> improves s q p) (price_levels xs)" unfolding price_levels_def by (rule sorted_wrt_remdups)
  then have "\<not> improves s (price_levels xs ! j) (price_levels xs ! i)" using assms(2,3) by (rule sorted_wrt_nth_less)
  moreover have "price_levels xs ! i \<noteq> price_levels xs ! j"
    using assms(2,3) by (simp add: price_levels_def nth_eq_iff_index_eq)
  ultimately show ?thesis by (cases s) (auto simp: word_less_def word_uint_eq_iff)
qed

text \<open>The \<open>n\<close> best occupied levels are on \<open>n\<close> neighbouring ticks.\<close>

definition best_adjacent :: "book_half \<Rightarrow> nat \<Rightarrow> Order list \<Rightarrow> bool" where
  "best_adjacent s n xs \<longleftrightarrow> (\<forall>k < length (take n (price_levels xs)). ticks s (best_of s xs) (price_levels xs ! k) = int k)"

lemma within_ticks:
  assumes "price_sorted s xs" "best_adjacent s n xs" "x \<in> set xs"
  shows "0 \<le> ticks s (best_of s xs) (o_price x) \<and> ticks s (best_of s xs) (o_price x) < int n \<longleftrightarrow> o_price x \<in> set (take n (price_levels xs))"
proof -
  let ?ps = "price_levels xs" and ?t = "ticks s (best_of s xs)"
  from assms(3) obtain j where j: "j < length ?ps" "?ps ! j = o_price x" by (metis (no_types, lifting) image_eqI in_set_conv_nth list.set_map price_levels_def set_remdups)
  have adj: "?t (?ps ! k) = int k" if "k < n" "k < length ?ps" for k using assms(2) that by (simp add: best_adjacent_def)
  show ?thesis
  proof (cases "j < n")
    case True
    then have "o_price x \<in> set (take n ?ps)" using j by (metis in_set_conv_nth length_take min_less_iff_conj nth_take)
    with True adj [OF True j(1)] j(2) show ?thesis by simp
  next
    case False
    have "\<not> ?t (o_price x) < int n"
    proof (cases n)
      case 0
      from assms(3) have "xs \<noteq> []" by auto
      moreover have "\<not> improves s (o_price x) (best_of s xs)"
        using assms(1,3) \<open>xs \<noteq> []\<close> by (cases xs; cases s) (auto simp: price_sorted_def best_of_def)
      ultimately have "0 \<le> ?t (o_price x)" by (cases s) (simp_all add: word_less_def)
      with 0 show ?thesis by simp
    next
      case (Suc k)
      with False have "k < j" "k < n" by simp_all
      with price_levels_sorted [OF assms(1) this(1) j(1), of "best_of s xs"] adj [of k] j Suc show ?thesis by simp
    qed
    moreover have "o_price x \<notin> set (take n ?ps)"
    proof
      assume "o_price x \<in> set (take n ?ps)"
      then obtain k where "k < n" "k < length ?ps" "?ps ! k = o_price x" by (auto simp: in_set_conv_nth)
      moreover have "distinct ?ps" by (simp add: price_levels_def)
      ultimately have "k = j" using j nth_eq_iff_index_eq by metis
      with \<open>k < n\<close> False show False by simp
    qed
    ultimately show ?thesis by simp
  qed
qed

text \<open>The open quantity of the orders at the \<open>n\<close> best levels.\<close>

definition qty_best_levels :: "nat \<Rightarrow> Order list \<Rightarrow> Quantity" where
  "qty_best_levels n xs = (\<Sum>x\<leftarrow>filter (\<lambda>x. o_price x \<in> set (take n (price_levels xs))) xs. remaining x)"

lemma depth_ticks:
  assumes "book_ok b"
  shows "bid_depth b n = Some (qty_where (\<lambda>m. m \<le> unat (best_bid b) \<and> unat (best_bid b) < m + nat n) (abs_book b Bids))"
    and "ask_depth b n = Some (qty_where (\<lambda>m. unat (best_ask b) \<le> m \<and> m < unat (best_ask b) + nat n) (abs_book b Asks))"
  using bid_depth_loop_correct [OF assms best_range(1) [OF assms], of "nat n" 0] ask_depth_loop_correct [OF assms best_range(2) [OF assms], of "nat n" 0]
  by (simp_all add: bid_depth_def ask_depth_def)

lemma depth_levels:
  assumes "book_ok b"
  shows "best_adjacent Bids (nat n) (abs_book b Bids) \<Longrightarrow> bid_depth b n = Some (qty_best_levels (nat n) (abs_book b Bids))"
    and "best_adjacent Asks (nat n) (abs_book b Asks) \<Longrightarrow> ask_depth b n = Some (qty_best_levels (nat n) (abs_book b Asks))"
proof -
  have filters: "qty_where P xs = qty_best_levels k xs" if "\<And>x. x \<in> set xs \<Longrightarrow> P (unat (o_price x)) \<longleftrightarrow> o_price x \<in> set (take k (price_levels xs))" for P k xs
    unfolding qty_where_def qty_best_levels_def using that by (metis (mono_tags, lifting) filter_cong)
  show "bid_depth b n = Some (qty_best_levels (nat n) (abs_book b Bids))" if a: "best_adjacent Bids (nat n) (abs_book b Bids)"
    unfolding depth_ticks(1) [OF assms]
    by (intro arg_cong [of _ _ Some] filters, unfold unat_ticks(1) best_first [OF assms, of Bids]) (rule within_ticks [OF ob.sorted_law [OF assms, of Bids] a])
  show "ask_depth b n = Some (qty_best_levels (nat n) (abs_book b Asks))" if a: "best_adjacent Asks (nat n) (abs_book b Asks)"
    unfolding depth_ticks(2) [OF assms]
    by (intro arg_cong [of _ _ Some] filters, unfold unat_ticks(2) best_first [OF assms, of Asks]) (rule within_ticks [OF ob.sorted_law [OF assms, of Asks] a])
qed

text \<open>With a free tick between two levels the result is not the quantity of the best levels: bids at 100 and 90 give a depth of two levels of 5, not 8.\<close>

lemma depth_counts_ticks:
  assumes "book_ok b" "abs_book b Bids = [mk_order 1 7 Buy Limit 100 5 0, mk_order 2 7 Buy Limit 90 3 0]"
  shows "bid_depth b 2 = Some 5" "qty_best_levels 2 (abs_book b Bids) = 8"
proof -
  have "best_bid b = 100" using best_first [OF assms(1), of Bids] assms(2) by (simp add: best_of_def)
  then show "bid_depth b 2 = Some 5" unfolding depth_ticks(1) [OF assms(1)] by (simp add: assms(2) qty_where_def remaining_def mk_order_def)
  show "qty_best_levels 2 (abs_book b Bids) = 8" by (simp add: assms(2) qty_best_levels_def price_levels_def remaining_def mk_order_def)
qed

lemma spread_correct:
  assumes "book_ok b"
  shows "spread b \<noteq> 0 \<longleftrightarrow> abs_book b Bids \<noteq> [] \<and> abs_book b Asks \<noteq> []"
    and "spread b \<noteq> 0 \<longrightarrow> int (unat (spread b)) = int (unat (o_price (hd (abs_book b Asks)))) - int (unat (o_price (hd (abs_book b Bids))))"
proof -
  let ?B = "abs_book b Bids" and ?A = "abs_book b Asks"
  have best: "best_bid b = best_of Bids ?B" "best_ask b = best_of Asks ?A" using best_first [OF assms] by blast+
  have rng: "1 \<le> unat (o_price x) \<and> unat (o_price x) \<le> 1000000" if "x \<in> set (abs_book b s)" for x s using book_price_range [OF assms that] by simp
  have bid: "best_bid b = INVALID_PRICE \<longleftrightarrow> ?B = []"
    using rng [of "hd ?B" Bids] best(1) by (cases ?B) (auto simp: best_of_def const_defs)
  have ask: "best_ask b > MAX_PRICE \<longleftrightarrow> ?A = []"
    using rng [of "hd ?A" Asks] best(2) by (cases ?A) (auto simp: best_of_def const_defs word_less_nat_alt)
  have lt: "best_bid b < best_ask b" using uncrossed_best [OF book_ok_rep [OF assms]] .
  then have d: "best_ask b - best_bid b \<noteq> 0" "int (unat (best_ask b - best_bid b)) = int (unat (best_ask b)) - int (unat (best_bid b))"
    by (auto simp: unat_sub word_less_nat_alt word_le_nat_alt)
  show "spread b \<noteq> 0 \<longleftrightarrow> ?B \<noteq> [] \<and> ?A \<noteq> []" using d(1) bid ask by (auto simp: spread_def)
  then show "spread b \<noteq> 0 \<longrightarrow> int (unat (spread b)) = int (unat (o_price (hd ?A))) - int (unat (o_price (hd ?B)))"
    using d(2) bid ask best by (auto simp: spread_def best_of_def split: list.splits)
qed

subsection \<open>Properties\<close>

text \<open>
  C26. The volume-bucket state machine behind VPIN never leaves its bounds: from a well-formed state
  every fill is processed (the history is written inside its 50 entries), the running total grows by
  the quantity, the two directional volumes add up to the bucket volume, the bucket volume stays
  below the bucket size between fills, and the number of valid history entries is the number of
  completed buckets, at most 50. This holds whatever the floating-point operations do.
\<close>

theorem vpin_buckets_ok:
  assumes "analytics_ok s"
  shows "\<exists>s'. on_fill F price qty side s = Some s' \<and> total_volume s' = total_volume s + ucast qty
     \<and> vpin_count s' = min (vpin_idx s') VPIN_BUCKETS \<and> current_buy_vol s' + current_sell_vol s' = current_bucket_vol s'
     \<and> current_bucket_vol s' < BUCKET_VOLUME"
  using on_fill_ok [OF assms, of F price qty side] by (auto simp: analytics_ok_def)

definition int_fpu :: "int fpu" where
  "int_fpu = \<lparr>fp_of_int = (\<lambda>i. i), fp_add = (+), fp_sub = (-), fp_mul = (*), fp_div = (div), fp_abs = abs\<rparr>"

theorem vpin_buckets_ok_witness:
  "\<exists>s'. analytics_ok (analytics_new int_fpu) \<and> on_fill int_fpu 100 12000 Buy (analytics_new int_fpu) = Some s' \<and> vpin_count s' \<le> 50"
  using vpin_buckets_ok [OF analytics_new_ok [of int_fpu], of int_fpu 100 12000 Buy] analytics_new_ok [of int_fpu] by (auto simp: VPIN_BUCKETS_def)

text \<open>
  C27. What the book and its analytics report is true of the lists. \<open>active_orders\<close> is the number of resting orders, and for a price in range \<open>bid_qty_at\<close> and \<open>ask_qty_at\<close> are
  the sums (modulo \<open>2 ^ 32\<close>) of the open quantities resting at that price. \<open>bid_depth\<close> and \<open>ask_depth\<close> return for every argument, and where the \<open>n\<close> best occupied price levels of the side
  lie on neighbouring ticks (or the side has fewer levels, all on neighbouring ticks) they are the quantity (modulo \<open>2 ^ 32\<close>) resting at the \<open>n\<close> best levels; \<open>spread\<close> is positive exactly when both sides have orders, and is then the
  difference of the prices of the first ask and the first bid.
\<close>

theorem depth_and_spread:
  assumes "book_ok b"
  shows "active_orders b = length (abs_book b Bids) + length (abs_book b Asks)
     \<and> (MIN_PRICE \<le> p \<and> p \<le> MAX_PRICE \<longrightarrow>
          bid_qty_at b p = Some (\<Sum>x\<leftarrow>filter (\<lambda>x. o_price x = p) (abs_book b Bids). remaining x)
          \<and> ask_qty_at b p = Some (\<Sum>x\<leftarrow>filter (\<lambda>x. o_price x = p) (abs_book b Asks). remaining x))
     \<and> bid_depth b n \<noteq> None \<and> ask_depth b n \<noteq> None
     \<and> (best_adjacent Bids (nat n) (abs_book b Bids) \<longrightarrow> bid_depth b n = Some (qty_best_levels (nat n) (abs_book b Bids)))
     \<and> (best_adjacent Asks (nat n) (abs_book b Asks) \<longrightarrow> ask_depth b n = Some (qty_best_levels (nat n) (abs_book b Asks)))
     \<and> (spread b \<noteq> 0 \<longleftrightarrow> abs_book b Bids \<noteq> [] \<and> abs_book b Asks \<noteq> [])
     \<and> (spread b \<noteq> 0 \<longrightarrow> int (unat (spread b)) = int (unat (o_price (hd (abs_book b Asks)))) - int (unat (o_price (hd (abs_book b Bids)))))"
proof -
  have obs: "active_orders b = length (abs_book b Bids) + length (abs_book b Asks)"
    "MIN_PRICE \<le> p \<and> p \<le> MAX_PRICE \<longrightarrow> bid_qty_at b p = Some (\<Sum>x\<leftarrow>filter (\<lambda>x. o_price x = p) (abs_book b Bids). remaining x)
       \<and> ask_qty_at b p = Some (\<Sum>x\<leftarrow>filter (\<lambda>x. o_price x = p) (abs_book b Asks). remaining x)"
    using observers_correct [OF assms, of MIN_PRICE] observers_correct [OF assms, of p] by (auto simp: const_defs)
  moreover have "bid_depth b n \<noteq> None" "ask_depth b n \<noteq> None" using depth_ticks [OF assms] by simp_all
  ultimately show ?thesis using depth_levels [OF assms, of n] spread_correct [OF assms] by blast
qed

theorem depth_and_spread_witness:
  "\<exists>b. book_ok b \<and> bid_depth b 3 = Some 5 \<and> active_orders b = 1 \<and> bid_qty_at b 100 = Some 5 \<and> spread b = 0"
proof -
  obtain b where b: "book_ok b" "abs_book b = (\<lambda>_. [])(Bids := [mk_order 1 7 Buy Limit 100 5 0])"
    using first_order_state [of 5 100 1 7 Buy 0] by (auto simp: const_defs half_of_def)
  have p: "MIN_PRICE \<le> 100 \<and> 100 \<le> MAX_PRICE" by (simp add: const_defs)
  have adj: "best_adjacent Bids (nat 3) (abs_book b Bids)" by (simp add: best_adjacent_def price_levels_def best_of_def b(2))
  have q: "qty_best_levels (nat 3) (abs_book b Bids) = 5" by (simp add: qty_best_levels_def price_levels_def b(2) remaining_def mk_order_def)
  show ?thesis using depth_and_spread [OF b(1), of 100 3] b p adj q by (intro exI [of _ b]) simp
qed

end
