(* ===== verification/Bench_Stats.thy ===== *)
theory Bench_Stats
  imports Tf_Prelude "HOL-Library.Multiset"
begin

section \<open>Latency statistics of the benchmarks\<close>

text \<open>
  Models what the two benchmark programs share (\<^verbatim>\<open>src/bench/order_book_bench.cpp\<close>, \<^verbatim>\<open>src/bench/ring_buffer_bench.cpp\<close>): \<open>LatencyStats\<close> with its
  percentiles, and \<open>calibrate_tsc\<close>. Dividing ticks by ticks per nanosecond is a parameter (\<open>ns\<close>), as is the clock; the addition of signed integers in the calibration is one too (\<open>tick_arith\<close>). Random draws and the clock are
  operations on an environment of any type \<open>'e\<close>.
\<close>

subsection \<open>Loops\<close>

primrec loop :: "('a \<Rightarrow> 's \<Rightarrow> 's option) \<Rightarrow> 'a list \<Rightarrow> 's \<Rightarrow> 's option" where
  "loop f [] s = Some s"
| "loop f (x # xs) s = do { s' \<leftarrow> f x s; loop f xs s' }"

lemma loop_inv:
  assumes "\<And>k s. k < length xs \<Longrightarrow> I k s \<Longrightarrow> \<exists>s'. f (xs ! k) s = Some s' \<and> I (Suc k) s'" "I 0 s"
  shows "\<exists>s'. loop f xs s = Some s' \<and> I (length xs) s'"
proof -
  have "\<exists>s'. loop f (drop k xs) s = Some s' \<and> I (length xs) s'" if "k \<le> length xs" "I k s" for k s
    using that
  proof (induction "length xs - k" arbitrary: k s)
    case (Suc n)
    then have k: "k < length xs" by simp
    with assms(1) Suc.prems(2) obtain s' where s': "f (xs ! k) s = Some s'" "I (Suc k) s'" by blast
    from Suc.hyps(1) [of "Suc k" s'] Suc.hyps(2) k s' show ?case by (simp add: Cons_nth_drop_Suc [symmetric])
  qed simp
  from this [of 0] assms(2) show ?thesis by simp
qed

subsection \<open>Percentiles\<close>

record LatencyStats =
  samples :: "u64 list"

definition stats_new :: LatencyStats where
  "stats_new = \<lparr>samples = []\<rparr>"

definition record_ticks :: "u64 \<Rightarrow> LatencyStats \<Rightarrow> LatencyStats" where
  "record_ticks ticks st = st\<lparr>samples := samples st @ [ticks]\<rparr>"

lemma samples_record [simp]: "samples (record_ticks t st) = samples st @ [t]"
  by (cases st) (simp add: record_ticks_def)

record 'd stats_line =
  sl_label :: string
  sl_n :: nat
  sl_p50 :: 'd
  sl_p90 :: 'd
  sl_p99 :: 'd
  sl_p999 :: 'd
  sl_min :: 'd
  sl_max :: 'd

text \<open>\<open>n * num / den\<close> in \<open>size_t\<close>; access to the vector is undefined out of range.\<close>

definition rank :: "nat \<Rightarrow> nat \<Rightarrow> nat \<Rightarrow> nat" where
  "rank n num den = n * num mod 2 ^ 64 div den"

definition sample_at :: "u64 list \<Rightarrow> nat \<Rightarrow> u64 option" where
  "sample_at xs i = (if i < length xs then Some (xs ! i) else None)"

definition print_stats :: "(u64 \<Rightarrow> 'd) \<Rightarrow> string \<Rightarrow> LatencyStats \<Rightarrow> (LatencyStats \<times> 'd stats_line option) option" where
  "print_stats ns label st =
     (if samples st = [] then Some (st, None)
      else do {
        let st1 = st\<lparr>samples := sort (samples st)\<rparr>;
        let n = length (samples st1);
        p50 \<leftarrow> sample_at (samples st1) (rank n 50 100);
        p90 \<leftarrow> sample_at (samples st1) (rank n 90 100);
        p99 \<leftarrow> sample_at (samples st1) (rank n 99 100);
        p999 \<leftarrow> sample_at (samples st1) (rank n 999 1000);
        mn \<leftarrow> sample_at (samples st1) 0;
        mx \<leftarrow> sample_at (samples st1) (n - 1);
        Some (st1, Some \<lparr>sl_label = label, sl_n = n, sl_p50 = ns p50, sl_p90 = ns p90, sl_p99 = ns p99, sl_p999 = ns p999, sl_min = ns mn, sl_max = ns mx\<rparr>)
      })"

text \<open>\<open>p\<close> is the value of rank \<open>i\<close>: at most \<open>i\<close> samples are smaller, and more than \<open>i\<close> are not greater.\<close>

definition has_rank :: "u64 list \<Rightarrow> nat \<Rightarrow> u64 \<Rightarrow> bool" where
  "has_rank xs i p \<longleftrightarrow> p \<in> set xs \<and> length (filter (\<lambda>x. x < p) xs) \<le> i \<and> i < length (filter (\<lambda>x. x \<le> p) xs)"

lemma length_filter_sort: "length (filter P (sort xs)) = length (filter P xs)"
  by (metis mset_filter mset_sort size_mset)

lemma sort_has_rank:
  assumes "i < length xs" shows "has_rank xs i (sort xs ! i)"
proof -
  let ?s = "sort xs" and ?p = "sort xs ! i"
  have i: "i < length ?s" using assms by simp
  have split: "?s = take i ?s @ ?p # drop (Suc i) ?s" using i by (simp add: id_take_nth_drop)
  have mono: "?s ! a \<le> ?s ! b" if "a \<le> b" "b < length xs" for a b using that by (intro sorted_nth_mono) simp_all
  have hi: "\<not> x < ?p" if "x \<in> set (drop (Suc i) ?s)" for x
    using that by (auto simp: in_set_conv_nth not_less intro!: mono)
  have lo: "x \<le> ?p" if "x \<in> set (take i ?s)" for x
    using that i by (auto simp: in_set_conv_nth intro!: mono)
  have parts: "length (filter P ?s) = length (filter P (take i ?s)) + length (filter P (?p # drop (Suc i) ?s))" for P
    using arg_cong [OF split, of "\<lambda>xs. length (filter P xs)"] by simp
  have "filter (\<lambda>x. x < ?p) (drop (Suc i) ?s) = []" using hi by (simp add: filter_empty_conv)
  then have "length (filter (\<lambda>x. x < ?p) ?s) \<le> length (take i ?s)" unfolding parts using length_filter_le [of _ "take i ?s"] by simp
  moreover have "filter (\<lambda>x. x \<le> ?p) (take i ?s) = take i ?s" using lo by (simp add: filter_id_conv)
  then have "Suc (length (take i ?s)) \<le> length (filter (\<lambda>x. x \<le> ?p) ?s)" unfolding parts by simp
  moreover have "?p \<in> set xs" using nth_mem [OF i] by simp
  ultimately show ?thesis using i by (simp add: has_rank_def length_filter_sort)
qed

lemma rank_less:
  assumes "0 < n" "n < 2 ^ 54" "num < den" "den \<le> 1000"
  shows "rank n num den < n" "rank n num den = n * num div den"
proof -
  have "n * num \<le> n * 1000" using assms(3,4) by simp
  also have "\<dots> < 2 ^ 64" using assms(2) by simp
  finally show e: "rank n num den = n * num div den" by (simp add: rank_def)
  have "n * num < n * den" using assms(1,3) by simp
  then show "rank n num den < n" unfolding e by (rule less_mult_imp_div_less)
qed

lemma sort_ends:
  assumes "xs \<noteq> []"
  shows "sort xs ! 0 = Min (set xs)" "sort xs ! (length xs - 1) = Max (set xs)"
proof -
  let ?n = "length xs" and ?s = "sort xs"
  have n: "0 < ?n" using assms by simp
  have mono: "?s ! i \<le> ?s ! j" if "i \<le> j" "j < ?n" for i j using that by (intro sorted_nth_mono) simp_all
  have low: "?s ! 0 \<le> x" and high: "x \<le> ?s ! (?n - 1)" if "x \<in> set xs" for x
  proof -
    from that have "x \<in> set ?s" by simp
    then obtain i where "i < ?n" "x = ?s ! i" unfolding in_set_conv_nth by auto
    then show "?s ! 0 \<le> x" "x \<le> ?s ! (?n - 1)" using mono [of 0 i] mono [of i "?n - 1"] by simp_all
  qed
  have "?s ! 0 \<in> set ?s" "?s ! (?n - 1) \<in> set ?s" using n by (intro nth_mem; simp)+
  then show "?s ! 0 = Min (set xs)" "?s ! (?n - 1) = Max (set xs)"
    using low high by (auto intro: Min_eqI [symmetric] Max_eqI [symmetric])
qed

text \<open>The line printed is defined, its figures are the samples of these ranks, and they are ordered.\<close>

lemma print_stats_ranks:
  assumes "samples st \<noteq> []" "length (samples st) < 2 ^ 54"
  shows "\<exists>p50 p90 p99 p999 mn mx. print_stats ns label st = Some (st\<lparr>samples := sort (samples st)\<rparr>,
       Some \<lparr>sl_label = label, sl_n = length (samples st), sl_p50 = ns p50, sl_p90 = ns p90, sl_p99 = ns p99, sl_p999 = ns p999, sl_min = ns mn, sl_max = ns mx\<rparr>)
     \<and> mn \<le> p50 \<and> p50 \<le> p90 \<and> p90 \<le> p99 \<and> p99 \<le> p999 \<and> p999 \<le> mx
     \<and> has_rank (samples st) (length (samples st) * 50 div 100) p50 \<and> has_rank (samples st) (length (samples st) * 90 div 100) p90
     \<and> has_rank (samples st) (length (samples st) * 99 div 100) p99 \<and> has_rank (samples st) (length (samples st) * 999 div 1000) p999
     \<and> mn = Min (set (samples st)) \<and> mx = Max (set (samples st))"
proof -
  let ?n = "length (samples st)" and ?s = "sort (samples st)"
  have n: "0 < ?n" using assms(1) by simp
  note r = rank_less [OF n assms(2)]
  have le: "rank ?n 50 100 \<le> rank ?n 90 100" "rank ?n 90 100 \<le> rank ?n 99 100" "rank ?n 99 100 \<le> rank ?n 999 1000" "rank ?n 999 1000 \<le> ?n - 1"
  proof -
    show "rank ?n 50 100 \<le> rank ?n 90 100" "rank ?n 90 100 \<le> rank ?n 99 100" by (simp_all add: r div_le_mono)
    have "?n * 99 div 100 = ?n * 990 div 1000" using div_mult_mult1 [of 10 "?n * 99" 100] by (simp add: mult.commute)
    also have "\<dots> \<le> ?n * 999 div 1000" by (rule div_le_mono) simp
    finally show "rank ?n 99 100 \<le> rank ?n 999 1000" by (simp add: r)
    show "rank ?n 999 1000 \<le> ?n - 1" using r(1) [of 999 1000] by simp
  qed
  have mono: "?s ! i \<le> ?s ! j" if "i \<le> j" "j \<le> ?n - 1" for i j 
  proof (rule sorted_nth_mono)
    show "j < length ?s" using that(2) n unfolding length_sort by linarith
  qed (use that in simp_all)
  note ends = sort_ends [OF assms(1)]
  have ne: "?s \<noteq> []" using n length_sort [of id "samples st"] by (metis length_greater_0_conv length_sort)
  have pr: "print_stats ns label st = Some (st\<lparr>samples := ?s\<rparr>, Some \<lparr>sl_label = label, sl_n = ?n, sl_p50 = ns (?s ! rank ?n 50 100), sl_p90 = ns (?s ! rank ?n 90 100),
       sl_p99 = ns (?s ! rank ?n 99 100), sl_p999 = ns (?s ! rank ?n 999 1000), sl_min = ns (?s ! 0), sl_max = ns (?s ! (?n - 1))\<rparr>)"
    using assms(1) n r(1) ne by (simp add: print_stats_def sample_at_def Let_def)
  have hr: "has_rank (samples st) (?n * 50 div 100) (?s ! rank ?n 50 100)" "has_rank (samples st) (?n * 90 div 100) (?s ! rank ?n 90 100)"
    "has_rank (samples st) (?n * 99 div 100) (?s ! rank ?n 99 100)" "has_rank (samples st) (?n * 999 div 1000) (?s ! rank ?n 999 1000)"
    using sort_has_rank [OF r(1) [of 50 100]] sort_has_rank [OF r(1) [of 90 100]] sort_has_rank [OF r(1) [of 99 100]] sort_has_rank [OF r(1) [of 999 1000]]
    by (simp_all add: r(2))
  have up: "?s ! 0 \<le> ?s ! rank ?n 50 100" "?s ! rank ?n 50 100 \<le> ?s ! rank ?n 90 100" "?s ! rank ?n 90 100 \<le> ?s ! rank ?n 99 100"
    "?s ! rank ?n 99 100 \<le> ?s ! rank ?n 999 1000" "?s ! rank ?n 999 1000 \<le> ?s ! (?n - 1)"
    using le by (auto intro!: mono)
  show ?thesis by (intro exI conjI) (fact pr hr up ends)+
qed

subsection \<open>Calibration\<close>

record 'e clock =
  ck_wall :: "'e \<Rightarrow> int \<times> 'e"
  ck_tsc :: "'e \<Rightarrow> u64 \<times> 'e"

text \<open>
  The arithmetic the calibration depends on: the addition of signed 32-bit integers, the quotient \<open>(t1_tsc - t0_tsc) / wall_ns\<close>, and the conversion of ticks with it.
  The addition is that of the C++ standard, undefined when the sum leaves the range, or the wrapping one that compilers generate.
\<close>

record ('f, 'd) tick_arith =
  ta_add :: "int \<Rightarrow> int \<Rightarrow> int option"
  ta_ratio :: "u64 \<Rightarrow> int \<Rightarrow> 'f"
  ta_ns :: "'f \<Rightarrow> u64 \<Rightarrow> 'd"

definition iso_add :: "int \<Rightarrow> int \<Rightarrow> int option" where
  "iso_add x y = (if - (2 ^ 31) \<le> x + y \<and> x + y < 2 ^ 31 then Some (x + y) else None)"

definition wrap_add :: "int \<Rightarrow> int \<Rightarrow> int option" where
  "wrap_add x y = Some (sint (of_int (x + y) :: 32 word))"

text \<open>The busy loop \<open>for (int i = 0; i < n; ++i) sink += i\<close> over a signed 32-bit variable.\<close>

fun sink_loop :: "(int \<Rightarrow> int \<Rightarrow> int option) \<Rightarrow> nat \<Rightarrow> int \<Rightarrow> int \<Rightarrow> int option" where
  "sink_loop add 0 i sink = Some sink"
| "sink_loop add (Suc n) i sink = do { sink' \<leftarrow> add sink i; sink_loop add n (i + 1) sink' }"

definition calibrate_tsc :: "('f, 'd) tick_arith \<Rightarrow> 'e clock \<Rightarrow> 'e \<Rightarrow> ('f \<times> 'e) option" where
  "calibrate_tsc A C e = do {
     let (w0, e1) = ck_wall C e;
     let (t0, e2) = ck_tsc C e1;
     _ \<leftarrow> sink_loop (ta_add A) 100000000 0 0;
     let (t1, e3) = ck_tsc C e2;
     let (w1, e4) = ck_wall C e3;
     Some (ta_ratio A (t1 - t0) (w1 - w0), e4)
   }"

lemma sink_loop_sum: "sink_loop iso_add n i s = Some s' \<Longrightarrow> 0 \<le> i \<Longrightarrow> 0 \<le> s \<Longrightarrow> s' = s + int n * i + int n * (int n - 1) div 2"
proof (induction n arbitrary: i s)
  case (Suc n)
  then have "s' = s + i + int n * (i + 1) + int n * (int n - 1) div 2" by (auto simp: iso_add_def split: Option.bind_splits if_splits)
  moreover have "int (Suc n) * (int (Suc n) - 1) div 2 = int n + int n * (int n - 1) div 2"
  proof -
    have "int (Suc n) * (int (Suc n) - 1) = int n * 2 + int n * (int n - 1)" by (simp add: algebra_simps)
    then show ?thesis by simp
  qed
  ultimately show ?case by (simp add: algebra_simps)
qed simp

lemma sink_loop_bounded: "sink_loop iso_add n i s = Some s' \<Longrightarrow> s < 2 ^ 31 \<Longrightarrow> s' < 2 ^ 31"
  by (induction n arbitrary: i s) (auto simp: iso_add_def split: Option.bind_splits if_splits)

text \<open>The loop overflows before its end, so the calibration has no defined result in standard C++; with wrapping addition it returns.\<close>

lemma calibrate_tsc_overflows:
  assumes "ta_add A = iso_add" shows "calibrate_tsc A C e = None"
proof -
  have "sink_loop iso_add 100000000 0 0 = None"
  proof (rule ccontr)
    assume "sink_loop iso_add 100000000 0 0 \<noteq> None"
    then obtain s where s: "sink_loop iso_add 100000000 0 0 = Some s" by blast
    have "s = 0 + int 100000000 * 0 + int 100000000 * (int 100000000 - 1) div 2" by (rule sink_loop_sum [OF s]) simp_all
    moreover have "s < 2 ^ 31" by (rule sink_loop_bounded [OF s]) simp
    ultimately show False by simp
  qed
  then show ?thesis by (simp add: calibrate_tsc_def assms split_beta)
qed

lemma sink_loop_wraps: "\<exists>s'. sink_loop wrap_add n i s = Some s'"
  by (induction n arbitrary: i s) (simp_all add: wrap_add_def)

lemma calibrate_tsc_wraps:
  assumes "ta_add A = wrap_add" shows "\<exists>tpn e'. calibrate_tsc A C e = Some (tpn, e')"
proof -
  obtain s where "sink_loop wrap_add 100000000 0 0 = Some s" using sink_loop_wraps by blast
  then show ?thesis by (simp add: calibrate_tsc_def assms split_beta)
qed

end
