(* ===== verification/Book_Bench_Facts.thy ===== *)
theory Book_Bench_Facts
  imports Book_Bench
begin

section \<open>What the order book benchmarks do\<close>

text \<open>
  For each benchmark of \<open>Book_Bench\<close>: it ends, and its book has gone through what the title announces. The proofs follow the book through its loops with an invariant on the
  abstract lists, by \<open>loop_inv\<close> and the refinement of \<open>add_order\<close> and \<open>cancel_order\<close>.
\<close>

subsection \<open>Orders of equal size\<close>

definition even_book :: "Quantity \<Rightarrow> spec_book \<Rightarrow> bool" where
  "even_book q B \<longleftrightarrow> (\<forall>s. \<forall>x\<in>set (B s). order_ok x \<and> remaining x = q)"

lemma match_q_none: "rs = [] \<or> \<not> go (o_price (hd rs)) \<Longrightarrow> match_q sd go a rs = (a, rs, [])"
  by (cases rs) auto

lemma match_q_equal:
  assumes "order_ok a" "remaining a = q" "q \<noteq> 0" "order_ok r" "remaining r = q" "go (o_price r)"
  shows "match_q sd go a (r # rs) = (fill q a, rs, [mk_fill sd (fill q a) (fill q r) q])" "is_filled (fill q a)"
proof -
  have a: "order_ok (fill q a)" "remaining (fill q a) = 0" using fill_ok(1,3) [OF assms(1), of q] assms(2) by simp_all
  have r: "order_ok (fill q r)" "remaining (fill q r) = 0" using fill_ok(1,3) [OF assms(4), of q] assms(5) by simp_all
  show f: "is_filled (fill q a)" using is_filled_remaining [of "fill q a"] a by blast
  have "is_filled (fill q r)" "\<not> is_filled a" using is_filled_remaining [of "fill q r"] r is_filled_remaining [of a] assms(1-3) by auto
  with assms(2,5,6) f show "match_q sd go a (r # rs) = (fill q a, rs, [mk_fill sd (fill q a) (fill q r) q])" by (simp add: Let_def)
qed

lemma other_neq [simp]: "other s \<noteq> s" "s \<noteq> other s"
  by (cases s; simp)+

lemma spec_add_rest:
  assumes "\<not> rejects cap Limit p B" "q \<noteq> 0" "B (other (half_of sd)) = [] \<or> \<not> accepts Limit (other (half_of sd)) p (o_price (hd (B (other (half_of sd)))))"
  shows "spec_add cap i c sd Limit p q ts B = (True, B(half_of sd := insert_prio (half_of sd) (mk_order i c sd Limit p q ts) (B (half_of sd))), [])"
  using assms match_q_none [of "B (other (half_of sd))" "accepts Limit (other (half_of sd)) p" "canon_side sd" "mk_order i c sd Limit p q ts"]
  by (simp add: spec_add_def Let_def)

lemma spec_add_take:
  assumes "\<not> rejects cap Limit p B" "q \<noteq> 0" "B (other (half_of sd)) = r # rs" "order_ok r" "remaining r = q" "accepts Limit (other (half_of sd)) p (o_price r)"
  shows "\<exists>f. spec_add cap i c sd Limit p q ts B = (True, B(other (half_of sd) := rs), [f]) \<and> f_price f = o_price r \<and> f_quantity f = q"
proof -
  let ?a = "mk_order i c sd Limit p q ts"
  have m: "match_q (canon_side sd) (accepts Limit (other (half_of sd)) p) ?a (r # rs) = (fill q ?a, rs, [mk_fill (canon_side sd) (fill q ?a) (fill q r) q])" "is_filled (fill q ?a)"
    using match_q_equal [where go = "accepts Limit (other (half_of sd)) p" and a = ?a, OF _ _ assms(2,4-6)] by simp_all
  show ?thesis using assms(1,3) m by (simp add: spec_add_def Let_def)
qed

lemma even_book_upd: "even_book q B \<Longrightarrow> \<forall>x\<in>set xs. order_ok x \<and> remaining x = q \<Longrightarrow> even_book q (B(s := xs))"
  by (simp add: even_book_def)

lemma book_size_upd: "book_size (B(s := xs)) = length xs + length (B (other s))"
  by (cases s) (simp_all add: book_size_def)

lemma length_ids [simp]: "length (ids a b) = Suc b - a"
  by (simp add: ids_def del: upt_Suc)

lemma ids_nth: "k < Suc b - a \<Longrightarrow> ids a b ! k = of_nat (a + k)"
  unfolding ids_def by (subst nth_map) (simp_all del: upt_Suc)

text \<open>A call of \<open>add_order\<close> with its effect on the lists, timed or not.\<close>

lemma timed_add_effect:
  assumes "book_ok b" "capacity (pool b) = n" "spec_add n i c s Limit p q (fst (be_tsc E e)) (abs_book b) = (r, B', fs)"
  obtains b' st' e' where "timed_add E i c s p q (b, st, e) = Some (b', st', e')" "length (samples st') = Suc (length (samples st))" "book_ok b'"
    "capacity (pool b') = n" "abs_book b' = B'" "fills b' = fills b @ fs" "match_count b' = match_count b + of_nat (length fs)"
    "tracked b \<and> fresh i b \<longrightarrow> tracked b'"
proof -
  obtain b' where "add_order i c s Limit p q (fst (be_tsc E e)) b = Some (r, b')" "book_ok b'" "capacity (pool b') = n" "abs_book b' = B'" "fills b' = fills b @ fs"
    "match_count b' = match_count b + of_nat (length fs)" "tracked b \<and> fresh i b \<longrightarrow> tracked b'"
    using add_order_effect [OF assms(1), of i c s Limit p q "fst (be_tsc E e)"] assms(2,3) by auto
  then show thesis by (intro that) (simp add: timed_add_def split_beta, simp_all)
qed

subsection \<open>Adding orders\<close>

text \<open>The comment in the code says that no orders cross. They do, but only at 150000, the one price that both sides can have.\<close>

definition add_inv :: "nat \<Rightarrow> 'e bench_state \<Rightarrow> bool" where
  "add_inv k x \<longleftrightarrow> (case x of (b, st, e) \<Rightarrow> book_ok b \<and> capacity (pool b) = MAX_ORDERS \<and> even_book 100 (abs_book b)
     \<and> (\<forall>x\<in>set (abs_book b Bids). o_price x \<le> 150000) \<and> (\<forall>x\<in>set (abs_book b Asks). 150000 \<le> o_price x)
     \<and> book_size (abs_book b) + 2 * length (fills b) = k \<and> match_count b = of_nat (length (fills b))
     \<and> (\<forall>f\<in>set (fills b). f_price f = 150000 \<and> f_quantity f = 100) \<and> length (samples st) = k)"

lemma rejects_limit: "\<not> rejects cap Limit p B \<longleftrightarrow> book_size B \<noteq> cap \<and> MIN_PRICE \<le> p \<and> p \<le> MAX_PRICE"
  by (auto simp: rejects_def book_size_def not_less)

lemma add_inv_step:
  assumes "rng_ok E" "k < 500000" "add_inv k x"
  shows "\<exists>x'. add_iter E (of_nat (Suc k)) x = Some x' \<and> add_inv (Suc k) x'"
proof -
  obtain b st e where x: "x = (b, st, e)" by (rule prod_cases3)
  note v = assms(3) [unfolded add_inv_def x, simplified]
  let ?i = "of_nat (Suc k) :: OrderId"
  define s where "s = (if ?i mod 2 = 0 then Buy else Sell)"
  define e2 where "e2 = snd (be_price E (snd (be_price E e)))"
  define d where "d = fst (be_price E (snd (be_price E e)))"
  define p where "p = (if s = Buy then d - 50000 else d + 50000)"
  have d: "100000 \<le> d" "d \<le> 200000" using assms(1) by (simp_all add: rng_ok_def d_def)
  have d': "100000 \<le> unat d" "unat d \<le> 200000" using d by (simp_all add: word_le_nat_alt)
  have "unat (d - 50000) = unat d - 50000" using d(1) by (subst unat_sub) (simp_all add: word_le_nat_alt)
  moreover have "unat (d + 50000) = unat d + 50000" using d'(2) by (subst unat_add_lem [THEN iffD1]) simp_all
  ultimately have up: "unat p = (if s = Buy then unat d - 50000 else unat d + 50000)" by (simp add: p_def)
  have p: "MIN_PRICE \<le> p" "p \<le> MAX_PRICE" "s = Buy \<longrightarrow> p \<le> 150000" "s = Sell \<longrightarrow> 150000 \<le> p"
    using d' by (auto simp: const_defs word_le_nat_alt up)
  have bo: "book_ok b" "capacity (pool b) = MAX_ORDERS" using v by simp_all
  let ?o = "other (half_of s)" and ?t0 = "fst (be_tsc E e2)"
  have room: "\<not> rejects MAX_ORDERS Limit p (abs_book b)" using v assms(2) p(1,2) by (simp add: rejects_limit MAX_ORDERS_def)
  have q: "(100::Quantity) \<noteq> 0" by simp
  have it: "add_iter E ?i x = timed_add E ?i 1 s p 100 (b, st, e2)" by (simp add: add_iter_def x s_def p_def d_def e2_def split_beta Let_def)
  show ?thesis
  proof (cases "abs_book b ?o = [] \<or> \<not> accepts Limit ?o p (o_price (hd (abs_book b ?o)))")
    case True
    let ?x = "mk_order ?i 1 s Limit p 100 ?t0"
    let ?B = "(abs_book b)(half_of s := insert_prio (half_of s) ?x (abs_book b (half_of s)))"
    obtain b' st' e' where t: "timed_add E ?i 1 s p 100 (b, st, e2) = Some (b', st', e')" "length (samples st') = Suc (length (samples st))"
      "book_ok b'" "capacity (pool b') = MAX_ORDERS" "abs_book b' = ?B" "fills b' = fills b @ []" "match_count b' = match_count b + of_nat (length ([] :: Fill list))"
      by (rule timed_add_effect [OF bo(1,2) spec_add_rest [OF room q True]])
    have "even_book 100 ?B" using v by (intro even_book_upd) (auto simp: even_book_def)
    moreover have "\<forall>x\<in>set (?B Bids). o_price x \<le> 150000" "\<forall>x\<in>set (?B Asks). 150000 \<le> o_price x"
      using v p(3,4) by (auto simp: s_def half_of_def split: if_splits)
    moreover have "book_size ?B = Suc (book_size (abs_book b))" by (simp add: book_size_upd length_insert_prio book_size_other [where s = "half_of s"])
    ultimately show ?thesis using t v it by (simp add: add_inv_def)
  next
    case False
    then obtain r rs where r: "abs_book b ?o = r # rs" "accepts Limit ?o p (o_price r)" by (cases "abs_book b ?o") auto
    have ev: "order_ok x \<and> remaining x = 100" if "x \<in> insert r (set rs)" for x using v r(1) that by (metis even_book_def list.simps(15))
    have rr: "order_ok r" "remaining r = 100" using ev [of r] by simp_all
    obtain f where f: "spec_add MAX_ORDERS ?i 1 s Limit p 100 ?t0 (abs_book b) = (True, (abs_book b)(?o := rs), [f])" "f_price f = o_price r" "f_quantity f = 100"
      using spec_add_take [OF room q r(1) rr r(2)] by blast
    obtain b' st' e' where t: "timed_add E ?i 1 s p 100 (b, st, e2) = Some (b', st', e')" "length (samples st') = Suc (length (samples st))"
      "book_ok b'" "capacity (pool b') = MAX_ORDERS" "abs_book b' = (abs_book b)(?o := rs)" "fills b' = fills b @ [f]" "match_count b' = match_count b + of_nat (length [f])"
      by (rule timed_add_effect [OF bo(1,2) f(1)])
    have "o_price r = 150000"
      using v p(3,4) r by (auto simp: s_def half_of_def accepts_def split: if_splits)
    moreover have "even_book 100 ((abs_book b)(?o := rs))" using v ev by (intro even_book_upd) auto
    moreover have "\<forall>x\<in>set (((abs_book b)(?o := rs)) Bids). o_price x \<le> 150000" "\<forall>x\<in>set (((abs_book b)(?o := rs)) Asks). 150000 \<le> o_price x"
      using v r(1) by (auto simp: s_def half_of_def split: if_splits)
    moreover have "Suc (book_size ((abs_book b)(?o := rs))) = book_size (abs_book b)" using r(1) by (simp add: book_size_upd book_size_other [where s = ?o])
    ultimately show ?thesis using t v it f(2,3) by (auto simp: add_inv_def)
  qed
qed

lemma book_new_bench: "book_ok (book_new MAX_ORDERS)" "tracked (book_new MAX_ORDERS)" "abs_book (book_new MAX_ORDERS) = (\<lambda>_. [])"
  "capacity (pool (book_new MAX_ORDERS)) = MAX_ORDERS" "fills (book_new MAX_ORDERS) = []" "match_count (book_new MAX_ORDERS) = 0"
  using book_new_book_ok [of MAX_ORDERS] book_new_tracked [of MAX_ORDERS] abs_book_new [of MAX_ORDERS]
  by (simp_all add: MAX_ORDERS_def) (simp_all add: book_new_def pool_new_def capacity_def)

text \<open>
  All 500000 orders are accepted: each one rests or has traded with exactly one other. Whatever trades are logged happened at 150000.
\<close>

lemma add_order_run_result:
  assumes "rng_ok E"
  shows "\<exists>ln b e'. add_order_run E ns e = Some (Some ln, b, e') \<and> sl_n ln = 500000 \<and> book_ok b
     \<and> active_orders b + 2 * length (fills b) = 500000 \<and> unat (match_count b) = length (fills b)
     \<and> (\<forall>f\<in>set (fills b). f_price f = 150000 \<and> f_quantity f = 100)"
proof -
  have "\<exists>x'. loop (add_iter E) (ids 1 500000) (book_new MAX_ORDERS, stats_new, e) = Some x' \<and> add_inv (length (ids 1 500000)) x'"
  proof (rule loop_inv)
    show "add_inv 0 (book_new MAX_ORDERS, stats_new, e)"
      by (simp add: add_inv_def book_new_bench even_book_def book_size_def stats_new_def)
    fix k and x :: "'a bench_state"
    assume "k < length (ids 1 500000)" "add_inv k x"
    then show "\<exists>x'. add_iter E (ids 1 500000 ! k) x = Some x' \<and> add_inv (Suc k) x'"
      using add_inv_step [OF assms, of k x] by (simp add: ids_nth)
  qed
  then obtain b st e' where l: "loop (add_iter E) (ids 1 500000) (book_new MAX_ORDERS, stats_new, e) = Some (b, st, e')" "add_inv 500000 (b, st, e')" by auto
  then have v: "length (samples st) = 500000" "book_ok b" "book_size (abs_book b) + 2 * length (fills b) = 500000" "match_count b = of_nat (length (fills b))"
    "\<forall>f\<in>set (fills b). f_price f = 150000 \<and> f_quantity f = 100" by (simp_all add: add_inv_def)
  have ne: "samples st \<noteq> []" "length (samples st) < 2 ^ 54" using v(1) by auto
  obtain st' ln where p: "print_stats ns ''add_order'' st = Some (st', Some ln)" "sl_n ln = 500000"
    using print_stats_ranks [OF ne, of ns "''add_order''"] v(1) by auto
  have "unat (match_count b) = length (fills b)" unfolding v(4) using v(3) by (simp add: unsigned_of_nat take_bit_nat_eq_self)
  with l(1) p v show ?thesis by (auto simp: add_order_run_def active_orders_size)
qed

subsection \<open>Matching\<close>

lemma add_order_effectE:
  assumes "book_ok b" "capacity (pool b) = n" "spec_add n i c s Limit p q ts (abs_book b) = (r, B', fs)"
  obtains b' where "add_order i c s Limit p q ts b = Some (r, b')" "book_ok b'" "capacity (pool b') = n" "abs_book b' = B'" "fills b' = fills b @ fs"
    "match_count b' = match_count b + of_nat (length fs)" "tracked b \<and> fresh i b \<longrightarrow> tracked b'"
  using add_order_effect [OF assms(1), of i c s Limit p q ts] assms(2,3) by auto

lemma price_of_id:
  fixes i c m :: u64
  assumes "m \<noteq> 0" "unat c + unat m \<le> 2 ^ 32"
  shows "unat (ucast (c + i mod m) :: Price) = unat c + unat i mod unat m"
proof -
  have m: "unat i mod unat m < unat m" using assms(1) by (simp add: unat_gt_0)
  then have "unat (c + i mod m) = unat c + unat i mod unat m"
    using assms(2) by (subst unat_add_lem [THEN iffD1]) (simp_all add: unat_mod_distrib)
  then show ?thesis using m assms(2) by (simp add: unsigned_ucast_eq take_bit_nat_eq_self)
qed

definition asks_inv :: "nat \<Rightarrow> nat \<Rightarrow> OrderBook \<Rightarrow> bool" where
  "asks_inv n j b \<longleftrightarrow> book_ok b \<and> capacity (pool b) = MAX_ORDERS \<and> even_book 10 (abs_book b) \<and> abs_book b Bids = [] \<and> length (abs_book b Asks) = n
     \<and> (\<forall>x\<in>set (abs_book b Asks). o_price x \<le> 100099) \<and> match_count b = of_nat j"

lemma seed_step:
  assumes "k < 100000" "asks_inv k 0 b"
  shows "\<exists>b'. seed_iter (of_nat (Suc k)) b = Some b' \<and> asks_inv (Suc k) 0 b'"
proof -
  let ?i = "of_nat (Suc k) :: OrderId"
  define p where "p = (ucast (100000 + ?i mod 100) :: Price)"
  have "unat p = 100000 + unat ?i mod 100" unfolding p_def by (subst price_of_id) simp_all
  moreover have "unat ?i mod 100 < 100" by simp
  ultimately have up: "100000 \<le> unat p" "unat p \<le> 100099" by linarith+
  have p: "MIN_PRICE \<le> p" "p \<le> MAX_PRICE" "p \<le> 100099" using up by (simp_all add: const_defs word_le_nat_alt)
  have v: "book_ok b" "capacity (pool b) = MAX_ORDERS" "even_book 10 (abs_book b)" "abs_book b Bids = []" "length (abs_book b Asks) = k"
    "\<forall>x\<in>set (abs_book b Asks). o_price x \<le> 100099" "match_count b = 0" using assms(2) by (simp_all add: asks_inv_def)
  have room: "\<not> rejects MAX_ORDERS Limit p (abs_book b)" using v(4,5) assms(1) p(1,2) by (simp add: rejects_limit MAX_ORDERS_def book_size_def)
  let ?x = "mk_order ?i 1 Sell Limit p 10 0"
  have "spec_add MAX_ORDERS ?i 1 Sell Limit p 10 0 (abs_book b) = (True, (abs_book b)(Asks := insert_prio Asks ?x (abs_book b Asks)), [])"
    using spec_add_rest [OF room, of 10 Sell ?i 1 0] v(4) by (simp add: half_of_def)
  then obtain b' where b': "add_order ?i 1 Sell Limit p 10 0 b = Some (True, b')" "book_ok b'" "capacity (pool b') = MAX_ORDERS"
    "abs_book b' = (abs_book b)(Asks := insert_prio Asks ?x (abs_book b Asks))" "match_count b' = match_count b + of_nat (length ([] :: Fill list))"
    by (rule add_order_effectE [OF v(1,2)])
  have "even_book 10 (abs_book b')" unfolding b'(4) using v(3) by (intro even_book_upd) (auto simp: even_book_def)
  with b' v p(3) show ?thesis by (simp add: seed_iter_def asks_inv_def p_def length_insert_prio)
qed

lemma match_step:
  assumes "n < 100000" "asks_inv (Suc n) j b"
  shows "\<exists>b' st' e'. match_iter E i (b, st, e) = Some (b', st', e') \<and> asks_inv n (Suc j) b' \<and> length (samples st') = Suc (length (samples st))"
proof -
  let ?b = "clear_fills b"
  have v: "book_ok ?b" "capacity (pool ?b) = MAX_ORDERS" "even_book 10 (abs_book ?b)" "abs_book ?b Bids = []" "length (abs_book ?b Asks) = Suc n"
    "\<forall>x\<in>set (abs_book ?b Asks). o_price x \<le> 100099" "match_count ?b = of_nat j" using assms(2) by (simp_all add: asks_inv_def)
  obtain r rs where r: "abs_book ?b Asks = r # rs" "length rs = n" using v(5) by (cases "abs_book ?b Asks") auto
  have ev: "order_ok x \<and> remaining x = 10" if "x \<in> insert r (set rs)" for x using v(3) r(1) that by (metis even_book_def list.simps(15))
  have "o_price r \<le> 100099" using v(6) r(1) by simp
  then have "\<not> (100100 :: Price) < o_price r" by (simp add: word_less_nat_alt word_le_nat_alt)
  then have acc: "accepts Limit (other (half_of Buy)) 100100 (o_price r)" by (simp add: accepts_def half_of_def)
  have room: "\<not> rejects MAX_ORDERS Limit 100100 (abs_book ?b)" using v(4,5) assms(1) by (simp add: rejects_limit MAX_ORDERS_def book_size_def const_defs)
  obtain f where f: "spec_add MAX_ORDERS i 2 Buy Limit 100100 10 (fst (be_tsc E e)) (abs_book ?b) = (True, (abs_book ?b)(other (half_of Buy) := rs), [f])"
    using spec_add_take [OF room, of 10 Buy r rs i 2 "fst (be_tsc E e)"] r(1) ev [of r] acc by (auto simp: half_of_def)
  obtain b' st' e' where t: "timed_add E i 2 Buy 100100 10 (?b, st, e) = Some (b', st', e')" "length (samples st') = Suc (length (samples st))"
    "book_ok b'" "capacity (pool b') = MAX_ORDERS" "abs_book b' = (abs_book ?b)(other (half_of Buy) := rs)" "match_count b' = match_count ?b + of_nat (length [f])"
    by (rule timed_add_effect [OF v(1,2) f])
  have "even_book 10 (abs_book b')" unfolding t(5) using v(3) ev by (intro even_book_upd) auto
  moreover have "\<forall>x\<in>set rs. o_price x \<le> 100099" using v(6) r(1) by simp
  ultimately show ?thesis using t v(4,7) r(2) by (auto simp: match_iter_def asks_inv_def half_of_def)
qed

text \<open>Every aggressive order takes exactly one resting order: 100000 matches, an empty book, and valid best prices.\<close>

lemma matching_run_result:
  "\<exists>rep ln b e'. matching_run E ns e = Some (rep, b, e') \<and> mr_lines rep = [Some ln] \<and> sl_n ln = 100000
     \<and> mr_matches rep = 100000 \<and> mr_bbo_valid rep \<and> book_ok b \<and> active_orders b = 0"
proof -
  have "\<exists>b. loop seed_iter (ids 1 100000) (book_new MAX_ORDERS) = Some b \<and> asks_inv (length (ids 1 100000)) 0 b"
    using seed_step by (intro loop_inv) (simp_all add: ids_nth asks_inv_def book_new_bench even_book_def)
  then obtain b where b: "loop seed_iter (ids 1 100000) (book_new MAX_ORDERS) = Some b" "asks_inv 100000 0 b" by auto
  let ?I = "\<lambda>j x. case x of (b, st, e) \<Rightarrow> asks_inv (100000 - j) j b \<and> length (samples st) = j"
  have "\<exists>x'. loop (match_iter E) (ids 100001 200000) (b, stats_new, e) = Some x' \<and> ?I (length (ids 100001 200000)) x'"
  proof (rule loop_inv)
    show "?I 0 (b, stats_new, e)" using b(2) by (simp add: stats_new_def)
    fix j and x :: "'b bench_state" assume j: "j < length (ids 100001 200000)" and I: "?I j x"
    obtain b st e where x: "x = (b, st, e)" by (rule prod_cases3)
    have "Suc (100000 - Suc j) = 100000 - j" using j by simp
    then have "asks_inv (Suc (100000 - Suc j)) j b" using I x by (simp only: prod.case)
    from match_step [OF _ this, of E "ids 100001 200000 ! j" st e] j I x
    show "\<exists>x'. match_iter E (ids 100001 200000 ! j) x = Some x' \<and> ?I (Suc j) x'" by auto
  qed
  then obtain b' st e' where l: "loop (match_iter E) (ids 100001 200000) (b, stats_new, e) = Some (b', st, e')" "asks_inv 0 100000 b'" "length (samples st) = 100000" by auto
  have ne: "samples st \<noteq> []" "length (samples st) < 2 ^ 54" using l(3) by auto
  obtain st' ln where p: "print_stats ns ''match_order'' st = Some (st', Some ln)" "sl_n ln = 100000"
    using print_stats_ranks [OF ne, of ns "''match_order''"] l(3) by auto
  have v: "book_ok b'" "book_size (abs_book b') = 0" "match_count b' = 100000" using l(2) by (simp_all add: asks_inv_def book_size_def)
  have "validate_bbo b' = Some True" using validate_bbo_rep [OF book_ok_rep [OF v(1)]] .
  with b(1) l(1) p v show ?thesis by (simp add: matching_run_def active_orders_size)
qed

subsection \<open>Cancelling\<close>

lemma spec_ids_other: "spec_ids B = o_id ` set (B s) \<union> o_id ` set (B (other s))"
  unfolding spec_ids_def by (cases s) (auto, (metis book_half.exhaust image_eqI)+)

lemma spec_ids_upd: "spec_ids (B(s := insert_prio s x (B s))) = insert (o_id x) (spec_ids B)"
  by (simp add: spec_ids_other [where s = s])

lemma spec_cancel_removes: "spec_ids (snd (spec_cancel i B)) = spec_ids B - {i}" "fst (spec_cancel i B) \<longleftrightarrow> i \<in> spec_ids B"
  by (auto simp: spec_cancel_def spec_ids_def)

lemma spec_cancel_shrinks:
  assumes "i \<in> spec_ids B" shows "book_size (snd (spec_cancel i B)) < book_size B"
proof -
  from assms obtain s x where x: "x \<in> set (B s)" "o_id x = i" by (auto simp: spec_ids_def)
  have "length (filter (\<lambda>x. o_id x \<noteq> i) (B s)) < length (B s)" using x by (intro length_filter_less) auto
  moreover have "length (filter (\<lambda>x. o_id x \<noteq> i) (B (other s))) \<le> length (B (other s))" by simp
  ultimately show ?thesis unfolding spec_cancel_def snd_conv book_size_other [where s = s] by (rule add_less_le_mono)
qed

lemma card_spec_ids: "card (spec_ids B) \<le> book_size B"
proof -
  have "spec_ids B = o_id ` set (B Bids @ B Asks)" by (auto simp: spec_ids_other [where s = Bids])
  then have "card (spec_ids B) \<le> card (set (B Bids @ B Asks))" by (simp only: card_image_le [OF finite_set])
  also have "\<dots> \<le> book_size B" using card_length [of "B Bids @ B Asks"] by (simp add: book_size_def)
  finally show ?thesis .
qed

definition pop_inv :: "nat \<Rightarrow> OrderBook \<Rightarrow> bool" where
  "pop_inv k b \<longleftrightarrow> book_ok b \<and> tracked b \<and> capacity (pool b) = MAX_ORDERS \<and> (\<forall>x\<in>set (abs_book b Bids). o_price x \<le> 90999)
     \<and> (\<forall>x\<in>set (abs_book b Asks). 110000 \<le> o_price x) \<and> book_size (abs_book b) = k \<and> spec_ids (abs_book b) = of_nat ` {1..k} \<and> fills b = []"

lemma unat_small: "k < 2 ^ 64 \<Longrightarrow> unat (of_nat k :: u64) = k"
  by (simp add: unsigned_of_nat take_bit_nat_eq_self)

text \<open>Bids up to \<open>lo\<close> and asks from \<open>hi\<close> on never meet.\<close>

lemma quiet_sides:
  assumes "s = Buy \<or> s = Sell" "s = Buy \<longrightarrow> p \<le> lo" "s = Sell \<longrightarrow> hi \<le> p" "lo < hi"
    and "\<forall>x\<in>set (B Bids). o_price x \<le> lo" "\<forall>x\<in>set (B Asks). hi \<le> o_price x"
  shows "B (other (half_of s)) = [] \<or> \<not> accepts Limit (other (half_of s)) p (o_price (hd (B (other (half_of s)))))"
proof (cases "B (other (half_of s))")
  case (Cons x xs)
  show ?thesis
  proof (cases "s = Buy")
    case True
    then have "p \<le> lo" "hi \<le> o_price x" using assms(2,6) Cons by (auto simp: half_of_def)
    then have "p < o_price x" using assms(4) by simp
    with True Cons show ?thesis by (simp add: accepts_def half_of_def)
  next
    case False
    then have "hi \<le> p" "o_price x \<le> lo" using assms(1,3,5) Cons by (auto simp: half_of_def)
    then have "o_price x < p" using assms(4) by simp
    with False assms(1) Cons show ?thesis by (auto simp: accepts_def half_of_def)
  qed
qed simp

lemma sides_insert:
  assumes "s = Buy \<or> s = Sell" "s = Buy \<longrightarrow> o_price x \<le> lo" "s = Sell \<longrightarrow> hi \<le> o_price x"
    and "\<forall>x\<in>set (B Bids). o_price x \<le> lo" "\<forall>x\<in>set (B Asks). hi \<le> o_price x"
  shows "\<forall>y\<in>set ((B(half_of s := insert_prio (half_of s) x (B (half_of s)))) Bids). o_price y \<le> lo"
    "\<forall>y\<in>set ((B(half_of s := insert_prio (half_of s) x (B (half_of s)))) Asks). hi \<le> o_price y"
  using assms by (auto simp: half_of_def)

lemma pop_step:
  assumes "k < 200000" "pop_inv k b"
  shows "\<exists>b'. populate_iter (of_nat (Suc k)) b = Some b' \<and> pop_inv (Suc k) b'"
proof -
  let ?i = "of_nat (Suc k) :: OrderId"
  define s where "s = (if ?i mod 2 = 0 then Buy else Sell)"
  define p where "p = (ucast (if s = Buy then 90000 + ?i mod 1000 else 110000 + ?i mod 1000) :: Price)"
  have "unat p = (if s = Buy then 90000 + unat ?i mod 1000 else 110000 + unat ?i mod 1000)"
    unfolding p_def using price_of_id [of 1000 90000 ?i] price_of_id [of 1000 110000 ?i] by simp
  moreover have "unat ?i mod 1000 < 1000" by simp
  ultimately have up: "s = Buy \<longrightarrow> 90000 \<le> unat p \<and> unat p \<le> 90999" "s = Sell \<longrightarrow> 110000 \<le> unat p \<and> unat p \<le> 110999"
    by (cases "s = Buy"; simp; linarith)+
  have sd: "s = Buy \<or> s = Sell" by (simp add: s_def)
  have p: "MIN_PRICE \<le> p" "p \<le> MAX_PRICE" "s = Buy \<longrightarrow> p \<le> 90999" "s = Sell \<longrightarrow> 110000 \<le> p"
    using up sd by (auto simp: const_defs word_le_nat_alt)
  have v: "book_ok b" "capacity (pool b) = MAX_ORDERS" "tracked b" "\<forall>x\<in>set (abs_book b Bids). o_price x \<le> 90999"
    "\<forall>x\<in>set (abs_book b Asks). 110000 \<le> o_price x" "book_size (abs_book b) = k" "spec_ids (abs_book b) = of_nat ` {1..k}" "fills b = []"
    using assms(2) by (simp_all add: pop_inv_def)
  have room: "\<not> rejects MAX_ORDERS Limit p (abs_book b)" using v(6) assms(1) p(1,2) by (simp add: rejects_limit MAX_ORDERS_def)
  have quiet: "abs_book b (other (half_of s)) = [] \<or> \<not> accepts Limit (other (half_of s)) p (o_price (hd (abs_book b (other (half_of s)))))"
    by (rule quiet_sides [OF sd p(3,4) _ v(4,5)]) (simp add: word_less_nat_alt)
  let ?x = "mk_order ?i 1 s Limit p 100 0"
  let ?B = "(abs_book b)(half_of s := insert_prio (half_of s) ?x (abs_book b (half_of s)))"
  have q: "(100::Quantity) \<noteq> 0" by simp
  obtain b' where b': "add_order ?i 1 s Limit p 100 0 b = Some (True, b')" "book_ok b'" "capacity (pool b') = MAX_ORDERS"
    "abs_book b' = ?B" "fills b' = fills b @ []" "tracked b \<and> fresh ?i b \<longrightarrow> tracked b'"
    by (rule add_order_effectE [OF v(1,2) spec_add_rest [OF room q quiet]])
  have i: "unat ?i = Suc k" using assms(1) by (intro unat_small) simp
  have "fresh ?i b"
  proof (rule fresh_small)
    show "unat ?i < MAX_ORDERS" using i assms(1) by (simp add: MAX_ORDERS_def)
    fix j assume "j \<in> spec_ids (abs_book b)"
    then obtain n where "j = of_nat n" "n \<le> k" by (auto simp: v(7))
    then have "unat j = n" using assms(1) by (auto intro!: unat_small)
    with \<open>n \<le> k\<close> show "unat j < unat ?i" using i by simp
  qed
  moreover have "spec_ids ?B = of_nat ` {1..Suc k}" by (simp add: spec_ids_upd v(7) atLeastAtMostSuc_conv)
  moreover have "book_size ?B = Suc k" using v(6) by (simp add: book_size_upd length_insert_prio book_size_other [where s = "half_of s"])
  moreover have "\<forall>x\<in>set (?B Bids). o_price x \<le> 90999" "\<forall>x\<in>set (?B Asks). 110000 \<le> o_price x"
    using v(4,5) p(3,4) sd by (auto simp: half_of_def split: if_splits)
  ultimately have "pop_inv (Suc k) b'" unfolding pop_inv_def b'(4) using b'(2,3,5,6) v(3,8) by simp
  moreover have "populate_iter ?i b = do { (_, b') \<leftarrow> add_order ?i 1 s Limit p 100 0 b; Some b' }" unfolding populate_iter_def s_def p_def Let_def by (rule refl)
  then have "populate_iter ?i b = Some b'" using b'(1) by simp
  ultimately show ?thesis by blast
qed

definition cancel_inv :: "OrderId list \<Rightarrow> nat \<Rightarrow> 'e bench_state \<Rightarrow> bool" where
  "cancel_inv js k x \<longleftrightarrow> (case x of (b, st, e) \<Rightarrow> book_ok b \<and> tracked b \<and> spec_ids (abs_book b) = set (drop k js) \<and> book_size (abs_book b) = length js - k
     \<and> length (samples st) = k)"

lemma cancel_step:
  assumes "distinct js" "k < length js" "cancel_inv js k x"
  shows "\<exists>x'. timed_cancel E (js ! k) x = Some x' \<and> cancel_inv js (Suc k) x'"
proof -
  obtain b st e where x: "x = (b, st, e)" by (rule prod_cases3)
  have v: "book_ok b" "tracked b" "spec_ids (abs_book b) = set (drop k js)" "book_size (abs_book b) = length js - k" "length (samples st) = k"
    using assms(3) by (simp_all add: cancel_inv_def x)
  let ?i = "js ! k"
  from ob.cancel_law [OF v(1,2), of ?i] obtain r b' where c: "cancel_order ?i b = Some (r, b')" "book_ok b'" "tracked b'" "spec_cancel ?i (abs_book b) = (r, abs_book b')" by blast
  have dr: "drop k js = ?i # drop (Suc k) js" using assms(2) by (rule Cons_nth_drop_Suc [symmetric])
  have d: "distinct (drop k js)" using assms(1) by (rule distinct_drop)
  have ids: "spec_ids (abs_book b') = set (drop (Suc k) js)" using spec_cancel_removes(1) [of ?i "abs_book b"] c(4) v(3) dr d by auto
  have "?i \<in> spec_ids (abs_book b)" using v(3) dr by simp
  from spec_cancel_shrinks [OF this] have "book_size (abs_book b') < length js - k" using c(4) v(4) by simp
  moreover have "card (set (drop (Suc k) js)) = length js - Suc k" using distinct_card [OF distinct_drop [OF assms(1)], of "Suc k"] by simp
  then have "length js - Suc k \<le> book_size (abs_book b')" using card_spec_ids [of "abs_book b'"] ids by simp
  ultimately have "book_size (abs_book b') = length js - Suc k" by simp
  with c ids v(5) show ?thesis by (simp add: timed_cancel_def x cancel_inv_def split_beta)
qed

text \<open>Every one of the 100000 cancellations finds its order, and exactly the orders not chosen are left.\<close>

lemma cancel_order_run_result:
  assumes "rng_ok E"
  shows "\<exists>ln js b e'. cancel_order_run E ns e = Some (Some ln, js, b, e') \<and> sl_n ln = 100000 \<and> mset js = mset (ids 1 200000) \<and> book_ok b
     \<and> active_orders b = 100000 \<and> spec_ids (abs_book b) = set (drop 100000 js)"
proof -
  have "\<exists>b. loop populate_iter (ids 1 200000) (book_new MAX_ORDERS) = Some b \<and> pop_inv (length (ids 1 200000)) b"
    using pop_step by (intro loop_inv) (simp_all add: ids_nth pop_inv_def book_new_bench book_size_def spec_ids_def)
  then obtain b where b: "loop populate_iter (ids 1 200000) (book_new MAX_ORDERS) = Some b" "pop_inv 200000 b" by auto
  obtain js e1 where sh: "be_shuffle E (ids 1 200000) e = (js, e1)" by fastforce
  have ms: "mset js = mset (ids 1 200000)" using assms sh unfolding rng_ok_def by (metis fst_conv)
  have inj: "inj_on (of_nat :: nat \<Rightarrow> u64) {1..<Suc 200000}" by (rule inj_on_inverseI [of _ unat]) (simp add: unat_small)
  then have "distinct (ids 1 200000)" unfolding ids_def distinct_map set_upt by (simp del: upt_Suc)
  then have d: "distinct js" using ms mset_eq_imp_distinct_iff by blast
  have len: "length js = 200000" using mset_eq_length [OF ms] by simp
  have set: "set js = of_nat ` {1..200000}" using mset_eq_setD [OF ms] unfolding ids_def set_map set_upt atLeastLessThanSuc_atLeastAtMost .
  have "\<exists>x'. loop (timed_cancel E) (take 100000 js) (b, stats_new, e1) = Some x' \<and> cancel_inv js (length (take 100000 js)) x'"
  proof (rule loop_inv)
    show "cancel_inv js 0 (b, stats_new, e1)" using b(2) set len by (simp add: cancel_inv_def pop_inv_def stats_new_def)
    fix k and x :: "'a bench_state"
    assume "k < length (take 100000 js)" "cancel_inv js k x"
    then show "\<exists>x'. timed_cancel E (take 100000 js ! k) x = Some x' \<and> cancel_inv js (Suc k) x'" using cancel_step [OF d, of k x E] by simp
  qed
  then obtain b' st e' where l: "loop (timed_cancel E) (take 100000 js) (b, stats_new, e1) = Some (b', st, e')" "cancel_inv js 100000 (b', st, e')" using len by auto
  then have v: "book_ok b'" "spec_ids (abs_book b') = set (drop 100000 js)" "book_size (abs_book b') = 100000" "length (samples st) = 100000"
    using len by (simp_all add: cancel_inv_def)
  have ne: "samples st \<noteq> []" "length (samples st) < 2 ^ 54" using v(4) by auto
  obtain st' ln where p: "print_stats ns ''cancel_order'' st = Some (st', Some ln)" "sl_n ln = 100000"
    using print_stats_ranks [OF ne, of ns "''cancel_order''"] v(4) by auto
  show ?thesis using b(1) sh l(1) p v ms by (simp add: cancel_order_run_def active_orders_size)
qed

end
