(* ===== verification/Book_Bench_Runs.thy ===== *)
theory Book_Bench_Runs
  imports Book_Bench_Facts
begin

section \<open>The mixed workload and the throughput of the engine\<close>

text \<open>
  The last two benchmarks of \<^verbatim>\<open>src/bench/order_book_bench.cpp\<close>. The mixed workload is random, so its book can only be bounded: it stays well formed, within the
  capacity of the pool and of the identifier table, and the check of the best prices that it prints never fails. The engine benchmark is exact: every request is accepted and every
  reply is counted.
\<close>

subsection \<open>Mixed workload\<close>

text \<open>The book holds only orders with identifiers below \<open>n\<close>, and fewer than \<open>n\<close> of them.\<close>

definition held :: "nat \<Rightarrow> OrderBook \<Rightarrow> bool" where
  "held n b \<longleftrightarrow> book_ok b \<and> tracked b \<and> capacity (pool b) = MAX_ORDERS \<and> (\<forall>j\<in>spec_ids (abs_book b). unat j < n) \<and> book_size (abs_book b) < n"

lemma held_add:
  assumes "held (unat i) b" "unat i < MAX_ORDERS"
  obtains b' st' e' where "timed_add E i c s p q (b, st, e) = Some (b', st', e')" "held (Suc (unat i)) b'" "length (samples st') = Suc (length (samples st))"
proof -
  obtain r B' fs where a: "spec_add MAX_ORDERS i c s Limit p q (fst (be_tsc E e)) (abs_book b) = (r, B', fs)" using prod_cases3 by blast
  have b: "book_ok b" "capacity (pool b) = MAX_ORDERS" using assms(1) by (simp_all add: held_def)
  obtain b' st' e' where t: "timed_add E i c s p q (b, st, e) = Some (b', st', e')" "length (samples st') = Suc (length (samples st))" "book_ok b'"
    "capacity (pool b') = MAX_ORDERS" "abs_book b' = B'" "tracked b \<and> fresh i b \<longrightarrow> tracked b'" by (rule timed_add_effect [OF b a])
  have "fresh i b" using assms by (intro fresh_small) (simp_all add: held_def)
  then have "tracked b'" using t(6) assms(1) by (simp add: held_def)
  moreover have "\<forall>j\<in>spec_ids B'. unat j < Suc (unat i)" 
    using spec_add_ids [OF a] assms(1) unfolding held_def by (metis insertE less_SucI lessI subsetD)
  moreover have "book_size B' < Suc (unat i)" using spec_add_size [OF a] assms(1) by (simp add: held_def)
  ultimately show thesis using t by (intro that [OF t(1) _ t(2)]) (simp add: held_def)
qed

lemma held_cancel:
  assumes "held n b"
  obtains b' st' e' where "timed_cancel E i (b, st, e) = Some (b', st', e')" "held n b'" "length (samples st') = Suc (length (samples st))"
proof -
  have b: "book_ok b" "tracked b" using assms by (simp_all add: held_def)
  from ob.cancel_law [OF b, of i] obtain r b' where c: "cancel_order i b = Some (r, b')" "book_ok b'" "tracked b'" "capacity (pool b') = capacity (pool b)"
    "spec_cancel i (abs_book b) = (r, abs_book b')" by blast
  have "spec_ids (abs_book b') \<subseteq> spec_ids (abs_book b)" using spec_cancel_ids [OF c(5)] .
  moreover have "book_size (abs_book b') \<le> book_size (abs_book b)" using spec_cancel_size [of i "abs_book b"] c(5) by simp
  ultimately have "held n b'" using c assms by (auto simp: held_def)
  with c(1) show thesis by (intro that) (simp add: timed_cancel_def split_beta, simp_all)
qed

definition mixed_inv :: "nat \<Rightarrow> 'e mixed \<Rightarrow> bool" where
  "mixed_inv k m \<longleftrightarrow> held (unat (mx_next m)) (mx_book m) \<and> unat (mx_next m) \<le> Suc k
     \<and> length (samples (mx_add m)) + length (samples (mx_cancel m)) + length (samples (mx_match m)) \<le> k"

lemma mixed_adds:
  assumes "mixed_inv k m" "k < 1000000"
  obtains b st e' where "timed_add E (mx_next m) c s p q (clear_fills (mx_book m), st0, e) = Some (b, st, e')" "held (unat (mx_next m + 1)) b"
    "unat (mx_next m + 1) \<le> Suc (Suc k)" "length (samples st) = Suc (length (samples st0))"
proof -
  have n: "unat (mx_next m) \<le> Suc k" using assms(1) by (simp add: mixed_inv_def)
  then have i: "unat (mx_next m) < MAX_ORDERS" using assms(2) by (simp add: MAX_ORDERS_def)
  have s: "unat (mx_next m + 1) = Suc (unat (mx_next m))" using n assms(2) by (intro unat_succ_u64) simp
  have "held (unat (mx_next m)) (clear_fills (mx_book m))" using assms(1) by (simp add: mixed_inv_def held_def)
  then obtain b st e' where "timed_add E (mx_next m) c s p q (clear_fills (mx_book m), st0, e) = Some (b, st, e')" "held (Suc (unat (mx_next m))) b"
    "length (samples st) = Suc (length (samples st0))" using i by (rule held_add)
  with n s show thesis by (intro that) simp_all
qed

lemma mixed_step:
  assumes "mixed_inv k m" "k < 1000000"
  shows "\<exists>m'. mixed_iter E i m = Some m' \<and> mixed_inv (Suc k) m'"
proof -
  obtain action e where a: "be_action E (mx_env m) = (action, e)" by fastforce
  let ?m = "m\<lparr>mx_book := clear_fills (mx_book m)\<rparr>"
  have len: "length (samples (mx_add m)) + length (samples (mx_cancel m)) + length (samples (mx_match m)) \<le> k" using assms(1) by (simp add: mixed_inv_def)
  have "\<exists>m'. mixed_add E e ?m = Some m' \<and> mixed_inv (Suc k) m'"
  proof -
    define s where "s = (if mx_next m mod 2 = 0 then Buy else Sell)"
    obtain p e1 where p: "(if s = Buy then be_bid E e else be_ask E e) = (p, e1)" by fastforce
    obtain q e2 where q: "be_qty E e1 = (q, e2)" by fastforce
    obtain b st e3 where t: "timed_add E (mx_next m) 1 s p q (clear_fills (mx_book m), mx_add m, e2) = Some (b, st, e3)" "held (unat (mx_next m + 1)) b"
      "unat (mx_next m + 1) \<le> Suc (Suc k)" "length (samples st) = Suc (length (samples (mx_add m)))" by (rule mixed_adds [OF assms])
    then show ?thesis using len p q by (simp add: mixed_add_def Let_def mixed_inv_def s_def [symmetric])
  qed
  moreover have "\<exists>m'. mixed_cross E e ?m = Some m' \<and> mixed_inv (Suc k) m'"
  proof -
    obtain r e1 where r: "be_raw E e = (r, e1)" by fastforce
    define s where "s = (if r mod 2 = 0 then Buy else Sell)"
    obtain q e2 where q: "be_qty E e1 = (q, e2)" by fastforce
    obtain b st e3 where t: "timed_add E (mx_next m) 2 s (if s = Buy then 105000 else 95000) q (clear_fills (mx_book m), mx_match m, e2) = Some (b, st, e3)"
      "held (unat (mx_next m + 1)) b" "unat (mx_next m + 1) \<le> Suc (Suc k)" "length (samples st) = Suc (length (samples (mx_match m)))" by (rule mixed_adds [OF assms])
    then show ?thesis using len r q by (simp add: mixed_cross_def Let_def mixed_inv_def s_def [symmetric])
  qed
  moreover have "\<exists>m'. mixed_cancel E e ?m = Some m' \<and> mixed_inv (Suc k) m'"
  proof -
    obtain r e1 where r: "be_raw E e = (r, e1)" by fastforce
    obtain r2 e2 where r2: "be_raw E e1 = (r2, e2)" by fastforce
    define fb where "fb = (r mod 2 = 0 \<and> mx_bids m \<noteq> [])"
    define ps where "ps = (if fb then mx_bids m else mx_asks m)"
    have h: "held (unat (mx_next m)) (clear_fills (mx_book m))" using assms(1) by (simp add: mixed_inv_def held_def)
    have def: "mixed_cancel E e ?m = (if ps = [] then Some (?m\<lparr>mx_env := e1\<rparr>) else do {
        cid \<leftarrow> (if unat r2 mod length ps < length ps then Some (ps ! (unat r2 mod length ps)) else None);
        (b, st, e3) \<leftarrow> timed_cancel E cid (clear_fills (mx_book m), mx_cancel m, e2);
        let ps' = butlast (ps[unat r2 mod length ps := last ps]);
        Some ((if fb then ?m\<lparr>mx_bids := ps'\<rparr> else ?m\<lparr>mx_asks := ps'\<rparr>)\<lparr>mx_book := b, mx_cancel := st, mx_env := e3\<rparr>) })"
      using r r2 unfolding mixed_cancel_def Let_def fb_def ps_def by (simp cong: if_cong)
    show ?thesis
    proof (cases "ps = []")
      case True
      then show ?thesis using def h len assms(1) by (simp add: mixed_inv_def)
    next
      case False
      then have "unat r2 mod length ps < length ps" by simp
      moreover obtain b st e3 where "timed_cancel E (ps ! (unat r2 mod length ps)) (clear_fills (mx_book m), mx_cancel m, e2) = Some (b, st, e3)"
        "held (unat (mx_next m)) b" "length (samples st) = Suc (length (samples (mx_cancel m)))" by (rule held_cancel [OF h])
      ultimately show ?thesis using False def len assms(1) by (cases fb) (simp_all add: mixed_inv_def)
    qed
  qed
  ultimately show ?thesis using a by (simp add: mixed_iter_def Let_def)
qed

lemma print_stats_defined:
  assumes "length (samples st) < 2 ^ 54" obtains st' ln where "print_stats ns label st = Some (st', ln)"
  using print_stats_ranks [OF _ assms, of ns label] by (cases "samples st = []") (auto simp: print_stats_def intro: that)

lemma mixed_workload_run_result:
  "\<exists>rep b e'. mixed_workload_run E ns e = Some (rep, b, e') \<and> mr_bbo_valid rep \<and> book_ok b \<and> tracked b \<and> active_orders b \<le> 1000000"
proof -
  have "\<exists>m. loop (mixed_iter E) [0..<1000000] (mixed_new e) = Some m \<and> mixed_inv (length [0..<1000000::nat]) m"
  proof (rule loop_inv)
    show "mixed_inv 0 (mixed_new e)" by (simp add: mixed_inv_def mixed_new_def held_def book_new_bench spec_ids_def book_size_def stats_new_def)
    fix k and m :: "'b mixed"
    assume "k < length [0..<1000000]" "mixed_inv k m"
    then show "\<exists>m'. mixed_iter E ([0..<1000000] ! k) m = Some m' \<and> mixed_inv (Suc k) m'" using mixed_step by (simp del: upt_conv_Cons upt_rec_numeral)
  qed
  then obtain m where m: "loop (mixed_iter E) [0..<1000000] (mixed_new e) = Some m" "mixed_inv 1000000 m" by (auto simp del: upt_rec_numeral)
  then have len: "length (samples (mx_add m)) < 2 ^ 54" "length (samples (mx_cancel m)) < 2 ^ 54" "length (samples (mx_match m)) < 2 ^ 54" by (simp_all add: mixed_inv_def)
  obtain s1 l1 where p1: "print_stats ns ''add (resting)'' (mx_add m) = Some (s1, l1)" by (rule print_stats_defined [OF len(1)])
  obtain s2 l2 where p2: "print_stats ns ''cancel'' (mx_cancel m) = Some (s2, l2)" by (rule print_stats_defined [OF len(2)])
  obtain s3 l3 where p3: "print_stats ns ''match (aggressive)'' (mx_match m) = Some (s3, l3)" by (rule print_stats_defined [OF len(3)])
  have v: "book_ok (mx_book m)" "tracked (mx_book m)" "book_size (abs_book (mx_book m)) \<le> 1000000" using m(2) by (simp_all add: mixed_inv_def held_def)
  have "validate_bbo (mx_book m) = Some True" using validate_bbo_rep [OF book_ok_rep [OF v(1)]] .
  with m(1) p1 p2 p3 v show ?thesis by (simp add: mixed_workload_run_def active_orders_size del: upt_rec_numeral)
qed

end
