(* ===== verification/Engine_Bench.thy ===== *)
theory Engine_Bench
  imports Book_Bench_Runs
begin

section \<open>The throughput of the engine\<close>

text \<open>
  \<open>engine_throughput_run\<close> of \<open>Book_Bench\<close>: 200000 requests fit into the inbound ring, none of them trades, and the 200000 acceptances fit into the outbound ring. The
  loops over the rings (\<open>pump\<close>, \<open>count_out\<close>) are shown to end.
\<close>

subsection \<open>The requests\<close>

primrec batch :: "nat \<Rightarrow> InboundMessage list \<Rightarrow> bool" where
  "batch k [] \<longleftrightarrow> True"
| "batch k (m # ms) \<longleftrightarrow> (\<exists>t. m = bench_msg k t) \<and> batch (Suc k) ms"

lemma batch_snoc: "batch k (ms @ [m]) \<longleftrightarrow> batch k ms \<and> (\<exists>t. m = bench_msg (k + length ms) t)"
  by (induction ms arbitrary: k) auto

text \<open>The abstract engine after \<open>k\<close> requests: the bids are below the asks, nothing has traded.\<close>

definition lane :: "nat \<Rightarrow> spec_engine \<Rightarrow> bool" where
  "lane k S \<longleftrightarrow> (\<forall>x\<in>set (se_book S Bids). o_price x \<le> 95099) \<and> (\<forall>x\<in>set (se_book S Asks). 105000 \<le> o_price x)
     \<and> book_size (se_book S) = k \<and> se_next S = of_nat (Suc k) \<and> se_match S = 1"

lemma lane_step:
  assumes "lane k S" "k < 200000"
  shows "\<exists>S'. spec_process MAX_ORDERS t (bench_msg k t0) S = (S', [accept_msg 1 (se_next S) t]) \<and> lane (Suc k) S'"
proof -
  let ?m = "bench_msg k t0"
  define s where "s = (if k mod 2 = 0 then Buy else Sell)"
  define p where "p = (if s = Buy then 95000 + of_nat (k mod 100) else 105000 + of_nat (k mod 100) :: Price)"
  have k: "k mod 100 < 100" by simp
  then have "unat (of_nat (k mod 100) :: Price) = k mod 100" by (simp add: unsigned_of_nat take_bit_nat_eq_self)
  then have "unat (95000 + of_nat (k mod 100) :: Price) = 95000 + k mod 100" "unat (105000 + of_nat (k mod 100) :: Price) = 105000 + k mod 100"
    using k by (subst unat_add_lem [THEN iffD1]; simp)+
  then have up: "s = Buy \<longrightarrow> unat p = 95000 + k mod 100" "s = Sell \<longrightarrow> unat p = 105000 + k mod 100" by (simp_all add: p_def)
  have sd: "s = Buy \<or> s = Sell" by (simp add: s_def)
  have p: "MIN_PRICE \<le> p" "p \<le> MAX_PRICE" "s = Buy \<longrightarrow> p \<le> 95099" "s = Sell \<longrightarrow> 105000 \<le> p"
    using up sd k by (auto simp: const_defs word_le_nat_alt)
  have v: "\<forall>x\<in>set (se_book S Bids). o_price x \<le> 95099" "\<forall>x\<in>set (se_book S Asks). 105000 \<le> o_price x" "book_size (se_book S) = k" "se_next S = of_nat (Suc k)" "se_match S = 1"
    using assms(1) by (simp_all add: lane_def)
  have room: "\<not> rejects MAX_ORDERS Limit p (se_book S)" using v(3) assms(2) p(1,2) by (simp add: rejects_limit MAX_ORDERS_def)
  have quiet: "se_book S (other (half_of s)) = [] \<or> \<not> accepts Limit (other (half_of s)) p (o_price (hd (se_book S (other (half_of s)))))"
    by (rule quiet_sides [OF sd p(3,4) _ v(1,2)]) (simp add: word_less_nat_alt)
  let ?x = "mk_order (se_next S) 1 s Limit p 10 t0"
  let ?B = "(se_book S)(half_of s := insert_prio (half_of s) ?x (se_book S (half_of s)))"
  have q: "(10::Quantity) \<noteq> 0" by simp
  note add = spec_add_rest [OF room q quiet, of "se_next S" 1 t0]
  have m: "in_type ?m = NewOrder" "in_client_id ?m = 1" "in_side ?m = s" "in_order_type ?m = Limit" "in_price ?m = p" "in_quantity ?m = 10" "in_recv_tsc ?m = t0"
    by (simp_all add: bench_msg_def Let_def s_def p_def)
  let ?S = "S\<lparr>se_book := ?B, se_next := se_next S + 1\<rparr>"
  have "spec_process MAX_ORDERS t ?m S = (?S, [accept_msg 1 (se_next S) t])"
    using add by (simp add: spec_process_def m)
  moreover have "lane (Suc k) ?S"
  proof -
    have pr: "s = Buy \<longrightarrow> o_price ?x \<le> 95099" "s = Sell \<longrightarrow> 105000 \<le> o_price ?x" using p(3,4) by (simp_all add: mk_order_def)
    have "book_size ?B = Suc k" using v(3) by (simp add: book_size_upd length_insert_prio book_size_other [where s = "half_of s"])
    then show ?thesis using sides_insert [OF sd pr v(1,2)] v(4,5) by (simp add: lane_def algebra_simps)
  qed
  ultimately show ?thesis by blast
qed

subsection \<open>The loops\<close>

definition filled :: "nat \<Rightarrow> InboundMessage ring \<times> 'e \<Rightarrow> bool" where
  "filled k x \<longleftrightarrow> ring_ok RING_SIZE (fst x) \<and> batch 0 (contents RING_SIZE (fst x)) \<and> length (contents RING_SIZE (fst x)) = k
     \<and> 2 ^ 64 - 1 \<le> pushes_left (fst x) + k"

lemma fill_step:
  assumes "k < 200000" "filled k x"
  shows "\<exists>x'. fill_iter E k x = Some x' \<and> filled (Suc k) x'"
proof -
  obtain r e where x: "x = (r, e)" by fastforce
  obtain t e1 where t: "be_tsc E e = (t, e1)" by fastforce
  have v: "ring_ok RING_SIZE r" "batch 0 (contents RING_SIZE r)" "length (contents RING_SIZE r) = k" "2 ^ 64 - 1 \<le> pushes_left r + k"
    using assms(2) unfolding filled_def x fst_conv by blast+
  have "pushes_left r \<noteq> 0" "k < RING_SIZE" using v(4) assms(1) by (simp_all add: RING_SIZE_def)
  with rq.push_law [OF v(1), of "bench_msg k t"] v(3) obtain r' where
    r': "snd (ring_push RING_SIZE (bench_msg k t) r) = r'" "ring_ok RING_SIZE r'" "contents RING_SIZE r' = contents RING_SIZE r @ [bench_msg k t]"
      "pushes_left r \<le> Suc (pushes_left r')" by (auto simp del: length_contents)
  have "filled (Suc k) (r', e1)" unfolding filled_def fst_conv r'(3) using r'(2,4) v(2,3,4) by (auto simp: batch_snoc simp del: length_contents)
  with r'(1) show ?thesis by (simp add: x fill_iter_def t)
qed

definition all_accepted :: "nat \<Rightarrow> OutboundMessage list \<Rightarrow> bool" where
  "all_accepted k ms \<longleftrightarrow> map (\<lambda>m. (out_type m, out_client_id m, out_order_id m)) ms = map (\<lambda>i. (OrderAccepted, 1, of_nat (Suc i))) [0..<k]"

lemma all_accepted_length: "all_accepted k ms \<Longrightarrow> length ms = k"
  unfolding all_accepted_def by (drule arg_cong [where f = length]) simp

lemma all_accepted_snoc: "all_accepted k ms \<Longrightarrow> all_accepted (Suc k) (ms @ [accept_msg 1 (of_nat (Suc k)) t])"
  by (simp add: all_accepted_def accept_msg_def)

definition pumping :: "nat \<Rightarrow> nat \<Rightarrow> MatchingEngine \<Rightarrow> bool" where
  "pumping k n g \<longleftrightarrow> engine_ok g \<and> batch k (contents RING_SIZE (inbound g)) \<and> length (contents RING_SIZE (inbound g)) = n \<and> lane k (engine_abs g)
     \<and> all_accepted k (contents RING_SIZE (outbound g)) \<and> 2 ^ 64 - 1 \<le> pushes_left (outbound g) + k"

lemma pump_step:
  assumes "pumping k (Suc n) g" "k < 200000"
  shows "\<exists>m r g'. ring_pop RING_SIZE (inbound g) = (Some m, r) \<and> process t m (g\<lparr>inbound := r\<rparr>) = Some g' \<and> pumping (Suc k) n g'"
proof -
  have v: "engine_ok g" "batch k (contents RING_SIZE (inbound g))" "length (contents RING_SIZE (inbound g)) = Suc n" "lane k (engine_abs g)"
    "all_accepted k (contents RING_SIZE (outbound g))" "2 ^ 64 - 1 \<le> pushes_left (outbound g) + k"
    using assms(1) unfolding pumping_def by blast+
  from v(3) obtain m ms where c: "contents RING_SIZE (inbound g) = m # ms" "length ms = n" by (metis length_Suc_conv)
  with rq.pop_law [OF engine_okD(4) [OF v(1)]] obtain r where
    r: "ring_pop RING_SIZE (inbound g) = (Some m, r)" "ring_ok RING_SIZE r" "contents RING_SIZE r = ms" by auto
  from c(1) v(2) obtain t0 where m: "m = bench_msg k t0" and b: "batch (Suc k) ms" by auto
  let ?g = "g\<lparr>inbound := r\<rparr>"
  have ok: "engine_ok ?g" and same: "engine_abs ?g = engine_abs g" using v(1) r(2) by (simp_all add: engine_ok_def engine_abs_def)
  from lane_step [OF v(4) assms(2), of t t0] obtain S where
    S: "spec_process MAX_ORDERS t m (engine_abs ?g) = (S, [accept_msg 1 (se_next (engine_abs g)) t])" "lane (Suc k) S" unfolding m same by blast
  have nx: "next_id g = of_nat (Suc k)" using v(4) by (simp add: lane_def engine_abs_def)
  have id: "unat (next_id ?g) < MAX_ORDERS" using assms(2) unat_small [of "Suc k"] by (simp add: nx MAX_ORDERS_def)
  have room: "length [accept_msg 1 (se_next (engine_abs g)) t] \<le> pushes_left (outbound ?g)" using v(6) assms(2) by simp
  from process_spec [OF ok id S(1) room] obtain g' where
    g': "process t m ?g = Some g'" "engine_ok g'" "engine_abs g' = S" "inbound g' = r" "pushes_left (outbound g) \<le> pushes_left (outbound g') + 1"
      "contents RING_SIZE (outbound g') = contents RING_SIZE (outbound g)
         @ take (RING_SIZE - length (contents RING_SIZE (outbound g))) [accept_msg 1 (se_next (engine_abs g)) t]"
    by auto
  have "0 < RING_SIZE - length (contents RING_SIZE (outbound g))" unfolding all_accepted_length [OF v(5)] using assms(2) by (simp add: RING_SIZE_def)
  then have "contents RING_SIZE (outbound g') = contents RING_SIZE (outbound g) @ [accept_msg 1 (of_nat (Suc k)) t]"
    unfolding g'(6) using nx by (cases "RING_SIZE - length (contents RING_SIZE (outbound g))") (simp_all add: engine_abs_def del: length_contents)
  then have "all_accepted (Suc k) (contents RING_SIZE (outbound g'))" using all_accepted_snoc [OF v(5)] by simp
  then have "pumping (Suc k) n g'"
    unfolding pumping_def g'(3,4) r(3) using g'(2,5) b c(2) S(2) v(6) by simp
  with r(1) g'(1) show ?thesis by blast
qed

lemma pump_result:
  assumes "pumping k n g" "k + n \<le> 200000"
  shows "\<exists>e' g'. pump E e g = Some (e', g') \<and> pumping (k + n) 0 g'"
  using assms
proof (induction n arbitrary: k e g)
  case 0
  then have ok: "ring_ok RING_SIZE (inbound g)" and em: "contents RING_SIZE (inbound g) = []" unfolding pumping_def engine_ok_def by (auto simp del: length_contents)
  from rq.pop_law [OF ok] em obtain r where r: "ring_pop RING_SIZE (inbound g) = (None, r)" "ring_ok RING_SIZE r" "contents RING_SIZE r = []" by auto
  have "pumping k 0 (g\<lparr>inbound := r\<rparr>)" using 0(1) r(2,3) unfolding pumping_def engine_ok_def engine_abs_def by simp
  then show ?case by (subst pump.simps) (simp add: r(1))
next
  case (Suc n)
  obtain t e1 where t: "be_tsc E e = (t, e1)" by fastforce
  from pump_step [OF Suc.prems(1), of t] Suc.prems(2) obtain m r g' where
    s: "ring_pop RING_SIZE (inbound g) = (Some m, r)" "process t m (g\<lparr>inbound := r\<rparr>) = Some g'" "pumping (Suc k) n g'" by auto
  from Suc.IH [OF s(3), of e1] Suc.prems(2) obtain e' g'' where "pump E e1 g' = Some (e', g'')" "pumping (k + Suc n) 0 g''" by auto
  with s(1,2) t show ?case by (subst pump.simps) simp
qed

lemma count_out_result:
  assumes "ring_ok RING_SIZE r" "length (contents RING_SIZE r) = k"
  shows "\<exists>r'. count_out r n = Some (n + k, r') \<and> ring_ok RING_SIZE r' \<and> contents RING_SIZE r' = []"
  using assms
proof (induction k arbitrary: r n)
  case 0
  then have "contents RING_SIZE r = []" by (metis length_0_conv)
  with rq.pop_law [OF 0(1)] show ?case by (subst count_out.simps) auto
next
  case (Suc k)
  then obtain m ms where c: "contents RING_SIZE r = m # ms" "length ms = k" by (metis length_Suc_conv)
  with rq.pop_law [OF Suc.prems(1)] obtain r1 where r1: "ring_pop RING_SIZE r = (Some m, r1)" "ring_ok RING_SIZE r1" "contents RING_SIZE r1 = ms" by auto
  from Suc.IH [OF r1(2), of "Suc n"] r1(1,3) c(2) show ?case by (subst count_out.simps) (simp add: del: length_contents)
qed

lemma engine_throughput_run_result:
  "\<exists>dt g e'. engine_throughput_run E ji jo e = Some (dt, 200000, g, e') \<and> engine_ok g \<and> active_orders (book g) = 200000
     \<and> match_number g = 1 \<and> next_id g = 200001"
proof -
  note cap = cap_ok_RING_SIZE
  have "\<exists>x. loop (fill_iter E) [0..<200000] (ring_new ji, e) = Some x \<and> filled (length [0..<200000]) x"
    using fill_step ring_new_ok(1) [OF cap, of ji] by (intro loop_inv) (simp_all add: filled_def ring_new_ok(2,3) del: length_contents upt_rec_numeral)
  then obtain inb e1 where f: "loop (fill_iter E) [0..<200000] (ring_new ji, e) = Some (inb, e1)" "filled 200000 (inb, e1)"
    by (auto simp del: upt_rec_numeral)
  have inb: "ring_ok RING_SIZE inb" "batch 0 (contents RING_SIZE inb)" "length (contents RING_SIZE inb) = 200000"
    using f(2) unfolding filled_def fst_conv by blast+
  obtain t0 e2 where t0: "be_tsc E e1 = (t0, e2)" by fastforce
  let ?g = "engine_new inb (ring_new jo)"
  note new = engine_new_ok [OF inb(1) ring_new_ok(1) [OF cap, of jo]]
  have "inbound ?g = inb" "outbound ?g = ring_new jo" by (simp_all add: engine_new_def)
  then have "pumping 0 200000 ?g"
    unfolding pumping_def new(2) using new(1) inb by (simp add: lane_def book_size_def all_accepted_def ring_new_ok(2,3) del: length_contents)
  from pump_result [OF this, of E e2] obtain e3 g where g: "pump E e2 ?g = Some (e3, g)" "pumping 200000 0 g" by auto
  have v: "engine_ok g" "lane 200000 (engine_abs g)" "all_accepted 200000 (contents RING_SIZE (outbound g))" using g(2) unfolding pumping_def by simp_all
  obtain t1 e4 where t1: "be_tsc E e3 = (t1, e4)" by fastforce
  from count_out_result [OF engine_okD(5) [OF v(1)] all_accepted_length [OF v(3)], of 0] obtain r where
    r: "count_out (outbound g) 0 = Some (200000, r)" "ring_ok RING_SIZE r" by auto
  have "engine_ok (g\<lparr>outbound := r\<rparr>)" using v(1) r(2) by (simp add: engine_ok_def)
  moreover have "active_orders (book g) = 200000" using v(2) engine_okD(1) [OF v(1)] by (simp add: active_orders_size lane_def engine_abs_def)
  moreover have "match_number g = 1" "next_id g = 200001" using v(2) by (simp_all add: lane_def engine_abs_def)
  moreover have "engine_throughput_run E ji jo e = Some (t1 - t0, 200000, g\<lparr>outbound := r\<rparr>, e4)"
    unfolding engine_throughput_run_def using f(1) t0 g(1) t1 r(1) by (simp del: upt_rec_numeral)
  ultimately show ?thesis by auto
qed

subsection \<open>The program\<close>

record 'd bench_report =
  br_add :: "'d stats_line option"
  br_cancel :: "'d stats_line option"
  br_matching :: "'d match_report"
  br_mixed :: "'d match_report"
  br_ns :: 'd
  br_outbound :: nat

definition order_book_bench_main ::
  "('f, 'd) tick_arith \<Rightarrow> 'e bench_env \<Rightarrow> (nat \<Rightarrow> InboundMessage) \<Rightarrow> (nat \<Rightarrow> OutboundMessage) \<Rightarrow> 'e \<Rightarrow> ('d bench_report \<times> 'e) option" where
  "order_book_bench_main A E ji jo e = do {
     (la, _, e1) \<leftarrow> bench_add_order A E e;
     (lc, _, _, e2) \<leftarrow> bench_cancel_order A E e1;
     (rm, _, e3) \<leftarrow> bench_matching A E e2;
     (rx, _, e4) \<leftarrow> bench_mixed_workload A E e3;
     (dt, n, _, e5) \<leftarrow> bench_engine_throughput A E ji jo e4;
     Some (\<lparr>br_add = la, br_cancel = lc, br_matching = rm, br_mixed = rx, br_ns = dt, br_outbound = n\<rparr>, e5)
   }"

text \<open>Every benchmark returns when the calibration does.\<close>

lemma benches_return:
  assumes "ta_add A = wrap_add" "rng_ok E"
  shows "\<exists>la b e'. bench_add_order A E e = Some (Some la, b, e') \<and> sl_n la = 500000"
    and "\<exists>lc js b e'. bench_cancel_order A E e = Some (Some lc, js, b, e') \<and> sl_n lc = 100000"
    and "\<exists>rm b e'. bench_matching A E e = Some (rm, b, e') \<and> mr_matches rm = 100000 \<and> mr_bbo_valid rm"
    and "\<exists>rx b e'. bench_mixed_workload A E e = Some (rx, b, e') \<and> mr_bbo_valid rx"
    and "\<exists>dt g e'. bench_engine_throughput A E ji jo e = Some (dt, 200000, g, e')"
proof -
  obtain tpn e1 where c: "calibrate_tsc A (bench_clock E) e = Some (tpn, e1)" using calibrate_tsc_wraps [OF assms(1), of "bench_clock E" e] by blast
  from add_order_run_result [OF assms(2), of "ta_ns A tpn" e1] show "\<exists>la b e'. bench_add_order A E e = Some (Some la, b, e') \<and> sl_n la = 500000"
    by (auto simp: bench_add_order_def c)
  from cancel_order_run_result [OF assms(2), of "ta_ns A tpn" e1] show "\<exists>lc js b e'. bench_cancel_order A E e = Some (Some lc, js, b, e') \<and> sl_n lc = 100000"
    by (auto simp: bench_cancel_order_def c)
  from matching_run_result [of E "ta_ns A tpn" e1] show "\<exists>rm b e'. bench_matching A E e = Some (rm, b, e') \<and> mr_matches rm = 100000 \<and> mr_bbo_valid rm"
    by (auto simp: bench_matching_def c)
  from mixed_workload_run_result [of E "ta_ns A tpn" e1] show "\<exists>rx b e'. bench_mixed_workload A E e = Some (rx, b, e') \<and> mr_bbo_valid rx"
    by (auto simp: bench_mixed_workload_def c)
  from engine_throughput_run_result [of E ji jo e1] show "\<exists>dt g e'. bench_engine_throughput A E ji jo e = Some (dt, 200000, g, e')"
    by (auto simp: bench_engine_throughput_def c)
qed

text \<open>A concrete environment: the clocks count their readings, the generator always gives the least value, and the shuffle leaves the list alone.\<close>

definition least_env :: "u64 bench_env" where
  "least_env = \<lparr>be_wall = (\<lambda>e. (uint e, e + 1)), be_tsc = (\<lambda>e. (e, e + 1)), be_price = (\<lambda>e. (100000, e)), be_bid = (\<lambda>e. (95000, e)), be_ask = (\<lambda>e. (100001, e)),
     be_qty = (\<lambda>e. (1, e)), be_action = (\<lambda>e. (0, e)), be_raw = (\<lambda>e. (0, e)), be_shuffle = (\<lambda>xs e. (xs, e))\<rparr>"

definition least_arith :: "(u64, u64) tick_arith" where
  "least_arith = \<lparr>ta_add = wrap_add, ta_ratio = (\<lambda>t w. t), ta_ns = (\<lambda>tpn t. t)\<rparr>"

text \<open>
  C39. The order book benchmark, for any clocks and any random generator that keeps to the documented ranges. In standard C++ it has no defined behaviour: the loop that calibrates the clock
  overflows a signed integer. With additions that wrap, which is what compilers make of it, the program returns, and its numbers are those it announces: 500000 calls of
  \<open>add_order\<close> and 100000 of \<open>cancel_order\<close> are timed; the matching benchmark makes exactly 100000 matches; both checks of the best prices against the levels succeed, so that no
  defect is reported; and the engine answers its 200000 requests with exactly 200000 messages, so that neither ring overflows.
\<close>

theorem order_book_bench_correct:
  assumes "rng_ok E"
  shows "order_book_bench_main (A\<lparr>ta_add := iso_add\<rparr>) E ji jo e = None
     \<and> (\<exists>la lc R e'. order_book_bench_main (A\<lparr>ta_add := wrap_add\<rparr>) E ji jo e = Some (R, e') \<and> br_add R = Some la \<and> sl_n la = 500000
       \<and> br_cancel R = Some lc \<and> sl_n lc = 100000 \<and> mr_matches (br_matching R) = 100000 \<and> mr_bbo_valid (br_matching R) \<and> mr_bbo_valid (br_mixed R)
       \<and> br_outbound R = 200000)"
proof
  show "order_book_bench_main (A\<lparr>ta_add := iso_add\<rparr>) E ji jo e = None"
    by (simp add: order_book_bench_main_def bench_add_order_def calibrate_tsc_overflows)
next
  let ?A = "A\<lparr>ta_add := wrap_add\<rparr>"
  note r = benches_return [OF _ assms, of ?A, simplified]
  from r(1) [of e] obtain la b1 e1 where 1: "bench_add_order ?A E e = Some (Some la, b1, e1)" "sl_n la = 500000" by blast
  from r(2) [of e1] obtain lc js b2 e2 where 2: "bench_cancel_order ?A E e1 = Some (Some lc, js, b2, e2)" "sl_n lc = 100000" by blast
  from r(3) [of e2] obtain rm b3 e3 where 3: "bench_matching ?A E e2 = Some (rm, b3, e3)" "mr_matches rm = 100000" "mr_bbo_valid rm" by blast
  from r(4) [of e3] obtain rx b4 e4 where 4: "bench_mixed_workload ?A E e3 = Some (rx, b4, e4)" "mr_bbo_valid rx" by blast
  from r(5) [of ji jo e4] obtain dt g e5 where 5: "bench_engine_throughput ?A E ji jo e4 = Some (dt, 200000, g, e5)" by blast
  from 1(1) 2(1) 3(1) 4(1) 5 have "order_book_bench_main ?A E ji jo e =
      Some (\<lparr>br_add = Some la, br_cancel = Some lc, br_matching = rm, br_mixed = rx, br_ns = dt, br_outbound = 200000\<rparr>, e5)"
    by (simp add: order_book_bench_main_def)
  with 1(2) 2(2) 3(2,3) 4(2) show "\<exists>la lc R e'. order_book_bench_main ?A E ji jo e = Some (R, e') \<and> br_add R = Some la \<and> sl_n la = 500000
       \<and> br_cancel R = Some lc \<and> sl_n lc = 100000 \<and> mr_matches (br_matching R) = 100000 \<and> mr_bbo_valid (br_matching R) \<and> mr_bbo_valid (br_mixed R)
       \<and> br_outbound R = 200000" by simp
qed

theorem order_book_bench_correct_witness:
  "rng_ok least_env \<and> (\<exists>R e'. order_book_bench_main least_arith least_env (\<lambda>_. bench_msg 0 0) (\<lambda>_. blank_out) 0 = Some (R, e') \<and> br_outbound R = 200000)"
proof -
  have rng: "rng_ok least_env" by (simp add: rng_ok_def least_env_def)
  have "least_arith\<lparr>ta_add := wrap_add\<rparr> = least_arith" by (simp add: least_arith_def)
  with order_book_bench_correct [OF rng, of least_arith "\<lambda>_. bench_msg 0 0" "\<lambda>_. blank_out" 0] rng show ?thesis by auto
qed

end
