(* ===== verification/Ring_Bench.thy ===== *)
theory Ring_Bench
  imports Spsc_Ring Bench_Stats C_Text
begin

section \<open>The ring benchmarks on one thread\<close>

text \<open>
  Models \<^verbatim>\<open>src/bench/ring_buffer_bench.cpp\<close>, except for the benchmarks with two threads (\<open>Pair_Bench\<close>, \<open>Ping_Pong\<close>). As in \<open>Book_Bench\<close> the clock
  is an operation on an environment, each benchmark begins with \<open>calibrate_tsc\<close>, and what follows is a definition of its own (\<open>_run\<close>). A benchmark returns the nanoseconds it prints and its
  state at the end. The final indices of the ring tell that no push and no pop failed, which the code does not check.
\<close>

subsection \<open>Messages, cores\<close>

record TestMsg =
  sequence :: u64
  msg_tsc :: u64
  payload :: "u8 list"

definition msg_zero :: TestMsg where
  "msg_zero = \<lparr>sequence = 0, msg_tsc = 0, payload = replicate 48 0\<rparr>"

definition producer_core :: "(string \<Rightarrow> string option) \<Rightarrow> int option" where
  "producer_core getenv = (case getenv ''PRODUCER_CORE'' of Some e \<Rightarrow> atoi e | None \<Rightarrow> Some 1)"

definition consumer_core :: "(string \<Rightarrow> string option) \<Rightarrow> int option" where
  "consumer_core getenv = (case getenv ''CONSUMER_CORE'' of Some e \<Rightarrow> atoi e | None \<Rightarrow> Some 2)"

text \<open>The affinity that is requested for the calling thread, on Linux only; the result of the request is ignored.\<close>

definition pin_to :: "bool \<Rightarrow> int \<Rightarrow> int option" where
  "pin_to linux core_no = (if linux then Some core_no else None)"

definition BENCH_CAP :: nat where
  "BENCH_CAP = 65536"

text \<open>\<open>ring.pop(msg)\<close> with the result ignored: \<open>msg\<close> keeps its value when the ring is empty.\<close>

definition pop_into :: "nat \<Rightarrow> TestMsg \<Rightarrow> TestMsg ring \<Rightarrow> TestMsg \<times> TestMsg ring" where
  "pop_into cap m r = (case ring_pop cap r of (x, r') \<Rightarrow> (case x of None \<Rightarrow> m | Some m' \<Rightarrow> m', r'))"

subsection \<open>Push and pop in turn\<close>

definition single_iter :: "nat \<Rightarrow> TestMsg \<times> TestMsg ring \<Rightarrow> (TestMsg \<times> TestMsg ring) option" where
  "single_iter i x = (case x of (m, r) \<Rightarrow>
     let m1 = m\<lparr>sequence := of_nat i\<rparr>;
         r1 = snd (ring_push BENCH_CAP m1 r)
     in Some (pop_into BENCH_CAP m1 r1))"

definition single_thread_throughput_run :: "('e \<Rightarrow> u64 \<times> 'e) \<Rightarrow> (nat \<Rightarrow> TestMsg) \<Rightarrow> 'e \<Rightarrow> (u64 \<times> TestMsg \<times> TestMsg ring \<times> 'e) option" where
  "single_thread_throughput_run tsc junk e = do {
     let (t0, e1) = tsc e;
     (m, r) \<leftarrow> loop single_iter [0..<10000000] (msg_zero, ring_new junk);
     let (t1, e2) = tsc e1;
     Some (t1 - t0, m, r, e2)
   }"

definition bench_single_thread_throughput ::
  "('f, 'd) tick_arith \<Rightarrow> 'e clock \<Rightarrow> (nat \<Rightarrow> TestMsg) \<Rightarrow> 'e \<Rightarrow> ('d \<times> TestMsg \<times> TestMsg ring \<times> 'e) option" where
  "bench_single_thread_throughput A C junk e = do {
     (tpn, e1) \<leftarrow> calibrate_tsc A C e;
     (dt, m, r, e2) \<leftarrow> single_thread_throughput_run (ck_tsc C) junk e1;
     Some (ta_ns A tpn dt, m, r, e2)
   }"

subsection \<open>Bursts\<close>

definition burst_push :: "nat \<Rightarrow> TestMsg \<times> TestMsg ring \<Rightarrow> (TestMsg \<times> TestMsg ring) option" where
  "burst_push i x = (case x of (m, r) \<Rightarrow> let m1 = m\<lparr>sequence := of_nat i\<rparr> in Some (m1, snd (ring_push BENCH_CAP m1 r)))"

definition burst_pop :: "nat \<Rightarrow> TestMsg \<times> TestMsg ring \<Rightarrow> (TestMsg \<times> TestMsg ring) option" where
  "burst_pop i x = (case x of (m, r) \<Rightarrow> Some (pop_into BENCH_CAP m r))"

record 'e burst =
  bu_msg :: TestMsg
  bu_ring :: "TestMsg ring"
  bu_push :: u64
  bu_pop :: u64
  bu_env :: 'e

definition burst_round :: "('e \<Rightarrow> u64 \<times> 'e) \<Rightarrow> nat \<Rightarrow> 'e burst \<Rightarrow> 'e burst option" where
  "burst_round tsc r b = do {
     let (t0, e1) = tsc (bu_env b);
     (m1, r1) \<leftarrow> loop burst_push [0..<BENCH_CAP] (bu_msg b, bu_ring b);
     let (t1, e2) = tsc e1;
     let b1 = b\<lparr>bu_push := bu_push b + (t1 - t0)\<rparr>;
     let (t2, e3) = tsc e2;
     (m2, r2) \<leftarrow> loop burst_pop [0..<BENCH_CAP] (m1, r1);
     let (t3, e4) = tsc e3;
     Some (b1\<lparr>bu_msg := m2, bu_ring := r2, bu_pop := bu_pop b1 + (t3 - t2), bu_env := e4\<rparr>)
   }"

definition burst_throughput_run :: "('e \<Rightarrow> u64 \<times> 'e) \<Rightarrow> (nat \<Rightarrow> TestMsg) \<Rightarrow> 'e \<Rightarrow> (nat \<times> 'e burst) option" where
  "burst_throughput_run tsc junk e = do {
     b \<leftarrow> loop (burst_round tsc) [0..<100] \<lparr>bu_msg = msg_zero, bu_ring = ring_new junk, bu_push = 0, bu_pop = 0, bu_env = e\<rparr>;
     Some (100 * BENCH_CAP, b)
   }"

definition bench_burst_throughput ::
  "('f, 'd) tick_arith \<Rightarrow> 'e clock \<Rightarrow> (nat \<Rightarrow> TestMsg) \<Rightarrow> 'e \<Rightarrow> (nat \<times> 'd \<times> 'd \<times> 'e burst) option" where
  "bench_burst_throughput A C junk e = do {
     (tpn, e1) \<leftarrow> calibrate_tsc A C e;
     (n, b) \<leftarrow> burst_throughput_run (ck_tsc C) junk e1;
     Some (n, ta_ns A tpn (bu_push b), ta_ns A tpn (bu_pop b), b)
   }"

subsection \<open>What they do\<close>

lemma cap_ok_bench: "cap_ok BENCH_CAP"
  unfolding cap_ok_def BENCH_CAP_def by (rule exI [of _ 16]) simp

text \<open>The ring after \<open>h\<close> pushes and \<open>t\<close> pops that all succeeded.\<close>

definition moved :: "nat \<Rightarrow> nat \<Rightarrow> TestMsg ring \<Rightarrow> bool" where
  "moved h t r \<longleftrightarrow> ring_ok BENCH_CAP r \<and> unat (r_head r) = h \<and> unat (r_tail r) = t"

lemma moved_new: "moved 0 0 (ring_new junk)"
  using ring_new_ok(1) [OF cap_ok_bench, of junk] by (simp add: moved_def ring_new_def)

lemma moved_push:
  assumes "moved h t r" "h - t < BENCH_CAP" "h < 2 ^ 64 - 1"
  shows "fst (ring_push BENCH_CAP m r)" "moved (Suc h) t (snd (ring_push BENCH_CAP m r))"
    "contents BENCH_CAP (snd (ring_push BENCH_CAP m r)) = contents BENCH_CAP r @ [m]"
proof -
  have r: "ring_ok BENCH_CAP r" "unat (r_head r) = h" "unat (r_tail r) = t" using assms(1) by (simp_all add: moved_def)
  have room: "length (contents BENCH_CAP r) < BENCH_CAP" using r assms(2) by simp
  have left: "pushes_left r \<noteq> 0" using assms(3) r(2) by (simp add: pushes_left_def)
  from ring_push_room [OF r(1) room, of m] obtain ct where
    p: "ring_push BENCH_CAP m r = (True, r\<lparr>cached_tail := ct, buffer := (buffer r)(unat (r_head r) mod BENCH_CAP := m), r_head := r_head r + 1\<rparr>)" by blast
  from rq.push_law [OF r(1) left, of m] room p have "ring_ok BENCH_CAP (snd (ring_push BENCH_CAP m r))"
    "contents BENCH_CAP (snd (ring_push BENCH_CAP m r)) = contents BENCH_CAP r @ [m]" by (auto simp del: length_contents)
  moreover have "unat (r_head r + 1) = Suc h" using unat_succ_u64 [of "r_head r"] assms(3) r(2) by simp
  ultimately show "fst (ring_push BENCH_CAP m r)" "moved (Suc h) t (snd (ring_push BENCH_CAP m r))"
    "contents BENCH_CAP (snd (ring_push BENCH_CAP m r)) = contents BENCH_CAP r @ [m]" using p r(3) by (simp_all add: moved_def)
qed

lemma moved_pop:
  assumes "moved h t r" "contents BENCH_CAP r = x # xs"
  obtains r' where "pop_into BENCH_CAP m r = (x, r')" "moved h (Suc t) r'" "contents BENCH_CAP r' = xs"
proof -
  have r: "ring_ok BENCH_CAP r" "unat (r_head r) = h" "unat (r_tail r) = t" using assms(1) by (simp_all add: moved_def)
  from ring_pop_item [OF r(1)] assms(2) obtain ch where
    p: "ring_pop BENCH_CAP r = (Some (buffer r (unat (r_tail r) mod BENCH_CAP)), r\<lparr>cached_head := ch, r_tail := r_tail r + 1\<rparr>)" by auto
  let ?r = "r\<lparr>cached_head := ch, r_tail := r_tail r + 1\<rparr>"
  from rq.pop_law [OF r(1)] p assms(2) have v: "buffer r (unat (r_tail r) mod BENCH_CAP) = x" "ring_ok BENCH_CAP ?r" "contents BENCH_CAP ?r = xs" by auto
  have "t < h" using assms(2) r by (metis length_contents length_greater_0_conv list.distinct(1) zero_less_diff)
  then have "unat (r_tail r) < 2 ^ 64 - 1" using r(2,3) unsigned_less [of "r_head r", where 'a = nat] by simp
  then have "unat (r_tail r + 1) = Suc t" using unat_succ_u64 [of "r_tail r"] r(3) by simp
  then show ?thesis using that [of ?r] p v r(2) by (simp add: pop_into_def moved_def)
qed

text \<open>After \<open>k\<close> iterations the ring is empty and the last message popped is the last one pushed.\<close>

definition single_inv :: "nat \<Rightarrow> TestMsg \<times> TestMsg ring \<Rightarrow> bool" where
  "single_inv k x \<longleftrightarrow> moved k k (snd x) \<and> (k \<noteq> 0 \<longrightarrow> sequence (fst x) = of_nat (k - 1))"

lemma single_step:
  assumes "single_inv k x" "k < 10000000" shows "\<exists>x'. single_iter k x = Some x' \<and> single_inv (Suc k) x'"
proof -
  obtain m r where x: "x = (m, r)" by fastforce
  let ?m = "m\<lparr>sequence := of_nat k\<rparr>"
  have r: "moved k k r" using assms(1) by (simp add: x single_inv_def)
  then have e: "contents BENCH_CAP r = []" by (simp add: moved_def contents_def)
  have "k - k < BENCH_CAP" "k < 2 ^ 64 - 1" using assms(2) by (simp_all add: BENCH_CAP_def)
  note p = moved_push [OF r this, of ?m]
  have c: "contents BENCH_CAP (snd (ring_push BENCH_CAP ?m r)) = ?m # []" using p(3) e by simp
  obtain r' where "pop_into BENCH_CAP ?m (snd (ring_push BENCH_CAP ?m r)) = (?m, r')" "moved (Suc k) (Suc k) r'" by (rule moved_pop [OF p(2) c])
  then show ?thesis by (simp add: x single_iter_def single_inv_def Let_def)
qed

lemma single_thread_throughput_run_result:
  "\<exists>dt m r e'. single_thread_throughput_run tsc junk e = Some (dt, m, r, e') \<and> sequence m = 9999999
     \<and> r_head r = 10000000 \<and> r_tail r = 10000000 \<and> contents BENCH_CAP r = []"
proof -
  have "\<exists>x. loop single_iter [0..<10000000] (msg_zero, ring_new junk) = Some x \<and> single_inv (length [0..<10000000::nat]) x"
    using single_step moved_new [of junk] by (intro loop_inv) (simp_all add: single_inv_def del: upt_rec_numeral)
  then obtain m r where l: "loop single_iter [0..<10000000] (msg_zero, ring_new junk) = Some (m, r)" "single_inv 10000000 (m, r)"
    by (auto simp del: upt_rec_numeral)
  then have v: "unat (r_head r) = 10000000" "unat (r_tail r) = 10000000" "sequence m = 9999999" by (simp_all add: single_inv_def moved_def)
  have "unat (10000000 :: u64) = 10000000" by simp
  then have "r_head r = 10000000" "r_tail r = 10000000" using v(1,2) by (metis word_unat_eq_iff)+
  moreover have "contents BENCH_CAP r = []" by (simp add: contents_def v)
  ultimately show ?thesis using l(1) v(3) by (simp add: single_thread_throughput_run_def split_beta del: upt_rec_numeral)
qed

definition push_inv :: "nat \<Rightarrow> nat \<Rightarrow> TestMsg \<times> TestMsg ring \<Rightarrow> bool" where
  "push_inv a k x \<longleftrightarrow> moved (a + k) a (snd x) \<and> map sequence (contents BENCH_CAP (snd x)) = map of_nat [0..<k]"

definition pop_inv_k :: "nat \<Rightarrow> nat \<Rightarrow> TestMsg \<times> TestMsg ring \<Rightarrow> bool" where
  "pop_inv_k a k x \<longleftrightarrow> moved (a + BENCH_CAP) (a + k) (snd x) \<and> map sequence (contents BENCH_CAP (snd x)) = map of_nat [k..<BENCH_CAP]
     \<and> (k \<noteq> 0 \<longrightarrow> sequence (fst x) = of_nat (k - 1))"

lemma burst_push_step:
  assumes "k < BENCH_CAP" "a < 2 ^ 32" "push_inv a k x"
  shows "\<exists>x'. burst_push k x = Some x' \<and> push_inv a (Suc k) x'"
proof -
  obtain m r where x: "x = (m, r)" by fastforce
  have r: "moved (a + k) a r" "map sequence (contents BENCH_CAP r) = map of_nat [0..<k]" using assms(3) by (simp_all add: x push_inv_def)
  have "a + k - a < BENCH_CAP" "a + k < 2 ^ 64 - 1" using assms(1,2) by (simp_all add: BENCH_CAP_def)
  note p = moved_push [OF r(1) this, of "m\<lparr>sequence := of_nat k\<rparr>"]
  show ?thesis using p(2,3) r(2) by (simp add: x burst_push_def push_inv_def Let_def)
qed

lemma burst_pop_step:
  assumes "k < BENCH_CAP" "pop_inv_k a k x"
  shows "\<exists>x'. burst_pop k x = Some x' \<and> pop_inv_k a (Suc k) x'"
proof -
  obtain m r where x: "x = (m, r)" by fastforce
  have r: "moved (a + BENCH_CAP) (a + k) r" "map sequence (contents BENCH_CAP r) = map of_nat [k..<BENCH_CAP]" using assms(2) by (simp_all add: x pop_inv_k_def)
  then obtain y ys where c: "contents BENCH_CAP r = y # ys" "sequence y = of_nat k" "map sequence ys = map of_nat [Suc k..<BENCH_CAP]"
    using assms(1) by (auto simp: upt_conv_Cons map_eq_Cons_conv)
  obtain r' where "pop_into BENCH_CAP m r = (y, r')" "moved (a + BENCH_CAP) (Suc (a + k)) r'" "contents BENCH_CAP r' = ys" by (rule moved_pop [OF r(1) c(1)])
  then show ?thesis using c(2,3) by (simp add: x burst_pop_def pop_inv_k_def)
qed

definition burst_inv :: "nat \<Rightarrow> 'e burst \<Rightarrow> bool" where
  "burst_inv k b \<longleftrightarrow> moved (k * BENCH_CAP) (k * BENCH_CAP) (bu_ring b) \<and> (k \<noteq> 0 \<longrightarrow> sequence (bu_msg b) = of_nat (BENCH_CAP - 1))"

lemma burst_step:
  assumes "k < 100" "burst_inv k b" shows "\<exists>b'. burst_round tsc k b = Some b' \<and> burst_inv (Suc k) b'"
proof -
  let ?a = "k * BENCH_CAP"
  have r: "moved ?a ?a (bu_ring b)" using assms(2) by (simp add: burst_inv_def)
  then have e: "contents BENCH_CAP (bu_ring b) = []" by (simp add: moved_def contents_def)
  have a: "?a < 2 ^ 32" using assms(1) by (simp add: BENCH_CAP_def)
  have "\<exists>x. loop burst_push [0..<BENCH_CAP] (bu_msg b, bu_ring b) = Some x \<and> push_inv ?a (length [0..<BENCH_CAP]) x"
    using burst_push_step [OF _ a] r e by (intro loop_inv) (simp_all add: push_inv_def)
  then obtain m1 r1 where l1: "loop burst_push [0..<BENCH_CAP] (bu_msg b, bu_ring b) = Some (m1, r1)" "push_inv ?a BENCH_CAP (m1, r1)" by auto
  then have "pop_inv_k ?a 0 (m1, r1)" by (simp add: push_inv_def pop_inv_k_def)
  then have "\<exists>x. loop burst_pop [0..<BENCH_CAP] (m1, r1) = Some x \<and> pop_inv_k ?a (length [0..<BENCH_CAP]) x"
    using burst_pop_step [of _ ?a] by (intro loop_inv) simp_all
  then obtain m2 r2 where l2: "loop burst_pop [0..<BENCH_CAP] (m1, r1) = Some (m2, r2)" "pop_inv_k ?a BENCH_CAP (m2, r2)" by auto
  have "BENCH_CAP \<noteq> 0" by (simp add: BENCH_CAP_def)
  then have "moved (Suc k * BENCH_CAP) (Suc k * BENCH_CAP) r2" "sequence m2 = of_nat (BENCH_CAP - 1)" using l2(2) by (simp_all add: pop_inv_k_def add.commute)
  then show ?thesis using l1(1) l2(1) by (simp add: burst_round_def split_beta burst_inv_def)
qed

lemma burst_throughput_run_result:
  "\<exists>b. burst_throughput_run tsc junk e = Some (6553600, b) \<and> r_head (bu_ring b) = 6553600 \<and> r_tail (bu_ring b) = 6553600
     \<and> sequence (bu_msg b) = 65535"
proof -
  have "\<exists>b. loop (burst_round tsc) [0..<100] \<lparr>bu_msg = msg_zero, bu_ring = ring_new junk, bu_push = 0, bu_pop = 0, bu_env = e\<rparr> = Some b
     \<and> burst_inv (length [0..<100::nat]) b"
    using burst_step moved_new [of junk] by (intro loop_inv) (simp_all add: burst_inv_def del: upt_rec_numeral)
  then obtain b where l: "loop (burst_round tsc) [0..<100] \<lparr>bu_msg = msg_zero, bu_ring = ring_new junk, bu_push = 0, bu_pop = 0, bu_env = e\<rparr> = Some b"
    "burst_inv 100 b" by (auto simp del: upt_rec_numeral)
  then have v: "unat (r_head (bu_ring b)) = 6553600" "unat (r_tail (bu_ring b)) = 6553600" "sequence (bu_msg b) = 65535"
    by (simp_all add: burst_inv_def moved_def BENCH_CAP_def)
  have "unat (6553600 :: u64) = 6553600" by simp
  then have "r_head (bu_ring b) = 6553600" "r_tail (bu_ring b) = 6553600" using v(1,2) by (metis word_unat_eq_iff)+
  then show ?thesis using l(1) v(3) by (simp add: burst_throughput_run_def BENCH_CAP_def del: upt_rec_numeral)
qed

text \<open>Neither benchmark has a defined result in standard C++. With additions that wrap both return, having moved every message.\<close>

lemma ring_benches_undefined:
  assumes "ta_add A = iso_add"
  shows "bench_single_thread_throughput A C junk e = None" "bench_burst_throughput A C junk e = None"
  by (simp_all add: bench_single_thread_throughput_def bench_burst_throughput_def calibrate_tsc_overflows [OF assms])

lemma ring_benches_return:
  assumes "ta_add A = wrap_add"
  shows "\<exists>ns m r e'. bench_single_thread_throughput A C junk e = Some (ns, m, r, e') \<and> sequence m = 9999999 \<and> r_head r = 10000000 \<and> r_tail r = 10000000"
    and "\<exists>ns1 ns2 b. bench_burst_throughput A C junk e = Some (6553600, ns1, ns2, b) \<and> r_head (bu_ring b) = 6553600 \<and> r_tail (bu_ring b) = 6553600"
proof -
  obtain tpn e1 where c: "calibrate_tsc A C e = Some (tpn, e1)" using calibrate_tsc_wraps [OF assms, of C e] by blast
  from single_thread_throughput_run_result [of "ck_tsc C" junk e1]
  show "\<exists>ns m r e'. bench_single_thread_throughput A C junk e = Some (ns, m, r, e') \<and> sequence m = 9999999 \<and> r_head r = 10000000 \<and> r_tail r = 10000000"
    by (auto simp: bench_single_thread_throughput_def c)
  from burst_throughput_run_result [of "ck_tsc C" junk e1]
  show "\<exists>ns1 ns2 b. bench_burst_throughput A C junk e = Some (6553600, ns1, ns2, b) \<and> r_head (bu_ring b) = 6553600 \<and> r_tail (bu_ring b) = 6553600"
    by (auto simp: bench_burst_throughput_def c)
qed

end
