(* ===== verification/Pair_Bench.thy ===== *)
theory Pair_Bench
  imports Ring_Bench
begin

section \<open>The ring benchmarks with a producer and a consumer\<close>

text \<open>
  Models \<open>bench_cross_core_latency\<close> and \<open>bench_throughput_cross_core\<close> of \<^verbatim>\<open>src/bench/ring_buffer_bench.cpp\<close>. Both start a consumer that pops a fixed number of messages, wait
  for its flag, push as many messages, and join. They share the step relation \<open>pair_step\<close>; what they do with a message is in \<open>hooks\<close>. One step is one
  call of \<open>push\<close> or \<open>pop\<close>, which the linearizability of the ring (\<open>Ring_Linear\<close>) justifies, one store or load of a flag, or one access to local data. A reading of the clock can be any value, since
  the two cores have clocks of their own. A thread that spins on \<open>ready\<close> or in \<open>join\<close> has no step until it goes on.
\<close>

subsection \<open>The threads\<close>

datatype producer_at = P_wait | P_pin | P_begin | P_loop nat | P_push nat | P_join | P_end

datatype consumer_at = C_pin | C_ready | C_loop nat | C_work nat | C_end

record pair =
  x_ring :: "TestMsg ring"
  x_ready :: bool
  x_done :: bool
  p_at :: producer_at
  p_msg :: TestMsg
  p_cpu :: "int option"
  p_times :: "u64 list"
  c_at :: consumer_at
  c_msg :: TestMsg
  c_cpu :: "int option"
  latencies :: "u64 list"

text \<open>
  The producer's assignments before a push, the consumer's after a pop, whether the producer reads the clock around its loop, and whether the consumer
  sets \<open>done\<close>.
\<close>

record hooks =
  h_prep :: "nat \<Rightarrow> u64 \<Rightarrow> TestMsg \<Rightarrow> TestMsg"
  h_work :: "nat \<Rightarrow> u64 \<Rightarrow> TestMsg \<Rightarrow> u64 list \<Rightarrow> u64 list"
  h_timed :: bool
  h_done :: bool

definition clamp :: "u64 \<Rightarrow> u64" where
  "clamp delta = (if delta > 2 ^ 62 then 0 else delta)"

definition latency_hooks :: hooks where
  "latency_hooks = \<lparr>h_prep = (\<lambda>i t m. m\<lparr>sequence := of_nat i, msg_tsc := t\<rparr>), h_work = (\<lambda>i t m ls. ls[i := clamp (t - msg_tsc m)]),
     h_timed = False, h_done = True\<rparr>"

definition throughput_hooks :: hooks where
  "throughput_hooks = \<lparr>h_prep = (\<lambda>i t m. m\<lparr>sequence := of_nat i\<rparr>), h_work = (\<lambda>i t m ls. ls), h_timed = True, h_done = False\<rparr>"

definition pair_start :: "nat \<Rightarrow> (nat \<Rightarrow> TestMsg) \<Rightarrow> TestMsg \<Rightarrow> pair" where
  "pair_start n junk m = \<lparr>x_ring = ring_new junk, x_ready = False, x_done = False, p_at = P_wait, p_msg = msg_zero, p_cpu = None, p_times = [],
     c_at = C_pin, c_msg = m, c_cpu = None, latencies = replicate n 0\<rparr>"

inductive pair_step :: "hooks \<Rightarrow> nat \<Rightarrow> int option \<Rightarrow> int option \<Rightarrow> pair \<Rightarrow> pair \<Rightarrow> bool" for H n pc cc where
  consumer_pin: "c_at s = C_pin \<Longrightarrow> pair_step H n pc cc s (s\<lparr>c_cpu := cc, c_at := C_ready\<rparr>)"
| consumer_ready: "c_at s = C_ready \<Longrightarrow> pair_step H n pc cc s (s\<lparr>x_ready := True, c_at := C_loop 0\<rparr>)"
| consumer_pop: "c_at s = C_loop i \<Longrightarrow> i < n \<Longrightarrow> ring_pop BENCH_CAP (x_ring s) = (Some m, r) \<Longrightarrow>
    pair_step H n pc cc s (s\<lparr>x_ring := r, c_msg := m, c_at := C_work i\<rparr>)"
| consumer_spin: "c_at s = C_loop i \<Longrightarrow> i < n \<Longrightarrow> ring_pop BENCH_CAP (x_ring s) = (None, r) \<Longrightarrow> pair_step H n pc cc s (s\<lparr>x_ring := r\<rparr>)"
| consumer_work: "c_at s = C_work i \<Longrightarrow> pair_step H n pc cc s (s\<lparr>latencies := h_work H i t (c_msg s) (latencies s), c_at := C_loop (Suc i)\<rparr>)"
| consumer_end: "c_at s = C_loop i \<Longrightarrow> \<not> i < n \<Longrightarrow> pair_step H n pc cc s (s\<lparr>x_done := (x_done s \<or> h_done H), c_at := C_end\<rparr>)"
| producer_wait: "p_at s = P_wait \<Longrightarrow> x_ready s \<Longrightarrow> pair_step H n pc cc s (s\<lparr>p_at := P_pin\<rparr>)"
| producer_pin: "p_at s = P_pin \<Longrightarrow> pair_step H n pc cc s (s\<lparr>p_cpu := pc, p_at := P_begin\<rparr>)"
| producer_begin: "p_at s = P_begin \<Longrightarrow> pair_step H n pc cc s (s\<lparr>p_times := (if h_timed H then p_times s @ [t] else p_times s), p_at := P_loop 0\<rparr>)"
| producer_prep: "p_at s = P_loop i \<Longrightarrow> i < n \<Longrightarrow> pair_step H n pc cc s (s\<lparr>p_msg := h_prep H i t (p_msg s), p_at := P_push i\<rparr>)"
| producer_push: "p_at s = P_push i \<Longrightarrow> ring_push BENCH_CAP (p_msg s) (x_ring s) = (True, r) \<Longrightarrow> pair_step H n pc cc s (s\<lparr>x_ring := r, p_at := P_loop (Suc i)\<rparr>)"
| producer_spin: "p_at s = P_push i \<Longrightarrow> ring_push BENCH_CAP (p_msg s) (x_ring s) = (False, r) \<Longrightarrow> pair_step H n pc cc s (s\<lparr>x_ring := r\<rparr>)"
| producer_stop: "p_at s = P_loop i \<Longrightarrow> \<not> i < n \<Longrightarrow> pair_step H n pc cc s (s\<lparr>p_times := (if h_timed H then p_times s @ [t] else p_times s), p_at := P_join\<rparr>)"
| producer_join: "p_at s = P_join \<Longrightarrow> c_at s = C_end \<Longrightarrow> pair_step H n pc cc s (s\<lparr>p_at := P_end\<rparr>)"

inductive pair_reach :: "hooks \<Rightarrow> nat \<Rightarrow> int option \<Rightarrow> int option \<Rightarrow> pair \<Rightarrow> pair \<Rightarrow> bool" for H n pc cc s0 where
  start: "pair_reach H n pc cc s0 s0"
| step: "pair_reach H n pc cc s0 s \<Longrightarrow> pair_step H n pc cc s s' \<Longrightarrow> pair_reach H n pc cc s0 s'"

definition LATENCY_N :: nat where
  "LATENCY_N = 1000000"

definition THROUGHPUT_N :: nat where
  "THROUGHPUT_N = 10000000"

text \<open>The states that the two benchmarks go through once the calibration has returned.\<close>

definition bench_cross_core_latency :: "('f, 'd) tick_arith \<Rightarrow> 'e clock \<Rightarrow> 'e \<Rightarrow> int option \<Rightarrow> int option \<Rightarrow> (nat \<Rightarrow> TestMsg) \<Rightarrow> TestMsg \<Rightarrow> pair \<Rightarrow> bool" where
  "bench_cross_core_latency A C e pc cc junk m s \<longleftrightarrow>
     calibrate_tsc A C e \<noteq> None \<and> pair_reach latency_hooks LATENCY_N pc cc (pair_start LATENCY_N junk m) s"

definition bench_throughput_cross_core :: "('f, 'd) tick_arith \<Rightarrow> 'e clock \<Rightarrow> 'e \<Rightarrow> int option \<Rightarrow> int option \<Rightarrow> (nat \<Rightarrow> TestMsg) \<Rightarrow> TestMsg \<Rightarrow> pair \<Rightarrow> bool" where
  "bench_throughput_cross_core A C e pc cc junk m s \<longleftrightarrow>
     calibrate_tsc A C e \<noteq> None \<and> pair_reach throughput_hooks THROUGHPUT_N pc cc (pair_start 0 junk m) s"

text \<open>The line printed by \<open>bench_cross_core_latency\<close>: the percentiles of the sorted vector, with its index computed in \<open>int\<close>.\<close>

definition latency_report :: "(u64 \<Rightarrow> 'd) \<Rightarrow> u64 list \<Rightarrow> 'd list option" where
  "latency_report ns ls = do {
     let ys = sort ls;
     p50 \<leftarrow> sample_at ys (LATENCY_N * 50 div 100);
     p90 \<leftarrow> sample_at ys (LATENCY_N * 90 div 100);
     p99 \<leftarrow> sample_at ys (LATENCY_N * 99 div 100);
     p999 \<leftarrow> sample_at ys (LATENCY_N * 999 div 1000);
     mn \<leftarrow> sample_at ys 0;
     mx \<leftarrow> sample_at ys (LATENCY_N - 1);
     Some (map ns [p50, p90, p99, p999, mn, mx])
   }"

subsection \<open>Invariant\<close>

definition n_pushed :: "nat \<Rightarrow> producer_at \<Rightarrow> nat" where
  "n_pushed n p = (case p of P_loop i \<Rightarrow> i | P_push i \<Rightarrow> i | P_join \<Rightarrow> n | P_end \<Rightarrow> n | _ \<Rightarrow> 0)"

definition n_popped :: "nat \<Rightarrow> consumer_at \<Rightarrow> nat" where
  "n_popped n c = (case c of C_loop i \<Rightarrow> i | C_work i \<Rightarrow> Suc i | C_end \<Rightarrow> n | _ \<Rightarrow> 0)"

definition pair_inv :: "nat \<Rightarrow> pair \<Rightarrow> bool" where
  "pair_inv n s \<longleftrightarrow> ring_ok BENCH_CAP (x_ring s) \<and> map sequence (contents BENCH_CAP (x_ring s)) = map of_nat [n_popped n (c_at s)..<n_pushed n (p_at s)]
     \<and> n_popped n (c_at s) \<le> n_pushed n (p_at s) \<and> n_pushed n (p_at s) \<le> n \<and> 2 ^ 64 - 1 \<le> pushes_left (x_ring s) + n_pushed n (p_at s)
     \<and> (\<forall>i. p_at s = P_push i \<longrightarrow> i < n \<and> sequence (p_msg s) = of_nat i) \<and> (\<forall>i. c_at s = C_work i \<longrightarrow> i < n \<and> sequence (c_msg s) = of_nat i)
     \<and> (x_ready s \<longleftrightarrow> c_at s \<notin> {C_pin, C_ready}) \<and> (p_at s \<noteq> P_wait \<longrightarrow> x_ready s) \<and> (p_at s = P_end \<longrightarrow> c_at s = C_end)"

lemmas pair_at = n_pushed_def n_popped_def

text \<open>What is left to do; a thread that spins leaves it as it is.\<close>

definition p_left :: "nat \<Rightarrow> producer_at \<Rightarrow> nat" where
  "p_left n p = (case p of P_wait \<Rightarrow> 2 * n + 6 | P_pin \<Rightarrow> 2 * n + 5 | P_begin \<Rightarrow> 2 * n + 4 | P_loop i \<Rightarrow> 2 * (n - i) + 3 | P_push i \<Rightarrow> 2 * (n - i) + 2
     | P_join \<Rightarrow> 1 | P_end \<Rightarrow> 0)"

definition c_left :: "nat \<Rightarrow> consumer_at \<Rightarrow> nat" where
  "c_left n c = (case c of C_pin \<Rightarrow> 2 * n + 4 | C_ready \<Rightarrow> 2 * n + 3 | C_loop i \<Rightarrow> 2 * (n - i) + 2 | C_work i \<Rightarrow> 2 * (n - i) + 1 | C_end \<Rightarrow> 0)"

definition pair_left :: "nat \<Rightarrow> pair \<Rightarrow> nat" where
  "pair_left n s = p_left n (p_at s) + c_left n (c_at s)"

locale message_hooks =
  fixes H :: hooks and n :: nat and v :: nat and good :: "u64 list \<Rightarrow> bool"
  assumes prep_sequence: "sequence (h_prep H i t m) = of_nat i"
    and work_good: "good ls \<Longrightarrow> good (h_work H i t m ls)"
    and good_start: "good (replicate v 0)"
    and count: "n < 2 ^ 64 - 1"
begin

lemma inv_start: "pair_inv n (pair_start v junk m)"
  using ring_new_ok(1) [OF cap_ok_bench, of junk] by (simp add: ring_new_ok(2,3) pair_inv_def pair_start_def pair_at)

lemma inv_consumer_pop:
  assumes "pair_inv n s" "c_at s = C_loop i" "i < n" "ring_pop BENCH_CAP (x_ring s) = (Some m, r)"
  shows "pair_inv n (s\<lparr>x_ring := r, c_msg := m, c_at := C_work i\<rparr>)"
proof -
  have v: "ring_ok BENCH_CAP (x_ring s)" "map sequence (contents BENCH_CAP (x_ring s)) = map of_nat [i..<n_pushed n (p_at s)]"
    using assms(1,2) by (simp_all add: pair_inv_def n_popped_def)
  from rq.pop_law [OF v(1)] assms(4) have r: "ring_ok BENCH_CAP r" "contents BENCH_CAP r = tl (contents BENCH_CAP (x_ring s))" "pushes_left r = pushes_left (x_ring s)"
    and c: "contents BENCH_CAP (x_ring s) = m # tl (contents BENCH_CAP (x_ring s))" by (auto split: list.splits)
  have lt: "i < n_pushed n (p_at s)"
  proof (rule ccontr)
    assume "\<not> i < n_pushed n (p_at s)"
    then have "contents BENCH_CAP (x_ring s) = []" using v(2) by simp
    with c show False by simp
  qed
  then have "sequence m = of_nat i" "map sequence (contents BENCH_CAP r) = map of_nat [Suc i..<n_pushed n (p_at s)]"
    using v(2) c r(2) by (simp_all add: upt_conv_Cons) (metis list.inject list.simps(9))+
  then show ?thesis using assms(1-3) r(1,3) lt by (auto simp: pair_inv_def n_popped_def)
qed

lemma inv_consumer_spin:
  assumes "pair_inv n s" "ring_pop BENCH_CAP (x_ring s) = (None, r)" shows "pair_inv n (s\<lparr>x_ring := r\<rparr>)"
proof -
  have v: "ring_ok BENCH_CAP (x_ring s)" using assms(1) by (simp add: pair_inv_def)
  from rq.pop_law [OF v] assms(2) have "ring_ok BENCH_CAP r" "contents BENCH_CAP r = contents BENCH_CAP (x_ring s)" "pushes_left r = pushes_left (x_ring s)"
    by (auto split: list.splits)
  with assms(1) show ?thesis by (auto simp: pair_inv_def simp del: length_contents)
qed

lemma inv_producer_push:
  assumes "pair_inv n s" "p_at s = P_push i" "ring_push BENCH_CAP (p_msg s) (x_ring s) = (b, r)"
  shows "pair_inv n (s\<lparr>x_ring := r, p_at := if b then P_loop (Suc i) else P_push i\<rparr>)" "contents BENCH_CAP (x_ring s) = [] \<Longrightarrow> b"
proof -
  have v: "ring_ok BENCH_CAP (x_ring s)" "map sequence (contents BENCH_CAP (x_ring s)) = map of_nat [n_popped n (c_at s)..<i]" "n_popped n (c_at s) \<le> i"
    "2 ^ 64 - 1 \<le> pushes_left (x_ring s) + i" "i < n" "sequence (p_msg s) = of_nat i"
    using assms(1,2) by (simp_all add: pair_inv_def n_pushed_def)
  have "pushes_left (x_ring s) \<noteq> 0" using v(4,5) count by simp
  from rq.push_law [OF v(1) this, of "p_msg s"] assms(3) have r: "ring_ok BENCH_CAP r" "b \<longleftrightarrow> length (contents BENCH_CAP (x_ring s)) < BENCH_CAP"
    "contents BENCH_CAP r = (if b then contents BENCH_CAP (x_ring s) @ [p_msg s] else contents BENCH_CAP (x_ring s))" 
    "pushes_left (x_ring s) \<le> Suc (pushes_left r)" by (auto simp del: length_contents)
  have full: "pushes_left r = pushes_left (x_ring s)" if "\<not> b"
  proof -
    have "length (contents BENCH_CAP (x_ring s)) = BENCH_CAP" using r(2) that contents_bound [OF v(1)] by simp
    from ring_push_full [OF v(1) this, of "p_msg s"] assms(3) show ?thesis by (auto simp: pushes_left_def)
  qed
  show "pair_inv n (s\<lparr>x_ring := r, p_at := if b then P_loop (Suc i) else P_push i\<rparr>)"
    using assms(1,2) v r(1,3,4) full by (cases b) (auto simp: pair_inv_def n_pushed_def simp del: length_contents)
  show b if "contents BENCH_CAP (x_ring s) = []" unfolding r(2) that by (simp add: BENCH_CAP_def)
qed

lemma inv_step: "pair_step H n pc cc s s' \<Longrightarrow> pair_inv n s \<Longrightarrow> pair_inv n s'"
proof (induction rule: pair_step.induct)
  case (consumer_pop s i m r)
  then show ?case by (intro inv_consumer_pop)
next
  case (consumer_spin s i r)
  then show ?case by (intro inv_consumer_spin)
next
  case (producer_push s i r)
  then show ?case using inv_producer_push(1) [of s i True r] by simp
next
  case (producer_spin s i r)
  then have "s\<lparr>x_ring := r, p_at := P_push i\<rparr> = s\<lparr>x_ring := r\<rparr>" by (cases s) simp
  moreover have "pair_inv n (s\<lparr>x_ring := r, p_at := P_push i\<rparr>)" using inv_producer_push(1) [of s i False r] producer_spin by simp
  ultimately show ?case by (simp only:)
qed (auto simp: pair_inv_def pair_at prep_sequence not_less)

lemma reach_inv: "pair_reach H n pc cc (pair_start v junk m) s \<Longrightarrow> pair_inv n s \<and> good (latencies s)"
proof (induction rule: pair_reach.induct)
  case start
  show ?case using inv_start good_start by (simp add: pair_start_def)
next
  case (step s s')
  have "good (latencies s')" using step(2) step.IH by (induction rule: pair_step.induct) (simp_all add: work_good)
  with inv_step [OF step(2)] step.IH show ?case by blast
qed

text \<open>In every state that is not final one of the threads can get on: the consumer unless it has ended or finds the ring empty, and then the producer.\<close>

lemma consumer_progress:
  assumes inv: "pair_inv n s" and busy: "\<not> (\<exists>i. c_at s = C_loop i \<and> i < n \<and> contents BENCH_CAP (x_ring s) = [] \<or> c_at s = C_end)"
  shows "\<exists>s'. pair_step H n pc cc s s' \<and> pair_left n s' < pair_left n s"
proof (cases "c_at s")
  case (C_loop i)
  show ?thesis
  proof (cases "i < n")
    case True
    with busy C_loop have ne: "contents BENCH_CAP (x_ring s) \<noteq> []" by blast
    have "ring_ok BENCH_CAP (x_ring s)" using inv by (simp add: pair_inv_def)
    from rq.pop_law [OF this] ne obtain m r where "ring_pop BENCH_CAP (x_ring s) = (Some m, r)" by (cases "contents BENCH_CAP (x_ring s)") auto
    from consumer_pop [OF C_loop True this] C_loop show ?thesis by (fastforce simp: pair_left_def c_left_def)
  next
    case n: False
    from consumer_end [OF C_loop n] C_loop show ?thesis by (fastforce simp: pair_left_def c_left_def)
  qed
next
  case C_pin
  from consumer_pin [OF C_pin] C_pin show ?thesis by (fastforce simp: pair_left_def c_left_def)
next
  case C_ready
  from consumer_ready [OF C_ready] C_ready show ?thesis by (fastforce simp: pair_left_def c_left_def)
next
  case (C_work i)
  then have "i < n" using inv by (simp add: pair_inv_def)
  with consumer_work [OF C_work] C_work show ?thesis by (fastforce simp: pair_left_def c_left_def)
next
  case C_end
  with busy show ?thesis by blast
qed

lemma producer_progress:
  assumes inv: "pair_inv n s" and live: "p_at s \<noteq> P_end" and idle: "\<exists>i. c_at s = C_loop i \<and> i < n \<and> contents BENCH_CAP (x_ring s) = [] \<or> c_at s = C_end"
  shows "\<exists>s'. pair_step H n pc cc s s' \<and> pair_left n s' < pair_left n s"
proof (cases "p_at s")
  case P_wait
  have rdy: "x_ready s" using idle inv by (auto simp: pair_inv_def)
  from producer_wait [OF P_wait rdy] P_wait show ?thesis by (fastforce simp: pair_left_def p_left_def)
next
  case P_pin
  from producer_pin [OF P_pin] P_pin show ?thesis by (fastforce simp: pair_left_def p_left_def)
next
  case P_begin
  from producer_begin [OF P_begin] P_begin show ?thesis by (fastforce simp: pair_left_def p_left_def)
next
  case (P_loop i)
  show ?thesis
  proof (cases "i < n")
    case True
    from producer_prep [OF P_loop True] P_loop show ?thesis by (fastforce simp: pair_left_def p_left_def)
  next
    case False
    from producer_stop [OF P_loop False] P_loop show ?thesis by (fastforce simp: pair_left_def p_left_def)
  qed
next
  case (P_push i)
  then have i: "i < n" "n_popped n (c_at s) \<le> i" using inv by (simp_all add: pair_inv_def n_pushed_def)
  then have "contents BENCH_CAP (x_ring s) = []" using idle by (auto simp: n_popped_def)
  moreover obtain b r where p: "ring_push BENCH_CAP (p_msg s) (x_ring s) = (b, r)" by fastforce
  ultimately have "b" by (rule inv_producer_push(2) [OF inv P_push, rotated])
  then have "ring_push BENCH_CAP (p_msg s) (x_ring s) = (True, r)" using p by simp
  from producer_push [OF P_push this] P_push i(1) show ?thesis by (fastforce simp: pair_left_def p_left_def)
next
  case P_join
  then have "c_at s = C_end" using idle inv by (auto simp: pair_inv_def pair_at)
  from producer_join [OF P_join this] P_join show ?thesis by (fastforce simp: pair_left_def p_left_def)
next
  case P_end
  with live show ?thesis by simp
qed

lemma progress: "pair_inv n s \<Longrightarrow> p_at s \<noteq> P_end \<Longrightarrow> \<exists>s'. pair_step H n pc cc s s' \<and> pair_left n s' < pair_left n s"
  using consumer_progress producer_progress by blast

lemma finishes:
  assumes "pair_reach H n pc cc s0 s" "pair_inv n s"
  shows "\<exists>s'. pair_reach H n pc cc s0 s' \<and> p_at s' = P_end"
  using assms
proof (induction "pair_left n s" arbitrary: s rule: less_induct)
  case less
  show ?case
  proof (cases "p_at s = P_end")
    case False
    from progress [OF less.prems(2) False] obtain s' where s': "pair_step H n pc cc s s'" "pair_left n s' < pair_left n s" by blast
    from less.hyps [OF s'(2) pair_reach.step [OF less.prems(1) s'(1)] inv_step [OF s'(1) less.prems(2)]] show ?thesis .
  qed (use less.prems in blast)
qed

lemma final: "pair_inv n s \<Longrightarrow> p_at s = P_end \<Longrightarrow> c_at s = C_end \<and> contents BENCH_CAP (x_ring s) = []"
  by (auto simp: pair_inv_def pair_at)

end

subsection \<open>The two benchmarks\<close>

definition clamped :: "u64 list \<Rightarrow> bool" where
  "clamped ls \<longleftrightarrow> length ls = LATENCY_N \<and> (\<forall>x\<in>set ls. x \<le> 2 ^ 62)"

lemma clamp_le: "clamp d \<le> 2 ^ 62"
  by (simp add: clamp_def not_less)

interpretation lat: message_hooks latency_hooks LATENCY_N LATENCY_N clamped
proof unfold_locales
  show "sequence (h_prep latency_hooks i t m) = of_nat i" for i t m by (simp add: latency_hooks_def)
  show "clamped (h_work latency_hooks i t m ls)" if "clamped ls" for ls i t m
    using that clamp_le set_update_subset_insert [of ls i "clamp (t - msg_tsc m)"] by (auto simp: clamped_def latency_hooks_def)
  show "clamped (replicate LATENCY_N 0)" by (simp add: clamped_def)
  show "LATENCY_N < 2 ^ 64 - 1" by (simp add: LATENCY_N_def)
qed

interpretation thr: message_hooks throughput_hooks THROUGHPUT_N 0 "\<lambda>_. True"
  by unfold_locales (simp_all add: throughput_hooks_def THROUGHPUT_N_def)

text \<open>The report is defined: its figures are the values of these ranks, the smallest and the largest.\<close>

lemma latency_report_defined:
  assumes "length ls = LATENCY_N"
  shows "\<exists>p50 p90 p99 p999. latency_report ns ls = Some (map ns [p50, p90, p99, p999, Min (set ls), Max (set ls)])
     \<and> has_rank ls 500000 p50 \<and> has_rank ls 900000 p90 \<and> has_rank ls 990000 p99 \<and> has_rank ls 999000 p999"
proof -
  have n: "length ls = 1000000" using assms by (simp add: LATENCY_N_def)
  then have "ls \<noteq> []" by auto
  from sort_ends [OF this] n have "sort ls ! 0 = Min (set ls)" "sort ls ! 999999 = Max (set ls)" by simp_all
  moreover have "length (sort ls) = 1000000" using n by simp
  then have "sort ls \<noteq> []" by (metis list.size(3) zero_neq_numeral)
  ultimately show ?thesis
    using sort_has_rank [of 500000 ls] sort_has_rank [of 900000 ls] sort_has_rank [of 990000 ls] sort_has_rank [of 999000 ls] n
    by (intro exI conjI) (auto simp: latency_report_def sample_at_def LATENCY_N_def Let_def)
qed

lemma cross_core_latency:
  assumes "bench_cross_core_latency A C e pc cc junk m s"
  shows "map sequence (contents BENCH_CAP (x_ring s)) = map of_nat [n_popped LATENCY_N (c_at s)..<n_pushed LATENCY_N (p_at s)]"
    "c_at s = C_work i \<Longrightarrow> sequence (c_msg s) = of_nat i"
    "\<forall>x\<in>set (latencies s). x \<le> 2 ^ 62" "length (latencies s) = LATENCY_N"
    "p_at s = P_end \<Longrightarrow> c_at s = C_end \<and> contents BENCH_CAP (x_ring s) = []"
    "\<exists>s'. pair_reach latency_hooks LATENCY_N pc cc s s' \<and> p_at s' = P_end"
proof -
  from assms have reach: "pair_reach latency_hooks LATENCY_N pc cc (pair_start LATENCY_N junk m) s" by (simp add: bench_cross_core_latency_def)
  have inv: "pair_inv LATENCY_N s" and c: "clamped (latencies s)" using lat.reach_inv [OF reach] by blast+
  show "map sequence (contents BENCH_CAP (x_ring s)) = map of_nat [n_popped LATENCY_N (c_at s)..<n_pushed LATENCY_N (p_at s)]"
    "c_at s = C_work i \<Longrightarrow> sequence (c_msg s) = of_nat i" using inv by (simp_all add: pair_inv_def)
  show "\<forall>x\<in>set (latencies s). x \<le> 2 ^ 62" "length (latencies s) = LATENCY_N" using c by (simp_all add: clamped_def)
  show "p_at s = P_end \<Longrightarrow> c_at s = C_end \<and> contents BENCH_CAP (x_ring s) = []" by (rule lat.final [OF inv])
  show "\<exists>s'. pair_reach latency_hooks LATENCY_N pc cc s s' \<and> p_at s' = P_end" by (rule lat.finishes [OF pair_reach.start inv])
qed

text \<open>The throughput benchmark has read the clock twice when it ends.\<close>

lemma throughput_times:
  "pair_reach throughput_hooks n pc cc (pair_start v junk m) s \<Longrightarrow>
     length (p_times s) = (case p_at s of P_wait \<Rightarrow> 0 | P_pin \<Rightarrow> 0 | P_begin \<Rightarrow> 0 | P_join \<Rightarrow> 2 | P_end \<Rightarrow> 2 | _ \<Rightarrow> 1)"
proof (induction rule: pair_reach.induct)
  case start
  show ?case by (simp add: pair_start_def)
next
  case (step s s')
  from step(2) step.IH show ?case by (induction rule: pair_step.induct) (simp_all add: throughput_hooks_def)
qed

lemma cross_core_throughput:
  assumes "bench_throughput_cross_core A C e pc cc junk m s"
  shows "c_at s = C_work i \<Longrightarrow> sequence (c_msg s) = of_nat i"
    "p_at s = P_end \<Longrightarrow> c_at s = C_end \<and> contents BENCH_CAP (x_ring s) = [] \<and> length (p_times s) = 2"
    "\<exists>s'. pair_reach throughput_hooks THROUGHPUT_N pc cc s s' \<and> p_at s' = P_end"
proof -
  from assms have reach: "pair_reach throughput_hooks THROUGHPUT_N pc cc (pair_start 0 junk m) s" by (simp add: bench_throughput_cross_core_def)
  have inv: "pair_inv THROUGHPUT_N s" using thr.reach_inv [OF reach] by blast
  then show "c_at s = C_work i \<Longrightarrow> sequence (c_msg s) = of_nat i" by (simp add: pair_inv_def)
  show "p_at s = P_end \<Longrightarrow> c_at s = C_end \<and> contents BENCH_CAP (x_ring s) = [] \<and> length (p_times s) = 2"
    using thr.final [OF inv] throughput_times [OF reach] by simp
  show "\<exists>s'. pair_reach throughput_hooks THROUGHPUT_N pc cc s s' \<and> p_at s' = P_end" by (rule thr.finishes [OF pair_reach.start inv])
qed

end
