(* ===== verification/Ping_Pong.thy ===== *)
theory Ping_Pong
  imports Ring_Bench
begin

section \<open>The ping-pong benchmark\<close>

text \<open>
  Models \<open>bench_ping_pong_latency\<close> of \<^verbatim>\<open>src/bench/ring_buffer_bench.cpp\<close>: the measuring thread pushes a message into \<open>req\<close> and waits for it in \<open>resp\<close>, the responder moves messages from one
  ring to the other until \<open>stop\<close> is set. The steps are those of \<open>Pair_Bench\<close>: one call of \<open>push\<close> or \<open>pop\<close>, one access to a flag or to local data.

  The comment in the code says that exactly one message is in flight; the invariant \<open>ping_inv\<close> says so, and that it is the message of this iteration.
\<close>

subsection \<open>The threads\<close>

datatype phase = Warmup | Timed

datatype pinger_at = M_wait | M_pin | M_loop phase nat | M_push phase nat | M_pop phase nat | M_got phase nat | M_join | M_end

datatype responder_at = R_pin | R_ready | R_test | R_pop | R_push | R_end

record ping =
  req :: "TestMsg ring"
  resp :: "TestMsg ring"
  g_ready :: bool
  g_stop :: bool
  m_at :: pinger_at
  m_msg :: TestMsg
  m_cpu :: "int option"
  m_t0 :: u64
  rtt :: "u64 list"
  r_at :: responder_at
  r_msg :: TestMsg
  r_cpu :: "int option"

definition PING_CAP :: nat where
  "PING_CAP = 1024"

definition PING_N :: nat where
  "PING_N = 200000"

definition limit :: "phase \<Rightarrow> nat" where
  "limit ph = (case ph of Warmup \<Rightarrow> 2000 | Timed \<Rightarrow> PING_N)"

definition ping_start :: "(nat \<Rightarrow> TestMsg) \<Rightarrow> (nat \<Rightarrow> TestMsg) \<Rightarrow> TestMsg \<Rightarrow> ping" where
  "ping_start j1 j2 m = \<lparr>req = ring_new j1, resp = ring_new j2, g_ready = False, g_stop = False, m_at = M_wait, m_msg = msg_zero, m_cpu = None, m_t0 = 0,
     rtt = replicate PING_N 0, r_at = R_pin, r_msg = m, r_cpu = None\<rparr>"

inductive ping_step :: "int option \<Rightarrow> int option \<Rightarrow> ping \<Rightarrow> ping \<Rightarrow> bool" for pc cc where
  responder_pin: "r_at s = R_pin \<Longrightarrow> ping_step pc cc s (s\<lparr>r_cpu := cc, r_at := R_ready\<rparr>)"
| responder_ready: "r_at s = R_ready \<Longrightarrow> ping_step pc cc s (s\<lparr>g_ready := True, r_at := R_test\<rparr>)"
| responder_test: "r_at s = R_test \<Longrightarrow> ping_step pc cc s (s\<lparr>r_at := (if g_stop s then R_end else R_pop)\<rparr>)"
| responder_pop: "r_at s = R_pop \<Longrightarrow> ring_pop PING_CAP (req s) = (Some m, r) \<Longrightarrow> ping_step pc cc s (s\<lparr>req := r, r_msg := m, r_at := R_push\<rparr>)"
| responder_none: "r_at s = R_pop \<Longrightarrow> ring_pop PING_CAP (req s) = (None, r) \<Longrightarrow> ping_step pc cc s (s\<lparr>req := r, r_at := R_test\<rparr>)"
| responder_push: "r_at s = R_push \<Longrightarrow> ring_push PING_CAP (r_msg s) (resp s) = (b, r) \<Longrightarrow> ping_step pc cc s (s\<lparr>resp := r, r_at := (if b then R_test else R_push)\<rparr>)"
| wait: "m_at s = M_wait \<Longrightarrow> g_ready s \<Longrightarrow> ping_step pc cc s (s\<lparr>m_at := M_pin\<rparr>)"
| pin: "m_at s = M_pin \<Longrightarrow> ping_step pc cc s (s\<lparr>m_cpu := pc, m_at := M_loop Warmup 0\<rparr>)"
| prepare: "m_at s = M_loop ph i \<Longrightarrow> i < limit ph \<Longrightarrow>
    ping_step pc cc s (s\<lparr>m_msg := (m_msg s)\<lparr>sequence := of_nat i\<rparr>, m_t0 := (if ph = Timed then t else m_t0 s), m_at := M_push ph i\<rparr>)"
| push: "m_at s = M_push ph i \<Longrightarrow> ring_push PING_CAP (m_msg s) (req s) = (b, r) \<Longrightarrow> ping_step pc cc s (s\<lparr>req := r, m_at := (if b then M_pop ph i else M_push ph i)\<rparr>)"
| pop: "m_at s = M_pop ph i \<Longrightarrow> ring_pop PING_CAP (resp s) = (Some m, r) \<Longrightarrow> ping_step pc cc s (s\<lparr>resp := r, m_msg := m, m_at := M_got ph i\<rparr>)"
| pop_none: "m_at s = M_pop ph i \<Longrightarrow> ring_pop PING_CAP (resp s) = (None, r) \<Longrightarrow> ping_step pc cc s (s\<lparr>resp := r\<rparr>)"
| got: "m_at s = M_got ph i \<Longrightarrow> ping_step pc cc s (s\<lparr>rtt := (if ph = Timed then (rtt s)[i := t - m_t0 s] else rtt s), m_at := M_loop ph (Suc i)\<rparr>)"
| timed: "m_at s = M_loop Warmup i \<Longrightarrow> \<not> i < limit Warmup \<Longrightarrow> ping_step pc cc s (s\<lparr>m_at := M_loop Timed 0\<rparr>)"
| stop: "m_at s = M_loop Timed i \<Longrightarrow> \<not> i < limit Timed \<Longrightarrow> ping_step pc cc s (s\<lparr>g_stop := True, m_at := M_join\<rparr>)"
| join: "m_at s = M_join \<Longrightarrow> r_at s = R_end \<Longrightarrow> ping_step pc cc s (s\<lparr>m_at := M_end\<rparr>)"

inductive ping_reach :: "int option \<Rightarrow> int option \<Rightarrow> ping \<Rightarrow> ping \<Rightarrow> bool" for pc cc s0 where
  start: "ping_reach pc cc s0 s0"
| step: "ping_reach pc cc s0 s \<Longrightarrow> ping_step pc cc s s' \<Longrightarrow> ping_reach pc cc s0 s'"

text \<open>The states that the benchmark goes through: it begins with \<open>calibrate_tsc\<close>, so with the signed addition of standard C++ there are none.\<close>

definition bench_ping_pong_latency ::
  "('f, 'd) tick_arith \<Rightarrow> 'e clock \<Rightarrow> 'e \<Rightarrow> int option \<Rightarrow> int option \<Rightarrow> (nat \<Rightarrow> TestMsg) \<Rightarrow> (nat \<Rightarrow> TestMsg) \<Rightarrow> TestMsg \<Rightarrow> ping \<Rightarrow> bool" where
  "bench_ping_pong_latency A C e pc cc j1 j2 m s \<longleftrightarrow> calibrate_tsc A C e \<noteq> None \<and> ping_reach pc cc (ping_start j1 j2 m) s"

text \<open>The lines printed: one-way figures (half the round trip, \<open>ow\<close>), and the median of the round trip.\<close>

definition ping_report :: "(u64 \<Rightarrow> 'd) \<Rightarrow> (u64 \<Rightarrow> 'd) \<Rightarrow> u64 list \<Rightarrow> 'd list option" where
  "ping_report ow ns xs = do {
     let ys = sort xs;
     p50 \<leftarrow> sample_at ys (PING_N * 50 div 100);
     p90 \<leftarrow> sample_at ys (PING_N * 90 div 100);
     p99 \<leftarrow> sample_at ys (PING_N * 99 div 100);
     p999 \<leftarrow> sample_at ys (PING_N * 999 div 1000);
     mn \<leftarrow> sample_at ys 0;
     rt \<leftarrow> sample_at ys (PING_N div 2);
     Some (map ow [p50, p90, p99, p999, mn] @ [ns rt])
   }"

subsection \<open>Invariant\<close>

definition flight :: "ping \<Rightarrow> TestMsg list" where
  "flight s = contents PING_CAP (req s) @ (if r_at s = R_push then [r_msg s] else []) @ contents PING_CAP (resp s)"

text \<open>The number of messages that have been pushed into \<open>req\<close>, and of those popped from \<open>resp\<close>.\<close>

definition before :: "phase \<Rightarrow> nat" where
  "before ph = (case ph of Warmup \<Rightarrow> 0 | Timed \<Rightarrow> 2000)"

definition pinged :: "pinger_at \<Rightarrow> nat" where
  "pinged p = (case p of M_loop ph i \<Rightarrow> before ph + i | M_push ph i \<Rightarrow> before ph + i | M_pop ph i \<Rightarrow> Suc (before ph + i) | M_got ph i \<Rightarrow> Suc (before ph + i)
     | M_join \<Rightarrow> 2000 + PING_N | M_end \<Rightarrow> 2000 + PING_N | _ \<Rightarrow> 0)"

definition within :: "pinger_at \<Rightarrow> bool" where
  "within p \<longleftrightarrow> (case p of M_loop ph i \<Rightarrow> i \<le> limit ph | M_push ph i \<Rightarrow> i < limit ph | M_pop ph i \<Rightarrow> i < limit ph | M_got ph i \<Rightarrow> i < limit ph | _ \<Rightarrow> True)"

definition flies :: "ping \<Rightarrow> bool" where
  "flies s \<longleftrightarrow> (case m_at s of M_pop ph i \<Rightarrow> map sequence (flight s) = [of_nat i] | _ \<Rightarrow> flight s = [])"

definition ping_inv :: "ping \<Rightarrow> bool" where
  "ping_inv s \<longleftrightarrow> ring_ok PING_CAP (req s) \<and> ring_ok PING_CAP (resp s) \<and> flies s \<and> within (m_at s)
     \<and> 2 ^ 64 - 1 \<le> pushes_left (req s) + pinged (m_at s)
     \<and> 2 ^ 64 - 1 + length (contents PING_CAP (req s)) + (if r_at s = R_push then 1 else 0) \<le> pushes_left (resp s) + pinged (m_at s)
     \<and> (\<forall>ph i. m_at s = M_push ph i \<or> m_at s = M_got ph i \<longrightarrow> sequence (m_msg s) = of_nat i)
     \<and> (g_ready s \<longleftrightarrow> r_at s \<notin> {R_pin, R_ready}) \<and> (m_at s \<noteq> M_wait \<longrightarrow> g_ready s) \<and> (g_stop s \<longleftrightarrow> m_at s \<in> {M_join, M_end})
     \<and> (r_at s = R_end \<longrightarrow> g_stop s) \<and> (m_at s = M_end \<longrightarrow> r_at s = R_end) \<and> length (rtt s) = PING_N"

lemma ping_inv_start: "ping_inv (ping_start j1 j2 m)"
proof -
  have "cap_ok PING_CAP" unfolding cap_ok_def PING_CAP_def by (rule exI [of _ 10]) simp
  from ring_new_ok(1) [OF this, of j1] ring_new_ok(1) [OF this, of j2] show ?thesis
    by (simp add: ping_inv_def ping_start_def flies_def flight_def ring_new_ok(2,3) within_def pinged_def)
qed

lemma pinged_bound: "within p \<Longrightarrow> pinged p \<le> 2000 + PING_N"
  by (auto simp: within_def pinged_def limit_def before_def PING_N_def split: pinger_at.splits phase.splits)

text \<open>Both rings always have room when they are pushed into.\<close>

lemma ping_push:
  assumes "ping_inv s" "m_at s = M_push ph i"
  obtains r where "ring_push PING_CAP (m_msg s) (req s) = (True, r)" "ping_inv (s\<lparr>req := r, m_at := M_pop ph i\<rparr>)"
proof -
  have v: "ring_ok PING_CAP (req s)" "flight s = []" "i < limit ph" "2 ^ 64 - 1 \<le> pushes_left (req s) + pinged (M_push ph i)"
    "sequence (m_msg s) = of_nat i" "within (M_push ph i)"
    using assms by (auto simp: ping_inv_def flies_def within_def)
  then have e: "contents PING_CAP (req s) = []" "r_at s \<noteq> R_push" "contents PING_CAP (resp s) = []" by (auto simp: flight_def split: if_splits)
  have left: "pushes_left (req s) \<noteq> 0" using v(4) pinged_bound [OF v(6)] by (simp add: PING_N_def)
  have room: "length (contents PING_CAP (req s)) < PING_CAP" unfolding e(1) by (simp add: PING_CAP_def)
  from rq.push_law [OF v(1) left, of "m_msg s"] room e(1) obtain r where
    r: "ring_push PING_CAP (m_msg s) (req s) = (True, r)" "ring_ok PING_CAP r" "contents PING_CAP r = [m_msg s]" "pushes_left (req s) \<le> Suc (pushes_left r)"
    by (auto simp del: length_contents)
  have "ping_inv (s\<lparr>req := r, m_at := M_pop ph i\<rparr>)"
    using assms r e v(3,5) by (auto simp: ping_inv_def flies_def flight_def within_def pinged_def simp del: length_contents)
  with r(1) show ?thesis by (rule that)
qed

lemma ping_pop:
  assumes "ping_inv s" "m_at s = M_pop ph i" "ring_pop PING_CAP (resp s) = (x, r)"
  shows "case x of None \<Rightarrow> contents PING_CAP (resp s) = [] \<and> ping_inv (s\<lparr>resp := r\<rparr>) | Some m \<Rightarrow> ping_inv (s\<lparr>resp := r, m_msg := m, m_at := M_got ph i\<rparr>)"
proof -
  have v: "ring_ok PING_CAP (resp s)" "map sequence (flight s) = [of_nat i]" using assms by (auto simp: ping_inv_def flies_def)
  from rq.pop_law [OF v(1)] assms(3) have r: "x = (case contents PING_CAP (resp s) of [] \<Rightarrow> None | m # _ \<Rightarrow> Some m)" "ring_ok PING_CAP r"
    "contents PING_CAP r = tl (contents PING_CAP (resp s))" "pushes_left r = pushes_left (resp s)" by auto
  show ?thesis
  proof (cases "contents PING_CAP (resp s)")
    case Nil
    with r assms(1,2) show ?thesis by (auto simp: ping_inv_def flies_def flight_def simp del: length_contents)
  next
    case (Cons m ms)
    then have e: "ms = []" "contents PING_CAP (req s) = []" "r_at s \<noteq> R_push" "sequence m = of_nat i"
      using v(2) by (auto simp: flight_def Cons_eq_append_conv append_eq_Cons_conv split: if_splits)
    with r Cons assms(1,2) show ?thesis by (auto simp: ping_inv_def flies_def flight_def within_def pinged_def simp del: length_contents)
  qed
qed

lemma responder_pops:
  assumes "ping_inv s" "r_at s = R_pop" "ring_pop PING_CAP (req s) = (x, r)"
  shows "case x of None \<Rightarrow> contents PING_CAP (req s) = [] \<and> ping_inv (s\<lparr>req := r, r_at := R_test\<rparr>) | Some m \<Rightarrow> ping_inv (s\<lparr>req := r, r_msg := m, r_at := R_push\<rparr>)"
proof -
  have v: "ring_ok PING_CAP (req s)" using assms(1) by (simp add: ping_inv_def)
  from rq.pop_law [OF v] assms(3) have r: "x = (case contents PING_CAP (req s) of [] \<Rightarrow> None | m # _ \<Rightarrow> Some m)" "ring_ok PING_CAP r"
    "contents PING_CAP r = tl (contents PING_CAP (req s))" "pushes_left r = pushes_left (req s)" by auto
  show ?thesis
  proof (cases "contents PING_CAP (req s)")
    case Nil
    with r assms(1,2) show ?thesis by (auto simp: ping_inv_def flies_def flight_def simp del: length_contents split: pinger_at.splits)
  next
    case (Cons m ms)
    then have "flight (s\<lparr>req := r, r_msg := m, r_at := R_push\<rparr>) = ms @ m # contents PING_CAP (resp s)" "flight s = m # ms @ contents PING_CAP (resp s)"
      using r(3) assms(2) by (simp_all add: flight_def)
    moreover from this(2) assms(1) have "ms = []" by (auto simp: ping_inv_def flies_def split: pinger_at.splits)
    ultimately show ?thesis using r Cons assms(1,2) by (auto simp: ping_inv_def flies_def simp del: length_contents split: pinger_at.splits)
  qed
qed

lemma responder_pushes:
  assumes "ping_inv s" "r_at s = R_push"
  obtains r where "ring_push PING_CAP (r_msg s) (resp s) = (True, r)" "ping_inv (s\<lparr>resp := r, r_at := R_test\<rparr>)"
    "\<exists>ph i. m_at s = M_pop ph i" "contents PING_CAP (req s) = []"
proof -
  have fl: "flies s" "flight s = contents PING_CAP (req s) @ r_msg s # contents PING_CAP (resp s)" using assms by (simp_all add: ping_inv_def flight_def)
  then obtain ph i where at: "m_at s = M_pop ph i" by (cases "m_at s") (auto simp: flies_def)
  with fl have e: "contents PING_CAP (req s) = []" "contents PING_CAP (resp s) = []" "sequence (r_msg s) = of_nat i"
    by (auto simp: flies_def Cons_eq_append_conv append_eq_Cons_conv)
  have v: "ring_ok PING_CAP (resp s)" "within (m_at s)" "2 ^ 64 \<le> pushes_left (resp s) + pinged (m_at s)" using assms e(1) by (simp_all add: ping_inv_def)
  have left: "pushes_left (resp s) \<noteq> 0" using v(3) pinged_bound [OF v(2)] by (simp add: PING_N_def)
  have room: "length (contents PING_CAP (resp s)) < PING_CAP" unfolding e(2) by (simp add: PING_CAP_def)
  from rq.push_law [OF v(1) left, of "r_msg s"] room e(2) obtain r where
    r: "ring_push PING_CAP (r_msg s) (resp s) = (True, r)" "ring_ok PING_CAP r" "contents PING_CAP r = [r_msg s]" "pushes_left (resp s) \<le> Suc (pushes_left r)"
    by (auto simp del: length_contents)
  have "ping_inv (s\<lparr>resp := r, r_at := R_test\<rparr>)"
    using assms r e at v(3) by (auto simp: ping_inv_def flies_def flight_def simp del: length_contents)
  with r(1) at e(1) show ?thesis using that by blast
qed

lemma ping_inv_step: "ping_step pc cc s s' \<Longrightarrow> ping_inv s \<Longrightarrow> ping_inv s'"
proof (induction rule: ping_step.induct)
  case (responder_pop s m r)
  then show ?case using responder_pops [of s "Some m" r] by simp
next
  case (responder_none s r)
  then show ?case using responder_pops [of s None r] by simp
next
  case (responder_push s b r)
  from responder_pushes [OF responder_push(3,1)] obtain r' where
    "ring_push PING_CAP (r_msg s) (resp s) = (True, r')" "ping_inv (s\<lparr>resp := r', r_at := R_test\<rparr>)" by blast
  with responder_push(2) show ?case by simp
next
  case (push s ph i b r)
  from ping_push [OF push(3,1)] obtain r' where
    "ring_push PING_CAP (m_msg s) (req s) = (True, r')" "ping_inv (s\<lparr>req := r', m_at := M_pop ph i\<rparr>)" by blast
  with push(2) show ?case by simp
next
  case (pop s ph i m r)
  then show ?case using ping_pop [of s ph i "Some m" r] by simp
next
  case (pop_none s ph i r)
  then show ?case using ping_pop [of s ph i None r] by simp
next
  case (responder_test s)
  then show ?case by (auto simp: ping_inv_def flies_def flight_def split: pinger_at.splits)
next
  case (responder_pin s)
  then show ?case by (auto simp: ping_inv_def flies_def flight_def split: pinger_at.splits)
next
  case (responder_ready s)
  then show ?case by (auto simp: ping_inv_def flies_def flight_def split: pinger_at.splits)
qed (auto simp: ping_inv_def flies_def flight_def within_def pinged_def limit_def before_def not_less)

lemma ping_reach_inv: "ping_reach pc cc (ping_start j1 j2 m) s \<Longrightarrow> ping_inv s"
  by (induction rule: ping_reach.induct) (auto intro: ping_inv_start ping_inv_step)

subsection \<open>Progress\<close>

text \<open>What is left to do: the iterations, the place in the iteration, and where the message is or how far the responder is from its end.\<close>

definition rounds_left :: "phase \<Rightarrow> nat \<Rightarrow> nat" where
  "rounds_left ph i = (case ph of Warmup \<Rightarrow> 2001 - i + PING_N | Timed \<Rightarrow> PING_N - i)"

definition m_left :: "pinger_at \<Rightarrow> nat" where
  "m_left p = (case p of M_wait \<Rightarrow> 10 * rounds_left Warmup 0 + 40 | M_pin \<Rightarrow> 10 * rounds_left Warmup 0 + 39 | M_loop ph i \<Rightarrow> 10 * rounds_left ph i + 20
     | M_push ph i \<Rightarrow> 10 * rounds_left ph i + 19 | M_pop ph i \<Rightarrow> 10 * rounds_left ph i + 12 | M_got ph i \<Rightarrow> 10 * rounds_left ph i + 11 | M_join \<Rightarrow> 10 | M_end \<Rightarrow> 0)"

definition back_left :: "responder_at \<Rightarrow> nat" where
  "back_left r = (case r of R_pin \<Rightarrow> 6 | R_ready \<Rightarrow> 5 | R_test \<Rightarrow> 4 | R_pop \<Rightarrow> 3 | R_push \<Rightarrow> 2 | R_end \<Rightarrow> 2)"

definition end_left :: "responder_at \<Rightarrow> nat" where
  "end_left r = (case r of R_pin \<Rightarrow> 4 | R_ready \<Rightarrow> 3 | R_pop \<Rightarrow> 2 | R_test \<Rightarrow> 1 | R_push \<Rightarrow> 0 | R_end \<Rightarrow> 0)"

definition ping_left :: "ping \<Rightarrow> nat" where
  "ping_left s = m_left (m_at s) + (case m_at s of M_pop ph i \<Rightarrow> if contents PING_CAP (resp s) = [] then back_left (r_at s) else 1
     | M_wait \<Rightarrow> end_left (r_at s) | M_join \<Rightarrow> end_left (r_at s) | _ \<Rightarrow> 0)"

lemmas ping_left_defs = ping_left_def m_left_def back_left_def end_left_def rounds_left_def

lemma progress_pop:
  assumes inv: "ping_inv s" and at: "m_at s = M_pop ph i"
  shows "\<exists>s'. ping_step pc cc s s' \<and> ping_left s' < ping_left s"
proof (cases "contents PING_CAP (resp s) = []")
  case False
  obtain x r where p: "ring_pop PING_CAP (resp s) = (x, r)" by fastforce
  with ping_pop [OF inv at p] False obtain m where "ring_pop PING_CAP (resp s) = (Some m, r)" by (cases x) auto
  from ping_step.pop [OF at this, of pc cc] show ?thesis using at False by (fastforce simp: ping_left_defs)
next
  case True
  have v: "r_at s \<notin> {R_pin, R_ready, R_end}" "\<not> g_stop s" "flight s \<noteq> []" using inv at by (auto simp: ping_inv_def flies_def)
  show ?thesis
  proof (cases "r_at s")
    case R_test
    from ping_step.responder_test [OF R_test, of pc cc] show ?thesis using at True R_test v(2) by (fastforce simp: ping_left_defs)
  next
    case R_pop
    obtain x r where p: "ring_pop PING_CAP (req s) = (x, r)" by fastforce
    have "contents PING_CAP (req s) \<noteq> []" using v(3) True R_pop by (simp add: flight_def)
    with responder_pops [OF inv R_pop p] p obtain m where "ring_pop PING_CAP (req s) = (Some m, r)" by (cases x) auto
    from ping_step.responder_pop [OF R_pop this, of pc cc] show ?thesis using at True R_pop by (fastforce simp: ping_left_defs)
  next
    case R_push
    from responder_pushes [OF inv R_push] obtain r where
      r: "ring_push PING_CAP (r_msg s) (resp s) = (True, r)" "ping_inv (s\<lparr>resp := r, r_at := R_test\<rparr>)" "contents PING_CAP (req s) = []" by blast
    then have "contents PING_CAP r \<noteq> []" using at by (auto simp: ping_inv_def flies_def flight_def)
    with ping_step.responder_push [OF R_push r(1), of pc cc] show ?thesis using at True R_push by (fastforce simp: ping_left_defs)
  qed (use v in simp_all)
qed

lemma progress_join:
  assumes inv: "ping_inv s" and at: "m_at s = M_join"
  shows "\<exists>s'. ping_step pc cc s s' \<and> ping_left s' < ping_left s"
proof -
  have v: "r_at s \<notin> {R_pin, R_ready, R_push}" "g_stop s" "contents PING_CAP (req s) = []" using inv at by (auto simp: ping_inv_def flies_def flight_def split: if_splits)
  show ?thesis
  proof (cases "r_at s")
    case R_test
    from ping_step.responder_test [OF R_test, of pc cc] show ?thesis using at R_test v(2) by (fastforce simp: ping_left_defs)
  next
    case R_pop
    have "ring_ok PING_CAP (req s)" using inv by (simp add: ping_inv_def)
    from rq.pop_law [OF this] v(3) obtain r where "ring_pop PING_CAP (req s) = (None, r)" by auto
    from ping_step.responder_none [OF R_pop this, of pc cc] show ?thesis using at R_pop by (fastforce simp: ping_left_defs)
  next
    case R_end
    from ping_step.join [OF at R_end, of pc cc] show ?thesis using at by (fastforce simp: ping_left_defs)
  qed (use v in simp_all)
qed

lemma progress_wait:
  assumes inv: "ping_inv s" and M_wait: "m_at s = M_wait"
  shows "\<exists>s'. ping_step pc cc s s' \<and> ping_left s' < ping_left s"
proof (cases "g_ready s")
  case True
  from ping_step.wait [OF M_wait this, of pc cc] show ?thesis using M_wait by (fastforce simp: ping_left_defs)
next
  case False
  then consider "r_at s = R_pin" | "r_at s = R_ready" using inv by (auto simp: ping_inv_def)
  then show ?thesis
  proof cases
    case 1
    from ping_step.responder_pin [OF 1, of pc cc] show ?thesis using M_wait 1 by (fastforce simp: ping_left_defs)
  next
    case 2
    from ping_step.responder_ready [OF 2, of pc cc] show ?thesis using M_wait 2 by (fastforce simp: ping_left_defs)
  qed
qed

lemma progress_loop:
  assumes inv: "ping_inv s" and M_loop: "m_at s = M_loop ph i"
  shows "\<exists>s'. ping_step pc cc s s' \<and> ping_left s' < ping_left s"
proof -
  consider "i < limit ph" | "\<not> i < limit ph" "ph = Warmup" | "\<not> i < limit ph" "ph = Timed" by (cases ph) auto
  then show ?thesis
  proof cases
    case 1
    from ping_step.prepare [OF M_loop 1, of pc cc] show ?thesis using M_loop by (fastforce simp: ping_left_defs)
  next
    case 2
    with M_loop inv have i: "m_at s = M_loop Warmup i" "i = 2000" "\<not> i < limit Warmup" by (simp_all add: ping_inv_def within_def limit_def)
    from ping_step.timed [OF i(1,3), of pc cc] show ?thesis using i(1,2) by (fastforce simp: ping_left_defs)
  next
    case 3
    with M_loop have i: "m_at s = M_loop Timed i" "\<not> i < limit Timed" by simp_all
    from ping_step.stop [OF i, of pc cc] show ?thesis using i(1) by (cases "r_at s") (fastforce simp: ping_left_defs)+
  qed
qed

lemma ping_progress:
  assumes inv: "ping_inv s" and "m_at s \<noteq> M_end"
  shows "\<exists>s'. ping_step pc cc s s' \<and> ping_left s' < ping_left s"
proof (cases "m_at s")
  case M_wait
  then show ?thesis by (rule progress_wait [OF inv])
next
  case M_pin
  from ping_step.pin [OF M_pin, of pc cc] show ?thesis using M_pin by (fastforce simp: ping_left_defs)
next
  case (M_loop ph i)
  then show ?thesis by (rule progress_loop [OF inv])
next
  case (M_push ph i)
  from ping_push [OF inv M_push] obtain r where "ring_push PING_CAP (m_msg s) (req s) = (True, r)" by blast
  from ping_step.push [OF M_push this, of pc cc] show ?thesis using M_push by (cases "r_at s") (fastforce simp: ping_left_defs)+
next
  case (M_pop ph i)
  then show ?thesis by (rule progress_pop [OF inv])
next
  case (M_got ph i)
  then have "i < limit ph" using inv by (simp add: ping_inv_def within_def)
  with ping_step.got [OF M_got, of pc cc] show ?thesis using M_got by (cases ph) (fastforce simp: ping_left_defs limit_def)+
next
  case M_join
  then show ?thesis by (rule progress_join [OF inv])
next
  case M_end
  with assms(2) show ?thesis by simp
qed

lemma ping_finishes:
  assumes "ping_reach pc cc s0 s" "ping_inv s"
  shows "\<exists>s'. ping_reach pc cc s0 s' \<and> m_at s' = M_end"
  using assms
proof (induction "ping_left s" arbitrary: s rule: less_induct)
  case less
  show ?case
  proof (cases "m_at s = M_end")
    case False
    from ping_progress [OF less.prems(2) False] obtain s' where s': "ping_step pc cc s s'" "ping_left s' < ping_left s" by blast
    from less.hyps [OF s'(2) ping_reach.step [OF less.prems(1) s'(1)] ping_inv_step [OF s'(1) less.prems(2)]] show ?thesis .
  qed (use less.prems in blast)
qed

lemma ping_report_defined:
  assumes "length xs = PING_N"
  shows "\<exists>p50 p90 p99 p999. ping_report ow ns xs = Some (map ow [p50, p90, p99, p999, Min (set xs)] @ [ns p50])
     \<and> has_rank xs 100000 p50 \<and> has_rank xs 180000 p90 \<and> has_rank xs 198000 p99 \<and> has_rank xs 199800 p999"
proof -
  have n: "length xs = 200000" using assms by (simp add: PING_N_def)
  then have "xs \<noteq> []" by auto
  from sort_ends(1) [OF this] have "sort xs ! 0 = Min (set xs)" .
  moreover have "length (sort xs) = 200000" using n by simp
  then have "sort xs \<noteq> []" by (metis list.size(3) zero_neq_numeral)
  ultimately show ?thesis
    using sort_has_rank [of 100000 xs] sort_has_rank [of 180000 xs] sort_has_rank [of 198000 xs] sort_has_rank [of 199800 xs] n
    by (intro exI conjI) (auto simp: ping_report_def sample_at_def PING_N_def Let_def)
qed

subsection \<open>Property\<close>

text \<open>
  C40. The ping-pong benchmark measures the transfer of one message, as its comment says. In every interleaving of the two threads at most one
  message is in flight, in one of the rings or in the responder's hands; while the measuring thread waits there is exactly one, the message of this iteration, and it is the one
  the thread gets back; no push ever finds a ring full. When the program ends the responder has ended, both rings are empty, and the report of the
  200000 round trips is defined. And it never gets stuck: from every reachable state the threads can go on to the end. All this is about the threads, which start after
  \<open>calibrate_tsc\<close>: with additions that wrap the benchmark goes through these states, with the signed addition of standard C++ it has no defined run.
\<close>

theorem ping_pong_one_in_flight:
  assumes "ping_reach pc cc (ping_start j1 j2 m) s"
  shows "length (flight s) \<le> 1
     \<and> (\<forall>ph i. (m_at s = M_pop ph i \<longrightarrow> map sequence (flight s) = [of_nat i]) \<and> (m_at s = M_got ph i \<longrightarrow> sequence (m_msg s) = of_nat i))
     \<and> (\<forall>ph i. m_at s = M_push ph i \<longrightarrow> fst (ring_push PING_CAP (m_msg s) (req s)))
     \<and> (r_at s = R_push \<longrightarrow> fst (ring_push PING_CAP (r_msg s) (resp s)))
     \<and> (m_at s = M_end \<longrightarrow> r_at s = R_end \<and> contents PING_CAP (req s) = [] \<and> contents PING_CAP (resp s) = [] \<and> ping_report ow ns (rtt s) \<noteq> None)
     \<and> (\<exists>s'. ping_reach pc cc s s' \<and> m_at s' = M_end)
     \<and> bench_ping_pong_latency (A\<lparr>ta_add := wrap_add\<rparr>) C e pc cc j1 j2 m s \<and> \<not> bench_ping_pong_latency (A\<lparr>ta_add := iso_add\<rparr>) C e pc cc j1 j2 m s"
proof -
  have inv: "ping_inv s" by (rule ping_reach_inv [OF assms])
  have fl: "flies s" "length (rtt s) = PING_N" using inv by (simp_all add: ping_inv_def)
  have "length (map sequence (flight s)) \<le> 1" using fl(1) by (auto simp: flies_def split: pinger_at.splits)
  then have 1: "length (flight s) \<le> 1" by simp
  have 2: "\<forall>ph i. (m_at s = M_pop ph i \<longrightarrow> map sequence (flight s) = [of_nat i]) \<and> (m_at s = M_got ph i \<longrightarrow> sequence (m_msg s) = of_nat i)"
    using inv by (auto simp: ping_inv_def flies_def)
  have 3: "\<forall>ph i. m_at s = M_push ph i \<longrightarrow> fst (ring_push PING_CAP (m_msg s) (req s))" using ping_push [OF inv] by (metis fst_conv)
  have 4: "r_at s = R_push \<longrightarrow> fst (ring_push PING_CAP (r_msg s) (resp s))" using responder_pushes [OF inv] by (metis fst_conv)
  have "ping_report ow ns (rtt s) \<noteq> None" using ping_report_defined [OF fl(2), of ow ns] by auto
  then have 5: "m_at s = M_end \<longrightarrow> r_at s = R_end \<and> contents PING_CAP (req s) = [] \<and> contents PING_CAP (resp s) = [] \<and> ping_report ow ns (rtt s) \<noteq> None"
    using inv by (auto simp: ping_inv_def flies_def flight_def)
  have 6: "bench_ping_pong_latency (A\<lparr>ta_add := wrap_add\<rparr>) C e pc cc j1 j2 m s" "\<not> bench_ping_pong_latency (A\<lparr>ta_add := iso_add\<rparr>) C e pc cc j1 j2 m s"
    using assms calibrate_tsc_wraps [of "A\<lparr>ta_add := wrap_add\<rparr>" C e] by (auto simp: bench_ping_pong_latency_def calibrate_tsc_overflows)
  show ?thesis using 1 2 3 4 5 6 ping_finishes [OF ping_reach.start inv] by blast
qed

theorem ping_pong_one_in_flight_witness:
  "\<exists>s. ping_reach (Some 1) (Some 2) (ping_start (\<lambda>_. msg_zero) (\<lambda>_. msg_zero) msg_zero) s \<and> m_at s = M_end"
  using ping_pong_one_in_flight [OF ping_reach.start [of "Some 1" "Some 2" "ping_start (\<lambda>_. msg_zero) (\<lambda>_. msg_zero) msg_zero"], of id id
      "\<lparr>ta_add = wrap_add, ta_ratio = (\<lambda>t w. t), ta_ns = (\<lambda>tpn t. t)\<rparr>" "\<lparr>ck_wall = Pair 0, ck_tsc = Pair 0\<rparr>" "()"] by blast

end
