(* ===== verification/Spec2Isabelle.thy ===== *)
theory Spec2Isabelle
  imports Exchange_Main System Ring_Linear Book_Analytics Engine_Bench Pair_Bench Ping_Pong
begin

text \<open>
  \<^bold>\<open>TradeFeed: a verification development.\<close>

  \<^bold>\<open>The program.\<close> TradeFeed (\<^verbatim>\<open>src/src\<close>) is a small exchange and a market-data feed. The exchange (\<^verbatim>\<open>main.cpp\<close>) runs two threads: the
  gateway accepts TCP clients, cuts their byte streams into 32-byte messages and pushes them into an inbound ring; the matching
  engine pops them, applies them to a price-time-priority order book and pushes its replies into an outbound ring, which the gateway
  drains to the clients. The feed (\<^verbatim>\<open>feed/\<close>) is a second process: it connects to a market-data server over a WebSocket, turns each JSON
  message into a capture record, writes records to a file, and synthesises orders from them for the exchange, live or from a file. Two benchmark programs (\<^verbatim>\<open>src/bench\<close>) time the order book, the engine and the ring.

  \<^bold>\<open>Theories and sources,\<close> in the order of their imports:

  \<^item> \<open>Tf_Prelude\<close>: word types, collections of facts, generic lemmas. \<open>Order_Types\<close>: \<^verbatim>\<open>core/types.h\<close>.
  \<^item> \<open>Price_Bitset\<close>: \<^verbatim>\<open>core/price_bitset.h\<close>, three tiers of 64-bit words, as a set of indices (C1).
  \<^item> \<open>Order_Pool\<close>: \<^verbatim>\<open>core/order_pool.h\<close>, the arena (a heap of orders by address) and its stack of free slots (C3).
  \<^item> \<open>Price_Level\<close>: \<^verbatim>\<open>core/price_level.h\<close>, the intrusive doubly linked list with its aggregates, as a FIFO queue (C4).
  \<^item> \<open>Order_Book\<close>: \<^verbatim>\<open>core/order_book.h\<close> and \<^verbatim>\<open>core/order_book.cpp\<close>, every member function. \<open>Book_Spec\<close> is the abstract book: two lists sorted by price, then by
    time, with \<open>spec_add\<close> and \<open>spec_cancel\<close>. \<open>Book_Invariant\<close>, \<open>Book_Refinement\<close>, \<open>Book_Steps\<close> and \<open>Book_Ops\<close> prove the refinement, \<open>Book_Contract\<close> states the
    interface, \<open>Book_Properties\<close> the properties (C5 to C9 and C11 to C13, among them two defects); \<open>Book_Counts\<close> relates the counters of the book to its lists.
  \<^item> \<open>Spsc_Ring\<close>: \<^verbatim>\<open>transport/spsc_ring.h\<close>, sequentially as a bounded queue and with the two threads interleaved at each load and store (C14 to C16). \<open>Ring_Linear\<close>: the ring is linearizable, so that one call can be
    one step of a larger model (C2).
  \<^item> \<open>Sbe_Messages\<close>: \<^verbatim>\<open>codec/sbe_messages.h\<close>, the messages and the packed little-endian layout (C17).
  \<^item> \<open>Matching_Engine\<close>: \<^verbatim>\<open>core/matching_engine.h\<close> and \<^verbatim>\<open>core/matching_engine.cpp\<close>, with an abstract engine (C18 to C20).
  \<^item> \<open>Gateway\<close>: \<^verbatim>\<open>transport/socket_transport.h\<close> (C21 to C24).
  \<^item> \<open>Book_Analytics\<close>: \<^verbatim>\<open>analytics/book_analytics.h\<close> (C26, C27).
  \<^item> \<open>Civil_Time\<close> and \<open>Feed_Normalizer\<close>: \<^verbatim>\<open>feed/feed_normalizer.h\<close>; \<open>Feed_Json\<close> is the JSON the text is compared with; \<open>Feed_Properties\<close> has the properties
    (C28, C30 to C32). \<open>C_Text\<close>: \<open>strtoull\<close> and \<open>atoi\<close> of the C library.
  \<^item> \<open>Byte_Writer\<close>: the contract of a loop that writes all bytes, shared by the two clients. \<open>Feed_Client\<close> and \<open>Feed_Replay\<close>: the functions of
    \<^verbatim>\<open>feed/feed_main.cpp\<close> and the equality of a session and its replay (C33).
  \<^item> \<open>Alpaca_Ws\<close>: \<^verbatim>\<open>feed/alpaca_ws.h\<close> and \<^verbatim>\<open>feed/alpaca_ws.cpp\<close>. \<open>Ws_Encoding\<close> has reference readers of base64 and of frames, \<open>Ws_Reading\<close> the reading
    and writing of bytes, \<open>Ws_Properties\<close> the properties (C35 to C37), \<open>Ws_Lifecycle\<close> the release of handles and a defect.
  \<^item> \<open>Feed_Main\<close>: \<open>dial\<close>, the command line and \<open>main\<close> of \<^verbatim>\<open>feed/feed_main.cpp\<close>, over the WebSocket client and the feed client (C34).
  \<^item> \<open>Exchange\<close>: \<^verbatim>\<open>main.cpp\<close>, the threads of engine and gateway over the shared rings, and the end-to-end refinement (C38). \<open>Engine_Replies\<close>: what is sent to the clients is well typed (C25).
    \<open>Exchange_Main\<close>: the rest of \<^verbatim>\<open>main.cpp\<close>, from the arguments to the exit, with the status line (C29). \<open>System\<close>: the feed program replaying a file into the exchange (C10).
  \<^item> \<open>Bench_Stats\<close> (what the benchmarks share), \<open>Book_Bench\<close>: \<^verbatim>\<open>bench/order_book_bench.cpp\<close>; \<open>Book_Bench_Facts\<close>, \<open>Book_Bench_Runs\<close> and \<open>Engine_Bench\<close> say what each benchmark does (C39).
    \<open>Ring_Bench\<close>, \<open>Pair_Bench\<close> and \<open>Ping_Pong\<close>: \<^verbatim>\<open>bench/ring_buffer_bench.cpp\<close>, on one thread, with a producer and a consumer, and with a responder (C40).

  \<^bold>\<open>State and operations.\<close> A class is a record whose fields are named after its members, and each member function is a
  definition over it. Code that can fail to be defined (an index out of range, a builtin on zero, \<open>front\<close> of an empty level, a conversion out of range) or
  a loop that might not end returns an option; \<open>None\<close> is that, and the theorems prove \<open>Some\<close> or say when it is \<open>None\<close>. A result that the code reports is a value: a bool, an
  option, a reject reason. Pointers to orders are addresses into the arena. Integers have the width of the code.

  \<^bold>\<open>Interfaces.\<close> Each locale is interpreted on the model: \<open>occupancy_index\<close> (as \<open>pb\<close>), \<open>slot_allocator\<close> (\<open>op\<close>), \<open>order_queue\<close> (\<open>pl\<close>), \<open>price_time_book\<close>
  (\<open>ob\<close>), \<open>bounded_queue\<close> (\<open>rq\<close>), \<open>write_loop\<close> (\<open>sw\<close> for the orders of the feed, \<open>wa\<close> for the WebSocket) and \<open>message_hooks\<close> (\<open>lat\<close> and \<open>thr\<close>, two benchmarks).

  \<^bold>\<open>Parameters.\<close> Code outside the repository is an argument of the definitions. \<open>os\<close> (\<open>Gateway\<close>): \<open>accept\<close>, \<open>recv\<close>, \<open>rdtsc\<close>; relied on
  is \<open>recv_fits\<close>, that \<open>recv\<close> returns no more than it was asked for; that a peer stops sending is not assumed, so that reading a client is partial (C21, C24). \<open>feed_os\<close> and \<open>tls\<close>: \<open>send\<close>, \<open>usleep\<close>, the running flag, and OpenSSL; relied on are \<open>writer_ok\<close> and \<open>tls_ok\<close> (what
  is reported as written was written, what is read is the next part of the stream), and \<open>never_fails\<close> and \<open>tls_live\<close> where a property is about an open
  connection; \<open>SSL_write\<close> gets its length as a C \<open>int\<close> (\<open>c_int\<close>), and \<open>SEND_LIMIT\<close> bounds the payloads for which it is the length. The conversion of a gap between
  two records to nanoseconds is a partial function, since it is undefined for tiny speeds. \<open>feed_env\<close> (\<open>Feed_Main\<close>): sockets, environment variables and files of the feed program. \<open>main_env\<close> (\<open>Exchange_Main\<close>): arguments, environment and the results of the set-up calls of the exchange. \<open>bench_env\<close> (\<open>Book_Bench\<close>): the clocks and
  the random generator, with \<open>rng_ok\<close>, the documented ranges of its distributions. \<open>tick_arith\<close> (\<open>Bench_Stats\<close>): the addition of signed integers in \<open>calibrate_tsc\<close>, as in the standard (\<open>iso_add\<close>) or
  wrapping (\<open>wrap_add\<close>), and the division by ticks per nanosecond. \<open>fpu\<close> and \<open>fp\<close>: the operations of \<open>double\<close> and \<open>strtod\<close>. Concrete instances satisfy each hypothesis in the witnesses.

  \<^bold>\<open>Bounds.\<close> The book holds less than \<open>2 ^ 32\<close> orders (the code has \<open>2 ^ 20\<close>). Finding an order by its identifier needs that identifiers do not meet in the table,
  which holds for the first \<open>2 ^ 20\<close>; C12 shows what happens afterwards. The rings are exact for the first \<open>2 ^ 64 - 1\<close> items; C16 shows
  what happens afterwards. Of the WebSocket frames, C36 and C37 are about unfragmented messages (\<open>whole_frames\<close>): fragments are not put together by the code. The running flag and the events of \<open>epoll_wait\<close> are finite lists in the sequential models and steps in \<open>Exchange\<close>. The loops of the
  benchmarks have the bounds of the code.

  \<^bold>\<open>Not modelled.\<close> Of \<^verbatim>\<open>feed_main.cpp\<close>: usage and progress output. Of the gateway: the branch for kqueue. Of the benchmarks: the titles and the figures derived from those printed. Torn reads of the book by the status line, which are a data race. The test program \<^verbatim>\<open>feed_test.cpp\<close> only calls the modelled functions on fixed texts, in
  the arithmetic of \<open>double\<close>, which is a parameter here. \<^verbatim>\<open>codec/sbe_codec.h\<close>, \<^verbatim>\<open>analytics/flow_toxicity.h\<close>, \<^verbatim>\<open>bench/parser_bench.cpp\<close> and the BPF program are empty.
\<close>

end
